(* ===== verification/Go_Prelude.thy ===== *)
theory Go_Prelude
  imports Main
begin

text \<open>
  Shared vocabulary of the development: the operations of Go's \<^verbatim>\<open>strings\<close> and
  \<^verbatim>\<open>strconv\<close> packages that the modelled code calls (a Go string is a byte
  sequence, here a \<^typ>\<open>string\<close>), the result type of fallible code, and the generic
  lemmas on lists and options the component theories share.  The collection
  \<open>go_simps\<close> holds the defining equations of the string operations.
\<close>

named_theorems go_simps \<open>defining equations of the Go library operations\<close>

type_synonym id = string
  \<comment> \<open>domain.ID: an opaque prefixed identifier; the empty string is Go's zero value\<close>

section \<open>Go string operations\<close>

definition has_prefix :: "string \<Rightarrow> string \<Rightarrow> bool" where
  [go_simps]: "has_prefix s p \<longleftrightarrow> take (length p) s = p"

definition has_suffix :: "string \<Rightarrow> string \<Rightarrow> bool" where
  [go_simps]: "has_suffix s p \<longleftrightarrow> length p \<le> length s \<and> drop (length s - length p) s = p"

definition trim_prefix :: "string \<Rightarrow> string \<Rightarrow> string" where
  [go_simps]: "trim_prefix s p = (if has_prefix s p then drop (length p) s else s)"

definition trim_suffix :: "string \<Rightarrow> string \<Rightarrow> string" where
  [go_simps]: "trim_suffix s p = (if has_suffix s p then take (length s - length p) s else s)"

fun contains_str :: "string \<Rightarrow> string \<Rightarrow> bool" where
  "contains_str [] p = (p = [])"
| "contains_str (c # s) p = (has_prefix (c # s) p \<or> contains_str s p)"

text \<open>\<^verbatim>\<open>strings.Split\<close> on a one-byte separator: never empty.\<close>

fun split_on :: "char \<Rightarrow> string \<Rightarrow> string list" where
  "split_on c [] = [[]]"
| "split_on c (x # xs) =
     (if x = c then [] # split_on c xs
      else case split_on c xs of [] \<Rightarrow> [[x]] | y # ys \<Rightarrow> (x # y) # ys)"

text \<open>\<^verbatim>\<open>strings.Cut\<close> on a one-byte separator: before, after, found.\<close>

fun cut :: "char \<Rightarrow> string \<Rightarrow> string \<times> string \<times> bool" where
  "cut c [] = ([], [], False)"
| "cut c (x # xs) =
     (if x = c then ([], xs, True)
      else case cut c xs of (a, b, f) \<Rightarrow> (x # a, b, f))"

section \<open>UTF-8: \<^verbatim>\<open>unicode/utf8\<close> over byte strings\<close>

definition byte :: "char \<Rightarrow> nat" where
  "byte c = of_char c"

definition cont :: "char \<Rightarrow> bool" where
  "cont c \<longleftrightarrow> 0x80 \<le> byte c \<and> byte c \<le> 0xBF"

text \<open>
  \<^verbatim>\<open>utf8.DecodeRune\<close> on a nonempty string: the code point and its width, \<open>None\<close> with
  width one for an invalid encoding (Go reports U+FFFD, width 1).  The ranges of the second
  byte exclude overlong encodings, surrogates and code points past U+10FFFF.
\<close>

definition decode_rune :: "string \<Rightarrow> nat option \<times> nat" where
  "decode_rune s =
     (case s of [] \<Rightarrow> (None, 0)
      | a # t \<Rightarrow>
        let b0 = byte a in
        if b0 < 0x80 then (Some b0, 1)
        else if 0xC2 \<le> b0 \<and> b0 \<le> 0xDF then
          (case t of c1 # _ \<Rightarrow> if cont c1 then (Some ((b0 - 0xC0) * 64 + (byte c1 - 0x80)), 2) else (None, 1)
           | _ \<Rightarrow> (None, 1))
        else if 0xE0 \<le> b0 \<and> b0 \<le> 0xEF then
          (case t of c1 # c2 # _ \<Rightarrow>
             if (if b0 = 0xE0 then 0xA0 else 0x80) \<le> byte c1 \<and> byte c1 \<le> (if b0 = 0xED then 0x9F else 0xBF) \<and> cont c2
             then (Some ((b0 - 0xE0) * 4096 + (byte c1 - 0x80) * 64 + (byte c2 - 0x80)), 3) else (None, 1)
           | _ \<Rightarrow> (None, 1))
        else if 0xF0 \<le> b0 \<and> b0 \<le> 0xF4 then
          (case t of c1 # c2 # c3 # _ \<Rightarrow>
             if (if b0 = 0xF0 then 0x90 else 0x80) \<le> byte c1 \<and> byte c1 \<le> (if b0 = 0xF4 then 0x8F else 0xBF)
                \<and> cont c2 \<and> cont c3
             then (Some ((b0 - 0xF0) * 262144 + (byte c1 - 0x80) * 4096 + (byte c2 - 0x80) * 64 + (byte c3 - 0x80)), 4)
             else (None, 1)
           | _ \<Rightarrow> (None, 1))
        else (None, 1))"

text \<open>The runes of a string with the bytes each was read from, as \<^verbatim>\<open>for _, r := range s\<close> visits them.\<close>

function runes :: "string \<Rightarrow> (nat option \<times> string) list" where
  "runes s = (if s = [] then []
     else let (r, w) = decode_rune s; k = max 1 w in (r, take k s) # runes (drop k s))"
  by pat_completeness auto
termination
  by (relation "measure length") auto

declare runes.simps [simp del]

lemma runes_Nil [simp]: "runes [] = []"
  by (simp add: runes.simps)

lemma runes_ascii [simp]: "byte c < 0x80 \<Longrightarrow> runes (c # s) = (Some (byte c), [c]) # runes s"
  by (subst runes.simps) (simp add: decode_rune_def)

definition valid_utf8 :: "string \<Rightarrow> bool" where
  [go_simps]: "valid_utf8 s \<longleftrightarrow> list_all (\<lambda>(r, _). r \<noteq> None) (runes s)"

definition space_rune :: "nat option \<Rightarrow> bool" where
  "space_rune r \<longleftrightarrow> (case r of None \<Rightarrow> False | Some n \<Rightarrow>
     (9 \<le> n \<and> n \<le> 13) \<or> n = 0x20 \<or> n = 0x85 \<or> n = 0xA0 \<or> n = 0x1680 \<or> (0x2000 \<le> n \<and> n \<le> 0x200A)
     \<or> n = 0x2028 \<or> n = 0x2029 \<or> n = 0x202F \<or> n = 0x205F \<or> n = 0x3000)"
  \<comment> \<open>unicode.IsSpace\<close>

definition trim_space :: "string \<Rightarrow> string" where
  [go_simps]: "trim_space s =
     concat (map snd (rev (dropWhile (space_rune \<circ> fst) (rev (dropWhile (space_rune \<circ> fst) (runes s))))))"

text \<open>\<^verbatim>\<open>strings.Fields\<close>: the maximal runs of non-space runes, in order.\<close>

fun fields_aux :: "string \<Rightarrow> (nat option \<times> string) list \<Rightarrow> string list" where
  "fields_aux acc [] = (if acc = [] then [] else [acc])"
| "fields_aux acc ((r, b) # rs) =
     (if space_rune r then (if acc = [] then fields_aux [] rs else acc # fields_aux [] rs)
      else fields_aux (acc @ b) rs)"

definition fields :: "string \<Rightarrow> string list" where
  [go_simps]: "fields s = fields_aux [] (runes s)"

section \<open>\<^verbatim>\<open>strconv\<close>\<close>

definition is_digit :: "char \<Rightarrow> bool" where
  "is_digit c \<longleftrightarrow> 48 \<le> (of_char c :: nat) \<and> (of_char c :: nat) \<le> 57"

definition digit_val :: "char \<Rightarrow> int" where
  "digit_val c = of_char c - 48"

fun digits_val :: "int \<Rightarrow> string \<Rightarrow> int option" where
  "digits_val acc [] = Some acc"
| "digits_val acc (c # cs) = (if is_digit c then digits_val (10 * acc + digit_val c) cs else None)"

text \<open>
  \<^verbatim>\<open>strconv.Atoi\<close> (base 10, 64-bit int): an optional sign, then at least one digit,
  then nothing; a value outside the int64 range is an error.
\<close>

definition atoi :: "string \<Rightarrow> int option" where
  "atoi s =
     (let (neg, body) = (case s of [] \<Rightarrow> (False, [])
                         | c # cs \<Rightarrow> if c = CHR ''-'' then (True, cs)
                                     else if c = CHR ''+'' then (False, cs) else (False, s))
      in if body = [] then None
         else case digits_val 0 body of None \<Rightarrow> None
              | Some v \<Rightarrow> let w = (if neg then - v else v)
                         in if w < - (2 ^ 63) \<or> w > 2 ^ 63 - 1 then None else Some w)"

text \<open>The value of an \<^verbatim>\<open>int64\<close> expression: arithmetic wraps around.\<close>

definition wrap64 :: "int \<Rightarrow> int" where
  "wrap64 x = (x + 2 ^ 63) mod 2 ^ 64 - 2 ^ 63"

section \<open>Generic lemmas\<close>

lemma split_on_ne [simp]: "split_on c s \<noteq> []"
  by (induction s) (auto split: list.split)

lemma has_suffix_conv: "has_suffix s p \<longleftrightarrow> (\<exists>q. s = q @ p)"
  unfolding has_suffix_def
  by (metis append_eq_conv_conj append_take_drop_id diff_diff_cancel length_append
      length_drop le_add2 add_diff_cancel_right')

lemma has_prefix_conv: "has_prefix s p \<longleftrightarrow> (\<exists>q. s = p @ q)"
  unfolding has_prefix_def by (metis append_eq_conv_conj append_take_drop_id)

lemma digits_val_ge: "0 \<le> acc \<Longrightarrow> digits_val acc s = Some v \<Longrightarrow> acc \<le> v"
proof (induction s arbitrary: acc)
  case Nil
  then show ?case by simp
next
  case (Cons c cs)
  from Cons.prems have d: "is_digit c" and r: "digits_val (10 * acc + digit_val c) cs = Some v"
    by (auto split: if_splits)
  from d have "48 \<le> (of_char c :: int)"
    unfolding is_digit_def by (metis of_nat_le_iff of_nat_numeral of_nat_of_char)
  then have "0 \<le> digit_val c" by (simp add: digit_val_def)
  with Cons.IH [OF _ r] Cons.prems(1) show ?case by simp
qed

section \<open>Decoding is stable under cutting at rune boundaries\<close>

lemma decode_rune_prefix:
  assumes "snd (decode_rune (a # t @ u)) \<le> Suc (length t)"
  shows "decode_rune (a # t) = decode_rune (a # t @ u)"
proof -
  consider "byte a < 0x80" | "0xC2 \<le> byte a" "byte a \<le> 0xDF" | "0xE0 \<le> byte a" "byte a \<le> 0xEF"
    | "0xF0 \<le> byte a" "byte a \<le> 0xF4"
    | "\<not> byte a < 0x80" "\<not> (0xC2 \<le> byte a \<and> byte a \<le> 0xDF)" "\<not> (0xE0 \<le> byte a \<and> byte a \<le> 0xEF)" "\<not> (0xF0 \<le> byte a \<and> byte a \<le> 0xF4)"
    by linarith
  then show ?thesis
  proof cases
    case 1
    then show ?thesis by (simp add: decode_rune_def)
  next
    case 2
    then show ?thesis using assms
      by (cases t; cases u) (simp_all add: decode_rune_def Let_def split: if_splits)
  next
    case 3
    let ?ok = "\<lambda>c1 c2. (if byte a = 0xE0 then 0xA0 else 0x80) \<le> byte c1 \<and> byte c1 \<le> (if byte a = 0xED then 0x9F else 0xBF) \<and> cont c2"
    define ok where "ok = ?ok"
    have "decode_rune (a # s) = (case s of c1 # c2 # _ \<Rightarrow> if ok c1 c2
       then (Some ((byte a - 0xE0) * 4096 + (byte c1 - 0x80) * 64 + (byte c2 - 0x80)), 3) else (None, 1) | _ \<Rightarrow> (None, 1))" for s
      using 3 unfolding ok_def decode_rune_def Let_def by simp
    then show ?thesis using assms
      by (cases t; cases u; cases "tl t"; cases "tl u") (simp_all split: if_split_asm)
  next
    case 4
    let ?ok = "\<lambda>c1 c2 c3. (if byte a = 0xF0 then 0x90 else 0x80) \<le> byte c1 \<and> byte c1 \<le> (if byte a = 0xF4 then 0x8F else 0xBF) \<and> cont c2 \<and> cont c3"
    define ok where "ok = ?ok"
    have "decode_rune (a # s) = (case s of c1 # c2 # c3 # _ \<Rightarrow> if ok c1 c2 c3
       then (Some ((byte a - 0xF0) * 262144 + (byte c1 - 0x80) * 4096 + (byte c2 - 0x80) * 64 + (byte c3 - 0x80)), 4) else (None, 1) | _ \<Rightarrow> (None, 1))" for s
      using 4 unfolding ok_def decode_rune_def Let_def by simp
    then show ?thesis using assms
      by (cases t; cases u; cases "tl t"; cases "tl u"; cases "tl (tl t)"; cases "tl (tl u)") (simp_all split: if_split_asm)
  next
    case 5
    then have "decode_rune (a # s) = (None, 1)" for s by (simp only: decode_rune_def Let_def list.case if_False)
    then show ?thesis by simp
  qed
qed


lemma decode_rune_pos: "s \<noteq> [] \<Longrightarrow> 0 < snd (decode_rune s)"
  by (auto simp: decode_rune_def Let_def split: list.splits)

lemma runes_Cons:
  assumes "s \<noteq> []" 
  shows "runes s = (fst (decode_rune s), take (snd (decode_rune s)) s) # runes (drop (snd (decode_rune s)) s)"
  using assms decode_rune_pos [OF assms] by (subst runes.simps) (simp add: Let_def split_beta max_def)

lemma decode_rune_width: "snd (decode_rune s) \<le> length s"
  by (auto simp: decode_rune_def Let_def split: list.splits)

lemma drop_rune_shorter: "s \<noteq> [] \<Longrightarrow> length (drop (snd (decode_rune s)) s) < length s"
  using decode_rune_pos by simp

lemma concat_runes [simp]: "concat (map snd (runes s)) = s"
proof (induction "length s" arbitrary: s rule: less_induct)
  case less
  then show ?case using drop_rune_shorter [of s] by (cases "s = []") (simp_all add: runes_Cons)
qed

lemma runes_drop: "runes (concat (map snd (drop n (runes s)))) = drop n (runes s)"
proof (induction "length s" arbitrary: s n rule: less_induct)
  case less
  show ?case
  proof (cases "s = [] \<or> n = 0")
    case False
    then show ?thesis using less [of "drop (snd (decode_rune s)) s" "n - 1"] drop_rune_shorter [of s] by (cases n) (simp_all add: runes_Cons)
  qed auto
qed

lemma runes_take: "runes (concat (map snd (take n (runes s)))) = take n (runes s)"
proof (induction "length s" arbitrary: s n rule: less_induct)
  case less
  show ?case
  proof (cases "s = [] \<or> n = 0")
    case False
    let ?k = "snd (decode_rune s)"
    let ?rest = "concat (map snd (take (n - 1) (runes (drop ?k s))))"
    from False obtain m where n: "n = Suc m" by (cases n) auto
    have "drop ?k s = ?rest @ concat (map snd (drop (n - 1) (runes (drop ?k s))))"
      by (metis append_take_drop_id concat_append concat_runes map_append)
    then have s: "s = (take ?k s @ ?rest) @ concat (map snd (drop (n - 1) (runes (drop ?k s))))"
      by (metis append.assoc append_take_drop_id)
    obtain a t where at: "take ?k s = a # t" using False decode_rune_pos [of s] by (cases "take ?k s") auto
    have k: "length (take ?k s) = ?k" using decode_rune_width [of s] by simp
    have s': "a # (t @ ?rest) @ concat (map snd (drop (n - 1) (runes (drop ?k s)))) = s" using s unfolding at by simp
    have "snd (decode_rune s) \<le> Suc (length (t @ ?rest))" using k unfolding at by simp
    then have "decode_rune (take ?k s @ ?rest) = decode_rune s"
      using decode_rune_prefix [of a "t @ ?rest" "concat (map snd (drop (n - 1) (runes (drop ?k s))))"] unfolding s' at by simp
    moreover have "take ?k (take ?k s @ ?rest) = take ?k s" "drop ?k (take ?k s @ ?rest) = ?rest"
      using k by (metis append_eq_conv_conj)+
    moreover have "take ?k s @ ?rest \<noteq> []" using at by simp
    ultimately have "runes (take ?k s @ ?rest) = (fst (decode_rune s), take ?k s) # runes ?rest"
      using runes_Cons [of "take ?k s @ ?rest"] by metis
    then show ?thesis using False n less [of "drop (snd (decode_rune s)) s" "n - 1"] drop_rune_shorter [of s] by (simp add: runes_Cons)
  qed auto
qed

lemma trim_space_idem [simp]: "trim_space (trim_space s) = trim_space s"
proof -
  let ?P = "space_rune \<circ> fst" and ?R = "dropWhile (space_rune \<circ> fst) (runes s)"
  let ?T = "rev (dropWhile ?P (rev ?R))"
  have "?T = take (length ?T) ?R"
    by (metis append_eq_conv_conj rev_append rev_rev_ident takeWhile_dropWhile_id)
  moreover obtain n where "?R = drop n (runes s)" using dropWhile_eq_drop by blast
  then have "runes (concat (map snd ?R)) = ?R" using runes_drop by metis
  ultimately have "?T = take (length ?T) (runes (concat (map snd ?R)))" by (simp only:)
  then have t: "runes (trim_space s) = ?T" unfolding trim_space_def by (metis runes_take)
  have "dropWhile ?P ?T = ?T"
  proof (cases ?T)
    case (Cons x xs)
    have "take n R = x # xs \<Longrightarrow> R \<noteq> [] \<and> hd R = x" for n R by (cases R; cases n) auto
    then have "hd ?R = x" "?R \<noteq> []" using Cons \<open>?T = take (length ?T) ?R\<close> by metis+
    then have "\<not> ?P x" using hd_dropWhile [of ?P "runes s"] by auto
    then show ?thesis using Cons by simp
  next
    case Nil
    then show ?thesis by (simp only: dropWhile.simps)
  qed
  moreover have "dropWhile ?P (dropWhile ?P xs) = dropWhile ?P xs" for xs :: "(nat option \<times> string) list"
    by (rule dropWhile_idem)
  ultimately show ?thesis unfolding trim_space_def [of "trim_space s"] t by (simp add: trim_space_def)
qed

end
