(* ===== verification/Events_Domain.thy ===== *)
theory Events_Domain
  imports Go_Prelude
begin

text \<open>
  The vocabulary of the session event log (\<^verbatim>\<open>internal/domain\<close>): event types with
  their wire spelling and classification, session and thread status, stop reasons, the JSON
  payloads events carry with the two ways the code reads a field of them (Postgres
  \<^verbatim>\<open>payload->>'k'\<close> and Go's struct decoding), and the rows of the
  \<^verbatim>\<open>events\<close>, \<^verbatim>\<open>session_threads\<close> and \<^verbatim>\<open>sessions\<close> tables as one
  session's transaction sees them.
\<close>

section \<open>Event types\<close>

datatype event_type =
    EventUserMessage | EventUserInterrupt | EventUserToolConfirm | EventUserCustomToolRes
  | EventUserToolResult | EventUserDefineOutcome | EventSystemMessage
  | EventAgentMessage | EventAgentThinking | EventAgentToolUse | EventAgentToolResult
  | EventAgentMCPToolUse | EventAgentMCPToolResult | EventAgentCustomToolUse
  | EventAgentThreadMessageSent | EventAgentThreadMessageReceived
  | EventSessionStatusRunning | EventSessionStatusIdle | EventSessionStatusRescheduled
  | EventSessionStatusTerminated | EventSessionError | EventSessionUpdated | EventSessionDeleted
  | EventSessionUsage
  | EventSessionThreadCreated | EventSessionThreadStatusRunning | EventSessionThreadStatusIdle
  | EventSessionThreadStatusRescheduled | EventSessionThreadStatusTerminated
  | EventSpanModelRequestStart | EventSpanModelRequestEnd
  | EventSpanOutcomeEvalStart | EventSpanOutcomeEvalOngoing | EventSpanOutcomeEvalEnd
  | EventStart | EventDelta

fun event_type_str :: "event_type \<Rightarrow> string" where
  "event_type_str EventUserMessage = ''user.message''"
| "event_type_str EventUserInterrupt = ''user.interrupt''"
| "event_type_str EventUserToolConfirm = ''user.tool_confirmation''"
| "event_type_str EventUserCustomToolRes = ''user.custom_tool_result''"
| "event_type_str EventUserToolResult = ''user.tool_result''"
| "event_type_str EventUserDefineOutcome = ''user.define_outcome''"
| "event_type_str EventSystemMessage = ''system.message''"
| "event_type_str EventAgentMessage = ''agent.message''"
| "event_type_str EventAgentThinking = ''agent.thinking''"
| "event_type_str EventAgentToolUse = ''agent.tool_use''"
| "event_type_str EventAgentToolResult = ''agent.tool_result''"
| "event_type_str EventAgentMCPToolUse = ''agent.mcp_tool_use''"
| "event_type_str EventAgentMCPToolResult = ''agent.mcp_tool_result''"
| "event_type_str EventAgentCustomToolUse = ''agent.custom_tool_use''"
| "event_type_str EventAgentThreadMessageSent = ''agent.thread_message_sent''"
| "event_type_str EventAgentThreadMessageReceived = ''agent.thread_message_received''"
| "event_type_str EventSessionStatusRunning = ''session.status_running''"
| "event_type_str EventSessionStatusIdle = ''session.status_idle''"
| "event_type_str EventSessionStatusRescheduled = ''session.status_rescheduled''"
| "event_type_str EventSessionStatusTerminated = ''session.status_terminated''"
| "event_type_str EventSessionError = ''session.error''"
| "event_type_str EventSessionUpdated = ''session.updated''"
| "event_type_str EventSessionDeleted = ''session.deleted''"
| "event_type_str EventSessionUsage = ''session.usage''"
| "event_type_str EventSessionThreadCreated = ''session.thread_created''"
| "event_type_str EventSessionThreadStatusRunning = ''session.thread_status_running''"
| "event_type_str EventSessionThreadStatusIdle = ''session.thread_status_idle''"
| "event_type_str EventSessionThreadStatusRescheduled = ''session.thread_status_rescheduled''"
| "event_type_str EventSessionThreadStatusTerminated = ''session.thread_status_terminated''"
| "event_type_str EventSpanModelRequestStart = ''span.model_request_start''"
| "event_type_str EventSpanModelRequestEnd = ''span.model_request_end''"
| "event_type_str EventSpanOutcomeEvalStart = ''span.outcome_evaluation_start''"
| "event_type_str EventSpanOutcomeEvalOngoing = ''span.outcome_evaluation_ongoing''"
| "event_type_str EventSpanOutcomeEvalEnd = ''span.outcome_evaluation_end''"
| "event_type_str EventStart = ''event_start''"
| "event_type_str EventDelta = ''event_delta''"

definition event_domain :: "event_type \<Rightarrow> string" where
  "event_domain t = fst (cut (CHR ''.'') (event_type_str t))"

definition inbound :: "event_type \<Rightarrow> bool" where
  "inbound t \<longleftrightarrow> event_domain t = ''user'' \<or> event_domain t = ''system''"

definition consumed_inputs :: "event_type list" where
  "consumed_inputs = [EventUserMessage, EventUserDefineOutcome, EventAgentThreadMessageReceived]"

definition stamped_on_consumption :: "event_type \<Rightarrow> bool" where
  "stamped_on_consumption t \<longleftrightarrow> inbound t \<or> t \<in> set consumed_inputs"

definition starts_new_work :: "event_type \<Rightarrow> bool" where
  "starts_new_work t \<longleftrightarrow>
     t \<in> {EventUserMessage, EventUserDefineOutcome, EventUserToolConfirm, EventSystemMessage}"

definition persisted :: "event_type \<Rightarrow> bool" where
  "persisted t \<longleftrightarrow> t \<noteq> EventStart \<and> t \<noteq> EventDelta"

section \<open>Status and stop reasons\<close>

text \<open>Both are string types in the source; the last constructor is any other string.\<close>

datatype session_status =
  SessionIdle | SessionRunning | SessionRescheduling | SessionTerminated | SessionOther string

datatype stop_reason_type =
  StopRequiresAction | StopEndTurn | StopRetriesExhausted | StopOther string

record stop_reason =
  stop_type :: stop_reason_type
  stop_event_ids :: "id list"

datatype env_kind = EnvCloud | EnvSelfHosted

section \<open>JSON payloads\<close>

datatype json = JNull | JBool bool | JNum string | JStr string
  | JArr "json list" | JObj "(string \<times> json) list"
  \<comment> \<open>a number is kept as the literal jsonb renders; a later duplicate key wins\<close>

fun esc_char :: "char \<Rightarrow> string" where
  "esc_char c =
     (if c = CHR 0x22 then [CHR 0x5C, CHR 0x22] else if c = CHR 0x5C then [CHR 0x5C, CHR 0x5C]
      else if c = CHR 0x0A then [CHR 0x5C, CHR ''n''] else if c = CHR 0x0D then [CHR 0x5C, CHR ''r'']
      else if c = CHR 0x09 then [CHR 0x5C, CHR ''t''] else if c = CHR 0x08 then [CHR 0x5C, CHR ''b'']
      else if c = CHR 0x0C then [CHR 0x5C, CHR ''f''] else [c])"
  \<comment> \<open>jsonb text escapes; the other control bytes do not occur in the values the code compares\<close>

fun intersperse_concat :: "string \<Rightarrow> string list \<Rightarrow> string" where
  "intersperse_concat sep [] = []"
| "intersperse_concat sep [x] = x"
| "intersperse_concat sep (x # y # ys) = x @ sep @ intersperse_concat sep (y # ys)"

definition quote :: "string \<Rightarrow> string" where
  "quote s = [CHR 0x22] @ concat (map esc_char s) @ [CHR 0x22]"

fun jsonb_text :: "json \<Rightarrow> string" where
  "jsonb_text JNull = ''null''"
| "jsonb_text (JBool b) = (if b then ''true'' else ''false'')"
| "jsonb_text (JNum n) = n"
| "jsonb_text (JStr s) = quote s"
| "jsonb_text (JArr js) = ''['' @ intersperse_concat '', '' (map jsonb_text js) @ '']''"
| "jsonb_text (JObj kvs) =
     ''{'' @ intersperse_concat '', '' (map (\<lambda>(k, v). quote k @ '': '' @ jsonb_text v) kvs) @ ''}''"

definition json_get :: "json \<Rightarrow> string \<Rightarrow> json option" where
  "json_get j k = (case j of JObj kvs \<Rightarrow> map_of (rev kvs) k | _ \<Rightarrow> None)"

text \<open>Postgres \<^verbatim>\<open>payload->>'k'\<close>: NULL for a missing key, a JSON null or a non-object.\<close>

definition sql_text :: "json \<Rightarrow> string \<Rightarrow> string option" where
  "sql_text j k = (case json_get j k of None \<Rightarrow> None | Some JNull \<Rightarrow> None
                   | Some (JStr s) \<Rightarrow> Some s | Some v \<Rightarrow> Some (jsonb_text v))"

text \<open>
  Go's decoding of an object into a struct with string fields: every key that folds to the
  field's name assigns it in order, a null or a value of another type leaves it as it was.
\<close>

definition fold_rune :: "nat option \<Rightarrow> nat option" where
  "fold_rune r = (case r of None \<Rightarrow> None | Some n \<Rightarrow>
     Some (if 97 \<le> n \<and> n \<le> 122 then n - 32 else if n = 0x17F then 83 else if n = 0x212A then 75 else n))"

definition fold_name :: "string \<Rightarrow> nat option list" where
  "fold_name s = map (fold_rune \<circ> fst) (runes s)"

definition go_str_field :: "json \<Rightarrow> string \<Rightarrow> string" where
  "go_str_field j k = (case j of
     JObj kvs \<Rightarrow> foldl (\<lambda>acc (k', v). if fold_name k' = fold_name k
                                     then (case v of JStr s \<Rightarrow> s | _ \<Rightarrow> acc) else acc) [] kvs
   | _ \<Rightarrow> [])"

text \<open>Whether that decoding reports no error for the given string fields.\<close>

definition go_struct_ok :: "json \<Rightarrow> string list \<Rightarrow> bool" where
  "go_struct_ok j ks = (case j of
     JNull \<Rightarrow> True
   | JObj kvs \<Rightarrow> list_all (\<lambda>(k', v). fold_name k' \<in> fold_name ` set ks \<longrightarrow>
                            (case v of JStr _ \<Rightarrow> True | JNull \<Rightarrow> True | _ \<Rightarrow> False)) kvs
   | _ \<Rightarrow> False)"

section \<open>Rows\<close>

text \<open>
  The model is one session's slice of the database.  \<open>ev_thread\<close> is the nullable
  \<^verbatim>\<open>thread_id\<close> column with the empty string for NULL (the primary thread), as the
  code reads it (\<^verbatim>\<open>COALESCE(thread_id, '')\<close>).  Times are microseconds.  The log is
  in \<open>ev_seq\<close> order; the thread rows are in \<^verbatim>\<open>(created_at, id)\<close> order.
\<close>

record event =
  ev_id :: id
  ev_seq :: nat
  ev_type :: event_type
  ev_payload :: json
  ev_processed :: "int option"
  ev_created :: int
  ev_thread :: id
  ev_cross :: bool

record new_event =
  ne_id :: id
  ne_type :: event_type
  ne_payload :: json
  ne_processed :: "int option"
  ne_thread :: id
  ne_cross :: bool
  ne_restated :: bool

record thinking_block =
  tb_event :: id
  tb_model :: string
  tb_digest :: string
  tb_block :: json

record outcome_evaluation =
  oe_id :: id
  oe_description :: string
  oe_explanation :: string
  oe_iteration :: int
  oe_result :: string
  oe_completed :: "int option"

record thread_row =
  t_id :: id
  t_parent :: "id option"
  t_status :: session_status
  t_stop :: "stop_reason option"
  t_agent_name :: string
  t_archived :: bool
  t_transitioned :: bool

record session_db =
  s_id :: id
  s_status :: session_status
  s_archived :: bool
  s_agent_name :: string
  s_env_kind :: env_kind
  s_threads :: "thread_row list"
  s_log :: "event list"

definition mk_event :: "event_type \<Rightarrow> json \<Rightarrow> new_event" where
  "mk_event typ p = \<lparr>ne_id = [], ne_type = typ, ne_payload = p, ne_processed = None,
     ne_thread = [], ne_cross = False, ne_restated = False\<rparr>"

definition primary_thread_id :: "id \<Rightarrow> id" where
  "primary_thread_id sid = ''sthr_'' @ fst (snd (cut (CHR ''_'') sid))"

section \<open>Facts about the classification\<close>

lemma inbound_iff: "inbound t \<longleftrightarrow> t \<in> {EventUserMessage, EventUserInterrupt, EventUserToolConfirm,
    EventUserCustomToolRes, EventUserToolResult, EventUserDefineOutcome, EventSystemMessage}"
  by (cases t) (simp_all add: inbound_def event_domain_def)

lemma primary_thread_id_ne [simp]: "primary_thread_id sid \<noteq> []"
  by (simp add: primary_thread_id_def)

end
