(* ===== verification/Work_Queue.thy ===== *)
theory Work_Queue
  imports Events_Domain
begin

text \<open>
  \<^verbatim>\<open>internal/queue/queue.go\<close>: the work queue over the \<^verbatim>\<open>work_items\<close> table.
  Each operation is one SQL statement, hence one atomic function of the table, the
  environments' kinds and the statement's \<^verbatim>\<open>now()\<close>; \<open>locked\<close> tells the rows a
  concurrent transaction holds (\<^verbatim>\<open>FOR UPDATE SKIP LOCKED\<close>).  Fresh ids
  (\<^verbatim>\<open>domain.NewID\<close>) are arguments.  The locale \<open>lease_guarded\<close> states the contract
  every hand-back under a lease proof shares, and is interpreted for each of them.
\<close>

section \<open>Rows\<close>

datatype kind = ModelTurn | ToolExec | WebExec | OutputsHarvest | MCPExec

datatype wstate = WQueued | WStarting | WActive | WStopping | WStopped

datatype mval = MStr string | MInt int | MBool bool
  \<comment> \<open>the values of the metadata object: wire strings, the settlement count, the grading flag\<close>

record work_row =
  w_id :: id
  w_env :: id
  w_session :: id
  w_thread :: id
  w_kind :: kind
  w_state :: wstate
  w_meta :: "string \<Rightarrow> mval option"
  w_created :: int
  w_lease :: "int option"
  w_acked :: "int option"
  w_started :: "int option"
  w_stop_req :: "int option"
  w_stopped :: "int option"
  w_beat :: "int option"
  w_trace :: "json option"

record queue_db =
  q_items :: "work_row list"
  q_envs :: "id \<Rightarrow> env_kind option"
  q_polls :: "(id \<times> id \<times> int) list"
  \<comment> \<open>worker_polls: environment, worker, last_polled_at\<close>

record item =
  it_id :: id
  it_env :: id
  it_session :: id
  it_thread :: id
  it_kind :: kind
  it_lease :: int
  it_reclaimed :: bool
  it_chain :: int
  it_grading :: bool
  it_trace :: "json option"

datatype queue_error = ErrLeaseLost | ErrWorkNotFound

definition is_live :: "wstate \<Rightarrow> bool" where
  "is_live s \<longleftrightarrow> s = WQueued \<or> s = WStarting \<or> s = WActive"

definition slot :: "work_row \<Rightarrow> id \<times> id \<times> kind" where
  "slot r = (w_session r, w_thread r, w_kind r)"

text \<open>\<^verbatim>\<open>UPDATE ... SET f WHERE P\<close>, and \<^verbatim>\<open>RowsAffected() > 0\<close>.\<close>

definition upd :: "(work_row \<Rightarrow> bool) \<Rightarrow> (work_row \<Rightarrow> work_row) \<Rightarrow> queue_db \<Rightarrow> queue_db" where
  "upd P f db = db\<lparr>q_items := map (\<lambda>r. if P r then f r else r) (q_items db)\<rparr>"

definition hits :: "(work_row \<Rightarrow> bool) \<Rightarrow> queue_db \<Rightarrow> bool" where
  "hits P db \<longleftrightarrow> (\<exists>r \<in> set (q_items db). P r)"

section \<open>Enqueue\<close>

text \<open>
  \<^verbatim>\<open>INSERT ... ON CONFLICT (session_id, thread_id, kind) WHERE state IN (live) DO NOTHING\<close>.
\<close>

definition insert_item :: "queue_db \<Rightarrow> work_row \<Rightarrow> queue_db \<times> bool" where
  "insert_item db r =
     (if hits (\<lambda>x. is_live (w_state x) \<and> slot x = slot r) db then (db, False)
      else (db\<lparr>q_items := q_items db @ [r]\<rparr>, True))"

definition new_row :: "id \<Rightarrow> id \<Rightarrow> id \<Rightarrow> id \<Rightarrow> kind \<Rightarrow> int \<Rightarrow> json option \<Rightarrow> work_row" where
  "new_row wid env sess thr k now trace =
     \<lparr>w_id = wid, w_env = env, w_session = sess, w_thread = thr, w_kind = k, w_state = WQueued,
      w_meta = Map.empty, w_created = now, w_lease = None, w_acked = None, w_started = Some now,
      w_stop_req = None, w_stopped = None, w_beat = None, w_trace = trace\<rparr>"

text \<open>The flag tells whether a row was created; the last component is the environment notified.\<close>

definition EnqueueThread ::
  "queue_db \<Rightarrow> id \<Rightarrow> id \<Rightarrow> id \<Rightarrow> id \<Rightarrow> kind \<Rightarrow> int \<Rightarrow> json option \<Rightarrow> queue_db \<times> bool \<times> id option" where
  "EnqueueThread db wid env sess thr k now ctx =
     (let traceCtx = (if k = ToolExec \<or> k = WebExec \<or> k = OutputsHarvest \<or> k = MCPExec then ctx else None);
          (db', created) = insert_item db (new_row wid env sess thr k now traceCtx)
      in (db', created, if created \<and> k = ToolExec then Some env else None))"

definition Enqueue ::
  "queue_db \<Rightarrow> id \<Rightarrow> id \<Rightarrow> id \<Rightarrow> kind \<Rightarrow> int \<Rightarrow> json option \<Rightarrow> queue_db \<times> bool \<times> id option" where
  "Enqueue db wid env sess k now ctx = EnqueueThread db wid env sess [] k now ctx"

definition EnqueueOutputsHarvest ::
  "queue_db \<Rightarrow> id \<Rightarrow> id \<Rightarrow> id \<Rightarrow> bool \<Rightarrow> int \<Rightarrow> json option \<Rightarrow> queue_db \<times> bool" where
  "EnqueueOutputsHarvest db wid env sess chainGrading now ctx =
     insert_item db ((new_row wid env sess [] OutputsHarvest now ctx)
       \<lparr>w_started := None, w_meta := [''chain_grading'' \<mapsto> MBool chainGrading]\<rparr>)"

section \<open>Claim and Poll\<close>

text \<open>\<^verbatim>\<open>ORDER BY created_at ... LIMIT 1\<close>: the first row of least creation time.\<close>

fun oldest :: "work_row list \<Rightarrow> work_row option" where
  "oldest [] = None"
| "oldest (r # rs) = (case oldest rs of None \<Rightarrow> Some r
                      | Some x \<Rightarrow> if w_created x < w_created r then Some x else Some r)"

definition lapsed :: "work_row \<Rightarrow> int \<Rightarrow> bool" where
  "lapsed r now \<longleftrightarrow> (case w_lease r of None \<Rightarrow> False | Some l \<Rightarrow> l < now)"

definition env_is :: "queue_db \<Rightarrow> id \<Rightarrow> env_kind \<Rightarrow> bool" where
  "env_is db e k \<longleftrightarrow> q_envs db e = Some k"

definition claimable :: "queue_db \<Rightarrow> (id \<Rightarrow> bool) \<Rightarrow> kind \<Rightarrow> int \<Rightarrow> work_row \<Rightarrow> bool" where
  "claimable db locked k now r \<longleftrightarrow>
     w_kind r = k \<and> q_envs db (w_env r) \<noteq> None \<and> (w_kind r \<noteq> ToolExec \<or> env_is db (w_env r) EnvCloud)
     \<and> ((w_state r = WQueued \<and> (w_lease r = None \<or> lapsed r now)) \<or> (w_state r = WActive \<and> lapsed r now))
     \<and> \<not> locked (w_id r)"

definition chain_of :: "work_row \<Rightarrow> int" where
  "chain_of r = (case w_meta r ''settlement_chain'' of Some (MInt n) \<Rightarrow> n | _ \<Rightarrow> 0)"

definition grading_of :: "work_row \<Rightarrow> bool" where
  "grading_of r = (case w_meta r ''chain_grading'' of Some (MBool b) \<Rightarrow> b | _ \<Rightarrow> False)"

definition Claim :: "queue_db \<Rightarrow> (id \<Rightarrow> bool) \<Rightarrow> kind \<Rightarrow> int \<Rightarrow> int \<Rightarrow> queue_db \<times> item option" where
  "Claim db locked k ttl now =
     (case oldest (filter (claimable db locked k now) (q_items db)) of
        None \<Rightarrow> (db, None)
      | Some p \<Rightarrow>
          (upd (\<lambda>r. w_id r = w_id p) (\<lambda>r. r\<lparr>w_state := WActive, w_lease := Some (now + ttl)\<rparr>) db,
           Some \<lparr>it_id = w_id p, it_env = w_env p, it_session = w_session p, it_thread = w_thread p,
             it_kind = w_kind p, it_lease = now + ttl, it_reclaimed = (w_state p = WActive),
             it_chain = chain_of p, it_grading = grading_of p, it_trace = w_trace p\<rparr>))"

definition pollable :: "queue_db \<Rightarrow> (id \<Rightarrow> bool) \<Rightarrow> id \<Rightarrow> int \<Rightarrow> work_row \<Rightarrow> bool" where
  "pollable db locked env now r \<longleftrightarrow>
     w_env r = env \<and> env_is db env EnvSelfHosted \<and> w_kind r = ToolExec
     \<and> ((w_state r = WQueued \<and> (w_lease r = None \<or> lapsed r now))
        \<or> ((w_state r = WStarting \<or> w_state r = WActive) \<and> lapsed r now))
     \<and> \<not> locked (w_id r)"

definition hand_out :: "id \<Rightarrow> int \<Rightarrow> int \<Rightarrow> work_row \<Rightarrow> work_row" where
  "hand_out newid reclaim now r =
     r\<lparr>w_id := (if w_lease r = None then w_id r else newid),
       w_state := WQueued, w_beat := None, w_acked := None,
       w_started := (if w_state r = WQueued
                     then (case w_started r of None \<Rightarrow> Some (w_created r) | Some s \<Rightarrow> Some s) else Some now),
       w_lease := Some (now + reclaim)\<rparr>"

definition PollOn :: "queue_db \<Rightarrow> (id \<Rightarrow> bool) \<Rightarrow> id \<Rightarrow> int \<Rightarrow> id \<Rightarrow> int \<Rightarrow> queue_db \<times> work_row option" where
  "PollOn db locked env reclaim newid now =
     (case oldest (filter (pollable db locked env now) (q_items db)) of
        None \<Rightarrow> (db, None)
      | Some p \<Rightarrow> (upd (\<lambda>r. w_id r = w_id p) (hand_out newid reclaim now) db,
                  Some (hand_out newid reclaim now p)))"

section \<open>Abandoned wind-downs\<close>

definition WindDown :: int where
  "WindDown = 60000000"  \<comment> \<open>60 s in microseconds\<close>

definition abandoned :: "int \<Rightarrow> work_row \<Rightarrow> bool" where
  "abandoned now r \<longleftrightarrow> w_state r = WStopping \<and>
     (w_lease r = None \<or>
      (lapsed r now \<and> (case w_stop_req r of None \<Rightarrow> True | Some s \<Rightarrow> s < now - WindDown)))"

definition ListAbandoned :: "queue_db \<Rightarrow> id \<Rightarrow> int \<Rightarrow> (id \<times> id) list" where
  "ListAbandoned db env now =
     take 50 (map (\<lambda>r. (w_id r, w_session r))
       (filter (\<lambda>r. w_env r = env \<and> w_kind r = ToolExec \<and> abandoned now r) (q_items db)))"

definition FinalizeAbandoned :: "queue_db \<Rightarrow> id \<Rightarrow> id \<Rightarrow> int \<Rightarrow> queue_db \<times> bool" where
  "FinalizeAbandoned db env wid now =
     (let P = (\<lambda>r. w_id r = wid \<and> w_env r = env \<and> w_kind r = ToolExec \<and> abandoned now r)
      in (upd P (\<lambda>r. r\<lparr>w_state := WStopped, w_stopped := Some now, w_lease := None\<rparr>) db, hits P db))"

section \<open>Operations under a lease proof\<close>

text \<open>The row the claimant's proof names: same id, active, holding exactly the proof's lease.\<close>

definition held :: "item \<Rightarrow> work_row \<Rightarrow> bool" where
  "held it r \<longleftrightarrow> w_id r = it_id it \<and> w_state r = WActive \<and> w_lease r = Some (it_lease it)"

definition owns :: "queue_db \<Rightarrow> item \<Rightarrow> bool" where
  "owns db it \<longleftrightarrow> hits (held it) db"

definition Extend :: "queue_db \<Rightarrow> item \<Rightarrow> int \<Rightarrow> int \<Rightarrow> queue_error + queue_db \<times> item" where
  "Extend db it ttl now =
     (if owns db it
      then Inr (upd (held it) (\<lambda>r. r\<lparr>w_lease := Some (now + ttl)\<rparr>) db, it\<lparr>it_lease := now + ttl\<rparr>)
      else Inl ErrLeaseLost)"

definition renewLive :: "queue_db \<Rightarrow> item \<Rightarrow> int \<Rightarrow> int \<Rightarrow> queue_error + queue_db \<times> item" where
  "renewLive db it ttl now =
     (if hits (\<lambda>r. held it r \<and> it_lease it > now) db
      then Inr (upd (\<lambda>r. held it r \<and> it_lease it > now) (\<lambda>r. r\<lparr>w_lease := Some (now + ttl)\<rparr>) db,
                it\<lparr>it_lease := now + ttl\<rparr>)
      else Inl ErrLeaseLost)"

definition requeue :: "queue_db \<Rightarrow> item \<Rightarrow> int \<Rightarrow> int \<Rightarrow> int \<Rightarrow> queue_error + queue_db" where
  "requeue db it chain delay now =
     (if owns db it
      then Inr (upd (held it)
        (\<lambda>r. r\<lparr>w_state := WQueued,
               w_lease := (if delay > 0 then Some (now + delay) else None),
               w_meta := (if chain > 0 then (w_meta r)(''settlement_chain'' \<mapsto> MInt chain)
                          else (w_meta r)(''settlement_chain'' := None))\<rparr>) db)
      else Inl ErrLeaseLost)"

definition Requeue :: "queue_db \<Rightarrow> item \<Rightarrow> int \<Rightarrow> queue_error + queue_db" where
  "Requeue db it now = requeue db it 0 0 now"

definition RequeueAfter :: "queue_db \<Rightarrow> item \<Rightarrow> int \<Rightarrow> int \<Rightarrow> queue_error + queue_db" where
  "RequeueAfter db it delay now = requeue db it 0 delay now"

definition RequeueSettlement :: "queue_db \<Rightarrow> item \<Rightarrow> int \<Rightarrow> int \<Rightarrow> queue_error + queue_db" where
  "RequeueSettlement db it chain now = requeue db it chain 0 now"

definition RequeueAsGrading :: "queue_db \<Rightarrow> item \<Rightarrow> queue_error + queue_db" where
  "RequeueAsGrading db it =
     (if owns db it
      then Inr (upd (held it) (\<lambda>r. r\<lparr>w_state := WQueued, w_lease := None,
                  w_meta := (w_meta r)(''chain_grading'' \<mapsto> MBool True)\<rparr>) db)
      else Inl ErrLeaseLost)"

definition Assert :: "queue_db \<Rightarrow> item \<Rightarrow> queue_error + unit" where
  "Assert db it = (if owns db it then Inr () else Inl ErrLeaseLost)"

definition Complete :: "queue_db \<Rightarrow> item \<Rightarrow> queue_error + queue_db" where
  "Complete db it =
     (if owns db it then Inr (upd (held it) (\<lambda>r. r\<lparr>w_state := WStopped, w_lease := None\<rparr>) db)
      else Inl ErrLeaseLost)"

section \<open>Cancellation\<close>

definition coalesce :: "'a option \<Rightarrow> 'a \<Rightarrow> 'a option" where
  "coalesce a b = (case a of None \<Rightarrow> Some b | Some x \<Rightarrow> Some x)"

definition stop_row :: "int \<Rightarrow> work_row \<Rightarrow> work_row" where
  "stop_row now r = r\<lparr>w_state := WStopped, w_stop_req := coalesce (w_stop_req r) now,
     w_stopped := Some now, w_lease := None\<rparr>"

definition CancelSession :: "queue_db \<Rightarrow> id \<Rightarrow> int \<Rightarrow> queue_db" where
  "CancelSession db sess now = upd (\<lambda>r. w_session r = sess \<and> w_state r \<noteq> WStopped) (stop_row now) db"

definition CancelThread :: "queue_db \<Rightarrow> id \<Rightarrow> id \<Rightarrow> int \<Rightarrow> queue_db" where
  "CancelThread db sess thr now =
     upd (\<lambda>r. w_session r = sess \<and> w_kind r = ModelTurn \<and> w_state r \<noteq> WStopped \<and> w_thread r = thr) (stop_row now) db"

section \<open>The table's invariant\<close>

definition live_slots :: "queue_db \<Rightarrow> (id \<times> id \<times> kind) list" where
  "live_slots db = map slot (filter (\<lambda>r. is_live (w_state r)) (q_items db))"

definition lease_ok :: "work_row \<Rightarrow> bool" where
  "lease_ok r \<longleftrightarrow> (case w_state r of
     WQueued \<Rightarrow> True | WStopped \<Rightarrow> w_lease r = None | _ \<Rightarrow> w_lease r \<noteq> None)"

definition queue_inv :: "queue_db \<Rightarrow> bool" where
  "queue_inv db \<longleftrightarrow> distinct (map w_id (q_items db)) \<and> distinct (live_slots db)
     \<and> (\<forall>r \<in> set (q_items db). lease_ok r)"

lemma is_live_simps [simp]:
  "is_live WQueued" "is_live WStarting" "is_live WActive" "\<not> is_live WStopping" "\<not> is_live WStopped"
  by (simp_all add: is_live_def)

lemma lease_ok_simps [simp]:
  "w_state r = WQueued \<Longrightarrow> lease_ok r"
  "w_state r = WStopped \<Longrightarrow> lease_ok r \<longleftrightarrow> w_lease r = None"
  "w_state r = WStarting \<Longrightarrow> lease_ok r \<longleftrightarrow> w_lease r \<noteq> None"
  "w_state r = WActive \<Longrightarrow> lease_ok r \<longleftrightarrow> w_lease r \<noteq> None"
  "w_state r = WStopping \<Longrightarrow> lease_ok r \<longleftrightarrow> w_lease r \<noteq> None"
  by (simp_all add: lease_ok_def)

lemma q_upd [simp]:
  "q_items (upd P f db) = map (\<lambda>r. if P r then f r else r) (q_items db)"
  "q_envs (upd P f db) = q_envs db" "q_polls (upd P f db) = q_polls db"
  by (simp_all add: upd_def)

abbreviation slots :: "work_row list \<Rightarrow> (id \<times> id \<times> kind) list" where
  "slots xs \<equiv> map slot (filter (\<lambda>r. is_live (w_state r)) xs)"

lemma live_slots_subset:
  assumes "\<And>r. r \<in> set xs \<Longrightarrow> slot (g r) = slot r \<and> (is_live (w_state (g r)) \<longrightarrow> is_live (w_state r))"
  shows "set (slots (map g xs)) \<subseteq> set (slots xs)"
  using assms by (auto simp: image_iff)

lemma live_slots_map:
  assumes "\<And>r. r \<in> set xs \<Longrightarrow> slot (g r) = slot r \<and> (is_live (w_state (g r)) \<longrightarrow> is_live (w_state r))"
    and "distinct (slots xs)"
  shows "distinct (slots (map g xs))"
  using assms
proof (induction xs)
  case Nil
  then show ?case by simp
next
  case (Cons x xs)
  have sub: "set (slots (map g xs)) \<subseteq> set (slots xs)"
    by (rule live_slots_subset) (use Cons.prems(1) in simp)
  have IH: "distinct (slots (map g xs))"
    by (rule Cons.IH) (use Cons.prems in \<open>auto split: if_splits\<close>)
  show ?case
  proof (cases "is_live (w_state (g x))")
    case True
    with Cons.prems have "slot (g x) = slot x" "slot x \<notin> set (slots xs)" by auto
    with sub IH True show ?thesis by auto
  next
    case False
    with IH show ?thesis by simp
  qed
qed

lemma distinct_ids_map:
  assumes "distinct (map w_id xs)" "n \<notin> w_id ` set xs"
    and "\<And>r. r \<in> set xs \<Longrightarrow> w_id r \<noteq> i \<Longrightarrow> w_id (g r) = w_id r"
    and "\<And>r. r \<in> set xs \<Longrightarrow> w_id r = i \<Longrightarrow> w_id (g r) = i \<or> w_id (g r) = n"
  shows "distinct (map w_id (map g xs))"
proof -
  have "inj_on (w_id \<circ> g) (set xs)"
  proof (rule inj_onI)
    fix x y assume xy: "x \<in> set xs" "y \<in> set xs" "(w_id \<circ> g) x = (w_id \<circ> g) y"
    then have "w_id x = w_id y" using assms(2-4) by (metis comp_apply image_eqI)
    with xy assms(1) show "x = y" by (auto simp: distinct_map dest: inj_onD)
  qed
  with assms(1) show ?thesis by (simp add: distinct_map)
qed

text \<open>
  What an UPDATE must do to keep the invariant: leave ids and slots alone (or give one row a
  fresh id), never make a row live that was not, and pair the new state with its lease.
\<close>

lemma queue_inv_upd_id:
  assumes inv: "queue_inv db" and fresh: "n \<notin> w_id ` set (q_items db)"
    and ids: "\<And>r. r \<in> set (q_items db) \<Longrightarrow> P r \<Longrightarrow> w_id (f r) = w_id r \<or> (w_id r = i \<and> w_id (f r) = n)"
    and f: "\<And>r. r \<in> set (q_items db) \<Longrightarrow> P r \<Longrightarrow>
        slot (f r) = slot r \<and> (is_live (w_state (f r)) \<longrightarrow> is_live (w_state r)) \<and> lease_ok (f r)"
  shows "queue_inv (upd P f db)"
proof -
  let ?g = "\<lambda>r. if P r then f r else r"
  have "distinct (map w_id (map ?g (q_items db)))"
    by (rule distinct_ids_map [where n = n and i = i])
       (use inv fresh ids in \<open>auto simp: queue_inv_def split: if_splits\<close>)
  moreover have "distinct (live_slots (upd P f db))"
    unfolding live_slots_def q_upd
    by (rule live_slots_map) (use inv f in \<open>auto simp: queue_inv_def live_slots_def\<close>)
  ultimately show ?thesis using inv f by (auto simp: queue_inv_def)
qed

lemma queue_inv_upd:
  assumes "queue_inv db"
    and "\<And>r. r \<in> set (q_items db) \<Longrightarrow> P r \<Longrightarrow>
        w_id (f r) = w_id r \<and> slot (f r) = slot r \<and> (is_live (w_state (f r)) \<longrightarrow> is_live (w_state r)) \<and> lease_ok (f r)"
  shows "queue_inv (upd P f db)"
proof -
  obtain n where "n \<notin> w_id ` set (q_items db)"
    using ex_new_if_finite [of "w_id ` set (q_items db)"] infinite_UNIV_listI by blast
  then show ?thesis by (rule queue_inv_upd_id [OF assms(1)]) (use assms(2) in auto)
qed

lemma queue_inv_insert:
  assumes "queue_inv db" "w_id r \<notin> w_id ` set (q_items db)" "w_state r = WQueued"
    and "insert_item db r = (db', created)"
  shows "queue_inv db'"
  using assms
  by (fastforce simp: insert_item_def queue_inv_def live_slots_def hits_def split: if_splits)

lemma oldest_None: "oldest rs = None \<longleftrightarrow> rs = []"
  by (cases rs) (auto split: option.splits)

lemma oldest_Some: "oldest rs = Some r \<Longrightarrow> r \<in> set rs \<and> (\<forall>x \<in> set rs. w_created r \<le> w_created x)"
  by (induction rs arbitrary: r) (force simp: oldest_None split: option.splits if_splits)+

lemma unique_row:
  "queue_inv db \<Longrightarrow> r \<in> set (q_items db) \<Longrightarrow> x \<in> set (q_items db) \<Longrightarrow> w_id r = w_id x \<Longrightarrow> r = x"
  by (auto simp: queue_inv_def distinct_map dest: inj_onD)

section \<open>Every operation keeps the invariant\<close>

lemma slot_upd [simp]:
  "slot (r\<lparr>w_state := s\<rparr>) = slot r" "slot (r\<lparr>w_lease := l\<rparr>) = slot r" "slot (r\<lparr>w_meta := mt\<rparr>) = slot r"
  "slot (r\<lparr>w_id := i\<rparr>) = slot r" "slot (r\<lparr>w_acked := a\<rparr>) = slot r" "slot (r\<lparr>w_started := a\<rparr>) = slot r"
  "slot (r\<lparr>w_stop_req := a\<rparr>) = slot r" "slot (r\<lparr>w_stopped := a\<rparr>) = slot r" "slot (r\<lparr>w_beat := a\<rparr>) = slot r"
  by (simp_all add: slot_def)

lemma inv_Enqueue:
  "queue_inv db \<Longrightarrow> wid \<notin> w_id ` set (q_items db) \<Longrightarrow>
   EnqueueThread db wid env sess thr k now ctx = (db', created, nt) \<Longrightarrow> queue_inv db'"
  by (auto simp: EnqueueThread_def Let_def new_row_def split: prod.splits elim!: queue_inv_insert)

lemma inv_EnqueueOutputsHarvest:
  "queue_inv db \<Longrightarrow> wid \<notin> w_id ` set (q_items db) \<Longrightarrow>
   EnqueueOutputsHarvest db wid env sess g now ctx = (db', created) \<Longrightarrow> queue_inv db'"
  by (auto simp: EnqueueOutputsHarvest_def new_row_def elim!: queue_inv_insert)

lemma queue_inv_pick:
  assumes inv: "queue_inv db" "n \<notin> w_id ` set (q_items db)" and p: "p \<in> set (q_items db)"
    and f: "w_id (f p) = w_id p \<or> w_id (f p) = n" "slot (f p) = slot p" "is_live (w_state p)" "lease_ok (f p)"
  shows "queue_inv (upd (\<lambda>r. w_id r = w_id p) f db)"
proof (rule queue_inv_upd_id [OF inv, where i = "w_id p"])
  fix r assume "r \<in> set (q_items db)" "w_id r = w_id p"
  with inv(1) p have "r = p" by (auto dest: unique_row)
  with f show "w_id (f r) = w_id r \<or> (w_id r = w_id p \<and> w_id (f r) = n)"
    "slot (f r) = slot r \<and> (is_live (w_state (f r)) \<longrightarrow> is_live (w_state r)) \<and> lease_ok (f r)"
    by auto
qed

lemma inv_PollOn:
  assumes "queue_inv db" "newid \<notin> w_id ` set (q_items db)"
    and "PollOn db locked env reclaim newid now = (db', res)"
  shows "queue_inv db'"
proof (cases "oldest (filter (pollable db locked env now) (q_items db))")
  case None
  with assms show ?thesis by (auto simp: PollOn_def)
next
  case (Some p)
  then have p: "p \<in> set (q_items db)" "pollable db locked env now p" using oldest_Some by fastforce+
  have "queue_inv (upd (\<lambda>r. w_id r = w_id p) (hand_out newid reclaim now) db)"
    by (rule queue_inv_pick [OF assms(1,2) p(1)]) (use p(2) in \<open>auto simp: hand_out_def pollable_def\<close>)
  with Some assms(3) show ?thesis by (auto simp: PollOn_def)
qed

lemma inv_Claim:
  assumes "queue_inv db" "Claim db locked k ttl now = (db', res)"
  shows "queue_inv db'"
proof (cases "oldest (filter (claimable db locked k now) (q_items db))")
  case None
  with assms show ?thesis by (auto simp: Claim_def)
next
  case (Some p)
  then have p: "p \<in> set (q_items db)" "claimable db locked k now p" using oldest_Some by fastforce+
  obtain n where n: "n \<notin> w_id ` set (q_items db)"
    using ex_new_if_finite [of "w_id ` set (q_items db)"] infinite_UNIV_listI by blast
  have "queue_inv (upd (\<lambda>r. w_id r = w_id p) (\<lambda>r. r\<lparr>w_state := WActive, w_lease := Some (now + ttl)\<rparr>) db)"
    by (rule queue_inv_pick [OF assms(1) n p(1)]) (use p(2) in \<open>auto simp: claimable_def\<close>)
  with Some assms(2) show ?thesis by (auto simp: Claim_def)
qed

lemma inv_FinalizeAbandoned:
  "queue_inv db \<Longrightarrow> FinalizeAbandoned db env wid now = (db', b) \<Longrightarrow> queue_inv db'"
  by (auto simp: FinalizeAbandoned_def Let_def intro!: queue_inv_upd)

lemma inv_Extend: "queue_inv db \<Longrightarrow> Extend db it ttl now = Inr (db', it') \<Longrightarrow> queue_inv db'"
  by (auto simp: Extend_def held_def intro!: queue_inv_upd split: if_splits)

lemma inv_renewLive: "queue_inv db \<Longrightarrow> renewLive db it ttl now = Inr (db', it') \<Longrightarrow> queue_inv db'"
  by (auto simp: renewLive_def held_def intro!: queue_inv_upd split: if_splits)

lemma inv_requeue: "queue_inv db \<Longrightarrow> requeue db it chain delay now = Inr db' \<Longrightarrow> queue_inv db'"
  by (auto simp: requeue_def held_def intro!: queue_inv_upd split: if_splits)

lemma inv_RequeueAsGrading: "queue_inv db \<Longrightarrow> RequeueAsGrading db it = Inr db' \<Longrightarrow> queue_inv db'"
  by (auto simp: RequeueAsGrading_def held_def intro!: queue_inv_upd split: if_splits)

lemma inv_Complete: "queue_inv db \<Longrightarrow> Complete db it = Inr db' \<Longrightarrow> queue_inv db'"
  by (auto simp: Complete_def held_def intro!: queue_inv_upd split: if_splits)

lemma inv_CancelSession: "queue_inv db \<Longrightarrow> queue_inv (CancelSession db sess now)"
  by (auto simp: CancelSession_def stop_row_def intro!: queue_inv_upd)

lemma inv_CancelThread: "queue_inv db \<Longrightarrow> queue_inv (CancelThread db sess thr now)"
  by (auto simp: CancelThread_def stop_row_def intro!: queue_inv_upd)

section \<open>The hand-back contract\<close>

text \<open>
  What every operation that gives a claimed item back promises its claimant: it fails with
  \<open>ErrLeaseLost\<close> exactly when the proof no longer names the row, a success leaves the row
  inactive, and no other row moves.
\<close>

locale lease_guarded =
  fixes give_back :: "queue_db \<Rightarrow> item \<Rightarrow> queue_error + queue_db"
  assumes guard: "give_back db it = Inl e \<longleftrightarrow> e = ErrLeaseLost \<and> \<not> owns db it"
    and released: "queue_inv db \<Longrightarrow> give_back db it = Inr db' \<Longrightarrow> r \<in> set (q_items db') \<Longrightarrow>
      w_id r = it_id it \<Longrightarrow> w_state r \<noteq> WActive"
    and frame: "give_back db it = Inr db' \<Longrightarrow> w_id r \<noteq> it_id it \<Longrightarrow>
      r \<in> set (q_items db') \<longleftrightarrow> r \<in> set (q_items db)"
    and keeps: "queue_inv db \<Longrightarrow> give_back db it = Inr db' \<Longrightarrow> queue_inv db'"
begin

lemma succeeds_iff: "(\<exists>db'. give_back db it = Inr db') \<longleftrightarrow> owns db it"
  using guard [of db it] by (cases "give_back db it") auto

lemma not_owned_after:
  "queue_inv db \<Longrightarrow> give_back db it = Inr db' \<Longrightarrow> it_id it' = it_id it \<Longrightarrow> \<not> owns db' it'"
  by (auto simp: owns_def hits_def held_def dest: released)

lemma others_keep:
  "give_back db it = Inr db' \<Longrightarrow> it_id it' \<noteq> it_id it \<Longrightarrow> owns db' it' \<longleftrightarrow> owns db it'"
  by (auto simp: owns_def hits_def held_def frame)

lemma once: "queue_inv db \<Longrightarrow> give_back db it = Inr db' \<Longrightarrow> it_id it' = it_id it \<Longrightarrow>
    give_back db' it' = Inl ErrLeaseLost"
  using guard not_owned_after by blast

end

lemma upd_held_frame:
  assumes "\<And>r. w_id (f r) = w_id r" "w_id r \<noteq> it_id it"
  shows "r \<in> set (q_items (upd (held it) f db)) \<longleftrightarrow> r \<in> set (q_items db)"
proof -
  have h: "held it x \<Longrightarrow> w_id x = it_id it" for x by (simp add: held_def)
  show ?thesis
  proof
    assume "r \<in> set (q_items (upd (held it) f db))"
    then obtain x where "x \<in> set (q_items db)" "r = (if held it x then f x else x)" by auto
    with assms h [of x] show "r \<in> set (q_items db)" by (auto split: if_splits)
  next
    assume r: "r \<in> set (q_items db)"
    with assms(2) h [of r] show "r \<in> set (q_items (upd (held it) f db))" by (auto simp: image_iff)
  qed
qed

lemma upd_held_released:
  assumes "queue_inv db" "owns db it" "r \<in> set (q_items (upd (held it) f db))" "w_id r = it_id it"
    and "\<And>r. w_id (f r) = w_id r \<and> w_state (f r) \<noteq> WActive"
  shows "w_state r \<noteq> WActive"
proof -
  from assms(2) obtain h where h: "h \<in> set (q_items db)" "held it h" by (auto simp: owns_def hits_def)
  from assms(3) obtain x where x: "x \<in> set (q_items db)" "r = (if held it x then f x else x)" by auto
  have "w_id x = w_id h" using x(2) assms(4,5) h(2) by (auto simp: held_def split: if_splits)
  then have "x = h" using unique_row [OF assms(1) x(1) h(1)] by simp
  with x(2) h(2) assms(5) show ?thesis by simp
qed

interpretation complete: lease_guarded Complete
proof
  show "queue_inv db \<Longrightarrow> Complete db it = Inr db' \<Longrightarrow> r \<in> set (q_items db') \<Longrightarrow> w_id r = it_id it \<Longrightarrow>
      w_state r \<noteq> WActive" for db it db' r
    by (clarsimp simp: Complete_def simp del: q_upd split: if_splits; drule (3) upd_held_released; simp)
  show "Complete db it = Inr db' \<Longrightarrow> w_id r \<noteq> it_id it \<Longrightarrow> r \<in> set (q_items db') \<longleftrightarrow> r \<in> set (q_items db)"
    for db it db' r
    by (auto simp: Complete_def upd_held_frame simp del: q_upd split: if_splits)
qed (auto simp: Complete_def inv_Complete split: if_splits)

interpretation requeue: lease_guarded "\<lambda>db it. requeue db it chain delay now" for chain delay now
proof
  show "queue_inv db \<Longrightarrow> requeue db it chain delay now = Inr db' \<Longrightarrow> r \<in> set (q_items db') \<Longrightarrow>
      w_id r = it_id it \<Longrightarrow> w_state r \<noteq> WActive" for db it db' r
    by (clarsimp simp: requeue_def simp del: q_upd split: if_splits; drule (3) upd_held_released; simp)
  show "requeue db it chain delay now = Inr db' \<Longrightarrow> w_id r \<noteq> it_id it \<Longrightarrow>
      r \<in> set (q_items db') \<longleftrightarrow> r \<in> set (q_items db)" for db it db' r
    by (auto simp: requeue_def upd_held_frame simp del: q_upd split: if_splits)
qed (auto simp: requeue_def inv_requeue split: if_splits)

interpretation grading: lease_guarded RequeueAsGrading
proof
  show "queue_inv db \<Longrightarrow> RequeueAsGrading db it = Inr db' \<Longrightarrow> r \<in> set (q_items db') \<Longrightarrow>
      w_id r = it_id it \<Longrightarrow> w_state r \<noteq> WActive" for db it db' r
    by (clarsimp simp: RequeueAsGrading_def simp del: q_upd split: if_splits; drule (3) upd_held_released; simp)
  show "RequeueAsGrading db it = Inr db' \<Longrightarrow> w_id r \<noteq> it_id it \<Longrightarrow>
      r \<in> set (q_items db') \<longleftrightarrow> r \<in> set (q_items db)" for db it db' r
    by (auto simp: RequeueAsGrading_def upd_held_frame simp del: q_upd split: if_splits)
qed (auto simp: RequeueAsGrading_def inv_RequeueAsGrading split: if_splits)

section \<open>Properties\<close>

text \<open>A table to evaluate on: one cloud environment, one claimed model turn.\<close>

definition demo_q :: queue_db where
  "demo_q = \<lparr>q_items = [(new_row ''work_1'' ''env_c'' ''sesn_1'' [] ModelTurn 10 None)
        \<lparr>w_state := WActive, w_lease := Some 40\<rparr>],
     q_envs = [''env_c'' \<mapsto> EnvCloud, ''env_s'' \<mapsto> EnvSelfHosted], q_polls = []\<rparr>"

definition demo_item :: "int \<Rightarrow> bool \<Rightarrow> item" where
  "demo_item lease rec = \<lparr>it_id = ''work_1'', it_env = ''env_c'', it_session = ''sesn_1'', it_thread = [],
     it_kind = ModelTurn, it_lease = lease, it_reclaimed = rec, it_chain = 0, it_grading = False, it_trace = None\<rparr>"

lemma demo_q_inv: "queue_inv demo_q"
  by (simp add: queue_inv_def demo_q_def live_slots_def new_row_def)

lemma demo_q_claim: "\<exists>db'. Claim demo_q (\<lambda>_. False) ModelTurn 30 50 = (db', Some (demo_item 80 True))"
  by (simp add: Claim_def demo_q_def demo_item_def new_row_def claimable_def lapsed_def chain_of_def grading_of_def)

lemma Claim_Some:
  assumes "Claim db locked k ttl now = (db', Some it)"
  obtains p where "p \<in> set (q_items db)" "claimable db locked k now p"
    "\<And>x. x \<in> set (q_items db) \<Longrightarrow> claimable db locked k now x \<Longrightarrow> w_created p \<le> w_created x"
    "db' = upd (\<lambda>r. w_id r = w_id p) (\<lambda>r. r\<lparr>w_state := WActive, w_lease := Some (now + ttl)\<rparr>) db"
    "it_id it = w_id p" "it_lease it = now + ttl" "it_kind it = k" "it_reclaimed it \<longleftrightarrow> w_state p = WActive"
    "it_session it = w_session p" "it_thread it = w_thread p" "it_env it = w_env p"
proof -
  obtain p where p: "oldest (filter (claimable db locked k now) (q_items db)) = Some p"
    using assms by (auto simp: Claim_def split: option.splits)
  have "p \<in> set (q_items db)" "claimable db locked k now p"
      "\<forall>x \<in> set (q_items db). claimable db locked k now x \<longrightarrow> w_created p \<le> w_created x"
    using oldest_Some [OF p] by auto
  moreover have "w_kind p = k" using \<open>claimable db locked k now p\<close> by (simp add: claimable_def)
  ultimately show ?thesis using assms p by (intro that [of p]) (auto simp: Claim_def)
qed

lemma upd_id_row:
  assumes "p \<in> set (q_items db)" "w_id r = w_id p" "queue_inv db"
    and "r \<in> set (q_items (upd (\<lambda>r. w_id r = w_id p) f db))" "\<And>x. w_id (f x) = w_id x"
  shows "r = f p"
proof -
  from assms(4) obtain x where x: "x \<in> set (q_items db)" "r = (if w_id x = w_id p then f x else x)" by auto
  then have "w_id x = w_id p" using assms(2,5) by (simp split: if_splits)
  with unique_row [OF assms(3) x(1) assms(1)] x(2) show ?thesis by simp
qed

lemma upd_id_has:
  "p \<in> set (q_items db) \<Longrightarrow> f p \<in> set (q_items (upd (\<lambda>r. w_id r = w_id p) f db))"
  by auto

lemma upd_frame:
  assumes "\<And>x. P x \<Longrightarrow> \<not> Q x" "\<And>x. P x \<Longrightarrow> \<not> Q (f x)" "Q r"
  shows "r \<in> set (q_items (upd P f db)) \<longleftrightarrow> r \<in> set (q_items db)"
proof
  assume "r \<in> set (q_items (upd P f db))"
  then obtain x where "x \<in> set (q_items db)" "r = (if P x then f x else x)" by auto
  with assms show "r \<in> set (q_items db)" by (auto split: if_splits)
next
  assume "r \<in> set (q_items db)"
  with assms(1,3) show "r \<in> set (q_items (upd P f db))" by (auto simp: image_iff intro!: bexI [of _ r])
qed

lemma upd_all:
  assumes "r \<in> set (q_items (upd P f db))" "\<And>x. x \<in> set (q_items db) \<Longrightarrow> P x \<Longrightarrow> r = f x \<Longrightarrow> Q"
    "r \<in> set (q_items db) \<Longrightarrow> \<not> P r \<Longrightarrow> Q"
  shows Q
proof -
  from assms(1) obtain x where "x \<in> set (q_items db)" "r = (if P x then f x else x)" by auto
  with assms(2,3) show ?thesis by (cases "P x") simp_all
qed

lemma claim_owns: "Claim db locked k ttl now = (db', Some it) \<Longrightarrow> owns db' it"
proof -
  assume "Claim db locked k ttl now = (db', Some it)"
  then show ?thesis
  proof (rule Claim_Some)
    fix p
    let ?f = "\<lambda>r. r\<lparr>w_state := WActive, w_lease := Some (now + ttl)\<rparr>"
    assume p: "p \<in> set (q_items db)" "db' = upd (\<lambda>r. w_id r = w_id p) ?f db" "it_id it = w_id p" "it_lease it = now + ttl"
    have "held it (?f p)" using p(3,4) by (simp add: held_def)
    with upd_id_has [OF p(1), of ?f] p(2) show ?thesis unfolding owns_def hits_def by blast
  qed
qed

lemma new_row_simps [simp]:
  "slot (new_row w e s t k n c) = (s, t, k)" "w_state (new_row w e s t k n c) = WQueued"
  "w_id (new_row w e s t k n c) = w"
  by (simp_all add: slot_def new_row_def)

lemma hits_slot: "hits (\<lambda>x. is_live (w_state x) \<and> slot x = sl) d \<longleftrightarrow> sl \<in> set (live_slots d)"
  by (auto simp: hits_def live_slots_def image_iff)

lemma insert_item_slot:
  "insert_item db r = (if slot r \<in> set (live_slots db) then (db, False) else (db\<lparr>q_items := q_items db @ [r]\<rparr>, True))"
  by (simp add: insert_item_def hits_slot)

text \<open>
  A claim hands out the oldest claimable item of its kind and makes the claimant its owner;
  it returns nothing exactly when no unlocked item is claimable, and moves no other row.  An item
  counts as reclaimed iff its previous holder let the lease lapse.
\<close>

theorem claim_oldest_owned:
  assumes "queue_inv db" and "Claim db locked k ttl now = (db', res)"
  shows "case res of
     None \<Rightarrow> db' = db \<and> (\<forall>r \<in> set (q_items db). \<not> claimable db locked k now r)
   | Some it \<Rightarrow> owns db' it \<and>
       (\<exists>p \<in> set (q_items db). w_id p = it_id it \<and> claimable db locked k now p \<and>
          (it_reclaimed it \<longleftrightarrow> w_state p = WActive) \<and>
          (\<forall>r \<in> set (q_items db). claimable db locked k now r \<longrightarrow> w_created p \<le> w_created r) \<and>
          (\<forall>r. w_id r \<noteq> w_id p \<longrightarrow> (r \<in> set (q_items db') \<longleftrightarrow> r \<in> set (q_items db))))"
proof (cases res)
  case None
  with assms(2) have "oldest (filter (claimable db locked k now) (q_items db)) = None" "db' = db"
    by (auto simp: Claim_def split: option.splits)
  with None show ?thesis by (auto simp: oldest_None filter_empty_conv)
next
  case (Some it)
  with assms(2) have c: "Claim db locked k ttl now = (db', Some it)" by simp
  then show ?thesis
  proof (rule Claim_Some)
    fix p
    let ?f = "\<lambda>r. r\<lparr>w_state := WActive, w_lease := Some (now + ttl)\<rparr>"
    assume p: "p \<in> set (q_items db)" "claimable db locked k now p"
        "\<And>x. x \<in> set (q_items db) \<Longrightarrow> claimable db locked k now x \<Longrightarrow> w_created p \<le> w_created x"
        "db' = upd (\<lambda>r. w_id r = w_id p) ?f db" "it_id it = w_id p" "it_reclaimed it \<longleftrightarrow> w_state p = WActive"
    have fr: "r \<in> set (q_items db') \<longleftrightarrow> r \<in> set (q_items db)" if "w_id r \<noteq> w_id p" for r
      unfolding p(4) by (rule upd_frame [where Q = "\<lambda>x. w_id x \<noteq> w_id p"]) (use that in simp_all)
    show ?thesis unfolding Some option.case
      by (intro conjI claim_owns [OF c] bexI [OF _ p(1)] allI ballI impI fr p(2,3)) (simp_all add: p(5,6))
  qed
qed

theorem claim_oldest_owned_witness:
  "\<exists>db'. Claim demo_q (\<lambda>_. False) ModelTurn 30 50 = (db', Some (demo_item 80 True)) \<and> owns db' (demo_item 80 True)"
proof -
  obtain db' where c: "Claim demo_q (\<lambda>_. False) ModelTurn 30 50 = (db', Some (demo_item 80 True))"
    using demo_q_claim by blast
  with claim_oldest_owned [OF demo_q_inv c] show ?thesis by auto
qed

text \<open>
  C3: a claimant that lost its item to a reclaim can write nothing under its old proof.  Once
  another claim has handed the same item out, the first claimant's extend, complete, requeue,
  requeue-as-grading and assert all answer \<open>ErrLeaseLost\<close>, and the second claimant owns the item.
\<close>

theorem reclaim_revokes_proof:
  assumes "queue_inv db" and "owns db it" and "Claim db locked k ttl now = (db', Some it')"
    and "it_id it' = it_id it" and "0 \<le> ttl"
  shows "it_reclaimed it' \<and> it_lease it < now \<and> owns db' it' \<and>
     Extend db' it ttl' now' = Inl ErrLeaseLost \<and> renewLive db' it ttl' now' = Inl ErrLeaseLost \<and>
     Complete db' it = Inl ErrLeaseLost \<and> requeue db' it chain delay now' = Inl ErrLeaseLost \<and>
     RequeueAsGrading db' it = Inl ErrLeaseLost \<and> Assert db' it = Inl ErrLeaseLost"
proof -
  from assms(3) have "it_reclaimed it' \<and> it_lease it < now \<and> \<not> owns db' it"
  proof (rule Claim_Some)
    fix p
    let ?f = "\<lambda>r. r\<lparr>w_state := WActive, w_lease := Some (now + ttl)\<rparr>"
    assume p: "p \<in> set (q_items db)" "claimable db locked k now p" "db' = upd (\<lambda>r. w_id r = w_id p) ?f db"
      "it_id it' = w_id p" "it_reclaimed it' \<longleftrightarrow> w_state p = WActive"
    obtain h where h: "h \<in> set (q_items db)" "held it h" using assms(2) by (auto simp: owns_def hits_def)
    then have "h = p" using unique_row [OF assms(1) h(1) p(1)] p(4) assms(4) by (simp add: held_def)
    with h p(2) have l: "w_state p = WActive" "it_lease it < now" by (auto simp: held_def claimable_def lapsed_def)
    have "\<not> held it r" if r: "r \<in> set (q_items db')" for r
    proof
      assume hr: "held it r"
      then have "w_id r = w_id p" using p(4) assms(4) by (simp add: held_def)
      then have "r = ?f p" by (rule upd_id_row [OF p(1) _ assms(1) r [unfolded p(3)]]) simp
      with hr l(2) assms(5) show False by (simp add: held_def)
    qed
    then have "\<not> owns db' it" by (auto simp: owns_def hits_def)
    with l p(5) show ?thesis by simp
  qed
  moreover from this have "\<not> hits (\<lambda>r. held it r \<and> now' < it_lease it) db'" by (auto simp: owns_def hits_def)
  ultimately show ?thesis using claim_owns [OF assms(3)]
    by (simp add: Extend_def renewLive_def Complete_def requeue_def RequeueAsGrading_def Assert_def)
qed

theorem reclaim_revokes_proof_witness:
  "\<exists>db'. Claim demo_q (\<lambda>_. False) ModelTurn 30 50 = (db', Some (demo_item 80 True)) \<and>
     Complete db' (demo_item 40 False) = Inl ErrLeaseLost"
proof -
  obtain db' where c: "Claim demo_q (\<lambda>_. False) ModelTurn 30 50 = (db', Some (demo_item 80 True))"
    using demo_q_claim by blast
  have o: "owns demo_q (demo_item 40 False)"
    by (simp add: owns_def hits_def held_def demo_q_def demo_item_def new_row_def)
  show ?thesis using reclaim_revokes_proof [OF demo_q_inv o c] c by (simp add: demo_item_def)
qed

text \<open>
  C4: an item is settled at most once.  After one successful complete, requeue or
  requeue-as-grading, no proof for that item, the same or another, settles it again.
\<close>

theorem settle_once:
  assumes "queue_inv db" and "it_id it' = it_id it"
    and "Complete db it = Inr db' \<or> requeue db it chain delay now = Inr db' \<or> RequeueAsGrading db it = Inr db'"
  shows "Complete db' it' = Inl ErrLeaseLost \<and> requeue db' it' chain' delay' now' = Inl ErrLeaseLost \<and>
    RequeueAsGrading db' it' = Inl ErrLeaseLost \<and> Assert db' it' = Inl ErrLeaseLost"
proof -
  have "\<not> owns db' it'"
    using assms complete.not_owned_after requeue.not_owned_after grading.not_owned_after by blast
  then show ?thesis by (simp add: Complete_def requeue_def RequeueAsGrading_def Assert_def)
qed

theorem settle_once_witness:
  "\<exists>db'. Complete demo_q (demo_item 40 False) = Inr db' \<and> Complete db' (demo_item 40 True) = Inl ErrLeaseLost"
proof -
  have "owns demo_q (demo_item 40 False)"
    by (simp add: owns_def hits_def held_def demo_q_def demo_item_def new_row_def)
  then obtain db' where c: "Complete demo_q (demo_item 40 False) = Inr db'"
    using complete.succeeds_iff by blast
  show ?thesis
    using settle_once [OF demo_q_inv, of "demo_item 40 True" "demo_item 40 False"] c
    by (simp add: demo_item_def)
qed

text \<open>
  enqueue schedules at most one live item per session, thread and kind: it creates one
  exactly when none is live, and then a second enqueue of the same slot creates nothing and
  changes nothing.
\<close>

theorem enqueue_idempotent:
  assumes "EnqueueThread db wid env sess thr k now ctx = (db', created, notified)"
  shows "(created \<longleftrightarrow> (sess, thr, k) \<notin> set (live_slots db)) \<and> (\<not> created \<longrightarrow> db' = db) \<and>
     (notified = (if created \<and> k = ToolExec then Some env else None)) \<and>
     EnqueueThread db' wid' env' sess thr k now' ctx' = (db', False, None)"
proof (cases "(sess, thr, k) \<in> set (live_slots db)")
  case True
  with assms have "db' = db" "\<not> created" "notified = None"
    by (simp_all add: EnqueueThread_def Let_def insert_item_slot)
  with True show ?thesis by (simp add: EnqueueThread_def Let_def insert_item_slot)
next
  case False
  then obtain c where d: "db' = db\<lparr>q_items := q_items db @ [new_row wid env sess thr k now c]\<rparr>"
      and cr: "created" "notified = (if k = ToolExec then Some env else None)"
    using assms by (auto simp: EnqueueThread_def Let_def insert_item_slot)
  have "(sess, thr, k) \<in> set (live_slots db')" by (simp add: d live_slots_def)
  then have "EnqueueThread db' wid' env' sess thr k now' ctx' = (db', False, None)"
    by (simp add: EnqueueThread_def Let_def insert_item_slot)
  with False cr show ?thesis by simp
qed

theorem enqueue_idempotent_witness:
  "\<exists>db'. EnqueueThread demo_q ''work_2'' ''env_c'' ''sesn_1'' [] ToolExec 60 None = (db', True, Some ''env_c'') \<and>
     EnqueueThread db' ''work_3'' ''env_c'' ''sesn_1'' [] ToolExec 61 None = (db', False, None)"
proof -
  obtain db' where e: "EnqueueThread demo_q ''work_2'' ''env_c'' ''sesn_1'' [] ToolExec 60 None = (db', True, Some ''env_c'')"
    by (simp add: EnqueueThread_def insert_item_def hits_def demo_q_def new_row_def slot_def)
  with enqueue_idempotent [OF e, of "''work_3''" "''env_c''" 61 None] show ?thesis by simp
qed

text \<open>
  One tool_exec item is never served in-process and over the wire at once: the rows a claim
  may take and the rows a poll may take are disjoint, whatever the instants and locks.
\<close>

theorem claim_poll_disjoint:
  "claimable db locked k now r \<Longrightarrow> \<not> pollable db locked' env now' r"
  by (auto simp: claimable_def pollable_def env_is_def)

theorem claim_poll_disjoint_witness:
  "\<not> pollable demo_q (\<lambda>_. False) ''env_c'' 50 (hd (q_items demo_q))"
  by (rule claim_poll_disjoint [where locked = "\<lambda>_. False" and k = ModelTurn and now = 50])
     (simp add: claimable_def demo_q_def new_row_def lapsed_def)

text \<open>
  A session interrupt takes the session's work away from whoever holds it: afterwards no item
  of the session is live, every proof on one of its items is lost, and its slots are free again,
  while other sessions' items are untouched.
\<close>

theorem cancel_session_revokes:
  shows "(\<forall>r \<in> set (q_items (CancelSession db sess now)). w_session r = sess \<longrightarrow> w_state r = WStopped) \<and>
     (\<forall>it. owns (CancelSession db sess now) it \<longrightarrow>
        (\<exists>r \<in> set (q_items db). held it r \<and> w_session r \<noteq> sess)) \<and>
     (\<forall>r. w_session r \<noteq> sess \<longrightarrow> (r \<in> set (q_items (CancelSession db sess now)) \<longleftrightarrow> r \<in> set (q_items db)))"
proof (intro conjI ballI allI impI)
  show st: "w_state r = WStopped" if "r \<in> set (q_items (CancelSession db sess now))" "w_session r = sess" for r
    by (rule upd_all [OF that(1) [unfolded CancelSession_def]]) (use that(2) in \<open>simp_all add: stop_row_def\<close>)
  show fr: "r \<in> set (q_items (CancelSession db sess now)) \<longleftrightarrow> r \<in> set (q_items db)" if "w_session r \<noteq> sess" for r
    unfolding CancelSession_def
    by (rule upd_frame [where Q = "\<lambda>x. w_session x \<noteq> sess"]) (use that in \<open>simp_all add: stop_row_def\<close>)
  fix it assume "owns (CancelSession db sess now) it"
  then obtain r where r: "r \<in> set (q_items (CancelSession db sess now))" "held it r" by (auto simp: owns_def hits_def)
  then have "w_session r \<noteq> sess" using st by (auto simp: held_def)
  with r fr show "\<exists>r \<in> set (q_items db). held it r \<and> w_session r \<noteq> sess" by blast
qed

theorem cancel_session_revokes_witness:
  "\<not> owns (CancelSession demo_q ''sesn_1'' 45) (demo_item 40 False)"
  using cancel_session_revokes [of demo_q "''sesn_1''" 45]
  by (auto simp: demo_q_def new_row_def)

end
