(* ===== verification/Work_Lifecycle.thy ===== *)
theory Work_Lifecycle
  imports Work_Queue
begin

text \<open>
  \<^verbatim>\<open>internal/queue/lifecycle.go\<close> and \<^verbatim>\<open>stats.go\<close>: the worker-facing half of the queue (get,
  list, ack, heartbeat, stop, metadata patch, statistics) and, over both halves, the step
  relation \<open>qstep\<close> with the invariant of its reachable states.  Two things the code takes from
  outside are parameters: the timestamp parser of a heartbeat's precondition and the database's
  text order, whose laws are the locale \<open>text_order\<close> of \<open>Work_Listing\<close>.
\<close>

section \<open>The work API's scope\<close>

definition wire_row :: "(id \<Rightarrow> env_kind option) \<Rightarrow> work_row \<Rightarrow> bool" where
  "wire_row envs r \<longleftrightarrow> w_kind r = ToolExec \<and> envs (w_env r) = Some EnvSelfHosted"

definition visible :: "queue_db \<Rightarrow> id \<Rightarrow> id \<Rightarrow> work_row \<Rightarrow> bool" where
  "visible db env wid r \<longleftrightarrow> w_id r = wid \<and> w_env r = env \<and> wire_row (q_envs db) r"

definition HasUndrainedWork :: "queue_db \<Rightarrow> id \<Rightarrow> bool" where
  "HasUndrainedWork db env \<longleftrightarrow> hits (\<lambda>r. w_env r = env \<and> wire_row (q_envs db) r \<and> w_state r \<noteq> WStopped) db"

definition GetWork :: "queue_db \<Rightarrow> id \<Rightarrow> id \<Rightarrow> queue_error + work_row" where
  "GetWork db env wid = (case find (visible db env wid) (q_items db) of None \<Rightarrow> Inl ErrWorkNotFound | Some r \<Rightarrow> Inr r)"

text \<open>\<^verbatim>\<open>UPDATE ... WHERE visible AND P RETURNING\<close>: the row as updated, if one matched.\<close>

definition update_returning ::
  "queue_db \<Rightarrow> (work_row \<Rightarrow> bool) \<Rightarrow> (work_row \<Rightarrow> work_row) \<Rightarrow> (queue_db \<times> work_row) option" where
  "update_returning db P f = (case find P (q_items db) of None \<Rightarrow> None | Some r \<Rightarrow> Some (upd P f db, f r))"

section \<open>ListWork\<close>

text \<open>\<open>after_key lt k r\<close>: row \<open>r\<close> sorts strictly below the keyset position \<open>k\<close>.\<close>

definition key_lt :: "(id \<Rightarrow> id \<Rightarrow> bool) \<Rightarrow> int \<times> id \<Rightarrow> int \<times> id \<Rightarrow> bool" where
  "key_lt lt a b \<longleftrightarrow> fst a < fst b \<or> (fst a = fst b \<and> lt (snd a) (snd b))"

definition row_key :: "work_row \<Rightarrow> int \<times> id" where
  "row_key r = (w_created r, w_id r)"

fun insert_desc :: "(id \<Rightarrow> id \<Rightarrow> bool) \<Rightarrow> work_row \<Rightarrow> work_row list \<Rightarrow> work_row list" where
  "insert_desc lt r [] = [r]"
| "insert_desc lt r (x # xs) = (if key_lt lt (row_key r) (row_key x) then x # insert_desc lt r xs else r # x # xs)"

definition sort_desc :: "(id \<Rightarrow> id \<Rightarrow> bool) \<Rightarrow> work_row list \<Rightarrow> work_row list" where
  "sort_desc lt rs = foldr (insert_desc lt) rs []"

definition ListWork :: "(id \<Rightarrow> id \<Rightarrow> bool) \<Rightarrow> queue_db \<Rightarrow> id \<Rightarrow> (int \<times> id) option \<Rightarrow> nat \<Rightarrow> work_row list" where
  "ListWork lt db env after fetch =
     take fetch (sort_desc lt (filter (\<lambda>r. w_env r = env \<and> wire_row (q_envs db) r \<and>
       (case after of None \<Rightarrow> True | Some k \<Rightarrow> key_lt lt (row_key r) k)) (q_items db)))"

section \<open>Ack, heartbeat, stop, metadata\<close>

definition second :: int where
  "second = 1000000"

definition ackStartupLeaseSeconds :: int where
  "ackStartupLeaseSeconds = 30"

definition ack_row :: "int \<Rightarrow> work_row \<Rightarrow> work_row" where
  "ack_row now r = r\<lparr>
     w_state := (if w_state r = WQueued then WStarting else w_state r),
     w_acked := (if w_state r = WQueued then Some now else w_acked r),
     w_lease := (if w_state r = WQueued then Some (now + ackStartupLeaseSeconds * second) else w_lease r),
     w_started := coalesce (w_started r) (w_created r)\<rparr>"

definition Ack :: "queue_db \<Rightarrow> id \<Rightarrow> id \<Rightarrow> int \<Rightarrow> queue_error + queue_db \<times> work_row" where
  "Ack db env wid now =
     (case update_returning db (visible db env wid) (ack_row now) of
        None \<Rightarrow> Inl ErrWorkNotFound | Some res \<Rightarrow> Inr res)"

definition NoHeartbeat :: string where
  "NoHeartbeat = ''NO_HEARTBEAT''"

record heartbeat_result =
  hb_last :: "int option"
  hb_state :: wstate
  hb_extended :: bool
  hb_ttl :: int

datatype beat_error = BeatWorkNotFound | HeartbeatMismatchError work_row int string

definition first_beat :: "int \<Rightarrow> int \<Rightarrow> work_row \<Rightarrow> work_row" where
  "first_beat ttl now r = r\<lparr>w_beat := Some now, w_state := WActive,
     w_started := coalesce (w_started r) (w_created r), w_lease := Some (now + ttl * second)\<rparr>"

definition echo_beat :: "int \<Rightarrow> int \<Rightarrow> work_row \<Rightarrow> work_row" where
  "echo_beat ttl now r =
     (if w_state r = WActive then r\<lparr>w_beat := Some now, w_lease := Some (now + ttl * second)\<rparr> else r)"

definition beat_update ::
  "(string \<Rightarrow> int option) \<Rightarrow> queue_db \<Rightarrow> id \<Rightarrow> id \<Rightarrow> string \<Rightarrow> int \<Rightarrow> int \<Rightarrow> (queue_db \<times> work_row) option" where
  "beat_update parse db env wid expected ttl now =
     (if expected = NoHeartbeat
      then update_returning db (\<lambda>r. visible db env wid r \<and> w_beat r = None \<and> w_state r = WStarting) (first_beat ttl now)
      else case parse expected of
        None \<Rightarrow> None
      | Some ts \<Rightarrow> update_returning db (\<lambda>r. visible db env wid r \<and> w_beat r = Some ts) (echo_beat ttl now))"

definition Heartbeat ::
  "(string \<Rightarrow> int option) \<Rightarrow> queue_db \<Rightarrow> id \<Rightarrow> id \<Rightarrow> string \<Rightarrow> int \<Rightarrow> int \<Rightarrow> beat_error + queue_db \<times> heartbeat_result" where
  "Heartbeat parse db env wid expected ttl now =
     (case beat_update parse db env wid expected ttl now of
        Some (db', r) \<Rightarrow> Inr (db', \<lparr>hb_last = w_beat r, hb_state = w_state r, hb_extended = (w_state r = WActive), hb_ttl = ttl\<rparr>)
      | None \<Rightarrow>
          (case GetWork db env wid of
             Inl _ \<Rightarrow> Inl BeatWorkNotFound
           | Inr w \<Rightarrow>
               if expected = NoHeartbeat \<and> w_state w = WStopping \<and> w_beat w = None
               then Inr (db, \<lparr>hb_last = None, hb_state = WStopping, hb_extended = False, hb_ttl = ttl\<rparr>)
               else Inl (HeartbeatMismatchError w ttl expected)))"

definition graceful_row :: "int \<Rightarrow> work_row \<Rightarrow> work_row" where
  "graceful_row now r =
     (let acked = (w_state r = WStarting \<or> w_state r = WActive) in
      r\<lparr>w_state := (if acked then WStopping else WStopped), w_stop_req := coalesce (w_stop_req r) now,
        w_stopped := (if acked then w_stopped r else Some now), w_lease := (if acked then w_lease r else None)\<rparr>)"

definition StopWith :: "queue_db \<Rightarrow> id \<Rightarrow> id \<Rightarrow> bool \<Rightarrow> int \<Rightarrow> queue_error + queue_db \<times> work_row \<times> bool" where
  "StopWith db env wid force now =
     (case (if force then update_returning db (\<lambda>r. visible db env wid r \<and> w_state r \<noteq> WStopped) (stop_row now)
            else update_returning db (\<lambda>r. visible db env wid r \<and> is_live (w_state r)) (graceful_row now)) of
        Some (db', r) \<Rightarrow> Inr (db', r, True)
      | None \<Rightarrow> (case GetWork db env wid of Inl e \<Rightarrow> Inl e | Inr w \<Rightarrow> Inr (db, w, False)))"

text \<open>\<^verbatim>\<open>(metadata || upserts) - deletes\<close>.\<close>

definition patch_meta :: "(string \<times> string) list \<Rightarrow> string list \<Rightarrow> (string \<Rightarrow> mval option) \<Rightarrow> string \<Rightarrow> mval option" where
  "patch_meta upserts deletes md k =
     (if k \<in> set deletes then None
      else case map_of upserts k of Some v \<Rightarrow> Some (MStr v) | None \<Rightarrow> md k)"

definition UpdateMetadata ::
  "queue_db \<Rightarrow> id \<Rightarrow> id \<Rightarrow> (string \<times> string) list \<Rightarrow> string list \<Rightarrow> queue_error + queue_db \<times> work_row" where
  "UpdateMetadata db env wid upserts deletes =
     (case update_returning db (visible db env wid) (\<lambda>r. r\<lparr>w_meta := patch_meta upserts deletes (w_meta r)\<rparr>) of
        None \<Rightarrow> Inl ErrWorkNotFound | Some res \<Rightarrow> Inr res)"

section \<open>Statistics\<close>

definition workersPollingWindowSeconds :: int where
  "workersPollingWindowSeconds = 30"

record work_stats =
  ws_depth :: nat
  ws_pending :: nat
  ws_oldest :: "int option"
  ws_workers :: nat

definition queued_rows :: "queue_db \<Rightarrow> id \<Rightarrow> work_row list" where
  "queued_rows db env = filter (\<lambda>r. w_env r = env \<and> w_state r = WQueued \<and> wire_row (q_envs db) r) (q_items db)"

definition polling :: "queue_db \<Rightarrow> id \<Rightarrow> int \<Rightarrow> id list" where
  "polling db env now = remdups (map (\<lambda>(_, w, _). w)
     (filter (\<lambda>(e, _, t). e = env \<and> t > now - workersPollingWindowSeconds * second \<and> env_is db env EnvSelfHosted) (q_polls db)))"

definition Stats :: "queue_db \<Rightarrow> id \<Rightarrow> int \<Rightarrow> work_stats" where
  "Stats db env now =
     \<lparr>ws_depth = length (filter (\<lambda>r. w_lease r = None \<or> lapsed r now) (queued_rows db env)),
      ws_pending = length (filter (\<lambda>r. case w_lease r of None \<Rightarrow> False | Some l \<Rightarrow> l \<ge> now) (queued_rows db env)),
      ws_oldest = map_option w_created (oldest (queued_rows db env)),
      ws_workers = length (polling db env now)\<rparr>"

definition RecordPoll :: "queue_db \<Rightarrow> id \<Rightarrow> id \<Rightarrow> int \<Rightarrow> queue_db" where
  "RecordPoll db env worker now = db\<lparr>q_polls :=
     (env, worker, now) # filter (\<lambda>(e, w, t). \<not> (e = env \<and> (w = worker \<or> t < now - workersPollingWindowSeconds * second)))
       (q_polls db)\<rparr>"

section \<open>The step relation\<close>

text \<open>
  The queue with the lease proofs handed out in-process.  A step is one operation by any
  process at any instant; a claimant acts only under a proof some claim gave out (and its
  renewals), and a fresh id is one no row and no proof carries.
\<close>

record queue_sys =
  y_db :: queue_db
  y_proofs :: "item list"

definition fresh_id :: "queue_sys \<Rightarrow> id \<Rightarrow> bool" where
  "fresh_id y n \<longleftrightarrow> n \<notin> w_id ` set (q_items (y_db y)) \<and> n \<notin> it_id ` set (y_proofs y)"

inductive qstep :: "queue_sys \<Rightarrow> queue_sys \<Rightarrow> bool" where
  enqueue: "fresh_id y wid \<Longrightarrow> EnqueueThread (y_db y) wid env sess thr k now ctx = (db', res) \<Longrightarrow> qstep y (y\<lparr>y_db := db'\<rparr>)"
| harvest: "fresh_id y wid \<Longrightarrow> EnqueueOutputsHarvest (y_db y) wid env sess g now ctx = (db', res) \<Longrightarrow> qstep y (y\<lparr>y_db := db'\<rparr>)"
| claim: "Claim (y_db y) locked k ttl now = (db', Some it) \<Longrightarrow> qstep y (y\<lparr>y_db := db', y_proofs := it # y_proofs y\<rparr>)"
| poll: "fresh_id y newid \<Longrightarrow> PollOn (y_db y) locked env reclaim newid now = (db', res) \<Longrightarrow> qstep y (y\<lparr>y_db := db'\<rparr>)"
| finalize: "FinalizeAbandoned (y_db y) env wid now = (db', b) \<Longrightarrow> qstep y (y\<lparr>y_db := db'\<rparr>)"
| extend: "it \<in> set (y_proofs y) \<Longrightarrow> Extend (y_db y) it ttl now = Inr (db', it') \<Longrightarrow>
    qstep y (y\<lparr>y_db := db', y_proofs := it' # y_proofs y\<rparr>)"
| renew: "it \<in> set (y_proofs y) \<Longrightarrow> renewLive (y_db y) it ttl now = Inr (db', it') \<Longrightarrow>
    qstep y (y\<lparr>y_db := db', y_proofs := it' # y_proofs y\<rparr>)"
| requeue: "it \<in> set (y_proofs y) \<Longrightarrow> requeue (y_db y) it chain delay now = Inr db' \<Longrightarrow> qstep y (y\<lparr>y_db := db'\<rparr>)"
| grading: "it \<in> set (y_proofs y) \<Longrightarrow> RequeueAsGrading (y_db y) it = Inr db' \<Longrightarrow> qstep y (y\<lparr>y_db := db'\<rparr>)"
| complete: "it \<in> set (y_proofs y) \<Longrightarrow> Complete (y_db y) it = Inr db' \<Longrightarrow> qstep y (y\<lparr>y_db := db'\<rparr>)"
| cancel_session: "qstep y (y\<lparr>y_db := CancelSession (y_db y) sess now\<rparr>)"
| cancel_thread: "qstep y (y\<lparr>y_db := CancelThread (y_db y) sess thr now\<rparr>)"
| ack: "Ack (y_db y) env wid now = Inr (db', r) \<Longrightarrow> qstep y (y\<lparr>y_db := db'\<rparr>)"
| heartbeat: "Heartbeat parse (y_db y) env wid expected ttl now = Inr (db', r) \<Longrightarrow> qstep y (y\<lparr>y_db := db'\<rparr>)"
| stop: "StopWith (y_db y) env wid force now = Inr (db', r) \<Longrightarrow> qstep y (y\<lparr>y_db := db'\<rparr>)"
| metadata: "UpdateMetadata (y_db y) env wid ups dels = Inr (db', r) \<Longrightarrow> qstep y (y\<lparr>y_db := db'\<rparr>)"
| record_poll: "qstep y (y\<lparr>y_db := RecordPoll (y_db y) env worker now\<rparr>)"

inductive qreach :: "(id \<Rightarrow> env_kind option) \<Rightarrow> queue_sys \<Rightarrow> bool" for envs where
  start: "qreach envs \<lparr>y_db = \<lparr>q_items = [], q_envs = envs, q_polls = []\<rparr>, y_proofs = []\<rparr>"
| step: "qreach envs y \<Longrightarrow> qstep y y' \<Longrightarrow> qreach envs y'"

text \<open>
  The life of a row: who may hold it in which state.  Only a worker's item is ever starting or
  stopping; a starting one is acked and has not beaten, a worker's active one has beaten, a row
  the platform holds never has; a stop is requested exactly on the way out.
\<close>

definition row_ok :: "(id \<Rightarrow> env_kind option) \<Rightarrow> work_row \<Rightarrow> bool" where
  "row_ok envs r \<longleftrightarrow> lease_ok r
     \<and> (w_state r = WQueued \<longrightarrow> w_beat r = None)
     \<and> (w_state r = WStarting \<longrightarrow> wire_row envs r \<and> w_acked r \<noteq> None \<and> w_beat r = None)
     \<and> (w_state r = WActive \<longrightarrow> (wire_row envs r \<longleftrightarrow> w_beat r \<noteq> None))
     \<and> (w_state r = WStopping \<longrightarrow> wire_row envs r \<and> w_stop_req r \<noteq> None)
     \<and> (w_stop_req r \<noteq> None \<longrightarrow> w_state r = WStopping \<or> w_state r = WStopped)"

definition sys_inv :: "queue_sys \<Rightarrow> bool" where
  "sys_inv y \<longleftrightarrow> queue_inv (y_db y) \<and> (\<forall>r \<in> set (q_items (y_db y)). row_ok (q_envs (y_db y)) r
     \<and> (\<forall>it \<in> set (y_proofs y). it_id it = w_id r \<longrightarrow> \<not> wire_row (q_envs (y_db y)) r))"

lemma wire_row_upd [simp]:
  "wire_row e (r\<lparr>w_state := s\<rparr>) = wire_row e r" "wire_row e (r\<lparr>w_lease := l\<rparr>) = wire_row e r"
  "wire_row e (r\<lparr>w_meta := mt\<rparr>) = wire_row e r" "wire_row e (r\<lparr>w_id := i\<rparr>) = wire_row e r"
  "wire_row e (r\<lparr>w_acked := a\<rparr>) = wire_row e r" "wire_row e (r\<lparr>w_started := a\<rparr>) = wire_row e r"
  "wire_row e (r\<lparr>w_stop_req := a\<rparr>) = wire_row e r" "wire_row e (r\<lparr>w_stopped := a\<rparr>) = wire_row e r"
  "wire_row e (r\<lparr>w_beat := a\<rparr>) = wire_row e r"
  by (simp_all add: wire_row_def)

lemma coalesce_ne [simp]: "coalesce a b \<noteq> None"
  by (cases a) (simp_all add: coalesce_def)

lemma sys_invI:
  assumes inv: "sys_inv y" "queue_inv (upd P f (y_db y))"
    and f: "\<And>r. r \<in> set (q_items (y_db y)) \<Longrightarrow> P r \<Longrightarrow> row_ok (q_envs (y_db y)) r \<Longrightarrow>
      row_ok (q_envs (y_db y)) (f r) \<and> (wire_row (q_envs (y_db y)) (f r) \<longleftrightarrow> wire_row (q_envs (y_db y)) r) \<and>
      (w_id (f r) = w_id r \<or> fresh_id y (w_id (f r)))"
  shows "sys_inv (y\<lparr>y_db := upd P f (y_db y)\<rparr>)"
  unfolding sys_inv_def
proof (intro conjI ballI impI)
  fix r assume "r \<in> set (q_items (y_db (y\<lparr>y_db := upd P f (y_db y)\<rparr>)))"
  then obtain x where x: "x \<in> set (q_items (y_db y))" "r = (if P x then f x else x)" by auto
  have ok: "row_ok (q_envs (y_db y)) x" using inv(1) x(1) by (auto simp: sys_inv_def)
  show "row_ok (q_envs (y_db (y\<lparr>y_db := upd P f (y_db y)\<rparr>))) r" using f [OF x(1) _ ok] x(2) ok by auto
  fix it assume it: "it \<in> set (y_proofs (y\<lparr>y_db := upd P f (y_db y)\<rparr>))" "it_id it = w_id r"
  then have "\<not> fresh_id y (w_id r)" unfolding fresh_id_def by force
  with f [OF x(1) _ ok] x(2) have "w_id r = w_id x"
      "wire_row (q_envs (y_db y)) r \<longleftrightarrow> wire_row (q_envs (y_db y)) x" by (auto split: if_splits)
  with inv(1) x(1) it show "\<not> wire_row (q_envs (y_db (y\<lparr>y_db := upd P f (y_db y)\<rparr>))) r"
    by (auto simp: sys_inv_def)
qed (use inv in simp)

lemma sys_inv_proof:
  assumes "sys_inv y" and "it' \<in> set (y_proofs y) \<or> (\<exists>r \<in> set (q_items (y_db y)). w_id r = it_id it' \<and> \<not> wire_row (q_envs (y_db y)) r)"
    and "it_id it = it_id it'"
  shows "sys_inv (y\<lparr>y_proofs := it # y_proofs y\<rparr>)"
proof -
  have "\<not> wire_row (q_envs (y_db y)) r" if "r \<in> set (q_items (y_db y))" "w_id r = it_id it'" for r
    using assms(1,2) that unique_row [of "y_db y"] unfolding sys_inv_def by metis
  with assms(1,3) show ?thesis by (auto simp: sys_inv_def)
qed

lemma sys_inv_insert:
  assumes "sys_inv y" "fresh_id y (w_id r)" "row_ok (q_envs (y_db y)) r" "w_state r = WQueued"
    and "insert_item (y_db y) r = (db', created)"
  shows "sys_inv (y\<lparr>y_db := db'\<rparr>)"
proof -
  have "queue_inv db'"
    using queue_inv_insert [OF _ _ assms(4,5)] assms(1,2) by (simp add: sys_inv_def fresh_id_def)
  then show ?thesis using assms
    by (fastforce simp: sys_inv_def insert_item_def fresh_id_def image_iff split: if_splits)
qed

lemma update_returning_Some:
  "update_returning db P f = Some (db', r) \<longleftrightarrow> (\<exists>x. find P (q_items db) = Some x \<and> db' = upd P f db \<and> r = f x)"
  by (auto simp: update_returning_def split: option.splits)

lemma queue_inv_of [simp]: "sys_inv y \<Longrightarrow> queue_inv (y_db y)"
  by (simp add: sys_inv_def)

lemma sys_inv_pick:
  assumes "sys_inv y" "p \<in> set (q_items (y_db y))" "queue_inv (upd (\<lambda>r. w_id r = w_id p) f (y_db y))"
    and "row_ok (q_envs (y_db y)) p \<Longrightarrow> row_ok (q_envs (y_db y)) (f p)"
    and "wire_row (q_envs (y_db y)) (f p) \<longleftrightarrow> wire_row (q_envs (y_db y)) p"
    and "w_id (f p) = w_id p \<or> fresh_id y (w_id (f p))"
  shows "sys_inv (y\<lparr>y_db := upd (\<lambda>r. w_id r = w_id p) f (y_db y)\<rparr>)"
proof (rule sys_invI [OF assms(1,3)])
  fix r assume "r \<in> set (q_items (y_db y))" "w_id r = w_id p" and ok: "row_ok (q_envs (y_db y)) r"
  then have "r = p" using unique_row [of "y_db y" r p] assms(1,2) by simp
  with ok assms(4-6) show "row_ok (q_envs (y_db y)) (f r) \<and> (wire_row (q_envs (y_db y)) (f r) \<longleftrightarrow> wire_row (q_envs (y_db y)) r)
      \<and> (w_id (f r) = w_id r \<or> fresh_id y (w_id (f r)))" by simp
qed

lemma row_ok_hand_out: "row_ok e r \<Longrightarrow> is_live (w_state r) \<Longrightarrow> row_ok e (hand_out n reclaim now r)"
  by (auto simp: row_ok_def hand_out_def is_live_def)

lemma sys_inv_poll:
  assumes "sys_inv y" "fresh_id y newid" "PollOn (y_db y) locked env reclaim newid now = (db', res)"
  shows "sys_inv (y\<lparr>y_db := db'\<rparr>)"
proof (cases "oldest (filter (pollable (y_db y) locked env now) (q_items (y_db y)))")
  case None
  with assms(3) have "db' = y_db y" by (simp add: PollOn_def)
  with assms(1) show ?thesis by simp
next
  case (Some p)
  then have p: "p \<in> set (q_items (y_db y))" using oldest_Some by fastforce
  have q: "pollable (y_db y) locked env now p" using Some oldest_Some by fastforce
  have d: "db' = upd (\<lambda>r. w_id r = w_id p) (hand_out newid reclaim now) (y_db y)"
    using Some assms(3) by (simp add: PollOn_def)
  have i: "queue_inv db'" using inv_PollOn [OF _ _ assms(3)] assms(1,2) by (simp add: fresh_id_def)
  have ok: "row_ok (q_envs (y_db y)) (hand_out newid reclaim now p)" if "row_ok (q_envs (y_db y)) p"
    using that q by (intro row_ok_hand_out) (auto simp: pollable_def)
  show ?thesis unfolding d
    by (rule sys_inv_pick [OF assms(1) p i [unfolded d]])
       (use assms(2) in \<open>simp_all add: ok, simp_all add: hand_out_def\<close>)
qed

lemma sys_inv_claim:
  assumes y: "sys_inv y" and c: "Claim (y_db y) locked k ttl now = (db', Some it)"
  shows "sys_inv (y\<lparr>y_db := db', y_proofs := it # y_proofs y\<rparr>)"
  using c
proof (rule Claim_Some)
  fix p
  let ?f = "\<lambda>r. r\<lparr>w_state := WActive, w_lease := Some (now + ttl)\<rparr>"
  let ?y = "y\<lparr>y_db := db'\<rparr>"
  assume p: "p \<in> set (q_items (y_db y))" "claimable (y_db y) locked k now p"
    "db' = upd (\<lambda>r. w_id r = w_id p) ?f (y_db y)" "it_id it = w_id p"
  have w: "\<not> wire_row (q_envs (y_db y)) p" using p(2) by (auto simp: wire_row_def claimable_def env_is_def)
  have i: "queue_inv db'" using inv_Claim [OF _ c] y by simp
  have ok: "row_ok (q_envs (y_db y)) p \<Longrightarrow> row_ok (q_envs (y_db y)) (?f p)"
    using p(2) w by (auto simp: row_ok_def claimable_def)
  have s: "sys_inv ?y" unfolding p(3)
    by (rule sys_inv_pick [OF y p(1) i [unfolded p(3)] ok]) simp_all
  have "?f p \<in> set (q_items (y_db ?y))" using upd_id_has [OF p(1), of ?f] p(3) by simp
  then have "\<exists>r \<in> set (q_items (y_db ?y)). w_id r = it_id it \<and> \<not> wire_row (q_envs (y_db ?y)) r"
    using p(3,4) w by (intro bexI [of _ "?f p"]) simp_all
  then have "sys_inv (?y\<lparr>y_proofs := it # y_proofs ?y\<rparr>)" by (intro sys_inv_proof [OF s disjI2 refl])
  then show ?thesis by simp
qed

text \<open>A claimant's operations touch only the row its proof names, which is not a worker's.\<close>

lemma sys_inv_held:
  assumes y: "sys_inv y" and it: "it \<in> set (y_proofs y)" and q: "queue_inv (upd P f (y_db y))"
    and P: "\<And>r. P r \<Longrightarrow> held it r"
    and f: "\<And>r. held it r \<Longrightarrow> row_ok (q_envs (y_db y)) r \<Longrightarrow> \<not> wire_row (q_envs (y_db y)) r \<Longrightarrow>
      row_ok (q_envs (y_db y)) (f r) \<and> \<not> wire_row (q_envs (y_db y)) (f r) \<and> w_id (f r) = w_id r"
  shows "sys_inv (y\<lparr>y_db := upd P f (y_db y)\<rparr>)"
proof (rule sys_invI [OF y q])
  fix r assume r: "r \<in> set (q_items (y_db y))" "P r" "row_ok (q_envs (y_db y)) r"
  with P have h: "held it r" by blast
  then have "\<not> wire_row (q_envs (y_db y)) r" using y it r(1) by (force simp: sys_inv_def held_def)
  with f [OF h r(3)] show "row_ok (q_envs (y_db y)) (f r) \<and> (wire_row (q_envs (y_db y)) (f r) \<longleftrightarrow> wire_row (q_envs (y_db y)) r)
      \<and> (w_id (f r) = w_id r \<or> fresh_id y (w_id (f r)))" by simp
qed

lemma sys_inv_renewed:
  assumes y: "sys_inv y" and it: "it \<in> set (y_proofs y)" and q: "queue_inv db'"
    and d: "db' = upd P (\<lambda>r. r\<lparr>w_lease := Some l\<rparr>) (y_db y)" and P: "\<And>r. P r \<Longrightarrow> held it r" and i: "it_id it' = it_id it"
  shows "sys_inv (y\<lparr>y_db := db', y_proofs := it' # y_proofs y\<rparr>)"
proof -
  have s: "sys_inv (y\<lparr>y_db := db'\<rparr>)" unfolding d
    by (rule sys_inv_held [OF y it q [unfolded d] P]) (simp_all add: row_ok_def held_def)
  have "sys_inv ((y\<lparr>y_db := db'\<rparr>)\<lparr>y_proofs := it' # y_proofs (y\<lparr>y_db := db'\<rparr>)\<rparr>)"
    by (rule sys_inv_proof [OF s, of it]) (simp_all add: it i)
  then show ?thesis by simp
qed

text \<open>A worker's operations touch only a worker's rows.\<close>

lemma sys_inv_wire:
  assumes y: "sys_inv y" and P: "\<And>r. P r \<Longrightarrow> wire_row (q_envs (y_db y)) r"
    and f: "\<And>r. P r \<Longrightarrow> row_ok (q_envs (y_db y)) r \<Longrightarrow> wire_row (q_envs (y_db y)) r \<Longrightarrow>
      row_ok (q_envs (y_db y)) (f r) \<and> wire_row (q_envs (y_db y)) (f r) \<and> w_id (f r) = w_id r \<and> slot (f r) = slot r \<and>
      (is_live (w_state (f r)) \<longrightarrow> is_live (w_state r))"
  shows "sys_inv (y\<lparr>y_db := upd P f (y_db y)\<rparr>)"
proof (rule sys_invI [OF y])
  have "row_ok (q_envs (y_db y)) r" if "r \<in> set (q_items (y_db y))" for r using y that by (simp add: sys_inv_def)
  with f P show "queue_inv (upd P f (y_db y))"
    by (intro queue_inv_upd) (use y in \<open>auto simp: row_ok_def [of _ "f _"]\<close>)
qed (use f P in blast)

lemma sys_inv_update_returning:
  assumes "update_returning (y_db y) P f = Some (db', r)" "sys_inv (y\<lparr>y_db := upd P f (y_db y)\<rparr>)"
  shows "sys_inv (y\<lparr>y_db := db'\<rparr>)"
  using assms by (auto simp: update_returning_Some)

lemma visible_wire: "visible db env wid r \<Longrightarrow> wire_row (q_envs db) r"
  by (simp add: visible_def)

lemma row_ok_ack: "row_ok e r \<Longrightarrow> wire_row e r \<Longrightarrow> row_ok e (ack_row now r)"
  by (cases "w_state r") (simp_all add: row_ok_def ack_row_def)

lemma sys_inv_ack:
  assumes "sys_inv y" "Ack (y_db y) env wid now = Inr (db', r)"
  shows "sys_inv (y\<lparr>y_db := db'\<rparr>)"
proof (rule sys_inv_update_returning)
  show "update_returning (y_db y) (visible (y_db y) env wid) (ack_row now) = Some (db', r)"
    using assms(2) by (simp add: Ack_def split: option.splits)
  show "sys_inv (y\<lparr>y_db := upd (visible (y_db y) env wid) (ack_row now) (y_db y)\<rparr>)"
    by (rule sys_inv_wire [OF assms(1) visible_wire])
       (assumption, intro conjI row_ok_ack, simp_all add: ack_row_def)
qed

lemma row_ok_beat:
  "row_ok e r \<Longrightarrow> wire_row e r \<Longrightarrow> w_state r = WStarting \<Longrightarrow> row_ok e (first_beat ttl now r)"
  "row_ok e r \<Longrightarrow> wire_row e r \<Longrightarrow> row_ok e (echo_beat ttl now r)"
  by (simp add: row_ok_def first_beat_def, cases "w_state r", simp_all add: row_ok_def echo_beat_def)

lemma sys_inv_heartbeat:
  assumes y: "sys_inv y" and h: "Heartbeat parse (y_db y) env wid expected ttl now = Inr (db', r)"
  shows "sys_inv (y\<lparr>y_db := db'\<rparr>)"
proof (cases "beat_update parse (y_db y) env wid expected ttl now")
  case None
  with h have "db' = y_db y" by (auto simp: Heartbeat_def split: sum.splits if_splits)
  with y show ?thesis by simp
next
  case (Some res)
  then obtain x where b: "beat_update parse (y_db y) env wid expected ttl now = Some (db', x)"
    using h by (cases res) (simp add: Heartbeat_def)
  show ?thesis
  proof (cases "expected = NoHeartbeat")
    case True
    have "sys_inv (y\<lparr>y_db := upd (\<lambda>r. visible (y_db y) env wid r \<and> w_beat r = None \<and> w_state r = WStarting) (first_beat ttl now) (y_db y)\<rparr>)"
      by (rule sys_inv_wire [OF y]) (simp_all add: visible_def row_ok_beat, simp_all add: first_beat_def)
    with True b show ?thesis by (intro sys_inv_update_returning) (simp_all add: beat_update_def)
  next
    case False
    with b obtain ts where t: "update_returning (y_db y) (\<lambda>r. visible (y_db y) env wid r \<and> w_beat r = Some ts) (echo_beat ttl now) = Some (db', x)"
      by (auto simp: beat_update_def split: option.splits)
    have "sys_inv (y\<lparr>y_db := upd (\<lambda>r. visible (y_db y) env wid r \<and> w_beat r = Some ts) (echo_beat ttl now) (y_db y)\<rparr>)"
      by (rule sys_inv_wire [OF y]) (simp_all add: visible_def row_ok_beat, simp_all add: echo_beat_def)
    with t show ?thesis by (rule sys_inv_update_returning)
  qed
qed

lemma row_ok_stop:
  "row_ok e r \<Longrightarrow> row_ok e (stop_row now r)"
  "row_ok e r \<Longrightarrow> wire_row e r \<Longrightarrow> row_ok e (graceful_row now r)"
  by (cases "w_state r"; simp add: row_ok_def stop_row_def graceful_row_def)+

lemma sys_inv_stop:
  assumes y: "sys_inv y" and h: "StopWith (y_db y) env wid force now = Inr (db', r)"
  shows "sys_inv (y\<lparr>y_db := db'\<rparr>)"
proof (cases "if force then update_returning (y_db y) (\<lambda>r. visible (y_db y) env wid r \<and> w_state r \<noteq> WStopped) (stop_row now)
            else update_returning (y_db y) (\<lambda>r. visible (y_db y) env wid r \<and> is_live (w_state r)) (graceful_row now)")
  case None
  with h have "db' = y_db y" by (auto simp: StopWith_def split: sum.splits if_splits)
  with y show ?thesis by simp
next
  case (Some res)
  with h have d: "db' = fst res" by (cases res) (simp add: StopWith_def)
  have "sys_inv (y\<lparr>y_db := upd (\<lambda>r. visible (y_db y) env wid r \<and> w_state r \<noteq> WStopped) (stop_row now) (y_db y)\<rparr>)"
    by (rule sys_inv_wire [OF y]) (simp_all add: visible_def row_ok_stop, simp_all add: stop_row_def)
  moreover have "sys_inv (y\<lparr>y_db := upd (\<lambda>r. visible (y_db y) env wid r \<and> is_live (w_state r)) (graceful_row now) (y_db y)\<rparr>)"
    by (rule sys_inv_wire [OF y]) (simp_all add: visible_def row_ok_stop, simp_all add: graceful_row_def Let_def)
  ultimately show ?thesis using Some d by (cases res) (auto simp: update_returning_Some split: if_splits)
qed

lemma row_ok_meta: "row_ok e r \<Longrightarrow> row_ok e (r\<lparr>w_meta := mt\<rparr>)"
  by (cases "w_state r") (simp_all add: row_ok_def)

lemma sys_inv_metadata:
  assumes "sys_inv y" "UpdateMetadata (y_db y) env wid ups dels = Inr (db', r)"
  shows "sys_inv (y\<lparr>y_db := db'\<rparr>)"
proof (rule sys_inv_update_returning)
  let ?f = "\<lambda>r. r\<lparr>w_meta := patch_meta ups dels (w_meta r)\<rparr>"
  show "update_returning (y_db y) (visible (y_db y) env wid) ?f = Some (db', r)"
    using assms(2) by (simp add: UpdateMetadata_def split: option.splits)
  show "sys_inv (y\<lparr>y_db := upd (visible (y_db y) env wid) ?f (y_db y)\<rparr>)"
    by (rule sys_inv_wire [OF assms(1) visible_wire]) (assumption, simp add: row_ok_meta)
qed

lemma sys_inv_stop_rows: "sys_inv y \<Longrightarrow> sys_inv (y\<lparr>y_db := upd P (stop_row now) (y_db y)\<rparr>)"
  by (rule sys_invI)
     (simp_all add: row_ok_stop, rule queue_inv_upd, simp_all add: stop_row_def)

lemma sys_inv_step:
  assumes "qstep y y'" and "sys_inv y"
  shows "sys_inv y'"
  using assms
proof (induction rule: qstep.induct)
  case (enqueue y wid env sess thr k now ctx db' res)
  then obtain c b where "insert_item (y_db y) (new_row wid env sess thr k now c) = (db', b)"
    by (auto simp: EnqueueThread_def Let_def split: prod.splits)
  then show ?case using enqueue by (intro sys_inv_insert) (simp_all add: row_ok_def, simp_all add: new_row_def)
next
  case (harvest y wid env sess g now ctx db' res)
  show ?case
    by (rule sys_inv_insert [OF harvest(3) _ _ _ harvest(2) [unfolded EnqueueOutputsHarvest_def]])
       (use harvest(1) in \<open>simp_all add: row_ok_def\<close>, simp_all add: new_row_def)
next
  case (finalize y env wid now db' b)
  then have "queue_inv db'" using inv_FinalizeAbandoned [OF queue_inv_of] by blast
  with finalize show ?case unfolding FinalizeAbandoned_def Let_def
    by (auto intro!: sys_invI simp: row_ok_def)
next
  case (extend it y ttl now db' it')
  then have "queue_inv db'" using inv_Extend [OF queue_inv_of] by blast
  with extend show ?case
    by (intro sys_inv_renewed [where it = it and P = "held it" and l = "now + ttl"])
       (auto simp: Extend_def split: if_splits)
next
  case (renew it y ttl now db' it')
  then have "queue_inv db'" using inv_renewLive [OF queue_inv_of] by blast
  with renew show ?case
    by (intro sys_inv_renewed [where it = it and P = "\<lambda>r. held it r \<and> it_lease it > now" and l = "now + ttl"])
       (auto simp: renewLive_def split: if_splits)
next
  case (requeue it y chain delay now db')
  then have q: "queue_inv db'" using inv_requeue [OF queue_inv_of] by blast
  from requeue show ?case using q
    by (auto simp: requeue_def row_ok_def held_def simp del: fun_upd_apply split: if_splits intro!: sys_inv_held)
next
  case (grading it y db')
  then have q: "queue_inv db'" using inv_RequeueAsGrading [OF queue_inv_of] by blast
  from grading show ?case using q
    by (auto simp: RequeueAsGrading_def row_ok_def held_def simp del: fun_upd_apply split: if_splits intro!: sys_inv_held)
next
  case (complete it y db')
  then have q: "queue_inv db'" using inv_Complete [OF queue_inv_of] by blast
  from complete show ?case using q
    by (auto simp: Complete_def row_ok_def held_def split: if_splits intro!: sys_inv_held)
next
  case (record_poll y env worker now)
  then show ?case by (simp add: sys_inv_def RecordPoll_def queue_inv_def live_slots_def)
qed (simp_all add: sys_inv_claim sys_inv_poll sys_inv_ack sys_inv_heartbeat sys_inv_stop sys_inv_metadata
       CancelSession_def CancelThread_def sys_inv_stop_rows)

lemma update_returning_envs: "update_returning db P f = Some (db', r) \<Longrightarrow> q_envs db' = q_envs db"
  by (auto simp: update_returning_Some)

lemma beat_update_envs: "beat_update parse db env wid expected ttl now = Some (db', r) \<Longrightarrow> q_envs db' = q_envs db"
  by (auto simp: beat_update_def dest: update_returning_envs split: if_splits option.splits)

lemma step_envs: "qstep y y' \<Longrightarrow> q_envs (y_db y') = q_envs (y_db y)"
proof (induction rule: qstep.induct)
  case (heartbeat parse y env wid expected ttl now db' r)
  then show ?case by (auto simp: Heartbeat_def dest: beat_update_envs split: option.splits sum.splits if_splits)
next
  case (stop y env wid force now db' r)
  then show ?case
    by (cases force) (auto simp: StopWith_def dest: update_returning_envs split: option.splits sum.splits)
qed (auto simp: EnqueueThread_def Let_def insert_item_def EnqueueOutputsHarvest_def Claim_def PollOn_def FinalizeAbandoned_def
       Extend_def renewLive_def requeue_def RequeueAsGrading_def Complete_def CancelSession_def CancelThread_def RecordPoll_def
       Ack_def UpdateMetadata_def dest: update_returning_envs split: option.splits if_splits prod.splits)

text \<open>A stopped row is stopped for good: no later step brings it back or renames it.\<close>

definition keeps_stopped :: "queue_db \<Rightarrow> queue_db \<Rightarrow> bool" where
  "keeps_stopped db db' \<longleftrightarrow> (\<forall>r \<in> set (q_items db). w_state r = WStopped \<longrightarrow>
     (\<exists>r' \<in> set (q_items db'). w_id r' = w_id r \<and> w_state r' = WStopped))"

lemma keeps_stopped_refl [simp]: "keeps_stopped db db"
  by (auto simp: keeps_stopped_def)

lemma keeps_stopped_upd:
  assumes "\<And>r. r \<in> set (q_items db) \<Longrightarrow> P r \<Longrightarrow> w_state r = WStopped \<Longrightarrow> w_id (f r) = w_id r \<and> w_state (f r) = WStopped"
  shows "keeps_stopped db (upd P f db)"
  unfolding keeps_stopped_def
proof (intro ballI impI)
  fix r assume r: "r \<in> set (q_items db)" "w_state r = WStopped"
  show "\<exists>r' \<in> set (q_items (upd P f db)). w_id r' = w_id r \<and> w_state r' = WStopped"
    using assms [OF r(1) _ r(2)] r by (intro bexI [of _ "if P r then f r else r"]) auto
qed

lemma keeps_stopped_pick:
  assumes "queue_inv db" "p \<in> set (q_items db)" "w_state p \<noteq> WStopped"
  shows "keeps_stopped db (upd (\<lambda>r. w_id r = w_id p) f db)"
  by (rule keeps_stopped_upd) (use assms unique_row [OF assms(1) _ assms(2)] in metis)

lemma keeps_stopped_insert: "insert_item db r = (db', b) \<Longrightarrow> keeps_stopped db db'"
  by (auto simp: keeps_stopped_def insert_item_def split: if_splits)

lemma keeps_stopped_returning:
  assumes "update_returning db P f = Some (db', r)"
    "\<And>r. P r \<Longrightarrow> w_state r = WStopped \<Longrightarrow> w_id (f r) = w_id r \<and> w_state (f r) = WStopped"
  shows "keeps_stopped db db'"
  using assms by (auto simp: update_returning_Some intro!: keeps_stopped_upd)

lemma keeps_stopped_heartbeat:
  assumes "Heartbeat parse db env wid expected ttl now = Inr (db', r)"
  shows "keeps_stopped db db'"
proof (cases "beat_update parse db env wid expected ttl now")
  case None
  with assms have "db' = db" by (auto simp: Heartbeat_def split: sum.splits if_splits)
  then show ?thesis by simp
next
  case (Some res)
  then obtain x where b: "beat_update parse db env wid expected ttl now = Some (db', x)"
    using assms by (cases res) (simp add: Heartbeat_def)
  then show ?thesis
    by (auto simp: beat_update_def split: if_splits option.splits
        elim!: keeps_stopped_returning simp: echo_beat_def)
qed

lemma keeps_stopped_stop:
  assumes "StopWith db env wid force now = Inr (db', r)"
  shows "keeps_stopped db db'"
proof (cases "if force then update_returning db (\<lambda>r. visible db env wid r \<and> w_state r \<noteq> WStopped) (stop_row now)
            else update_returning db (\<lambda>r. visible db env wid r \<and> is_live (w_state r)) (graceful_row now)")
  case None
  with assms have "db' = db" by (auto simp: StopWith_def split: sum.splits if_splits)
  then show ?thesis by simp
next
  case (Some res)
  with assms have "db' = fst res" by (cases res) (simp add: StopWith_def)
  with Some show ?thesis by (cases res) (auto split: if_splits elim!: keeps_stopped_returning)
qed

lemma step_keeps_stopped:
  assumes "qstep y y'" and "sys_inv y"
  shows "keeps_stopped (y_db y) (y_db y')"
  using assms
proof (induction rule: qstep.induct)
  case (enqueue y wid env sess thr k now ctx db' res)
  then show ?case by (auto simp: EnqueueThread_def Let_def split: prod.splits elim!: keeps_stopped_insert)
next
  case (harvest y wid env sess g now ctx db' res)
  then show ?case by (auto simp: EnqueueOutputsHarvest_def elim!: keeps_stopped_insert)
next
  case (claim y locked k ttl now db' it)
  from claim(1) show ?case
  proof (rule Claim_Some)
    fix p assume p: "p \<in> set (q_items (y_db y))" "claimable (y_db y) locked k now p"
      "db' = upd (\<lambda>r. w_id r = w_id p) (\<lambda>r. r\<lparr>w_state := WActive, w_lease := Some (now + ttl)\<rparr>) (y_db y)"
    have "w_state p \<noteq> WStopped" using p(2) by (auto simp: claimable_def)
    with keeps_stopped_pick [OF _ p(1)] claim(2) p(3) show ?thesis by simp
  qed
next
  case (poll y newid locked env reclaim now db' res)
  show ?case
  proof (cases "oldest (filter (pollable (y_db y) locked env now) (q_items (y_db y)))")
    case None
    with poll(2) show ?thesis by (simp add: PollOn_def)
  next
    case (Some p)
    then have p: "p \<in> set (q_items (y_db y))" "pollable (y_db y) locked env now p" using oldest_Some by fastforce+
    have "w_state p \<noteq> WStopped" using p(2) by (auto simp: pollable_def)
    with keeps_stopped_pick [OF _ p(1)] Some poll(2,3) show ?thesis by (auto simp: PollOn_def)
  qed
next
  case (finalize y env wid now db' b)
  then show ?case by (auto simp: FinalizeAbandoned_def Let_def intro!: keeps_stopped_upd)
next
  case (ack y env wid now db' r)
  then show ?case
    by (auto simp: Ack_def split: option.splits elim!: keeps_stopped_returning simp: ack_row_def)
next
  case (metadata y env wid ups dels db' r)
  then show ?case
    by (auto simp: UpdateMetadata_def split: option.splits elim!: keeps_stopped_returning)
qed (auto simp: Extend_def renewLive_def requeue_def RequeueAsGrading_def Complete_def CancelSession_def CancelThread_def
       held_def RecordPoll_def keeps_stopped_heartbeat keeps_stopped_stop keeps_stopped_def [of _ "q_polls_update _ _"]
       split: if_splits intro!: keeps_stopped_upd)

lemma reach_inv: "qreach envs y \<Longrightarrow> sys_inv y \<and> q_envs (y_db y) = envs"
proof (induction rule: qreach.induct)
  case start
  then show ?case by (simp add: sys_inv_def queue_inv_def live_slots_def)
next
  case (step y y')
  from step(2) have "q_envs (y_db y') = q_envs (y_db y)" by (rule step_envs)
  with step sys_inv_step show ?case by blast
qed

text \<open>
  C2: every reachable state of the queue is well formed: work ids are unique, at most one live
  item exists per session, thread and kind, a lease is held exactly where the state calls for
  one, only a self-hosted worker's item is ever starting or stopping, it has beaten exactly when
  it is active, and no in-process lease proof names a worker's item.
\<close>

theorem queue_reachable_inv:
  assumes "qreach envs y"
  shows "queue_inv (y_db y) \<and> (\<forall>r \<in> set (q_items (y_db y)). row_ok envs r \<and>
     (\<forall>it \<in> set (y_proofs y). it_id it = w_id r \<longrightarrow> \<not> wire_row envs r))"
  using reach_inv [OF assms] by (auto simp: sys_inv_def)

text \<open>A two-environment platform, empty but for one enqueued worker item, to evaluate on.\<close>

definition demo_envs :: "id \<Rightarrow> env_kind option" where
  "demo_envs = [''env_c'' \<mapsto> EnvCloud, ''env_s'' \<mapsto> EnvSelfHosted]"

definition demo_row :: work_row where
  "demo_row = new_row ''work_1'' ''env_s'' ''sesn_1'' [] ToolExec 10 None"

definition demo_wire :: "work_row \<Rightarrow> queue_sys" where
  "demo_wire r = \<lparr>y_db = \<lparr>q_items = [r], q_envs = demo_envs, q_polls = []\<rparr>, y_proofs = []\<rparr>"

lemma demo_reach: "qreach demo_envs (demo_wire demo_row)"
proof -
  let ?y = "\<lparr>y_db = \<lparr>q_items = [], q_envs = demo_envs, q_polls = []\<rparr>, y_proofs = []\<rparr>"
  have "EnqueueThread (y_db ?y) ''work_1'' ''env_s'' ''sesn_1'' [] ToolExec 10 None =
      (y_db (demo_wire demo_row), True, Some ''env_s'')"
    by (simp add: EnqueueThread_def insert_item_def hits_def demo_wire_def demo_row_def)
  moreover have "fresh_id ?y ''work_1''" by (simp add: fresh_id_def)
  ultimately have "qstep ?y (?y\<lparr>y_db := y_db (demo_wire demo_row)\<rparr>)" by (intro qstep.enqueue)
  then have "qreach demo_envs (?y\<lparr>y_db := y_db (demo_wire demo_row)\<rparr>)" using qreach.start qreach.step by blast
  then show ?thesis by (simp add: demo_wire_def)
qed

theorem queue_reachable_inv_witness: "queue_inv (y_db (demo_wire demo_row)) \<and> row_ok demo_envs demo_row"
  using queue_reachable_inv [OF demo_reach] by (simp add: demo_wire_def)

text \<open>
  A stopped work item is never resurrected.  Along any run from a reachable state, an item
  that has stopped stays in the table under its id and stays stopped.
\<close>

theorem stopped_is_final:
  assumes "qreach envs y" and "qstep\<^sup>*\<^sup>* y y'" and "r \<in> set (q_items (y_db y))" and "w_state r = WStopped"
  shows "\<exists>r' \<in> set (q_items (y_db y')). w_id r' = w_id r \<and> w_state r' = WStopped"
proof -
  from assms(2,1) have "keeps_stopped (y_db y) (y_db y') \<and> qreach envs y'"
  proof (induction rule: rtranclp_induct)
    case base
    then show ?case by simp
  next
    case (step y' y'')
    then have "sys_inv y'" using reach_inv by blast
    with step.hyps(2) have "keeps_stopped (y_db y') (y_db y'')" by (rule step_keeps_stopped)
    with step show ?case unfolding keeps_stopped_def by (metis qreach.step)
  qed
  with assms(3,4) show ?thesis unfolding keeps_stopped_def by blast
qed

lemma demo_cancel_reach:
  "qreach demo_envs (demo_wire (stop_row 20 demo_row))"
proof -
  have "qstep (demo_wire demo_row) ((demo_wire demo_row)\<lparr>y_db := CancelSession (y_db (demo_wire demo_row)) ''sesn_1'' 20\<rparr>)"
    by (rule qstep.cancel_session)
  moreover have "(demo_wire demo_row)\<lparr>y_db := CancelSession (y_db (demo_wire demo_row)) ''sesn_1'' 20\<rparr> = demo_wire (stop_row 20 demo_row)"
    by (simp add: CancelSession_def upd_def demo_wire_def demo_row_def new_row_def)
  ultimately show ?thesis using demo_reach qreach.step by metis
qed

theorem stopped_is_final_witness:
  "\<exists>r' \<in> set (q_items (RecordPoll (y_db (demo_wire (stop_row 20 demo_row))) ''env_s'' ''w'' 30)).
     w_id r' = ''work_1'' \<and> w_state r' = WStopped"
proof -
  let ?y = "demo_wire (stop_row 20 demo_row)"
  have s: "qstep\<^sup>*\<^sup>* ?y (?y\<lparr>y_db := RecordPoll (y_db ?y) ''env_s'' ''w'' 30\<rparr>)"
    by (rule r_into_rtranclp, rule qstep.record_poll)
  show ?thesis
    using stopped_is_final [OF demo_cancel_reach s, of "stop_row 20 demo_row"]
    by (simp add: demo_wire_def demo_row_def new_row_def stop_row_def)
qed

section \<open>Single-row contracts\<close>

lemma find_unique:
  assumes "queue_inv db" "r \<in> set (q_items db)" "P r" "\<And>x. P x \<Longrightarrow> w_id x = w_id r"
  shows "find P (q_items db) = Some r"
proof -
  obtain x where x: "find P (q_items db) = Some x"
    using assms(2,3) by (cases "find P (q_items db)") (auto simp: find_None_iff)
  then have "x \<in> set (q_items db)" "P x" by (auto simp: find_Some_iff)
  then have "x = r" using unique_row [OF assms(1) _ assms(2)] assms(4) by blast
  with x show ?thesis by simp
qed

lemma upd_unique:
  assumes "queue_inv db" "r \<in> set (q_items db)" "P r" "\<And>x. P x \<Longrightarrow> w_id x = w_id r"
  shows "upd P f db = upd (\<lambda>x. w_id x = w_id r) f db"
proof -
  have "P x \<longleftrightarrow> w_id x = w_id r" if "x \<in> set (q_items db)" for x
    using unique_row [OF assms(1) that assms(2)] assms(3,4) by blast
  then show ?thesis by (simp add: upd_def cong: map_cong)
qed

lemma update_returning_unique:
  assumes "queue_inv db" "r \<in> set (q_items db)" "\<And>x. P x \<Longrightarrow> w_id x = w_id r"
  shows "update_returning db P f = (if P r then Some (upd (\<lambda>x. w_id x = w_id r) f db, f r) else None)"
proof (cases "P r")
  case True
  have "find P (q_items db) = Some r" by (rule find_unique) (fact assms True)+
  moreover have "upd P f db = upd (\<lambda>x. w_id x = w_id r) f db" by (rule upd_unique) (fact assms True)+
  ultimately show ?thesis using True by (simp add: update_returning_def)
next
  case False
  then have "find P (q_items db) = None"
    using unique_row [OF assms(1) _ assms(2)] assms(3) by (auto simp: find_None_iff)
  with False show ?thesis by (simp add: update_returning_def)
qed

lemma GetWork_visible:
  "queue_inv db \<Longrightarrow> r \<in> set (q_items db) \<Longrightarrow> visible db env wid r \<Longrightarrow> GetWork db env wid = Inr r"
  using find_unique [of db r "visible db env wid"] by (auto simp: GetWork_def visible_def)

lemma update_visible:
  assumes "queue_inv db" "r \<in> set (q_items db)" "visible db env wid r"
  shows "update_returning db (visible db env wid) f = Some (upd (\<lambda>x. w_id x = wid) f db, f r)"
    and "update_returning db (\<lambda>x. visible db env wid x \<and> Q x) f =
      (if Q r then Some (upd (\<lambda>x. w_id x = wid) f db, f r) else None)"
  using update_returning_unique [OF assms(1,2), of "visible db env wid"]
    update_returning_unique [OF assms(1,2), of "\<lambda>x. visible db env wid x \<and> Q x"] assms(3)
  by (auto simp: visible_def)

text \<open>The heartbeat a row answers with, and what it leaves behind.\<close>

definition beats :: "queue_db \<Rightarrow> work_row \<Rightarrow> queue_db \<times> heartbeat_result \<Rightarrow> bool \<Rightarrow> int \<Rightarrow> int \<Rightarrow> bool" where
  "beats db r res ext ttl now \<longleftrightarrow>
     (if ext then res = (upd (\<lambda>x. w_id x = w_id r)
          (\<lambda>x. x\<lparr>w_beat := Some now, w_state := WActive, w_lease := Some (now + ttl * second),
                 w_started := (if w_state r = WStarting then coalesce (w_started r) (w_created r) else w_started r)\<rparr>) db,
        \<lparr>hb_last = Some now, hb_state = WActive, hb_extended = True, hb_ttl = ttl\<rparr>)
      else res = (db, \<lparr>hb_last = w_beat r, hb_state = w_state r, hb_extended = False, hb_ttl = ttl\<rparr>))"

lemma upd_cong_id:
  assumes "queue_inv db" "r \<in> set (q_items db)" "f r = g r"
  shows "upd (\<lambda>x. w_id x = w_id r) f db = upd (\<lambda>x. w_id x = w_id r) g db"
proof -
  have "(if w_id x = w_id r then f x else x) = (if w_id x = w_id r then g x else x)" if "x \<in> set (q_items db)" for x
    using unique_row [OF assms(1) that assms(2)] assms(3) by auto
  then show ?thesis by (simp add: upd_def cong: map_cong)
qed

lemma upd_id_same:
  assumes "queue_inv db" "r \<in> set (q_items db)" "f r = r"
  shows "upd (\<lambda>x. w_id x = w_id r) f db = db"
proof -
  have "(if w_id x = w_id r then f x else x) = x" if "x \<in> set (q_items db)" for x
    using unique_row [OF assms(1) that assms(2)] assms(3) by auto
  then show ?thesis by (simp add: upd_def map_idI)
qed

lemma Heartbeat_claim:
  assumes "queue_inv db" "row_ok (q_envs db) r" "r \<in> set (q_items db)" "visible db env wid r"
  shows "Heartbeat parse db env wid NoHeartbeat ttl now =
    (if w_state r = WStarting
     then Inr (upd (\<lambda>x. w_id x = wid) (first_beat ttl now) db, \<lparr>hb_last = Some now, hb_state = WActive, hb_extended = True, hb_ttl = ttl\<rparr>)
     else if w_state r = WStopping \<and> w_beat r = None
     then Inr (db, \<lparr>hb_last = None, hb_state = WStopping, hb_extended = False, hb_ttl = ttl\<rparr>)
     else Inl (HeartbeatMismatchError r ttl NoHeartbeat))"
proof (cases "w_state r = WStarting")
  case True
  with assms(2) have "w_beat r = None" by (simp add: row_ok_def)
  with True show ?thesis
    by (simp add: Heartbeat_def beat_update_def update_visible(2) [OF assms(1,3,4)] first_beat_def)
next
  case False
  then have "beat_update parse db env wid NoHeartbeat ttl now = None"
    by (simp add: beat_update_def update_visible(2) [OF assms(1,3,4)])
  with False GetWork_visible [OF assms(1,3,4)] show ?thesis by (auto simp: Heartbeat_def)
qed

lemma Heartbeat_echo:
  assumes "queue_inv db" "r \<in> set (q_items db)" "visible db env wid r" "expected \<noteq> NoHeartbeat"
  shows "Heartbeat parse db env wid expected ttl now =
    (if w_beat r \<noteq> None \<and> parse expected = w_beat r
     then Inr (upd (\<lambda>x. w_id x = wid) (echo_beat ttl now) db,
       \<lparr>hb_last = w_beat (echo_beat ttl now r), hb_state = w_state r, hb_extended = (w_state r = WActive), hb_ttl = ttl\<rparr>)
     else Inl (HeartbeatMismatchError r ttl expected))"
proof (cases "w_beat r \<noteq> None \<and> parse expected = w_beat r")
  case True
  then show ?thesis using assms(4)
    by (auto simp: Heartbeat_def beat_update_def update_visible(2) [OF assms(1-3)] echo_beat_def)
next
  case False
  have "beat_update parse db env wid expected ttl now = None"
    using assms(4) False by (cases "parse expected") (auto simp: beat_update_def update_visible(2) [OF assms(1-3)])
  with False assms(4) GetWork_visible [OF assms(1-3)] show ?thesis by (auto simp: Heartbeat_def)
qed

lemma beat_rows:
  assumes "queue_inv db" "r \<in> set (q_items db)"
  shows "upd (\<lambda>x. w_id x = w_id r) (first_beat ttl now) db = upd (\<lambda>x. w_id x = w_id r)
      (\<lambda>x. x\<lparr>w_beat := Some now, w_state := WActive, w_lease := Some (now + ttl * second),
             w_started := coalesce (w_started r) (w_created r)\<rparr>) db"
    and "w_state r = WActive \<Longrightarrow> upd (\<lambda>x. w_id x = w_id r) (echo_beat ttl now) db = upd (\<lambda>x. w_id x = w_id r)
      (\<lambda>x. x\<lparr>w_beat := Some now, w_state := WActive, w_lease := Some (now + ttl * second), w_started := w_started r\<rparr>) db"
    and "w_state r \<noteq> WActive \<Longrightarrow> upd (\<lambda>x. w_id x = w_id r) (echo_beat ttl now) db = db"
  by (intro upd_cong_id [OF assms] upd_id_same [OF assms]; simp add: first_beat_def echo_beat_def)+

lemma beats_active:
  assumes "w_state r = WActive"
  shows "beats db r (upd (\<lambda>x. w_id x = w_id r)
      (\<lambda>x. x\<lparr>w_beat := Some now, w_state := WActive, w_lease := Some (now + ttl * second), w_started := w_started r\<rparr>) db,
    \<lparr>hb_last = w_beat (echo_beat ttl now r), hb_state = WActive, hb_extended = True, hb_ttl = ttl\<rparr>) True ttl now"
proof -
  have b: "w_beat (echo_beat ttl now r) = Some now" using assms by (simp add: echo_beat_def)
  have s: "(if w_state r = WStarting then coalesce (w_started r) (w_created r) else w_started r) = w_started r"
    using assms by simp
  show ?thesis unfolding beats_def b s by (simp only: if_True)
qed

text \<open>
  The heartbeat protocol, on every branch.  For a visible item of a reachable queue, a claim
  (\<open>NoHeartbeat\<close>) activates a starting item under a full lease and tells a never-claimed stopping
  one to wind down; an echo of the item's own last heartbeat extends it while it is active and
  reports the wind-down, writing nothing, once it is not; every other beat is the mismatch error
  carrying the item unchanged.
\<close>

theorem heartbeat_contract:
  assumes "qreach envs y" and "r \<in> set (q_items (y_db y))" and "visible (y_db y) env wid r"
  shows "case Heartbeat parse (y_db y) env wid expected ttl now of
      Inr res \<Rightarrow>
        (if expected = NoHeartbeat then w_beat r = None \<and> (w_state r = WStarting \<or> w_state r = WStopping)
         else w_beat r \<noteq> None \<and> parse expected = w_beat r)
        \<and> beats (y_db y) r res (w_state r = WStarting \<or> w_state r = WActive) ttl now
    | Inl e \<Rightarrow> e = HeartbeatMismatchError r ttl expected \<and>
        (if expected = NoHeartbeat then w_state r \<noteq> WStarting \<and> \<not> (w_state r = WStopping \<and> w_beat r = None)
         else w_beat r = None \<or> parse expected \<noteq> w_beat r)"
proof -
  have q: "queue_inv (y_db y)" "row_ok (q_envs (y_db y)) r"
    using reach_inv [OF assms(1)] assms(2) by (auto simp: sys_inv_def)
  have wid: "wid = w_id r" using assms(3) by (simp add: visible_def)
  note rows = beat_rows [OF q(1) assms(2)]
  show ?thesis
  proof (cases "expected = NoHeartbeat")
    case True
    have "w_state r = WStarting \<Longrightarrow> w_beat r = None" using q(2) by (simp add: row_ok_def)
    with True show ?thesis
      unfolding True Heartbeat_claim [OF q assms(2,3)] unfolding wid rows(1) by (simp add: beats_def)
  next
    case False
    have st: "w_beat r \<noteq> None \<Longrightarrow> w_state r \<noteq> WStarting" using q(2) by (auto simp: row_ok_def)
    note e = Heartbeat_echo [OF q(1) assms(2,3) False, of parse ttl now]
    show ?thesis
    proof (cases "w_state r = WActive")
      case True
      show ?thesis unfolding e unfolding wid rows(2) [OF True] using True False
        by (simp add: beats_active)
    next
      case na: False
      show ?thesis unfolding e unfolding wid rows(3) [OF na] using na False st
        by (simp add: beats_def echo_beat_def)
    qed
  qed
qed

theorem heartbeat_contract_witness:
  "Heartbeat (\<lambda>_. None) (y_db (demo_wire demo_row)) ''env_s'' ''work_1'' NoHeartbeat 30 20 =
     Inl (HeartbeatMismatchError demo_row 30 NoHeartbeat)"
proof -
  have "visible (y_db (demo_wire demo_row)) ''env_s'' ''work_1'' demo_row"
    by (simp add: visible_def wire_row_def demo_wire_def demo_row_def new_row_def demo_envs_def)
  from heartbeat_contract [OF demo_reach _ this, where parse = "\<lambda>_. None" and expected = NoHeartbeat and ttl = 30 and now = 20]
  show ?thesis by (cases "Heartbeat (\<lambda>_. None) (y_db (demo_wire demo_row)) ''env_s'' ''work_1'' NoHeartbeat 30 20")
      (auto simp: demo_wire_def demo_row_def new_row_def)
qed

text \<open>
  What a stop does, by the state it finds.  A force stop settles every item that is not
  stopped; a graceful one settles a queued item outright, parks an acked one in stopping with its
  lease kept for the wind-down, and repeats change nothing.
\<close>

theorem stop_contract:
  assumes "qreach envs y" and "r \<in> set (q_items (y_db y))" and "visible (y_db y) env wid r"
  shows "\<exists>r' moved. StopWith (y_db y) env wid force now =
      Inr (if moved then upd (\<lambda>x. w_id x = wid) (\<lambda>_. r') (y_db y) else y_db y, r', moved)
    \<and> (moved \<longleftrightarrow> w_state r \<noteq> WStopped \<and> (force \<or> w_state r \<noteq> WStopping))
    \<and> (\<not> moved \<longrightarrow> r' = r)
    \<and> (moved \<longrightarrow> w_stop_req r' = coalesce (w_stop_req r) now \<and>
         (if \<not> force \<and> (w_state r = WStarting \<or> w_state r = WActive)
          then w_state r' = WStopping \<and> w_lease r' = w_lease r \<and> w_lease r' \<noteq> None
          else w_state r' = WStopped \<and> w_lease r' = None \<and> w_stopped r' = Some now))"
proof -
  let ?db = "y_db y"
  let ?f = "if force then stop_row now else graceful_row now"
  let ?moved = "w_state r \<noteq> WStopped \<and> (force \<or> w_state r \<noteq> WStopping)"
  have q: "queue_inv ?db" "row_ok (q_envs ?db) r"
    using reach_inv [OF assms(1)] assms(2) by (auto simp: sys_inv_def)
  have wid: "wid = w_id r" using assms(3) by (simp add: visible_def)
  have c: "upd (\<lambda>x. w_id x = wid) g ?db = upd (\<lambda>x. w_id x = wid) (\<lambda>_. g r) ?db" for g
    unfolding wid by (rule upd_cong_id [OF q(1) assms(2)]) simp
  have live: "is_live (w_state r) \<longleftrightarrow> w_state r \<noteq> WStopped \<and> w_state r \<noteq> WStopping" by (cases "w_state r") simp_all
  have st: "StopWith ?db env wid force now =
      Inr (if ?moved then upd (\<lambda>x. w_id x = wid) (\<lambda>_. ?f r) ?db else ?db, if ?moved then ?f r else r, ?moved)"
    using GetWork_visible [OF q(1) assms(2,3)]
    by (simp add: StopWith_def update_visible(2) [OF q(1) assms(2,3)] live c [of "stop_row now"] c [of "graceful_row now"])
  have lease: "w_state r = WStarting \<or> w_state r = WActive \<Longrightarrow> w_lease r \<noteq> None"
    using q(2) by (auto simp: row_ok_def)
  show ?thesis
    by (rule exI [of _ "if ?moved then ?f r else r"], rule exI [of _ ?moved])
       (use st lease in \<open>auto simp: stop_row_def graceful_row_def Let_def\<close>)
qed

lemma demo_visible: "visible (y_db (demo_wire demo_row)) ''env_s'' ''work_1'' demo_row"
  by (simp add: visible_def wire_row_def demo_wire_def demo_row_def new_row_def demo_envs_def)

lemma demo_in: "demo_row \<in> set (q_items (y_db (demo_wire demo_row)))"
  by (simp add: demo_wire_def)

theorem stop_contract_witness:
  "\<exists>db' r'. StopWith (y_db (demo_wire demo_row)) ''env_s'' ''work_1'' False 20 = Inr (db', r', True) \<and> w_state r' = WStopped"
  using stop_contract [OF demo_reach demo_in demo_visible, of False 20]
  by (auto simp: demo_row_def new_row_def)

text \<open>
  the control plane never settles a wind-down its worker may still be running.  In a
  reachable state the finalizer succeeds only on a stopping item of that environment whose lease
  has lapsed and whose stop was requested more than \<open>WindDown\<close> ago, and then the item is stopped.
\<close>

theorem finalize_waits:
  assumes "qreach envs y" and "FinalizeAbandoned (y_db y) env wid now = (db', True)"
  shows "\<exists>r \<in> set (q_items (y_db y)). w_id r = wid \<and> w_env r = env \<and> w_state r = WStopping \<and>
    (\<exists>l s. w_lease r = Some l \<and> l < now \<and> w_stop_req r = Some s \<and> s < now - WindDown) \<and>
    r\<lparr>w_state := WStopped, w_stopped := Some now, w_lease := None\<rparr> \<in> set (q_items db')"
proof -
  from assms(2) obtain r where r: "r \<in> set (q_items (y_db y))" "w_id r = wid" "w_env r = env" "w_kind r = ToolExec"
      "abandoned now r" and d: "db' = upd (\<lambda>r. w_id r = wid \<and> w_env r = env \<and> w_kind r = ToolExec \<and> abandoned now r)
        (\<lambda>r. r\<lparr>w_state := WStopped, w_stopped := Some now, w_lease := None\<rparr>) (y_db y)"
    by (auto simp: FinalizeAbandoned_def Let_def hits_def)
  have ok: "row_ok (q_envs (y_db y)) r" using reach_inv [OF assms(1)] r(1) by (auto simp: sys_inv_def)
  with r(5) have "w_state r = WStopping" "w_lease r \<noteq> None" "w_stop_req r \<noteq> None"
    by (auto simp: abandoned_def row_ok_def)
  with r(5) have "\<exists>l s. w_lease r = Some l \<and> l < now \<and> w_stop_req r = Some s \<and> s < now - WindDown"
    by (auto simp: abandoned_def lapsed_def)
  moreover have "r\<lparr>w_state := WStopped, w_stopped := Some now, w_lease := None\<rparr> \<in> set (q_items db')"
    unfolding d q_upd set_map using r by (intro image_eqI [OF _ r(1)]) simp
  ultimately show ?thesis using r \<open>w_state r = WStopping\<close> by blast
qed

definition demo_stopping :: work_row where
  "demo_stopping = demo_row\<lparr>w_state := WStopping, w_acked := Some 20, w_lease := Some 30000020, w_stop_req := Some 40\<rparr>"

lemma demo_stopping_reach: "qreach demo_envs (demo_wire demo_stopping)"
proof -
  let ?a = "ack_row 20 demo_row"
  have a: "Ack (y_db (demo_wire demo_row)) ''env_s'' ''work_1'' 20 = Inr (y_db (demo_wire ?a), ?a)"
    by (simp add: Ack_def update_returning_def demo_wire_def demo_row_def new_row_def visible_def wire_row_def
        demo_envs_def upd_def)
  have "qreach demo_envs ((demo_wire demo_row)\<lparr>y_db := y_db (demo_wire ?a)\<rparr>)"
    using demo_reach qstep.ack [OF a] by (rule qreach.step)
  then have 1: "qreach demo_envs (demo_wire ?a)" by (simp add: demo_wire_def)
  have s: "StopWith (y_db (demo_wire ?a)) ''env_s'' ''work_1'' False 40 = Inr (y_db (demo_wire demo_stopping), (demo_stopping, True))"
    by (simp add: StopWith_def update_returning_def demo_wire_def demo_row_def new_row_def visible_def wire_row_def
        demo_envs_def upd_def ack_row_def graceful_row_def demo_stopping_def coalesce_def second_def ackStartupLeaseSeconds_def)
  have "qreach demo_envs ((demo_wire ?a)\<lparr>y_db := y_db (demo_wire demo_stopping)\<rparr>)"
    using 1 qstep.stop [OF s] by (rule qreach.step)
  then show ?thesis by (simp add: demo_wire_def)
qed

theorem finalize_waits_witness:
  "\<exists>db'. FinalizeAbandoned (y_db (demo_wire demo_stopping)) ''env_s'' ''work_1'' 60000041 = (db', True) \<and>
     (\<exists>r \<in> set (q_items db'). w_state r = WStopped)"
proof -
  obtain db' where f: "FinalizeAbandoned (y_db (demo_wire demo_stopping)) ''env_s'' ''work_1'' 60000041 = (db', True)"
    by (simp add: FinalizeAbandoned_def hits_def demo_wire_def demo_stopping_def demo_row_def new_row_def
        abandoned_def lapsed_def WindDown_def)
  show ?thesis using finalize_waits [OF demo_stopping_reach f] f by force
qed

section \<open>Polling\<close>

lemma gone:
  assumes "wid \<notin> w_id ` set (q_items db)"
  shows "GetWork db env wid = Inl ErrWorkNotFound" "Ack db env wid now = Inl ErrWorkNotFound"
    "Heartbeat parse db env wid expected ttl now = Inl BeatWorkNotFound"
    "StopWith db env wid force now = Inl ErrWorkNotFound" "UpdateMetadata db env wid ups dels = Inl ErrWorkNotFound"
proof -
  have f: "find P (q_items db) = None" if "\<And>x. P x \<Longrightarrow> w_id x = wid" for P
    using assms that by (force simp: find_None_iff)
  have u: "update_returning db P g = None" if "\<And>x. P x \<Longrightarrow> w_id x = wid" for P g
    using f [OF that] by (simp add: update_returning_def)
  show g: "GetWork db env wid = Inl ErrWorkNotFound" using f [of "visible db env wid"] by (simp add: GetWork_def visible_def)
  show "Ack db env wid now = Inl ErrWorkNotFound" "UpdateMetadata db env wid ups dels = Inl ErrWorkNotFound"
    using u [of "visible db env wid"] by (simp_all add: Ack_def UpdateMetadata_def visible_def)
  have uv: "update_returning db (\<lambda>r. visible db env wid r \<and> Q r) h = None" for Q h
    by (rule u) (simp add: visible_def)
  show "StopWith db env wid force now = Inl ErrWorkNotFound" using g by (simp add: StopWith_def uv)
  show "Heartbeat parse db env wid expected ttl now = Inl BeatWorkNotFound" using g
    by (simp add: Heartbeat_def beat_update_def uv split: option.splits)
qed

lemma PollOn_Some:
  assumes "PollOn db locked env reclaim newid now = (db', Some w)"
  obtains p where "p \<in> set (q_items db)" "pollable db locked env now p"
    "db' = upd (\<lambda>r. w_id r = w_id p) (hand_out newid reclaim now) db" "w = hand_out newid reclaim now p"
proof -
  obtain p where p: "oldest (filter (pollable db locked env now) (q_items db)) = Some p"
    using assms by (auto simp: PollOn_def split: option.splits)
  show ?thesis by (rule that [of p]) (use oldest_Some [OF p] assms p in \<open>auto simp: PollOn_def\<close>)
qed

text \<open>
  C5: a poll hands out one row of the queue and fences whoever held it.  The row is pollable, only
  it changes, and it keeps its slot; one never handed out before keeps its id.  One that was comes
  back, its lease lapsed, under the fresh id, and the old id is gone: every call the previous worker
  makes with it (get, ack, heartbeat, stop, metadata) is not-found, so nothing it does reaches the
  item again.
\<close>

theorem repoll_fences:
  assumes "queue_inv db" and "newid \<notin> w_id ` set (q_items db)"
    and "PollOn db locked env reclaim newid now = (db', Some w)"
  shows "\<exists>p \<in> set (q_items db). pollable db locked env now p \<and> slot p = slot w \<and>
    set (q_items db') = insert w (set (q_items db) - {p}) \<and>
    (w_lease p = None \<longrightarrow> w_id w = w_id p) \<and>
    (w_lease p \<noteq> None \<longrightarrow> lapsed p now \<and> w_id w = newid \<and> w_id w \<noteq> w_id p \<and>
      GetWork db' e (w_id p) = Inl ErrWorkNotFound \<and> Ack db' e (w_id p) now' = Inl ErrWorkNotFound \<and>
      Heartbeat parse db' e (w_id p) expected ttl now' = Inl BeatWorkNotFound \<and>
      StopWith db' e (w_id p) force now' = Inl ErrWorkNotFound \<and>
      UpdateMetadata db' e (w_id p) ups dels = Inl ErrWorkNotFound)"
  using assms(3)
proof (rule PollOn_Some)
  fix p assume p: "p \<in> set (q_items db)" "pollable db locked env now p"
    "db' = upd (\<lambda>r. w_id r = w_id p) (hand_out newid reclaim now) db" "w = hand_out newid reclaim now p"
  have same: "x = p" if "x \<in> set (q_items db)" "w_id x = w_id p" for x
    using unique_row [OF assms(1) that(1) p(1) that(2)] .
  have rows: "set (q_items db') = insert w (set (q_items db) - {p})"
  proof -
    have "set (q_items db') = (\<lambda>x. if w_id x = w_id p then hand_out newid reclaim now x else x) ` set (q_items db)"
      unfolding p(3) by simp
    also have "\<dots> = (\<lambda>x. if x = p then w else x) ` set (q_items db)"
      by (rule image_cong [OF refl]) (use same p(4) in auto)
    also have "\<dots> = insert w (set (q_items db) - {p})"
      using p(1) by auto
    finally show ?thesis .
  qed
  have gone_id: "w_id p \<notin> w_id ` set (q_items db')" if "w_lease p \<noteq> None"
  proof -
    have "w_id w \<noteq> w_id p" using that p(1,4) assms(2) by (auto simp: hand_out_def)
    then show ?thesis unfolding rows using same by auto
  qed
  have "lapsed p now \<and> w_id w = newid \<and> w_id w \<noteq> w_id p" if "w_lease p \<noteq> None"
    using that p(1,2,4) assms(2) by (auto simp: hand_out_def pollable_def)
  moreover have "slot p = slot w" "w_lease p = None \<longrightarrow> w_id w = w_id p" using p(4) by (simp_all add: hand_out_def)
  ultimately show ?thesis using p(1,2) rows gone [OF gone_id] by (intro bexI [of _ p] conjI impI) fast+
qed

theorem repoll_fences_witness:
  "\<exists>db' w. PollOn (y_db (demo_wire (ack_row 20 demo_row))) (\<lambda>_. False) ''env_s'' 5 ''work_2'' 30000021 = (db', Some w) \<and>
     w_id w = ''work_2'' \<and> Ack db' ''env_s'' ''work_1'' 30000022 = Inl ErrWorkNotFound"
proof -
  let ?db = "y_db (demo_wire (ack_row 20 demo_row))"
  obtain db' w where pw: "PollOn ?db (\<lambda>_. False) ''env_s'' 5 ''work_2'' 30000021 = (db', Some w)"
    by (simp add: PollOn_def demo_wire_def ack_row_def demo_row_def new_row_def pollable_def env_is_def demo_envs_def
        lapsed_def second_def ackStartupLeaseSeconds_def hand_out_def)
  have i: "queue_inv ?db"
    by (simp add: queue_inv_def live_slots_def demo_wire_def ack_row_def demo_row_def new_row_def)
  have f: "''work_2'' \<notin> w_id ` set (q_items ?db)" by (simp add: demo_wire_def ack_row_def demo_row_def)
  have "w_lease p \<noteq> None \<and> w_id p = ''work_1''" if "p \<in> set (q_items ?db)" for p
    using that by (simp add: demo_wire_def ack_row_def demo_row_def new_row_def)
  with repoll_fences [OF i f pw, of "''env_s''" 30000022] pw show ?thesis by metis
qed

text \<open>
  A polled item can always be taken up.  The item a poll returns is queued under a
  reservation; acking it makes it starting under the startup lease, and its first heartbeat makes
  it active under the heartbeat's lease, with no poll able to take it before that lease lapses.
\<close>

theorem poll_ack_beat:
  assumes "qreach envs y" and "fresh_id y newid"
    and "PollOn (y_db y) locked env reclaim newid now = (db1, Some w)"
  shows "\<exists>db2 r2 db3. Ack db1 env (w_id w) t2 = Inr (db2, r2) \<and> w_state r2 = WStarting \<and>
      w_lease r2 = Some (t2 + ackStartupLeaseSeconds * second) \<and>
      Heartbeat parse db2 env (w_id w) NoHeartbeat ttl t3 =
        Inr (db3, \<lparr>hb_last = Some t3, hb_state = WActive, hb_extended = True, hb_ttl = ttl\<rparr>) \<and>
      (\<forall>r \<in> set (q_items db3). w_id r = w_id w \<longrightarrow> w_lease r = Some (t3 + ttl * second) \<and>
         (\<forall>t4 \<le> t3 + ttl * second. \<not> pollable db3 locked' env t4 r))"
proof -
  have y1: "sys_inv (y\<lparr>y_db := db1\<rparr>)" using sys_inv_poll [OF _ assms(2,3)] reach_inv [OF assms(1)] by blast
  obtain p where p: "p \<in> set (q_items (y_db y))" "pollable (y_db y) locked env now p"
    "db1 = upd (\<lambda>r. w_id r = w_id p) (hand_out newid reclaim now) (y_db y)" "w = hand_out newid reclaim now p"
    using PollOn_Some [OF assms(3)] by blast
  have w: "w \<in> set (q_items db1)" unfolding p(3,4) by (rule upd_id_has [OF p(1)])
  have wv: "visible db1 env (w_id w) w" "w_state w = WQueued"
    using p(2) by (simp_all add: p(3,4) hand_out_def visible_def wire_row_def pollable_def env_is_def)
  have i1: "queue_inv db1" using y1 by (simp add: sys_inv_def)
  let ?r2 = "ack_row t2 w" and ?db2 = "upd (\<lambda>x. w_id x = w_id w) (ack_row t2) db1"
  have a: "Ack db1 env (w_id w) t2 = Inr (?db2, ?r2)" by (simp add: Ack_def update_visible(1) [OF i1 w wv(1)])
  have y2: "sys_inv (y\<lparr>y_db := ?db2\<rparr>)" using sys_inv_ack [OF y1, of env "w_id w" t2] a by simp
  have r2: "?r2 \<in> set (q_items ?db2)" "visible ?db2 env (w_id w) ?r2" "w_state ?r2 = WStarting"
    using upd_id_has [OF w, of "ack_row t2"] wv by (simp_all add: visible_def ack_row_def)
  have i2: "queue_inv ?db2" "row_ok (q_envs ?db2) ?r2" using y2 r2(1) by (simp_all add: sys_inv_def)
  have beat_id: "\<And>x. w_id (first_beat ttl t3 x) = w_id x" by (simp add: first_beat_def)
  have id2: "w_id ?r2 = w_id w" by (simp add: ack_row_def)
  let ?db3 = "upd (\<lambda>x. w_id x = w_id w) (first_beat ttl t3) ?db2"
  have h: "Heartbeat parse ?db2 env (w_id w) NoHeartbeat ttl t3 =
      Inr (?db3, \<lparr>hb_last = Some t3, hb_state = WActive, hb_extended = True, hb_ttl = ttl\<rparr>)"
    using Heartbeat_claim [OF i2 r2(1,2)] r2(3) by simp
  have row: "r = first_beat ttl t3 ?r2" if "r \<in> set (q_items ?db3)" "w_id r = w_id w" for r
    by (rule upd_id_row [OF r2(1) _ i2(1)]) (use that id2 beat_id in \<open>simp_all only: simp_thms\<close>)
  have l: "w_lease r = Some (t3 + ttl * second) \<and> w_state r = WActive" if "r \<in> set (q_items ?db3)" "w_id r = w_id w" for r
    unfolding row [OF that] by (simp add: first_beat_def)
  have "\<not> pollable ?db3 locked' env t4 r" if "r \<in> set (q_items ?db3)" "w_id r = w_id w" "t4 \<le> t3 + ttl * second" for r t4
    using l [OF that(1,2)] that(3) by (simp add: pollable_def lapsed_def)
  with l have b: "\<forall>r \<in> set (q_items ?db3). w_id r = w_id w \<longrightarrow> w_lease r = Some (t3 + ttl * second) \<and>
         (\<forall>t4 \<le> t3 + ttl * second. \<not> pollable ?db3 locked' env t4 r)" by blast
  have "w_state ?r2 = WStarting \<and> w_lease ?r2 = Some (t2 + ackStartupLeaseSeconds * second)"
    using wv(2) by (simp add: ack_row_def)
  with a h b show ?thesis by blast
qed

theorem poll_ack_beat_witness:
  "\<exists>db1 w db2 r2. PollOn (y_db (demo_wire demo_row)) (\<lambda>_. False) ''env_s'' 5 ''work_2'' 30 = (db1, Some w) \<and>
     Ack db1 ''env_s'' (w_id w) 40 = Inr (db2, r2) \<and> w_state r2 = WStarting"
proof -
  obtain db1 w where pw: "PollOn (y_db (demo_wire demo_row)) (\<lambda>_. False) ''env_s'' 5 ''work_2'' 30 = (db1, Some w)"
    by (simp add: PollOn_def demo_wire_def demo_row_def new_row_def pollable_def env_is_def demo_envs_def)
  have f: "fresh_id (demo_wire demo_row) ''work_2''" by (simp add: fresh_id_def demo_wire_def demo_row_def)
  show ?thesis using poll_ack_beat [OF demo_reach f pw, of 40] pw by blast
qed

end
