(* ===== verification/Work_Listing.thy ===== *)
theory Work_Listing
  imports Work_Lifecycle "HOL-Library.List_Lexorder" "HOL-Library.Char_ord"
begin

text \<open>
  The read side of the work API: keyset paging (\<^verbatim>\<open>ListWork\<close>) and the queue statistics.  The
  database's text order is a parameter; the locale \<open>text_order\<close> states the laws paging needs of
  it, and is interpreted on the lexicographic order of byte strings.
\<close>

section \<open>Paging\<close>

locale text_order =
  fixes lt :: "id \<Rightarrow> id \<Rightarrow> bool"
  assumes irrefl: "\<not> lt a a"
    and trans: "lt a b \<Longrightarrow> lt b c \<Longrightarrow> lt a c"
    and total: "a \<noteq> b \<Longrightarrow> lt a b \<or> lt b a"
begin

abbreviation below :: "work_row \<Rightarrow> work_row \<Rightarrow> bool" where
  "below r x \<equiv> key_lt lt (row_key r) (row_key x)"

lemma key_trans: "key_lt lt a b \<Longrightarrow> key_lt lt b c \<Longrightarrow> key_lt lt a c"
  using trans [of "snd a" "snd b" "snd c"] by (auto simp: key_lt_def)

lemma key_irrefl: "\<not> key_lt lt a a"
  by (simp add: key_lt_def irrefl)

lemma key_total: "a \<noteq> b \<Longrightarrow> key_lt lt a b \<or> key_lt lt b a"
  using total by (cases a; cases b) (auto simp: key_lt_def)

lemma set_insert_desc: "set (insert_desc lt r xs) = insert r (set xs)"
  by (induction xs) auto

lemma set_sort_desc: "set (sort_desc lt xs) = set xs"
  unfolding sort_desc_def by (induction xs) (auto simp: set_insert_desc)

lemma sorted_insert_desc:
  "sorted_wrt (\<lambda>a b. below b a) xs \<Longrightarrow> w_id r \<notin> w_id ` set xs \<Longrightarrow> sorted_wrt (\<lambda>a b. below b a) (insert_desc lt r xs)"
proof (induction xs)
  case (Cons x xs)
  have "row_key r \<noteq> row_key x" using Cons.prems(2) by (auto simp: row_key_def)
  then show ?case using Cons key_total [of "row_key r" "row_key x"]
    by (auto simp: set_insert_desc intro: key_trans)
qed simp

lemma sorted_sort_desc: "distinct (map w_id xs) \<Longrightarrow> sorted_wrt (\<lambda>a b. below b a) (sort_desc lt xs)"
proof (induction xs)
  case (Cons x xs)
  then have "w_id x \<notin> w_id ` set (sort_desc lt xs)" by (simp add: set_sort_desc)
  with Cons sorted_insert_desc show ?case by (simp add: sort_desc_def)
qed (simp add: sort_desc_def)

lemma sorted_unique:
  "sorted_wrt (\<lambda>a b. below b a) xs \<Longrightarrow> sorted_wrt (\<lambda>a b. below b a) ys \<Longrightarrow> set xs = set ys \<Longrightarrow> xs = ys"
proof (induction xs arbitrary: ys)
  case (Cons x xs)
  then obtain y zs where ys: "ys = y # zs" by (cases ys) auto
  have "x = y"
  proof (rule ccontr)
    assume "x \<noteq> y"
    with Cons.prems ys have "below y x" "below x y" by auto
    then show False using key_trans key_irrefl by blast
  qed
  have nx: "x \<notin> set xs" "y \<notin> set zs" using Cons.prems(1,2) ys key_irrefl [of "row_key x"] key_irrefl [of "row_key y"] by auto
  then have "set xs = set zs" using Cons.prems(3) ys \<open>x = y\<close> by auto
  with Cons.IH [of zs] Cons.prems(1,2) ys \<open>x = y\<close> show ?case by simp
qed simp

lemma filter_below_nth:
  assumes "sorted_wrt (\<lambda>a b. below b a) xs" "n < length xs"
  shows "filter (\<lambda>r. below r (xs ! n)) xs = drop (Suc n) xs"
  using assms
proof (induction xs arbitrary: n)
  case (Cons x xs)
  show ?case
  proof (cases n)
    case 0
    have "filter (\<lambda>r. below r x) xs = xs" by (rule filter_True) (use Cons.prems(1) in simp)
    with 0 show ?thesis by (simp add: key_irrefl)
  next
    case (Suc m)
    then have "below (xs ! m) x" using Cons.prems by simp
    then have "\<not> below x (xs ! m)" using key_trans key_irrefl by blast
    with Suc Cons show ?thesis by simp
  qed
qed simp

lemma paging:
  assumes "queue_inv db" and "ListWork lt db env None (Suc n) = page" and "length page = Suc n"
  shows "page @ ListWork lt db env (Some (row_key (last page))) m = ListWork lt db env None (Suc n + m)"
proof -
  let ?v = "filter (\<lambda>r. w_env r = env \<and> wire_row (q_envs db) r) (q_items db)"
  let ?s = "sort_desc lt ?v"
  have d: "distinct (map w_id (filter P (q_items db)))" for P
    using assms(1) by (simp add: queue_inv_def distinct_map_filter)
  have page: "page = take (Suc n) ?s" using assms(2) by (simp add: ListWork_def)
  then have len: "n < length ?s" using assms(3) by auto
  then have lst: "last page = ?s ! n" by (simp add: page take_Suc_conv_app_nth)
  have so: "sorted_wrt (\<lambda>a b. below b a) ?s" by (rule sorted_sort_desc [OF d])
  let ?w = "filter (\<lambda>r. below r (last page)) ?v"
  have "sort_desc lt ?w = filter (\<lambda>r. below r (last page)) ?s"
    by (rule sorted_unique) (use sorted_sort_desc [OF d] so in \<open>auto simp: set_sort_desc sorted_wrt_filter filter_filter\<close>)
  also have "\<dots> = drop (Suc n) ?s" unfolding lst by (rule filter_below_nth [OF so len])
  finally have "ListWork lt db env (Some (row_key (last page))) m = take m (drop (Suc n) ?s)"
    by (simp add: ListWork_def conj_commute conj_left_commute)
  then show ?thesis unfolding page by (simp add: ListWork_def take_add [of "Suc n" m, simplified])
qed

end

interpretation bytes: text_order "\<lambda>a b. a < b"
  by unfold_locales (auto simp: neq_iff)

text \<open>
  Keyset paging loses and repeats nothing.  Under any strict total order on ids, a full page
  followed by the page that continues after its last row is exactly the longer page, whatever
  the sizes, so walking the pages enumerates every visible item once, newest first.
\<close>

theorem list_work_paging:
  assumes "\<And>a. \<not> lt a a" and "\<And>a b c. lt a b \<Longrightarrow> lt b c \<Longrightarrow> lt a c" and "\<And>a b. a \<noteq> b \<Longrightarrow> lt a b \<or> lt b a"
    and "queue_inv db" and "length (ListWork lt db env None (Suc n)) = Suc n"
  shows "ListWork lt db env None (Suc n)
      @ ListWork lt db env (Some (row_key (last (ListWork lt db env None (Suc n))))) m
    = ListWork lt db env None (Suc n + m)"
proof -
  have "text_order lt" using assms(1-3) by unfold_locales blast+
  then show ?thesis by (rule text_order.paging [OF _ assms(4) refl assms(5)])
qed

theorem list_work_paging_witness:
  "ListWork (<) (y_db (demo_wire demo_row)) ''env_s'' None 1
     @ ListWork (<) (y_db (demo_wire demo_row)) ''env_s'' (Some (10, ''work_1'')) 5
   = ListWork (<) (y_db (demo_wire demo_row)) ''env_s'' None 6"
proof -
  have i: "queue_inv (y_db (demo_wire demo_row))" using reach_inv [OF demo_reach] by (simp add: sys_inv_def)
  have l: "ListWork (<) (y_db (demo_wire demo_row)) ''env_s'' None (Suc 0) = [demo_row]"
    by (simp add: ListWork_def sort_desc_def demo_wire_def demo_row_def new_row_def wire_row_def demo_envs_def)
  have k: "row_key demo_row = (10, ''work_1'')" by (simp add: row_key_def demo_row_def new_row_def)
  have "Suc 0 + 5 = (6::nat)" by simp
  then show ?thesis
    using list_work_paging [where lt = "(<)" and db = "y_db (demo_wire demo_row)" and env = "''env_s''" and n = 0 and m = 5,
        OF bytes.irrefl bytes.trans bytes.total i] l k by simp
qed

section \<open>Statistics\<close>

lemma queued_split:
  "length (filter (\<lambda>r. w_lease r = None \<or> lapsed r now) rs)
   + length (filter (\<lambda>r. case w_lease r of None \<Rightarrow> False | Some l \<Rightarrow> l \<ge> now) rs) = length rs"
  by (induction rs) (auto simp: lapsed_def split: option.splits)

lemma in_polling:
  "w \<in> set (polling db env now) \<longleftrightarrow>
     (\<exists>t. (env, w, t) \<in> set (q_polls db) \<and> t > now - workersPollingWindowSeconds * second) \<and> env_is db env EnvSelfHosted"
  unfolding polling_def by force

lemma polling_RecordPoll:
  assumes "env_is db env EnvSelfHosted"
  shows "set (polling (RecordPoll db env worker now) env now) = insert worker (set (polling db env now))"
proof -
  have p: "(env, w, t) \<in> set (q_polls (RecordPoll db env worker now)) \<longleftrightarrow>
      (w = worker \<and> t = now) \<or> ((env, w, t) \<in> set (q_polls db) \<and> w \<noteq> worker \<and> \<not> t < now - workersPollingWindowSeconds * second)" for w t
    by (auto simp: RecordPoll_def)
  have e: "env_is (RecordPoll db env worker now) env EnvSelfHosted" using assms by (simp add: env_is_def RecordPoll_def)
  have "0 < workersPollingWindowSeconds * second" by (simp add: workersPollingWindowSeconds_def second_def)
  then show ?thesis unfolding set_eq_iff in_polling insert_iff p using assms e
  proof (intro allI iffI; elim conjE exE disjE)
    fix x t assume "(env, x, t) \<in> set (q_polls db)" "now - workersPollingWindowSeconds * second < t"
    then show "(\<exists>t. (x = worker \<and> t = now \<or> (env, x, t) \<in> set (q_polls db) \<and> x \<noteq> worker
          \<and> \<not> t < now - workersPollingWindowSeconds * second) \<and> now - workersPollingWindowSeconds * second < t)
        \<and> env_is (RecordPoll db env worker now) env EnvSelfHosted"
      using e \<open>0 < workersPollingWindowSeconds * second\<close>
      by (cases "x = worker") (auto intro!: exI [of _ now] exI [of _ t])
  qed auto
qed

text \<open>
  the statistics agree with what the operations do: depth and pending split the queued items,
  the queue reports work to pick up only if an uncontended poll would return some, the oldest
  timestamp is the least creation time among them, and a recorded poll adds its worker to the
  count and drops nobody counted.
\<close>

theorem stats_agree:
  "ws_depth (Stats db env now) + ws_pending (Stats db env now) = length (queued_rows db env) \<and>
   (ws_depth (Stats db env now) > 0 \<longrightarrow> snd (PollOn db (\<lambda>_. False) env reclaim newid now) \<noteq> None) \<and>
   (case ws_oldest (Stats db env now) of
      None \<Rightarrow> queued_rows db env = []
    | Some t \<Rightarrow> t \<in> w_created ` set (queued_rows db env) \<and> (\<forall>r \<in> set (queued_rows db env). t \<le> w_created r)) \<and>
   (env_is db env EnvSelfHosted \<longrightarrow> set (polling (RecordPoll db env worker now) env now) = insert worker (set (polling db env now)))"
proof (intro conjI impI)
  show "ws_depth (Stats db env now) + ws_pending (Stats db env now) = length (queued_rows db env)"
    using queued_split by (simp add: Stats_def)
next
  assume "ws_depth (Stats db env now) > 0"
  then obtain r where r: "r \<in> set (queued_rows db env)" "w_lease r = None \<or> lapsed r now"
    by (auto simp: Stats_def filter_empty_conv)
  then have "pollable db (\<lambda>_. False) env now r" "r \<in> set (q_items db)"
    by (auto simp: queued_rows_def pollable_def wire_row_def env_is_def)
  then have "oldest (filter (pollable db (\<lambda>_. False) env now) (q_items db)) \<noteq> None"
    by (auto simp: oldest_None filter_empty_conv)
  then show "snd (PollOn db (\<lambda>_. False) env reclaim newid now) \<noteq> None"
    by (auto simp: PollOn_def)
next
  show "case ws_oldest (Stats db env now) of
      None \<Rightarrow> queued_rows db env = []
    | Some t \<Rightarrow> t \<in> w_created ` set (queued_rows db env) \<and> (\<forall>r \<in> set (queued_rows db env). t \<le> w_created r)"
    by (cases "oldest (queued_rows db env)") (auto simp: Stats_def oldest_None dest: oldest_Some)
next
  assume "env_is db env EnvSelfHosted"
  then show "set (polling (RecordPoll db env worker now) env now) = insert worker (set (polling db env now))"
    by (rule polling_RecordPoll)
qed

theorem stats_agree_witness:
  "ws_depth (Stats (y_db (demo_wire demo_row)) ''env_s'' 50) = 1 \<and>
   snd (PollOn (y_db (demo_wire demo_row)) (\<lambda>_. False) ''env_s'' 5 ''work_2'' 50) \<noteq> None"
proof -
  have "ws_depth (Stats (y_db (demo_wire demo_row)) ''env_s'' 50) = 1"
    by (simp add: Stats_def queued_rows_def demo_wire_def demo_row_def new_row_def wire_row_def demo_envs_def)
  with stats_agree [of "y_db (demo_wire demo_row)" "''env_s''" 50 5 "''work_2''"] show ?thesis by simp
qed

end
