(* ===== verification/Consumption_Order.thy ===== *)
theory Consumption_Order
  imports Events_Domain "HOL-Library.Multiset"
begin

text \<open>
  \<^verbatim>\<open>internal/events/consumption.go\<close>: the order in which a thread's model requests consumed its
  rows, a pure function of the log.  The orderer's two maps are one window per thread and the
  held inputs, kept here as one list in the order they were held (a thread's entry is the
  filter of it).
\<close>

section \<open>The orderer\<close>

record window =
  wd_start :: id
  wd_end :: event_type
  wd_key :: string

record orderer =
  or_open :: "id \<Rightarrow> window option"
  or_held :: "event list"
  or_bytes :: int

definition new_orderer :: orderer where
  "new_orderer = \<lparr>or_open = Map.empty, or_held = [], or_bytes = 0\<rparr>"

definition ConsumedInput :: "event_type \<Rightarrow> bool" where
  "ConsumedInput t \<longleftrightarrow> t \<in> set consumed_inputs"

definition windowOf :: "event \<Rightarrow> window option" where
  "windowOf ev =
     (if ev_type ev = EventSpanModelRequestStart
      then Some \<lparr>wd_start = ev_id ev, wd_end = EventSpanModelRequestEnd, wd_key = ''model_request_start_id''\<rparr>
      else if ev_type ev = EventSpanOutcomeEvalStart
      then Some \<lparr>wd_start = ev_id ev, wd_end = EventSpanOutcomeEvalEnd, wd_key = ''outcome_evaluation_start_id''\<rparr>
      else None)"

definition closes :: "event \<Rightarrow> window \<Rightarrow> bool" where
  "closes end_ev w = (case json_get (ev_payload end_ev) (wd_key w) of
     Some (JStr s) \<Rightarrow> s = [] \<or> s = wd_start w | _ \<Rightarrow> True)"

definition heldRowOverhead :: int where
  "heldRowOverhead = 256"

definition heldWeight :: "event \<Rightarrow> int" where
  "heldWeight ev = int (length (jsonb_text (ev_payload ev))) + heldRowOverhead"

definition held_of :: "orderer \<Rightarrow> id \<Rightarrow> event list" where
  "held_of q t = filter (\<lambda>e. ev_thread e = t) (or_held q)"

definition release :: "orderer \<Rightarrow> id \<Rightarrow> orderer \<times> event list" where
  "release q t = (q\<lparr>or_held := filter (\<lambda>e. ev_thread e \<noteq> t) (or_held q),
     or_bytes := or_bytes q - sum_list (map heldWeight (held_of q t))\<rparr>, held_of q t)"

definition Push :: "orderer \<Rightarrow> event \<Rightarrow> orderer \<times> event list" where
  "Push q ev =
     (let t = ev_thread ev in
      case windowOf ev of
        Some w \<Rightarrow> (let (q', out) = release q t in (q'\<lparr>or_open := (or_open q')(t \<mapsto> w)\<rparr>, out @ [ev]))
      | None \<Rightarrow>
          if (or_open q t \<noteq> None \<or> held_of q t \<noteq> []) \<and> ConsumedInput (ev_type ev)
          then (q\<lparr>or_held := or_held q @ [ev], or_bytes := or_bytes q + heldWeight ev\<rparr>, [])
          else (case or_open q t of
                  Some w \<Rightarrow> if ev_type ev = wd_end w \<and> closes ev w
                            then (q\<lparr>or_open := (or_open q)(t := None)\<rparr>, [ev]) else (q, [ev])
                | None \<Rightarrow> (q, [ev])))"

definition Flush :: "orderer \<Rightarrow> orderer \<times> event list" where
  "Flush q = (new_orderer, sort_key ev_seq (or_held q))"

fun push_all :: "orderer \<Rightarrow> event list \<Rightarrow> orderer \<times> event list" where
  "push_all q [] = (q, [])"
| "push_all q (ev # evs) = (let (q1, a) = Push q ev; (q2, b) = push_all q1 evs in (q2, a @ b))"

definition ConsumptionOrder :: "event list \<Rightarrow> event list \<Rightarrow> event list" where
  "ConsumptionOrder dst history = (let (q, out) = push_all new_orderer history in dst @ out @ snd (Flush q))"

section \<open>Running it in parts\<close>

definition finish :: "orderer \<Rightarrow> event list \<Rightarrow> event list" where
  "finish q evs = (let (q', out) = push_all q evs in out @ snd (Flush q'))"

lemma ConsumptionOrder_finish: "ConsumptionOrder dst history = dst @ finish new_orderer history"
  by (simp add: ConsumptionOrder_def finish_def split: prod.splits)

lemma push_all_append: "push_all q (xs @ ys) = (let (q1, a) = push_all q xs; (q2, b) = push_all q1 ys in (q2, a @ b))"
  by (induction xs arbitrary: q) (auto split: prod.splits)

lemma finish_append: "finish q (xs @ ys) = snd (push_all q xs) @ finish (fst (push_all q xs)) ys"
  by (simp add: finish_def push_all_append split: prod.splits)

text \<open>Nothing is lost: what has come out and what is held is what went in.\<close>

lemma mset_partition: "mset (filter P xs) + mset (filter (\<lambda>x. \<not> P x) xs) = mset xs"
  by (induction xs) auto

lemma Push_mset: "Push q ev = (q', out) \<Longrightarrow> mset out + mset (or_held q') = mset (or_held q) + {#ev#}"
  using mset_partition [of "\<lambda>e. ev_thread e = ev_thread ev" "or_held q"]
  by (auto simp: Push_def Let_def release_def held_of_def split: option.splits if_splits)

lemma push_all_mset: "push_all q evs = (q', out) \<Longrightarrow> mset out + mset (or_held q') = mset (or_held q) + mset evs"
proof (induction evs arbitrary: q out)
  case (Cons ev evs)
  obtain q1 a q2 b where p: "Push q ev = (q1, a)" "push_all q1 evs = (q2, b)" by (meson surj_pair)
  with Cons.prems have r: "q' = q2" "out = a @ b" by auto
  show ?case using Push_mset [OF p(1)] Cons.IH [OF p(2) [folded r(1)]] r by (simp add: ac_simps)
qed simp

lemma finish_mset: "mset (finish q evs) = mset (or_held q) + mset evs"
  using push_all_mset [of q evs] by (auto simp: finish_def Flush_def split: prod.splits)

text \<open>Only consumed inputs are ever held, so every other row comes out when it is pushed.\<close>

definition held_inputs :: "orderer \<Rightarrow> bool" where
  "held_inputs q \<longleftrightarrow> (\<forall>e \<in> set (or_held q). ConsumedInput (ev_type e))"

lemma windowOf_not_input: "windowOf ev = Some w \<Longrightarrow> \<not> ConsumedInput (ev_type ev)"
  by (auto simp: windowOf_def ConsumedInput_def consumed_inputs_def split: if_splits)

lemma Push_others:
  assumes "Push q ev = (q', out)" "held_inputs q"
  shows "held_inputs q' \<and> filter (\<lambda>e. \<not> ConsumedInput (ev_type e)) out = filter (\<lambda>e. \<not> ConsumedInput (ev_type e)) [ev]"
  using assms windowOf_not_input [of ev]
  by (auto simp: Push_def Let_def release_def held_of_def held_inputs_def filter_empty_conv split: option.splits if_splits)

lemma push_all_others:
  "push_all q evs = (q', out) \<Longrightarrow> held_inputs q \<Longrightarrow>
   held_inputs q' \<and> filter (\<lambda>e. \<not> ConsumedInput (ev_type e)) out = filter (\<lambda>e. \<not> ConsumedInput (ev_type e)) evs"
proof (induction evs arbitrary: q out)
  case (Cons ev evs)
  obtain q1 a q2 b where p: "Push q ev = (q1, a)" "push_all q1 evs = (q2, b)" by (meson surj_pair)
  with Cons.prems have r: "q' = q2" "out = a @ b" by auto
  show ?case using Push_others [OF p(1) Cons.prems(2)] Cons.IH [OF p(2) [folded r(1)]] r by simp
qed simp

text \<open>A thread's inputs keep their receipt order.\<close>

abbreviation input_of :: "id \<Rightarrow> event \<Rightarrow> bool" where
  "input_of t e \<equiv> ConsumedInput (ev_type e) \<and> ev_thread e = t"

lemma Push_inputs:
  assumes "Push q ev = (q', out)" "held_inputs q"
  shows "filter (input_of t) out @ filter (input_of t) (or_held q') = filter (input_of t) (or_held q) @ filter (input_of t) [ev]"
proof (cases "windowOf ev")
  case (Some w)
  with assms windowOf_not_input [OF Some] show ?thesis
    by (cases "ev_thread ev = t")
       (auto simp: Push_def Let_def release_def held_of_def held_inputs_def filter_empty_conv intro!: filter_cong)
next
  case None
  have "filter (input_of t) (or_held q) = []" if "held_of q t = []"
    using that by (auto simp: held_of_def filter_empty_conv)
  with assms None show ?thesis
    by (auto simp: Push_def Let_def split: if_splits option.splits)
qed

lemma push_all_inputs:
  "push_all q evs = (q', out) \<Longrightarrow> held_inputs q \<Longrightarrow>
   filter (input_of t) out @ filter (input_of t) (or_held q') = filter (input_of t) (or_held q) @ filter (input_of t) evs"
proof (induction evs arbitrary: q out)
  case (Cons ev evs)
  obtain q1 a q2 b where p: "Push q ev = (q1, a)" "push_all q1 evs = (q2, b)" by (meson surj_pair)
  with Cons.prems have r: "q' = q2" "out = a @ b" by auto
  have "held_inputs q1" using Push_others [OF p(1) Cons.prems(2)] by simp
  note IH = Cons.IH [OF p(2) [folded r(1)] this]
  have "filter (input_of t) out @ filter (input_of t) (or_held q') = filter (input_of t) a @ (filter (input_of t) b @ filter (input_of t) (or_held q'))"
    by (simp add: r(2))
  also have "\<dots> = (filter (input_of t) a @ filter (input_of t) (or_held q1)) @ filter (input_of t) evs" by (simp add: IH)
  also have "\<dots> = (filter (input_of t) (or_held q) @ filter (input_of t) [ev]) @ filter (input_of t) evs"
    by (simp only: Push_inputs [OF p(1) Cons.prems(2)])
  finally show ?case by simp
qed simp

text \<open>Rows are held in the order they were pushed, so the flush's sort moves none.\<close>

lemma Push_sorted: "Push q ev = (q', out) \<Longrightarrow> sorted_wrt R (or_held q @ ev # evs) \<Longrightarrow> sorted_wrt R (or_held q' @ evs)"
  by (auto simp: Push_def Let_def release_def sorted_wrt_append sorted_wrt_filter split: option.splits if_splits)

lemma push_all_sorted: "push_all q evs = (q', out) \<Longrightarrow> sorted_wrt R (or_held q @ evs) \<Longrightarrow> sorted_wrt R (or_held q')"
proof (induction evs arbitrary: q out)
  case (Cons ev evs)
  obtain q1 a q2 b where p: "Push q ev = (q1, a)" "push_all q1 evs = (q2, b)" by (meson surj_pair)
  with Cons.prems have r: "q' = q2" by auto
  from Cons.IH [OF p(2) [folded r] Push_sorted [OF p(1) Cons.prems(2)]] show ?case .
qed simp

lemma finish_order:
  assumes "sorted_wrt (\<lambda>a b. ev_seq a < ev_seq b) (or_held q @ evs)" "held_inputs q"
  shows "filter (input_of t) (finish q evs) = filter (input_of t) (or_held q @ evs)"
    and "filter (\<lambda>e. \<not> ConsumedInput (ev_type e)) (finish q evs) = filter (\<lambda>e. \<not> ConsumedInput (ev_type e)) evs"
proof -
  obtain q' out where p: "push_all q evs = (q', out)" by (meson surj_pair)
  have "sorted_wrt (\<lambda>a b. ev_seq a < ev_seq b) (or_held q')" by (rule push_all_sorted [OF p assms(1)])
  then have "sorted (map ev_seq (or_held q'))" by (simp add: sorted_wrt_map) (metis (mono_tags, lifting) less_imp_le sorted_wrt_mono_rel)
  then have f: "snd (Flush q') = or_held q'" by (simp add: Flush_def sort_key_id_if_sorted)
  have h: "held_inputs q'" and o: "filter (\<lambda>e. \<not> ConsumedInput (ev_type e)) out = filter (\<lambda>e. \<not> ConsumedInput (ev_type e)) evs"
    using push_all_others [OF p assms(2)] by simp_all
  show "filter (input_of t) (finish q evs) = filter (input_of t) (or_held q @ evs)"
    using push_all_inputs [OF p assms(2), of t] by (simp add: finish_def p f)
  have "filter (\<lambda>e. \<not> ConsumedInput (ev_type e)) (or_held q') = []" using h by (auto simp: held_inputs_def filter_empty_conv)
  with o show "filter (\<lambda>e. \<not> ConsumedInput (ev_type e)) (finish q evs) = filter (\<lambda>e. \<not> ConsumedInput (ev_type e)) evs"
    by (simp add: finish_def p f)
qed

text \<open>
  Reading a log in consumption order loses, invents and duplicates nothing and only moves
  inputs: every row comes out once, the rows that are not consumed inputs keep their log order,
  and each thread's inputs keep their order of receipt.
\<close>

theorem consumption_order_stable:
  assumes "sorted_wrt (\<lambda>a b. ev_seq a < ev_seq b) history"
  shows "mset (ConsumptionOrder [] history) = mset history \<and>
    filter (\<lambda>e. \<not> ConsumedInput (ev_type e)) (ConsumptionOrder [] history) = filter (\<lambda>e. \<not> ConsumedInput (ev_type e)) history \<and>
    (\<forall>t. filter (\<lambda>e. ConsumedInput (ev_type e) \<and> ev_thread e = t) (ConsumptionOrder [] history)
       = filter (\<lambda>e. ConsumedInput (ev_type e) \<and> ev_thread e = t) history)"
proof -
  have n: "or_held new_orderer = []" "held_inputs new_orderer" by (simp_all add: new_orderer_def held_inputs_def)
  show ?thesis using finish_mset [of new_orderer history] finish_order [of new_orderer history] assms n
    by (simp add: ConsumptionOrder_finish)
qed

definition demo_span :: "id \<Rightarrow> nat \<Rightarrow> event_type \<Rightarrow> json \<Rightarrow> event" where
  "demo_span i n ty p = \<lparr>ev_id = i, ev_seq = n, ev_type = ty, ev_payload = p, ev_processed = Some 1, ev_created = 1, ev_thread = [], ev_cross = False\<rparr>"

definition demo_history :: "event list" where
  "demo_history = [demo_span ''m1'' 1 EventUserMessage JNull, demo_span ''s1'' 2 EventSpanModelRequestStart JNull,
     demo_span ''m2'' 3 EventUserMessage JNull, demo_span ''a1'' 4 EventAgentMessage JNull,
     demo_span ''e1'' 5 EventSpanModelRequestEnd (JObj [(''model_request_start_id'', JStr ''s1'')]),
     demo_span ''s2'' 6 EventSpanModelRequestStart JNull]"

theorem consumption_order_stable_witness:
  "mset (ConsumptionOrder [] demo_history) = mset demo_history \<and>
   map ev_id (ConsumptionOrder [] demo_history) = [''m1'', ''s1'', ''a1'', ''e1'', ''m2'', ''s2'']"
proof -
  have "sorted_wrt (\<lambda>a b. ev_seq a < ev_seq b) demo_history" by (simp add: demo_history_def demo_span_def)
  from consumption_order_stable [OF this] show ?thesis
    by (simp add: ConsumptionOrder_def demo_history_def demo_span_def Push_def Let_def windowOf_def release_def held_of_def new_orderer_def
        ConsumedInput_def consumed_inputs_def closes_def json_get_def Flush_def)
qed

section \<open>Where an input comes out\<close>

definition before :: "'a \<Rightarrow> 'a \<Rightarrow> 'a list \<Rightarrow> bool" where
  "before x y zs \<longleftrightarrow> (\<exists>as bs. zs = as @ bs \<and> x \<in> set as \<and> y \<in> set bs)"

lemma before_append: "x \<in> set as \<Longrightarrow> y \<in> set bs \<Longrightarrow> before x y (as @ bs)"
  unfolding before_def by blast

lemma in_finish: "x \<in> set (or_held q) \<union> set evs \<longleftrightarrow> x \<in> set (finish q evs)"
  using finish_mset [of q evs] by (metis set_mset_mset set_mset_union)

lemma push_all_in: "push_all q evs = (q', out) \<Longrightarrow> x \<in> set (or_held q) \<union> set evs \<longleftrightarrow> x \<in> set out \<union> set (or_held q')"
  using push_all_mset by (metis set_mset_mset set_mset_union)

text \<open>While a window is open on a thread and nothing opens or closes one, it stays open.\<close>

lemma open_stays:
  assumes "push_all q evs = (q', out)" "or_open q t = Some w"
    and "\<forall>e \<in> set evs. ev_thread e = t \<longrightarrow> windowOf e = None \<and> \<not> (ev_type e = wd_end w \<and> closes e w)"
  shows "or_open q' t = Some w"
  using assms
proof (induction evs arbitrary: q out)
  case (Cons ev evs)
  obtain q1 a q2 b where p: "Push q ev = (q1, a)" "push_all q1 evs = (q2, b)" by (meson surj_pair)
  with Cons.prems(1) have r: "q' = q2" by auto
  have "or_open q1 t = Some w" using p(1) Cons.prems(2,3)
    by (cases "ev_thread ev = t") (auto simp: Push_def Let_def release_def split: option.splits if_splits)
  from Cons.IH [OF p(2) [folded r] this] Cons.prems(3) show ?case by simp
qed simp

text \<open>A held input stays held while no row opens a window on its thread.\<close>

lemma held_stays:
  assumes "push_all q evs = (q', out)" "i \<in> set (or_held q)" "\<forall>e \<in> set evs. ev_thread e = ev_thread i \<longrightarrow> windowOf e = None"
  shows "i \<in> set (or_held q')"
  using assms
proof (induction evs arbitrary: q out)
  case (Cons ev evs)
  obtain q1 a q2 b where p: "Push q ev = (q1, a)" "push_all q1 evs = (q2, b)" by (meson surj_pair)
  with Cons.prems(1) have r: "q' = q2" by auto
  have "i \<in> set (or_held q1)" using p(1) Cons.prems(2,3)
    by (auto simp: Push_def Let_def release_def split: option.splits if_splits)
  from Cons.IH [OF p(2) [folded r] this] Cons.prems(3) show ?case by simp
qed simp

lemma Push_opener:
  "windowOf s = Some w \<Longrightarrow> Push q s = (q', out) \<Longrightarrow>
   or_open q' (ev_thread s) = Some w \<and> out = held_of q (ev_thread s) @ [s] \<and> or_held q' = filter (\<lambda>e. ev_thread e \<noteq> ev_thread s) (or_held q)"
  by (auto simp: Push_def Let_def release_def)

text \<open>
  C13: a request reads exactly the input below its start.  In consumption order every row of the
  thread logged below a request's (or grading's) start comes before that start.  An input that
  arrives while the request is in flight comes after everything the thread logged until its next
  request starts, the request's reply and end included.
\<close>

theorem consumption_order_windows:
  assumes "windowOf s \<noteq> None"
  shows "(i \<in> set xs \<and> ev_thread i = ev_thread s \<longrightarrow> before i s (ConsumptionOrder [] (xs @ s # ys)))
    \<and> (ConsumedInput (ev_type i) \<and> ev_thread i = ev_thread s
       \<and> (\<forall>e \<in> set us. ev_thread e = ev_thread s \<longrightarrow> windowOf e = None \<and> ev_type e \<notin> {EventSpanModelRequestEnd, EventSpanOutcomeEvalEnd})
       \<and> (\<forall>e \<in> set vs. ev_thread e = ev_thread s \<longrightarrow> windowOf e = None)
       \<longrightarrow> (\<forall>e \<in> set (s # us @ vs). \<not> ConsumedInput (ev_type e) \<longrightarrow> before e i (ConsumptionOrder [] (xs @ s # us @ i # vs @ ys))))"
proof (intro conjI impI ballI)
  obtain w where w: "windowOf s = Some w" using assms by blast
  obtain q out where p: "push_all new_orderer xs = (q, out)" by (meson surj_pair)
  obtain q1 out1 where p1: "Push q s = (q1, out1)" by (meson surj_pair)
  note op = Push_opener [OF w p1]
  have hi: "held_inputs q" using push_all_others [OF p] by (simp add: new_orderer_def held_inputs_def)
  {
    assume i: "i \<in> set xs \<and> ev_thread i = ev_thread s"
    then have "i \<in> set out \<union> set (or_held q)" using push_all_in [OF p, of i] by blast
    then have "i \<in> set (out @ held_of q (ev_thread s))" using i by (auto simp: held_of_def)
    moreover have "ConsumptionOrder [] (xs @ s # ys) = (out @ held_of q (ev_thread s)) @ (s # finish q1 ys)"
      using finish_append [of new_orderer xs "s # ys"] finish_append [of q "[s]" ys] p p1 op by (simp add: ConsumptionOrder_finish)
    ultimately show "before i s (ConsumptionOrder [] (xs @ s # ys))" by (simp only: before_append list.set_intros)
  next
    fix e
    assume a: "ConsumedInput (ev_type i) \<and> ev_thread i = ev_thread s
       \<and> (\<forall>e \<in> set us. ev_thread e = ev_thread s \<longrightarrow> windowOf e = None \<and> ev_type e \<notin> {EventSpanModelRequestEnd, EventSpanOutcomeEvalEnd})
       \<and> (\<forall>e \<in> set vs. ev_thread e = ev_thread s \<longrightarrow> windowOf e = None)"
      and e: "e \<in> set (s # us @ vs)" "\<not> ConsumedInput (ev_type e)"
    have wend: "wd_end w \<in> {EventSpanModelRequestEnd, EventSpanOutcomeEvalEnd}" using w by (auto simp: windowOf_def split: if_splits)
    obtain q2 out2 where p2: "push_all q1 us = (q2, out2)" by (meson surj_pair)
    have "or_open q2 (ev_thread s) = Some w"
      by (rule open_stays [OF p2]) (use op a wend in auto)
    then obtain q3 where p3: "Push q2 i = (q3, [])" "i \<in> set (or_held q3)"
      using a windowOf_not_input [of i] by (cases "windowOf i") (auto simp: Push_def Let_def)
    obtain q4 out4 where p4: "push_all q3 vs = (q4, out4)" by (meson surj_pair)
    have i4: "i \<in> set (or_held q4)" by (rule held_stays [OF p4 p3(2)]) (use a in auto)
    let ?pre = "xs @ s # us @ i # vs"
    have all: "push_all new_orderer ?pre = (q4, out @ out1 @ out2 @ out4)"
      using p p1 p2 p3(1) p4 by (simp add: push_all_append)
    have h4: "held_inputs q4" using push_all_others [OF all] by (simp add: new_orderer_def held_inputs_def)
    have "e \<in> set (out @ out1 @ out2 @ out4) \<union> set (or_held q4)" using push_all_in [OF all, of e] e(1) by auto
    then have "e \<in> set (out @ out1 @ out2 @ out4)" using h4 e(2) by (auto simp: held_inputs_def)
    moreover have "i \<in> set (finish q4 ys)" using in_finish [of i q4 ys] i4 by blast
    moreover have "ConsumptionOrder [] (xs @ s # us @ i # vs @ ys) = (out @ out1 @ out2 @ out4) @ finish q4 ys"
      using finish_append [of new_orderer ?pre ys] all by (simp add: ConsumptionOrder_finish)
    ultimately show "before e i (ConsumptionOrder [] (xs @ s # us @ i # vs @ ys))" by (simp only: before_append)
  }
qed

theorem consumption_order_windows_witness:
  "before (demo_span ''a1'' 4 EventAgentMessage JNull) (demo_span ''m2'' 3 EventUserMessage JNull)
     (ConsumptionOrder [] ([demo_span ''m1'' 1 EventUserMessage JNull] @ demo_span ''s1'' 2 EventSpanModelRequestStart JNull # [] @
        demo_span ''m2'' 3 EventUserMessage JNull # [demo_span ''a1'' 4 EventAgentMessage JNull] @ []))"
  using consumption_order_windows [of "demo_span ''s1'' 2 EventSpanModelRequestStart JNull" "demo_span ''m2'' 3 EventUserMessage JNull"
      "[demo_span ''m1'' 1 EventUserMessage JNull]" "[]" "[]" "[demo_span ''a1'' 4 EventAgentMessage JNull]"]
  by (simp add: demo_span_def windowOf_def ConsumedInput_def consumed_inputs_def)

end
