(* ===== verification/Memory_Sync.thy ===== *)
theory Memory_Sync
  imports Go_Prelude "HOL-Library.List_Lexorder" "HOL-Library.Char_ord"
begin

text \<open>
  \<^verbatim>\<open>internal/memsync\<close>: the rules both halves of the memory-store sync share.  The per-path
  decision table (\<^verbatim>\<open>plan.go\<close>), the path and content rules and the mount slug
  (\<^verbatim>\<open>memsync.go\<close>).  A Go map is an association list read with \<^term>\<open>map_of\<close>; whether a path is NFC-normalized
  (\<^verbatim>\<open>golang.org/x/text\<close>) is the parameter \<open>nfc\<close>.
\<close>

section \<open>Paths, content, slug\<close>

definition MaxPathBytes :: nat where
  "MaxPathBytes = 1024"

definition MaxContentBytes :: nat where
  "MaxContentBytes = 102400"

definition MarkerName :: string where
  "MarkerName = ''.anthropic-memory-store''"

definition trim_left_slash :: "string \<Rightarrow> string" where
  "trim_left_slash = dropWhile (\<lambda>c. c = CHR ''/'')"

definition IsMarkerPath :: "string \<Rightarrow> bool" where
  "IsMarkerPath path \<longleftrightarrow> trim_left_slash path = MarkerName"

definition ShadowsMarker :: "string \<Rightarrow> bool" where
  "ShadowsMarker path \<longleftrightarrow> IsMarkerPath path \<or> has_prefix (trim_left_slash path) (MarkerName @ ''/'')"

definition in_table :: "(nat \<times> nat) list \<Rightarrow> nat \<Rightarrow> bool" where
  "in_table tbl n \<longleftrightarrow> list_ex (\<lambda>(lo, hi). lo \<le> n \<and> n \<le> hi) tbl"

definition unicode_Cc :: "(nat \<times> nat) list" where
  "unicode_Cc = [(0, 0x1F), (0x7F, 0x9F)]"

definition unicode_Cf :: "(nat \<times> nat) list" where
  "unicode_Cf = [(0xAD, 0xAD), (0x600, 0x605), (0x61C, 0x61C), (0x6DD, 0x6DD), (0x70F, 0x70F), (0x890, 0x891),
     (0x8E2, 0x8E2), (0x180E, 0x180E), (0x200B, 0x200F), (0x202A, 0x202E), (0x2060, 0x2064), (0x2066, 0x206F),
     (0xFEFF, 0xFEFF), (0xFFF9, 0xFFFB), (0x110BD, 0x110BD), (0x110CD, 0x110CD), (0x13430, 0x1343F),
     (0x1BCA0, 0x1BCA3), (0x1D173, 0x1D17A), (0xE0001, 0xE0001), (0xE0020, 0xE007F)]"

datatype path_error =
    PathRequired | PathNotRooted | PathTooLong | PathNoSegment | PathEmptySegment | PathDotSegment
  | PathNotUTF8 | PathControl | PathSeparator | PathNotNFC

fun segment_error :: "string list \<Rightarrow> path_error option" where
  "segment_error [] = None"
| "segment_error (s # ss) = (if s = [] then Some PathEmptySegment
     else if s = ''.'' \<or> s = ''..'' then Some PathDotSegment else segment_error ss)"

fun rune_error :: "(nat option \<times> string) list \<Rightarrow> path_error option" where
  "rune_error [] = None"
| "rune_error ((r, _) # rs) = (case r of None \<Rightarrow> rune_error rs
     | Some n \<Rightarrow> if in_table unicode_Cc n \<or> in_table unicode_Cf n then Some PathControl
         else if n = 0x2028 \<or> n = 0x2029 then Some PathSeparator else rune_error rs)"

definition ValidatePath :: "(string \<Rightarrow> bool) \<Rightarrow> string \<Rightarrow> path_error option" where
  "ValidatePath nfc path =
     (if path = [] then Some PathRequired
      else if \<not> has_prefix path ''/'' then Some PathNotRooted
      else if length path > MaxPathBytes then Some PathTooLong
      else if path = ''/'' then Some PathNoSegment
      else case segment_error (split_on (CHR ''/'') (drop 1 path)) of Some e \<Rightarrow> Some e
      | None \<Rightarrow>
        if \<not> valid_utf8 path then Some PathNotUTF8
        else case rune_error (runes path) of Some e \<Rightarrow> Some e
        | None \<Rightarrow> if \<not> nfc path then Some PathNotNFC else None)"

datatype content_error = ContentTooLong | ContentNotUTF8 | ContentNUL

definition ValidateContent :: "string \<Rightarrow> content_error option" where
  "ValidateContent content =
     (if length content > MaxContentBytes then Some ContentTooLong
      else if \<not> valid_utf8 content then Some ContentNotUTF8
      else if CHR 0x00 \<in> set content then Some ContentNUL else None)"

text \<open>
  The letter or digit a rune of \<^verbatim>\<open>strings.ToLower\<close>'s result is, if it is an ASCII one: the
  letters, and the Kelvin sign and dotted capital I, which fold into ASCII.
\<close>

definition slug_char :: "nat option \<Rightarrow> char option" where
  "slug_char r = (case r of None \<Rightarrow> None | Some n \<Rightarrow>
     if (97 \<le> n \<and> n \<le> 122) \<or> (48 \<le> n \<and> n \<le> 57) then Some (char_of n)
     else if 65 \<le> n \<and> n \<le> 90 then Some (char_of (n + 32))
     else if n = 0x212A then Some (CHR ''k'') else if n = 0x130 then Some (CHR ''i'') else None)"

fun slug_scan :: "string \<Rightarrow> (nat option \<times> string) list \<Rightarrow> string" where
  "slug_scan b [] = b"
| "slug_scan b ((r, _) # rs) = (case slug_char r of
     Some c \<Rightarrow> slug_scan (b @ [c]) rs
   | None \<Rightarrow> slug_scan (if b \<noteq> [] \<and> \<not> has_suffix b ''-'' then b @ ''-'' else b) rs)"

definition Slug :: "string \<Rightarrow> string \<Rightarrow> string" where
  "Slug name fallback = (let slug = trim_suffix (slug_scan [] (runes name)) ''-''
     in if slug \<noteq> [] then slug else fallback)"

section \<open>Plan\<close>

record head =
  hd_id :: string
  hd_sha :: string

datatype akind = Pull | Push | DeleteRemote | RemoveLocal

record action =
  a_kind :: akind
  a_path :: string
  a_id :: string
  a_baseline :: string
  a_local :: string
  a_remote :: string
  a_conflict :: bool

record baseline =
  b_synced :: "(string \<times> string) list"
  b_refused :: "(string \<times> string) list"

record plan_input =
  i_local :: "(string \<times> string) list"
  i_baseline :: baseline
  i_remote :: "(string \<times> head) list"
  i_pull_only :: bool
  i_unmarked :: bool

record plan_result =
  r_rebuild :: bool
  r_actions :: "action list"
  r_next :: baseline
  r_skipped :: "string list"
  r_withheld :: nat

definition no_action :: action where
  "no_action = \<lparr>a_kind = Pull, a_path = [], a_id = [], a_baseline = [], a_local = [], a_remote = [], a_conflict = False\<rparr>"

definition pull_action :: "string \<Rightarrow> head \<Rightarrow> bool \<Rightarrow> action" where
  "pull_action path h c = no_action\<lparr>a_path := path, a_id := hd_id h, a_remote := hd_sha h, a_conflict := c\<rparr>"

definition sortedKeys :: "(string \<times> string) list \<Rightarrow> (string \<times> string) list \<Rightarrow> (string \<times> head) list \<Rightarrow> string list" where
  "sortedKeys a b c = sort (remdups (map fst a @ map fst b @ map fst c))"

definition add_action :: "action \<Rightarrow> plan_result \<Rightarrow> plan_result" where
  "add_action a res = res\<lparr>r_actions := r_actions res @ [a]\<rparr>"

definition keep_synced :: "string \<Rightarrow> string \<Rightarrow> plan_result \<Rightarrow> plan_result" where
  "keep_synced path sha res = res\<lparr>r_next := (r_next res)\<lparr>b_synced := (path, sha) # b_synced (r_next res)\<rparr>\<rparr>"

definition keep_refused :: "string \<Rightarrow> string \<Rightarrow> plan_result \<Rightarrow> plan_result" where
  "keep_refused path sha res = res\<lparr>r_next := (r_next res)\<lparr>b_refused := (path, sha) # b_refused (r_next res)\<rparr>\<rparr>"

text \<open>The refusal a path carries in the result, the empty string when it carries none.\<close>

definition refusal :: "plan_result \<Rightarrow> string \<Rightarrow> string" where
  "refusal res path = (case map_of (b_refused (r_next res)) path of None \<Rightarrow> [] | Some s \<Rightarrow> s)"

definition plan_push :: "(string \<Rightarrow> bool) \<Rightarrow> plan_input \<Rightarrow> string \<Rightarrow> string \<Rightarrow> action \<Rightarrow> plan_result \<Rightarrow> plan_result" where
  "plan_push nfc inp path loc act res =
     (if i_pull_only inp then res\<lparr>r_withheld := Suc (r_withheld res)\<rparr>
      else if refusal res path = loc then res\<lparr>r_skipped := r_skipped res @ [path]\<rparr>
      else if a_id act = [] \<and> ValidatePath nfc path \<noteq> None
      then (keep_refused path loc res)\<lparr>r_skipped := r_skipped res @ [path]\<rparr>
      else add_action act res)"

definition plan_path :: "(string \<Rightarrow> bool) \<Rightarrow> plan_input \<Rightarrow> string \<Rightarrow> plan_result \<Rightarrow> plan_result" where
  "plan_path nfc inp path res0 =
     (let lo = map_of (i_local inp) path; ba = map_of (b_synced (i_baseline inp)) path; re = map_of (i_remote inp) path;
          local = (case lo of None \<Rightarrow> [] | Some s \<Rightarrow> s);
          base = (case ba of None \<Rightarrow> [] | Some s \<Rightarrow> s);
          res = (case map_of (b_refused (i_baseline inp)) path of
                   Some refused \<Rightarrow> if lo \<noteq> None \<and> refused = local then keep_refused path refused res0 else res0
                 | None \<Rightarrow> res0);
          create = no_action\<lparr>a_kind := Push, a_path := path, a_local := local\<rparr>
      in case re of
        None \<Rightarrow>
          if lo = None then res
          else if ba = None then plan_push nfc inp path local create res
          else if local = base then add_action (no_action\<lparr>a_kind := RemoveLocal, a_path := path\<rparr>) res
          else plan_push nfc inp path local create res
      | Some h \<Rightarrow>
          if lo = None \<and> ba = None then add_action (pull_action path h False) res
          else if lo = None \<and> hd_sha h \<noteq> base then add_action (pull_action path h True) res
          else if lo = None \<and> i_pull_only inp then keep_synced path base res
          else if lo = None then add_action (no_action\<lparr>a_kind := DeleteRemote, a_path := path, a_id := hd_id h, a_baseline := base\<rparr>) res
          else if local = hd_sha h then keep_synced path (hd_sha h) res
          else if ba = None \<or> hd_sha h \<noteq> base then add_action (pull_action path h (ba = None \<or> local \<noteq> base)) res
          else plan_push nfc inp path local
                 (no_action\<lparr>a_kind := Push, a_path := path, a_id := hd_id h, a_baseline := base, a_local := local\<rparr>)
                 (if i_pull_only inp \<or> refusal res path = local then keep_synced path base res else res))"

definition empty_result :: plan_result where
  "empty_result = \<lparr>r_rebuild = False, r_actions = [], r_next = \<lparr>b_synced = [], b_refused = []\<rparr>, r_skipped = [], r_withheld = 0\<rparr>"

definition rebuilds :: "plan_input \<Rightarrow> bool" where
  "rebuilds inp \<longleftrightarrow> i_local inp = [] \<and> (length (remdups (map fst (b_synced (i_baseline inp)))) > 1 \<or> i_unmarked inp)"

definition Plan :: "(string \<Rightarrow> bool) \<Rightarrow> plan_input \<Rightarrow> plan_result" where
  "Plan nfc inp =
     (if rebuilds inp
      then empty_result\<lparr>r_rebuild := True, r_actions := map (\<lambda>path. pull_action path (the (map_of (i_remote inp) path)) False)
             (sortedKeys [] [] (i_remote inp))\<rparr>
      else fold (plan_path nfc inp) (sortedKeys (i_local inp) (b_synced (i_baseline inp)) (i_remote inp)) empty_result)"

section \<open>The plan, path by path\<close>

definition decide :: "(string \<Rightarrow> bool) \<Rightarrow> plan_input \<Rightarrow> string \<Rightarrow> plan_result" where
  "decide nfc inp p = plan_path nfc inp p empty_result"

definition merge_result :: "plan_result \<Rightarrow> plan_result \<Rightarrow> plan_result" where
  "merge_result a b = \<lparr>r_rebuild = r_rebuild a, r_actions = r_actions a @ r_actions b,
     r_next = \<lparr>b_synced = b_synced (r_next b) @ b_synced (r_next a), b_refused = b_refused (r_next b) @ b_refused (r_next a)\<rparr>,
     r_skipped = r_skipped a @ r_skipped b, r_withheld = r_withheld a + r_withheld b\<rparr>"

lemmas plan_unfold = plan_path_def plan_push_def add_action_def keep_synced_def keep_refused_def refusal_def empty_result_def

lemma plan_path_merge:
  assumes "p \<notin> fst ` set (b_refused (r_next res))"
  shows "plan_path nfc inp p res = merge_result res (decide nfc inp p)"
proof -
  have n: "map_of (b_refused (r_next res)) p = None" using assms by (simp add: map_of_eq_None_iff)
  have s: "r_next res = \<lparr>b_synced = b_synced (r_next res), b_refused = b_refused (r_next res)\<rparr>" by simp
  show ?thesis
    by (cases "map_of (i_remote inp) p"; cases "map_of (i_local inp) p"; cases "map_of (b_synced (i_baseline inp)) p";
        cases "map_of (b_refused (i_baseline inp)) p")
       (simp_all add: decide_def merge_result_def plan_unfold Let_def n)
qed

lemma decide_refused: "fst ` set (b_refused (r_next (decide nfc inp p))) \<subseteq> {p}"
  by (cases "map_of (i_remote inp) p"; cases "map_of (i_local inp) p"; cases "map_of (b_synced (i_baseline inp)) p";
      cases "map_of (b_refused (i_baseline inp)) p")
     (simp_all add: decide_def plan_unfold Let_def)

lemma fold_plan:
  "distinct ps \<Longrightarrow> (\<And>p. p \<in> set ps \<Longrightarrow> p \<notin> fst ` set (b_refused (r_next res))) \<Longrightarrow>
   fold (plan_path nfc inp) ps res = fold (\<lambda>p r. merge_result r (decide nfc inp p)) ps res"
proof (induction ps arbitrary: res)
  case (Cons p ps)
  have m: "plan_path nfc inp p res = merge_result res (decide nfc inp p)"
    by (rule plan_path_merge) (use Cons.prems in simp)
  have "q \<notin> fst ` set (b_refused (r_next (merge_result res (decide nfc inp p))))" if "q \<in> set ps" for q
    using that Cons.prems decide_refused [of nfc inp p] by (auto simp: merge_result_def)
  with Cons m show ?case by simp
qed simp

lemma fold_merge:
  "r_actions (fold (\<lambda>p r. merge_result r (f p)) ps res) = r_actions res @ concat (map (\<lambda>p. r_actions (f p)) ps)"
  "r_skipped (fold (\<lambda>p r. merge_result r (f p)) ps res) = r_skipped res @ concat (map (\<lambda>p. r_skipped (f p)) ps)"
  "set (b_synced (r_next (fold (\<lambda>p r. merge_result r (f p)) ps res))) =
     set (b_synced (r_next res)) \<union> (\<Union>p \<in> set ps. set (b_synced (r_next (f p))))"
  by (induction ps arbitrary: res) (auto simp: merge_result_def)

abbreviation keys :: "plan_input \<Rightarrow> string list" where
  "keys inp \<equiv> sortedKeys (i_local inp) (b_synced (i_baseline inp)) (i_remote inp)"

lemma keys_props: "distinct (sortedKeys a b c)" "sorted (sortedKeys a b c)"
  "set (sortedKeys a b c) = fst ` set a \<union> fst ` set b \<union> fst ` set c"
  by (auto simp: sortedKeys_def)

lemma Plan_fold:
  assumes "\<not> rebuilds inp"
  shows "r_actions (Plan nfc inp) = concat (map (\<lambda>p. r_actions (decide nfc inp p)) (keys inp))"
    and "r_skipped (Plan nfc inp) = concat (map (\<lambda>p. r_skipped (decide nfc inp p)) (keys inp))"
    and "set (b_synced (r_next (Plan nfc inp))) = (\<Union>p \<in> set (keys inp). set (b_synced (r_next (decide nfc inp p))))"
proof -
  have "Plan nfc inp = fold (\<lambda>p r. merge_result r (decide nfc inp p)) (keys inp) empty_result"
    using assms fold_plan [OF keys_props(1), of _ _ _ empty_result nfc inp] by (simp add: Plan_def empty_result_def)
  then show "r_actions (Plan nfc inp) = concat (map (\<lambda>p. r_actions (decide nfc inp p)) (keys inp))"
    "r_skipped (Plan nfc inp) = concat (map (\<lambda>p. r_skipped (decide nfc inp p)) (keys inp))"
    "set (b_synced (r_next (Plan nfc inp))) = (\<Union>p \<in> set (keys inp). set (b_synced (r_next (decide nfc inp p))))"
    by (simp_all add: fold_merge) (simp_all add: empty_result_def)
qed

text \<open>What one path's decision can be: at most one action, each only where the table allows it.\<close>

definition action_ok :: "(string \<Rightarrow> bool) \<Rightarrow> plan_input \<Rightarrow> action \<Rightarrow> bool" where
  "action_ok nfc inp a \<longleftrightarrow>
     (let lo = map_of (i_local inp) (a_path a); ba = map_of (b_synced (i_baseline inp)) (a_path a);
          re = map_of (i_remote inp) (a_path a) in
      case a_kind a of
        Pull \<Rightarrow> (\<exists>h. re = Some h \<and> a_id a = hd_id h \<and> a_remote a = hd_sha h \<and> lo \<noteq> Some (hd_sha h) \<and>
                 (lo \<noteq> None \<longrightarrow> ba \<noteq> Some (hd_sha h) \<and> (a_conflict a \<longleftrightarrow> lo \<noteq> ba)))
      | Push \<Rightarrow> \<not> i_pull_only inp \<and> lo = Some (a_local a) \<and>
                 (case re of None \<Rightarrow> a_id a = [] \<and> ValidatePath nfc (a_path a) = None \<and> ba \<noteq> lo
                  | Some h \<Rightarrow> a_id a = hd_id h \<and> a_baseline a = hd_sha h \<and> ba = Some (hd_sha h) \<and> lo \<noteq> Some (hd_sha h))
      | DeleteRemote \<Rightarrow> \<not> i_pull_only inp \<and> lo = None \<and>
                 (\<exists>h. re = Some h \<and> a_id a = hd_id h \<and> a_baseline a = hd_sha h \<and> ba = Some (hd_sha h))
      | RemoveLocal \<Rightarrow> re = None \<and> lo \<noteq> None \<and> lo = ba)"

lemma decide_actions:
  "r_actions (decide nfc inp p) = [] \<or> (\<exists>a. r_actions (decide nfc inp p) = [a] \<and> a_path a = p \<and> action_ok nfc inp a)"
  by (cases "map_of (i_remote inp) p"; cases "map_of (i_local inp) p"; cases "map_of (b_synced (i_baseline inp)) p";
      cases "map_of (b_refused (i_baseline inp)) p")
     (auto simp: decide_def plan_unfold Let_def action_ok_def pull_action_def no_action_def)

lemma rebuild_actions:
  assumes "rebuilds inp" "a \<in> set (r_actions (Plan nfc inp))"
  shows "a_kind a = Pull \<and> action_ok nfc inp a"
proof -
  from assms obtain h p where h: "map_of (i_remote inp) p = Some h" "a = pull_action p h False"
    by (auto simp: Plan_def keys_props(3)) (metis domIff map_of_eq_None_iff option.exhaust_sel image_eqI fst_conv)
  then show ?thesis using assms(1) by (auto simp: action_ok_def pull_action_def no_action_def rebuilds_def)
qed

text \<open>
  C14: a sync never loses a change.  Every action of a plan is one the table allows: a push
  overwrites a memory only if the store still holds what the last sync agreed on, and creates one
  only under a valid path where the store has none; a deletion reaches the store only for a memory
  unchanged since that agreement; a local file is removed only if it is unchanged and the store
  deleted it; a pull that overwrites a differing local edit is marked a conflict.  In pull-only
  mode nothing is written to the store.
\<close>

theorem plan_no_lost_change:
  "a \<in> set (r_actions (Plan nfc inp)) \<Longrightarrow> action_ok nfc inp a"
proof (cases "rebuilds inp")
  case True
  moreover assume "a \<in> set (r_actions (Plan nfc inp))"
  ultimately show ?thesis using rebuild_actions by blast
next
  case False
  assume "a \<in> set (r_actions (Plan nfc inp))"
  then obtain p where "a \<in> set (r_actions (decide nfc inp p))" unfolding Plan_fold(1) [OF False] by auto
  with decide_actions [of nfc inp p] show ?thesis by auto
qed


definition demo_heads :: "(string \<times> head) list" where
  "demo_heads = [(''/a'', \<lparr>hd_id = ''mem_1'', hd_sha = ''s1''\<rparr>), (''/b'', \<lparr>hd_id = ''mem_2'', hd_sha = ''s2''\<rparr>)]"

text \<open>The local file at \<^verbatim>\<open>/a\<close> was edited, the one at \<^verbatim>\<open>/b\<close> deleted.\<close>

definition demo_input :: plan_input where
  "demo_input = \<lparr>i_local = [(''/a'', ''x1'')],
     i_baseline = \<lparr>b_synced = [(''/a'', ''s1''), (''/b'', ''s2'')], b_refused = []\<rparr>,
     i_remote = demo_heads, i_pull_only = False, i_unmarked = False\<rparr>"

lemma demo_order: "''/a'' < ''/b''"
  by (simp add: less_char_def)

lemma demo_plan:
  "r_actions (Plan (\<lambda>_. True) demo_input) =
     [no_action\<lparr>a_kind := Push, a_path := ''/a'', a_id := ''mem_1'', a_baseline := ''s1'', a_local := ''x1''\<rparr>,
      no_action\<lparr>a_kind := DeleteRemote, a_path := ''/b'', a_id := ''mem_2'', a_baseline := ''s2''\<rparr>]"
  "r_skipped (Plan (\<lambda>_. True) demo_input) = []"
  by (simp_all add: Plan_def rebuilds_def demo_input_def demo_heads_def sortedKeys_def plan_unfold demo_order)

theorem plan_no_lost_change_witness:
  "action_ok (\<lambda>_. True) demo_input
     (no_action\<lparr>a_kind := DeleteRemote, a_path := ''/b'', a_id := ''mem_2'', a_baseline := ''s2''\<rparr>)"
  by (rule plan_no_lost_change) (simp add: demo_plan)

section \<open>Applying a plan\<close>

text \<open>
  What the directory, the store and the baseline hold at a path once every action of the plan has
  landed: a pull lands the store's digest in the directory, a push the directory's in the store.
\<close>

definition action_at :: "plan_result \<Rightarrow> string \<Rightarrow> action option" where
  "action_at res p = find (\<lambda>a. a_path a = p) (r_actions res)"

definition local_after :: "plan_input \<Rightarrow> plan_result \<Rightarrow> string \<Rightarrow> string option" where
  "local_after inp res p = (case action_at res p of None \<Rightarrow> map_of (i_local inp) p
     | Some a \<Rightarrow> (case a_kind a of Pull \<Rightarrow> Some (a_remote a) | RemoveLocal \<Rightarrow> None | _ \<Rightarrow> map_of (i_local inp) p))"

definition remote_after :: "plan_input \<Rightarrow> plan_result \<Rightarrow> string \<Rightarrow> string option" where
  "remote_after inp res p = (let r = map_option hd_sha (map_of (i_remote inp) p) in
     case action_at res p of None \<Rightarrow> r
     | Some a \<Rightarrow> (case a_kind a of Push \<Rightarrow> Some (a_local a) | DeleteRemote \<Rightarrow> None | _ \<Rightarrow> r))"

definition synced_after :: "plan_result \<Rightarrow> string \<Rightarrow> string option" where
  "synced_after res p = (case action_at res p of None \<Rightarrow> map_of (b_synced (r_next res)) p
     | Some a \<Rightarrow> (case a_kind a of Pull \<Rightarrow> Some (a_remote a) | Push \<Rightarrow> Some (a_local a) | _ \<Rightarrow> None))"

lemmas after_defs = local_after_def remote_after_def synced_after_def Let_def

lemma find_append: "find P (xs @ ys) = (case find P xs of None \<Rightarrow> find P ys | Some a \<Rightarrow> Some a)"
  by (induction xs) auto

lemma find_concat:
  assumes "\<And>q. q \<in> set ps \<Longrightarrow> (\<forall>a \<in> set (f q). a_path a = q)"
  shows "find (\<lambda>a. a_path a = p) (concat (map f ps)) = (if p \<in> set ps then find (\<lambda>a. a_path a = p) (f p) else None)"
  using assms
proof (induction ps)
  case (Cons q ps)
  have other: "find (\<lambda>a. a_path a = p) (f q) = None" if "p \<noteq> q"
    using Cons.prems [of q] that by (auto simp: find_None_iff)
  with Cons show ?case by (cases "p = q"; cases "p \<in> set ps") (auto simp: find_append split: option.splits)
qed simp

lemma Plan_action_at:
  assumes "\<not> rebuilds inp"
  shows "action_at (Plan nfc inp) p = (if p \<in> set (keys inp) then action_at (decide nfc inp p) p else None)"
proof -
  have "\<forall>a \<in> set (r_actions (decide nfc inp q)). a_path a = q" for q using decide_actions [of nfc inp q] by auto
  then show ?thesis unfolding action_at_def Plan_fold(1) [OF assms] by (intro find_concat) simp
qed

lemma decide_synced:
  "b_synced (r_next (decide nfc inp p)) = [] \<or> (\<exists>v. b_synced (r_next (decide nfc inp p)) = [(p, v)])"
  by (cases "map_of (i_remote inp) p"; cases "map_of (i_local inp) p"; cases "map_of (b_synced (i_baseline inp)) p";
      cases "map_of (b_refused (i_baseline inp)) p")
     (simp_all add: decide_def plan_unfold Let_def)

lemma Plan_synced:
  assumes "\<not> rebuilds inp"
  shows "map_of (b_synced (r_next (Plan nfc inp))) p =
    (if p \<in> set (keys inp) then map_of (b_synced (r_next (decide nfc inp p))) p else None)"
proof -
  let ?xs = "b_synced (r_next (Plan nfc inp))"
  have mem: "(p, v) \<in> set ?xs \<longleftrightarrow> p \<in> set (keys inp) \<and> (p, v) \<in> set (b_synced (r_next (decide nfc inp p)))" for v
  proof -
    have "p = q" if "(p, v) \<in> set (b_synced (r_next (decide nfc inp q)))" for q
      using that decide_synced [of nfc inp q] by auto
    then show ?thesis unfolding Plan_fold(3) [OF assms] by blast
  qed
  show ?thesis
  proof (cases "map_of ?xs p")
    case None
    then have "(p, v) \<notin> set ?xs" for v by (force simp: map_of_eq_None_iff)
    then have "p \<in> set (keys inp) \<Longrightarrow> b_synced (r_next (decide nfc inp p)) = []"
      using mem decide_synced [of nfc inp p] by (metis list.set_intros(1))
    with None show ?thesis by simp
  next
    case (Some v)
    then have "(p, v) \<in> set ?xs" by (rule map_of_SomeD)
    with mem decide_synced [of nfc inp p] Some show ?thesis by auto
  qed
qed

lemma Plan_skipped:
  assumes "\<not> rebuilds inp" "p \<in> set (keys inp)" "p \<notin> set (r_skipped (Plan nfc inp))"
  shows "p \<notin> set (r_skipped (decide nfc inp p))"
  using assms by (auto simp: Plan_fold(2))

text \<open>One path, decided with pushes allowed and not skipped, ends in agreement.\<close>

lemma decide_agrees:
  assumes "\<not> i_pull_only inp" "p \<notin> set (r_skipped (decide nfc inp p))"
  shows "local_after inp (decide nfc inp p) p = remote_after inp (decide nfc inp p) p"
    and "synced_after (decide nfc inp p) p = remote_after inp (decide nfc inp p) p"
  using assms
  by (cases "map_of (i_remote inp) p"; cases "map_of (i_local inp) p"; cases "map_of (b_synced (i_baseline inp)) p";
      cases "map_of (b_refused (i_baseline inp)) p";
      auto simp: decide_def plan_unfold after_defs action_at_def pull_action_def no_action_def split: if_splits)+

lemma rebuild_at:
  assumes "rebuilds inp"
  shows "action_at (Plan nfc inp) p = map_option (\<lambda>h. pull_action p h False) (map_of (i_remote inp) p)"
proof -
  have f: "find (\<lambda>a. a_path a = p) (map (\<lambda>q. pull_action q (g q) False) ps) =
      (if p \<in> set ps then Some (pull_action p (g p) False) else None)" for g ps
    by (induction ps) (auto simp: pull_action_def no_action_def)
  have "p \<in> fst ` set (i_remote inp) \<longleftrightarrow> map_of (i_remote inp) p \<noteq> None"
    by (simp add: map_of_eq_None_iff)
  with assms show ?thesis by (auto simp: action_at_def Plan_def f keys_props(3))
qed

lemma not_key:
  assumes "p \<notin> set (keys inp)"
  shows "map_of (i_local inp) p = None" "map_of (i_remote inp) p = None"
  using assms by (auto simp: keys_props(3) map_of_eq_None_iff)

text \<open>
  C15: a sync converges.  Once the actions of a plan that may write to the store have landed, the
  directory, the store and the baseline the next sync starts from hold the same digest at every
  path the plan did not skip, and the same absence; after a rebuild they do at every path, in
  pull-only mode too.
\<close>

theorem sync_converges:
  fixes inp :: plan_input and nfc :: "string \<Rightarrow> bool"
  defines "res \<equiv> Plan nfc inp"
  assumes "rebuilds inp \<or> (\<not> i_pull_only inp \<and> p \<notin> set (r_skipped res))"
  shows "local_after inp res p = remote_after inp res p \<and> synced_after res p = remote_after inp res p"
proof (cases "rebuilds inp")
  case True
  then have "i_local inp = []" "b_synced (r_next res) = []" by (simp_all add: rebuilds_def res_def Plan_def empty_result_def)
  then show ?thesis using rebuild_at [OF True, of nfc p]
    by (cases "map_of (i_remote inp) p") (simp_all add: after_defs res_def pull_action_def no_action_def)
next
  case False
  note at = Plan_action_at [OF False, of nfc p] Plan_synced [OF False, of nfc p]
  show ?thesis
  proof (cases "p \<in> set (keys inp)")
    case True
    have "p \<notin> set (r_skipped (decide nfc inp p))" using assms(2) False Plan_skipped [OF False True] by (simp add: res_def)
    moreover have "\<not> i_pull_only inp" using assms(2) False by simp
    ultimately show ?thesis using decide_agrees [of inp p nfc] at True
      by (cases "action_at (decide nfc inp p) p") (simp_all add: after_defs res_def)
  next
    case nk: False
    then show ?thesis using at not_key [OF nk] by (simp add: after_defs res_def)
  qed
qed

theorem sync_converges_witness:
  "local_after demo_input (Plan (\<lambda>_. True) demo_input) ''/a'' = Some ''x1'' \<and>
   remote_after demo_input (Plan (\<lambda>_. True) demo_input) ''/a'' = Some ''x1'' \<and>
   local_after demo_input (Plan (\<lambda>_. True) demo_input) ''/b'' = remote_after demo_input (Plan (\<lambda>_. True) demo_input) ''/b''"
proof -
  have l: "local_after demo_input (Plan (\<lambda>_. True) demo_input) ''/a'' = Some ''x1''"
    by (simp add: local_after_def action_at_def demo_plan no_action_def) (simp add: demo_input_def)
  have "\<not> i_pull_only demo_input" by (simp add: demo_input_def)
  then have "local_after demo_input (Plan (\<lambda>_. True) demo_input) p = remote_after demo_input (Plan (\<lambda>_. True) demo_input) p" for p
    using sync_converges [of demo_input p "\<lambda>_. True"] by (simp add: demo_plan(2))
  with l show ?thesis by metis
qed

section \<open>The shape of a plan\<close>

lemma sorted_concat_paths:
  assumes "sorted_wrt (<) ps" "\<And>p. r_actions (f p) = [] \<or> (\<exists>a. r_actions (f p) = [a] \<and> a_path a = p)"
  shows "sorted_wrt (<) (map a_path (concat (map (\<lambda>p. r_actions (f p)) ps)))"
  using assms(1)
proof (induction ps)
  case (Cons p ps)
  have sub: "set (map a_path (concat (map (\<lambda>p. r_actions (f p)) ps))) \<subseteq> set ps"
  proof
    fix x assume "x \<in> set (map a_path (concat (map (\<lambda>p. r_actions (f p)) ps)))"
    then obtain q a where "q \<in> set ps" "a \<in> set (r_actions (f q))" "x = a_path a" by auto
    with assms(2) [of q] show "x \<in> set ps" by auto
  qed
  have "p < x" if "x \<in> set (map a_path (concat (map (\<lambda>p. r_actions (f p)) ps)))" for x
    using sub that Cons.prems by (meson in_mono sorted_wrt.simps(2))
  then have "sorted_wrt (<) (p # map a_path (concat (map (\<lambda>p. r_actions (f p)) ps)))"
    using Cons by simp
  with assms(2) [of p] show ?case by (elim disjE exE conjE) (simp_all del: map_map)
qed simp

text \<open>
  a plan's actions come in path order, at most one for each path, and the wipe guard only ever
  pulls: an empty directory whose baseline remembered more than one file, or which carries no
  marker, deletes nothing and pushes nothing.
\<close>

theorem plan_shape:
  "sorted_wrt (<) (map a_path (r_actions (Plan nfc inp))) \<and>
   (\<forall>a \<in> set (r_actions (Plan nfc inp)). rebuilds inp \<longrightarrow> a_kind a = Pull)"
proof (cases "rebuilds inp")
  case True
  have "map a_path (r_actions (Plan nfc inp)) = sortedKeys [] [] (i_remote inp)"
    using True by (simp add: Plan_def comp_def pull_action_def no_action_def)
  then show ?thesis using rebuild_actions [OF True] keys_props [of "[]" "[]" "i_remote inp"]
    by (simp add: strict_sorted_iff)
next
  case False
  have "sorted_wrt (<) (keys inp)" by (simp add: strict_sorted_iff keys_props)
  then have "sorted_wrt (<) (map a_path (r_actions (Plan nfc inp)))"
    unfolding Plan_fold(1) [OF False] using decide_actions [of nfc inp] by (intro sorted_concat_paths) blast+
  with False show ?thesis by simp
qed

theorem plan_shape_witness:
  "sorted_wrt (<) [''/a'', ''/b''] \<and>
   list_all (\<lambda>a. a_kind a = Pull) (r_actions (Plan (\<lambda>_. True) (demo_input\<lparr>i_local := []\<rparr>)))"
proof -
  have r: "rebuilds (demo_input\<lparr>i_local := []\<rparr>)" by (simp add: rebuilds_def demo_input_def)
  moreover have "map a_path (r_actions (Plan (\<lambda>_. True) (demo_input\<lparr>i_local := []\<rparr>))) = [''/a'', ''/b'']"
    using r by (simp add: Plan_def) (simp add: sortedKeys_def demo_input_def demo_heads_def pull_action_def no_action_def demo_order)
  ultimately show ?thesis using plan_shape [of "\<lambda>_. True" "demo_input\<lparr>i_local := []\<rparr>"] by (simp add: list_all_iff)
qed

end
