(* ===== verification/Memory_Tree.thy ===== *)
theory Memory_Tree
  imports Memory_Sync
begin

text \<open>
  \<^verbatim>\<open>internal/memsync/tree.go\<close>: the hash listing's command and its parser, the removal
  commands and their shell quoting.  \<^verbatim>\<open>path.Dir\<close> of Go's standard library is modelled as
  documented: the text up to the last slash, cleaned lexically.
\<close>

section \<open>The hash listing\<close>

definition hex_char :: "char \<Rightarrow> bool" where
  "hex_char c \<longleftrightarrow> (CHR ''0'' \<le> c \<and> c \<le> CHR ''9'') \<or> (CHR ''a'' \<le> c \<and> c \<le> CHR ''f'')"

definition IsDigest :: "string \<Rightarrow> bool" where
  "IsDigest b \<longleftrightarrow> length b = 64 \<and> list_all hex_char b"

datatype tree_error = EndsMidRecord | MalformedRecord string | ListedTwice string

definition well_formed_record :: "string \<Rightarrow> bool" where
  "well_formed_record rec \<longleftrightarrow> length rec \<ge> 68 \<and> IsDigest (take 64 rec) \<and> rec ! 64 = CHR '' ''
     \<and> (rec ! 65 = CHR '' '' \<or> rec ! 65 = CHR ''*'') \<and> rec ! 66 = CHR ''.'' \<and> rec ! 67 = CHR ''/'' \<and> length rec \<noteq> 68"

function parse_tree :: "string \<Rightarrow> (string \<times> string) list \<Rightarrow> tree_error + (string \<times> string) list" where
  "parse_tree s files =
     (if s = [] then Inr files
      else if CHR 0x00 \<notin> set s then Inl EndsMidRecord
      else let rec = takeWhile (\<lambda>c. c \<noteq> CHR 0x00) s; path = drop 67 rec in
        if \<not> well_formed_record rec then Inl (MalformedRecord rec)
        else if path \<in> fst ` set files then Inl (ListedTwice path)
        else parse_tree (drop (Suc (length rec)) s) (files @ [(path, take 64 rec)]))"
  by pat_completeness auto
termination
  by (relation "measure (length \<circ> fst)") auto

declare parse_tree.simps [simp del]

definition ParseHashTree :: "string \<Rightarrow> tree_error + (string \<times> string) list" where
  "ParseHashTree stdout = parse_tree stdout []"

section \<open>Shell commands\<close>


definition shellQuote :: "string \<Rightarrow> string" where
  "shellQuote s = CHR 0x27 # concat (map (\<lambda>c. if c = CHR 0x27 then [CHR 0x27, CHR 0x5C, CHR 0x27, CHR 0x27] else [c]) s) @ [CHR 0x27]"

definition mountPrelude :: "string \<Rightarrow> string \<Rightarrow> string" where
  "mountPrelude mount status = ''[ -d '' @ shellQuote mount @ '' ] || exit 0; cd -P '' @ shellQuote mount @ '' && [ '' @
     [CHR 0x22] @ ''$PWD'' @ [CHR 0x22] @ '' = '' @ shellQuote mount @ '' ] || exit '' @ status @ ''; ''"

definition HashTreeCommand :: "string \<Rightarrow> string" where
  "HashTreeCommand mount = mountPrelude mount ''3'' @ ''set -o pipefail; find . -type f ! -path '' @ shellQuote (''./'' @ MarkerName) @
     '' -print0 | LC_ALL=C sort -z | xargs -0r sha256sum -z''"

definition MarkerBytes :: "string \<Rightarrow> string" where
  "MarkerBytes storeID = ''version 1'' @ [CHR 0x0A] @ storeID"

fun join_sp :: "string list \<Rightarrow> string" where
  "join_sp [] = []"
| "join_sp [s] = s"
| "join_sp (s # ss) = s @ CHR '' '' # join_sp ss"

fun join_slash :: "string list \<Rightarrow> string" where
  "join_slash [] = []"
| "join_slash [s] = s"
| "join_slash (s # ss) = s @ CHR ''/'' # join_slash ss"

text \<open>\<^verbatim>\<open>path.Clean\<close>, element by element; the elements kept so far, last first.\<close>

definition clean_elem :: "bool \<Rightarrow> string list \<Rightarrow> string \<Rightarrow> string list" where
  "clean_elem rooted st e =
     (if e = [] \<or> e = ''.'' then st
      else if e = ''..'' then (case st of x # xs \<Rightarrow> if x = ''..'' then e # st else xs
                               | [] \<Rightarrow> if rooted then [] else [e])
      else e # st)"

definition path_clean :: "string \<Rightarrow> string" where
  "path_clean p =
     (let rooted = has_prefix p ''/''; body = join_slash (rev (foldl (clean_elem rooted) [] (split_on (CHR ''/'') p)))
      in if rooted then CHR ''/'' # body else if body = [] then ''.'' else body)"

definition path_dir :: "string \<Rightarrow> string" where
  "path_dir p = path_clean (rev (dropWhile (\<lambda>c. c \<noteq> CHR ''/'') (rev p)))"

definition removeCommandBytes :: nat where
  "removeCommandBytes = 32768"

record removal =
  rm_cmds :: "string list"
  rm_files :: "string list"
  rm_dirs :: "string list"
  rm_size :: nat

definition remove_command :: "string \<Rightarrow> string list \<Rightarrow> string list \<Rightarrow> string" where
  "remove_command mount files dirs =
     mountPrelude mount ''1'' @ ''rm -f -- '' @ join_sp files @ '' || exit 1'' @
     (if dirs \<noteq> [] then ''; rmdir -p --ignore-fail-on-non-empty -- '' @ join_sp dirs @ '' 2>/dev/null; exit 0'' else [])"

definition rm_flush :: "string \<Rightarrow> removal \<Rightarrow> removal" where
  "rm_flush mount r = (if rm_files r = [] then r
     else \<lparr>rm_cmds = rm_cmds r @ [remove_command mount (rm_files r) (rm_dirs r)], rm_files = [], rm_dirs = [], rm_size = 0\<rparr>)"

definition rm_add :: "string \<Rightarrow> string \<Rightarrow> removal \<Rightarrow> removal" where
  "rm_add mount p r0 =
     (let rel = trim_prefix p ''/''; file = shellQuote rel;
          d = path_dir rel; dir = (if d \<noteq> ''.'' then shellQuote d else []);
          r1 = (if rm_size r0 + length file + length dir + 2 > removeCommandBytes then rm_flush mount r0 else r0);
          r2 = r1\<lparr>rm_files := rm_files r1 @ [file], rm_size := rm_size r1 + length file + 1\<rparr>
      in if dir \<noteq> [] \<and> (rm_dirs r2 = [] \<or> last (rm_dirs r2) \<noteq> dir)
         then r2\<lparr>rm_dirs := rm_dirs r2 @ [dir], rm_size := rm_size r2 + length dir + 1\<rparr> else r2)"

definition RemoveCommands :: "string \<Rightarrow> string list \<Rightarrow> string list" where
  "RemoveCommands mount paths =
     rm_cmds (rm_flush mount (fold (rm_add mount) paths \<lparr>rm_cmds = [], rm_files = [], rm_dirs = [], rm_size = 0\<rparr>))"

section \<open>The listing round trip\<close>

text \<open>The listing \<^verbatim>\<open>sha256sum -z\<close> prints for a set of files in text mode.\<close>

definition record_of :: "string \<times> string \<Rightarrow> string" where
  "record_of f = snd f @ ''  .'' @ fst f"

definition listing :: "(string \<times> string) list \<Rightarrow> string" where
  "listing fs = concat (map (\<lambda>f. record_of f @ [CHR 0x00]) fs)"

definition listable :: "(string \<times> string) list \<Rightarrow> bool" where
  "listable fs \<longleftrightarrow> distinct (map fst fs) \<and>
     list_all (\<lambda>(p, d). IsDigest d \<and> has_prefix p ''/'' \<and> 1 < length p \<and> CHR 0x00 \<notin> set p) fs"

lemma digest_no_nul: "IsDigest d \<Longrightarrow> CHR 0x00 \<notin> set d"
  by (auto simp: IsDigest_def list_all_iff hex_char_def less_eq_char_def)

lemma record_props:
  assumes "IsDigest d" "has_prefix p ''/''" "1 < length p" "CHR 0x00 \<notin> set p"
  shows "well_formed_record (record_of (p, d))" "CHR 0x00 \<notin> set (record_of (p, d))"
    "take 64 (record_of (p, d)) = d" "drop 67 (record_of (p, d)) = p"
proof -
  obtain q where q: "p = CHR ''/'' # q" "q \<noteq> []" using assms(2,3) by (cases p) (auto simp: has_prefix_def)
  have l: "length d = 64" using assms(1) by (simp add: IsDigest_def)
  show "well_formed_record (record_of (p, d))"
    using assms(1) l q by (simp add: well_formed_record_def record_of_def nth_append)
  show "CHR 0x00 \<notin> set (record_of (p, d))" using assms(4) digest_no_nul [OF assms(1)] by (simp add: record_of_def)
  show "take 64 (record_of (p, d)) = d" "drop 67 (record_of (p, d)) = p" using l q by (simp_all add: record_of_def)
qed

lemma parse_step:
  assumes "IsDigest d" "has_prefix p ''/''" "1 < length p" "CHR 0x00 \<notin> set p" "p \<notin> fst ` set files"
  shows "parse_tree (record_of (p, d) @ CHR 0x00 # rest) files = parse_tree rest (files @ [(p, d)])"
proof -
  note r = record_props [OF assms(1-4)]
  have t: "takeWhile (\<lambda>c. c \<noteq> CHR 0x00) (record_of (p, d) @ CHR 0x00 # rest) = record_of (p, d)"
    using r(2) by (subst takeWhile_append2) auto
  show ?thesis by (subst parse_tree.simps) (simp add: t r assms(5))
qed

lemma parse_listing:
  "listable (files @ fs) \<Longrightarrow> parse_tree (listing fs @ rest) files = parse_tree rest (files @ fs)"
proof (induction fs arbitrary: files)
  case (Cons f fs)
  obtain p d where f: "f = (p, d)" by (cases f)
  have ok: "IsDigest d" "has_prefix p ''/''" "1 < length p" "CHR 0x00 \<notin> set p" "p \<notin> fst ` set files"
    using Cons.prems by (auto simp: listable_def f)
  have "parse_tree (listing (f # fs) @ rest) files = parse_tree (listing fs @ rest) (files @ [f])"
    using parse_step [OF ok, of "listing fs @ rest"] by (simp add: listing_def f)
  also have "\<dots> = parse_tree rest (files @ f # fs)" using Cons by simp
  finally show ?case .
qed (simp add: listing_def)

text \<open>
  The hash listing round trip.  Parsing the listing of a set of files gives back exactly those
  files with their digests, whatever bytes but NUL their names hold; a listing cut off inside a
  record is refused, never read as a smaller tree.
\<close>

theorem hash_listing_roundtrip:
  "listable fs \<Longrightarrow> ParseHashTree (listing fs) = Inr fs \<and>
     (part \<noteq> [] \<and> CHR 0x00 \<notin> set part \<longrightarrow> ParseHashTree (listing fs @ part) = Inl EndsMidRecord)"
  using parse_listing [of "[]" fs "[]"] parse_listing [of "[]" fs part]
  by (simp add: ParseHashTree_def parse_tree.simps [of "[]"] parse_tree.simps [of part])

definition demo_files :: "(string \<times> string) list" where
  "demo_files = [(''/a b'', replicate 64 (CHR ''0'')), (''/c'', replicate 64 (CHR ''f''))]"

theorem hash_listing_roundtrip_witness:
  "ParseHashTree (listing demo_files) = Inr demo_files \<and>
   ParseHashTree (listing demo_files @ ''0011'') = Inl EndsMidRecord"
proof -
  have "listable demo_files"
    by (simp add: listable_def demo_files_def IsDigest_def hex_char_def has_prefix_def list_all_iff less_eq_char_def)
  then show ?thesis using hash_listing_roundtrip [of demo_files "''0011''"] by simp
qed

section \<open>Shell words\<close>

text \<open>
  How a POSIX shell splits a command tail into words, for the characters the commands use: a
  quote opens and closes literal text, a backslash outside quotes keeps the next character, a
  space ends a word.  Any other unquoted character is refused.
\<close>

fun sh_scan :: "bool \<Rightarrow> bool \<Rightarrow> string \<Rightarrow> string \<Rightarrow> string list option" where
  "sh_scan quoted started acc [] = (if quoted then None else Some (if started then [acc] else []))"
| "sh_scan True started acc (c # s) = (if c = CHR 0x27 then sh_scan False True acc s else sh_scan True True (acc @ [c]) s)"
| "sh_scan False started acc (c # s) =
     (if c = CHR 0x27 then sh_scan True True acc s
      else if c = CHR '' '' then map_option (\<lambda>ws. if started then acc # ws else ws) (sh_scan False False [] s)
      else if c = CHR 0x5C then (case s of d # s' \<Rightarrow> sh_scan False True (acc @ [d]) s' | [] \<Rightarrow> None)
      else None)"

definition sh_words :: "string \<Rightarrow> string list option" where
  "sh_words s = sh_scan False False [] s"

definition sh_escape :: "string \<Rightarrow> string" where
  "sh_escape s = concat (map (\<lambda>c. if c = CHR 0x27 then [CHR 0x27, CHR 0x5C, CHR 0x27, CHR 0x27] else [c]) s)"

lemma shellQuote_escape: "shellQuote s = CHR 0x27 # sh_escape s @ [CHR 0x27]"
  by (simp add: shellQuote_def sh_escape_def)

lemma sh_scan_escape: "sh_scan True b acc (sh_escape s @ CHR 0x27 # rest) = sh_scan False True (acc @ s) rest"
  by (induction s arbitrary: b acc) (simp_all add: sh_escape_def)

lemma sh_scan_quote: "sh_scan False b acc (shellQuote s @ rest) = sh_scan False True (acc @ s) rest"
  by (simp add: shellQuote_escape sh_scan_escape)

lemma sh_words_quoted [simp]: "sh_words (join_sp (map shellQuote ss)) = Some ss"
  unfolding sh_words_def
proof (induction ss rule: join_sp.induct)
  case (2 s)
  then show ?case using sh_scan_quote [of False "[]" s "[]"] by simp
next
  case (3 s t ss)
  then show ?case by (simp add: sh_scan_quote)
qed simp

lemma shellQuote_inj [simp]: "shellQuote s = shellQuote t \<longleftrightarrow> s = t"
proof
  assume eq: "shellQuote s = shellQuote t"
  have "Some [s] = sh_words (join_sp (map shellQuote [s]))" by (rule sh_words_quoted [symmetric])
  also have "\<dots> = sh_words (join_sp (map shellQuote [t]))" using eq by (simp only: list.map)
  also have "\<dots> = Some [t]" by (rule sh_words_quoted)
  finally show "s = t" by simp
qed simp

lemma shellQuote_ne [simp]: "shellQuote s \<noteq> []"
  by (simp add: shellQuote_escape)

lemma length_shellQuote: "length (shellQuote s) \<le> 4 * length s + 2"
proof -
  have "length (sh_escape s) \<le> 4 * length s" by (induction s) (auto simp: sh_escape_def)
  then show ?thesis by (simp add: shellQuote_escape)
qed

section \<open>The removal commands\<close>

definition weight :: "string list \<Rightarrow> nat" where
  "weight ss = sum_list (map (\<lambda>s. length s + 1) ss)"

lemma weight_simps [simp]: "weight [] = 0" "weight (s # ss) = length s + 1 + weight ss" "weight (xs @ ys) = weight xs + weight ys"
  by (simp_all add: weight_def)

lemma length_join_sp: "length (join_sp ss) = weight ss - 1"
  by (induction ss rule: join_sp.induct) simp_all

lemma length_join_slash: "length (join_slash ss) = weight ss - 1"
  by (induction ss rule: join_slash.induct) simp_all

lemma weight_split_on: "weight (split_on c s) = length s + 1"
  by (induction s) (auto split: list.split)

lemma weight_clean: "weight (foldl (clean_elem r) st es) \<le> weight st + weight es"
proof (induction es arbitrary: st)
  case (Cons e es)
  have "weight (clean_elem r st e) \<le> weight st + weight [e]" by (auto simp: clean_elem_def split: list.split)
  with Cons [of "clean_elem r st e"] show ?case by simp
qed simp

lemma length_path_clean: "length (path_clean p) \<le> length p + 1"
proof -
  have "weight (rev ss) = weight ss" for ss by (simp add: weight_def rev_map [symmetric])
  then have "length (join_slash (rev (foldl (clean_elem r) [] (split_on (CHR ''/'') p)))) \<le> length p" for r
    using weight_clean [of r "[]" "split_on (CHR ''/'') p"] by (simp add: length_join_slash weight_split_on)
  then show ?thesis by (auto simp: path_clean_def Let_def le_SucI)
qed

lemma length_path_dir: "length (path_dir p) \<le> length p + 1"
  using length_path_clean [of "rev (dropWhile (\<lambda>c. c \<noteq> CHR ''/'') (rev p))"] length_dropWhile_le [of "\<lambda>c. c \<noteq> CHR ''/''" "rev p"]
  by (simp add: path_dir_def)

text \<open>A batch: the relative paths unlinked and the directories tried by one command.\<close>

type_synonym batch = "string list \<times> string list"

definition batch_command :: "string \<Rightarrow> batch \<Rightarrow> string" where
  "batch_command mount b = remove_command mount (map shellQuote (fst b)) (map shellQuote (snd b))"

definition batch_ok :: "batch \<Rightarrow> bool" where
  "batch_ok b \<longleftrightarrow> set (snd b) = path_dir ` set (fst b) - {''.''} \<and>
     weight (map shellQuote (fst b)) + weight (map shellQuote (snd b)) \<le> removeCommandBytes"

definition rm_inv :: "string \<Rightarrow> string list \<Rightarrow> batch list \<Rightarrow> batch \<Rightarrow> removal \<Rightarrow> bool" where
  "rm_inv mount done bs cur r \<longleftrightarrow> rm_cmds r = map (batch_command mount) bs \<and> list_all (\<lambda>b. fst b \<noteq> [] \<and> batch_ok b) bs \<and>
     rm_files r = map shellQuote (fst cur) \<and> rm_dirs r = map shellQuote (snd cur) \<and> batch_ok cur \<and>
     rm_size r = weight (rm_files r) + weight (rm_dirs r) \<and> concat (map fst bs) @ fst cur = done"

lemma rm_flush_inv:
  assumes "rm_inv mount done bs cur r"
  shows "\<exists>bs'. rm_inv mount done bs' ([], []) (rm_flush mount r)"
proof (cases "rm_files r = []")
  case True
  then have "fst cur = []" "rm_flush mount r = r" using assms by (simp_all add: rm_inv_def rm_flush_def)
  moreover from this have "snd cur = []" using assms by (simp add: rm_inv_def batch_ok_def)
  ultimately show ?thesis using assms by (metis prod.collapse)
next
  case False
  then have "rm_inv mount done (bs @ [cur]) ([], []) (rm_flush mount r)"
    using assms by (simp add: rm_inv_def rm_flush_def batch_command_def) (simp add: batch_ok_def)
  then show ?thesis ..
qed

lemma rm_add_inv:
  assumes inv: "rm_inv mount done bs cur r" and len: "length p \<le> MaxPathBytes"
  shows "\<exists>bs' cur'. rm_inv mount (done @ [trim_prefix p ''/'']) bs' cur' (rm_add mount p r)"
proof -
  define rel where "rel = trim_prefix p ''/''"
  define d where "d = path_dir rel"
  define dir where "dir = (if d \<noteq> ''.'' then shellQuote d else [])"
  define r1 where "r1 = (if rm_size r + length (shellQuote rel) + length dir + 2 > removeCommandBytes then rm_flush mount r else r)"
  have rl: "length rel \<le> 1024" using len by (auto simp: rel_def trim_prefix_def MaxPathBytes_def)
  have dl: "length d \<le> 1025" using length_path_dir [of rel] rl by (simp add: d_def)
  have small: "length (shellQuote rel) + length dir + 2 \<le> removeCommandBytes"
    using length_shellQuote [of rel] length_shellQuote [of d] rl dl by (simp add: dir_def removeCommandBytes_def)
  obtain bs1 fs ds where i1: "rm_inv mount done bs1 (fs, ds) r1"
    and room: "rm_size r1 + length (shellQuote rel) + length dir + 2 \<le> removeCommandBytes"
  proof (cases "rm_size r + length (shellQuote rel) + length dir + 2 > removeCommandBytes")
    case True
    then obtain bs' where "rm_inv mount done bs' ([], []) r1" using rm_flush_inv [OF inv] by (auto simp: r1_def)
    then show ?thesis using small by (intro that [of bs' "[]" "[]"]) (simp_all add: rm_inv_def)
  next
    case False
    then show ?thesis using inv by (intro that [of bs "fst cur" "snd cur"]) (simp_all add: r1_def)
  qed
  define fresh where "fresh \<longleftrightarrow> d \<noteq> ''.'' \<and> (ds = [] \<or> last ds \<noteq> d)"
  have dirs1: "rm_dirs r1 = map shellQuote ds" using i1 by (simp add: rm_inv_def)
  have new: "dir \<noteq> [] \<and> (rm_dirs r1 = [] \<or> last (rm_dirs r1) \<noteq> dir) \<longleftrightarrow> fresh" and dd: "fresh \<Longrightarrow> dir = shellQuote d"
    by (auto simp: dirs1 dir_def fresh_def last_map)
  have "rm_add mount p r = (let r2 = r1\<lparr>rm_files := rm_files r1 @ [shellQuote rel], rm_size := rm_size r1 + length (shellQuote rel) + 1\<rparr>
     in if dir \<noteq> [] \<and> (rm_dirs r1 = [] \<or> last (rm_dirs r1) \<noteq> dir)
        then r2\<lparr>rm_dirs := rm_dirs r1 @ [dir], rm_size := rm_size r2 + length dir + 1\<rparr> else r2)"
    unfolding rm_add_def Let_def rel_def [symmetric] d_def [symmetric] dir_def [symmetric] r1_def [symmetric] by simp
  then have add: "rm_add mount p r = (let r2 = r1\<lparr>rm_files := rm_files r1 @ [shellQuote rel], rm_size := rm_size r1 + length (shellQuote rel) + 1\<rparr>
     in if fresh then r2\<lparr>rm_dirs := rm_dirs r1 @ [shellQuote d], rm_size := rm_size r2 + length (shellQuote d) + 1\<rparr> else r2)"
    unfolding new using dd by (cases fresh) simp_all
  have old: "d \<in> set ds" if "\<not> fresh" "d \<noteq> ''.''" using that last_in_set [of ds] by (auto simp: fresh_def)
  have dirs: "set ds = path_dir ` set fs - {''.''}" using i1 by (simp add: rm_inv_def batch_ok_def)
  have "batch_ok (fs @ [rel], if fresh then ds @ [d] else ds)"
    using i1 room old dirs by (auto simp: rm_inv_def batch_ok_def dir_def fresh_def simp flip: d_def split: if_splits)
  then have "rm_inv mount (done @ [rel]) bs1 (fs @ [rel], if fresh then ds @ [d] else ds) (rm_add mount p r)"
    using i1 unfolding add by (simp add: rm_inv_def Let_def)
  then show ?thesis unfolding rel_def by blast
qed

lemma rm_fold_inv:
  "rm_inv mount done bs cur r \<Longrightarrow> list_all (\<lambda>p. length p \<le> MaxPathBytes) paths \<Longrightarrow>
   \<exists>bs' cur'. rm_inv mount (done @ map (\<lambda>p. trim_prefix p ''/'') paths) bs' cur' (fold (rm_add mount) paths r)"
proof (induction paths arbitrary: "done" bs cur r)
  case (Cons p ps)
  then obtain bs' cur' where "rm_inv mount (done @ [trim_prefix p ''/'']) bs' cur' (rm_add mount p r)"
    using rm_add_inv [of mount "done" bs cur r p] by auto
  from Cons.IH [OF this] Cons.prems(2) show ?case by simp
qed auto

lemma batch_command_length:
  assumes "fst b \<noteq> []" "batch_ok b"
  shows "length (batch_command mount b) \<le> length (mountPrelude mount ''1'') + removeCommandBytes + 100"
  using assms by (auto simp: batch_ok_def batch_command_def remove_command_def length_join_sp)

text \<open>
  The removal commands unlink every path they are given exactly once and in order, and nothing
  else: split into words as a shell does, the arguments of the commands together are the paths
  relative to the mount, whatever characters they hold; each command tries to remove exactly the
  directories of its own paths; and no command is longer than the budget plus its fixed text.
\<close>

theorem remove_commands_cover:
  assumes "list_all (\<lambda>p. length p \<le> MaxPathBytes) paths"
  shows "\<exists>bs. RemoveCommands mount paths = map (batch_command mount) bs \<and>
     concat (map fst bs) = map (\<lambda>p. trim_prefix p ''/'') paths \<and>
     (\<forall>b \<in> set bs. sh_words (join_sp (map shellQuote (fst b))) = Some (fst b) \<and>
        set (snd b) = path_dir ` set (fst b) - {''.''} \<and>
        length (batch_command mount b) \<le> length (mountPrelude mount ''1'') + removeCommandBytes + 100)"
proof -
  have "rm_inv mount [] [] ([], []) \<lparr>rm_cmds = [], rm_files = [], rm_dirs = [], rm_size = 0\<rparr>"
    by (simp add: rm_inv_def batch_ok_def)
  from rm_fold_inv [OF this assms] obtain bs' cur' where
    "rm_inv mount (map (\<lambda>p. trim_prefix p ''/'') paths) bs' cur'
       (fold (rm_add mount) paths \<lparr>rm_cmds = [], rm_files = [], rm_dirs = [], rm_size = 0\<rparr>)" by auto
  from rm_flush_inv [OF this] obtain bs where
    "rm_inv mount (map (\<lambda>p. trim_prefix p ''/'') paths) bs ([], [])
       (rm_flush mount (fold (rm_add mount) paths \<lparr>rm_cmds = [], rm_files = [], rm_dirs = [], rm_size = 0\<rparr>))" ..
  then have "RemoveCommands mount paths = map (batch_command mount) bs"
    "concat (map fst bs) = map (\<lambda>p. trim_prefix p ''/'') paths" "\<forall>b \<in> set bs. fst b \<noteq> [] \<and> batch_ok b"
    by (simp_all add: rm_inv_def RemoveCommands_def list_all_iff)
  then show ?thesis using batch_command_length [of _ mount] by (intro exI [of _ bs]) (auto simp: batch_ok_def)
qed

theorem remove_commands_cover_witness:
  "\<exists>bs. RemoveCommands ''/mnt/s'' [''/a/b'', ''/it s''] = map (batch_command ''/mnt/s'') bs \<and>
     concat (map fst bs) = [''a/b'', ''it s'']"
proof -
  have "list_all (\<lambda>p. length p \<le> MaxPathBytes) [''/a/b'', ''/it s'']" by (simp add: MaxPathBytes_def)
  from remove_commands_cover [OF this, of "''/mnt/s''"] show ?thesis
    by (elim exE conjE) (auto simp: trim_prefix_def has_prefix_def)
qed

end
