(* ===== verification/Thread_Status.thy ===== *)
theory Thread_Status
  imports Events_Domain
begin

text \<open>
  \<^verbatim>\<open>internal/events/status.go\<close>: the session's status as a fold over its threads'.
  \<open>foldSession\<close> derives the session status and idle stop reason, \<open>TransitionThread\<close> moves one
  thread and re-derives the session's status in the same transaction, \<open>PreviewTransition\<close> is
  the fold without the writes.  The lemmas give the fold's abstract specification
  (\<open>spec_status\<close>), that a transition keeps the session column equal to it, which events it
  emits and in which order.
\<close>

section \<open>Definitions\<close>

record thread_transition =
  tt_thread :: id
  tt_status :: session_status
  tt_stop :: "stop_reason option"
  tt_reemit :: bool
  tt_force :: bool

datatype status_error =
    NoStatusEvent session_status
  | ThreadNotInSession id id

definition primaryStatusEvents :: "event_type \<Rightarrow> bool" where
  "primaryStatusEvents t \<longleftrightarrow> t \<in> {EventSessionThreadStatusRunning, EventSessionThreadStatusIdle,
     EventSessionThreadStatusRescheduled, EventSessionThreadStatusTerminated}"

fun threadStatusOf :: "session_status \<Rightarrow> event_type option" where
  "threadStatusOf SessionRunning = Some EventSessionThreadStatusRunning"
| "threadStatusOf SessionIdle = Some EventSessionThreadStatusIdle"
| "threadStatusOf SessionRescheduling = Some EventSessionThreadStatusRescheduled"
| "threadStatusOf _ = None"

fun sessionStatusOf :: "session_status \<Rightarrow> event_type option" where
  "sessionStatusOf SessionRunning = Some EventSessionStatusRunning"
| "sessionStatusOf SessionIdle = Some EventSessionStatusIdle"
| "sessionStatusOf SessionRescheduling = Some EventSessionStatusRescheduled"
| "sessionStatusOf SessionTerminated = Some EventSessionStatusTerminated"
| "sessionStatusOf (SessionOther _) = None"

fun stopRank :: "stop_reason_type \<Rightarrow> nat" where
  "stopRank StopRequiresAction = 3"
| "stopRank StopRetriesExhausted = 2"
| "stopRank StopEndTurn = 1"
| "stopRank (StopOther _) = 0"

fun stop_type_str :: "stop_reason_type \<Rightarrow> string" where
  "stop_type_str StopRequiresAction = ''requires_action''"
| "stop_type_str StopRetriesExhausted = ''retries_exhausted''"
| "stop_type_str StopEndTurn = ''end_turn''"
| "stop_type_str (StopOther s) = s"

definition stop_json :: "stop_reason \<Rightarrow> json" where
  "stop_json r = JObj ([(''type'', JStr (stop_type_str (stop_type r)))] @
     (if stop_event_ids r = [] then [] else [(''event_ids'', JArr (map JStr (stop_event_ids r)))]))"

text \<open>
  The ids of \<open>ids\<close> that are on the log, by seq, then the others in the order given.
\<close>

definition idsInSeqOrder :: "session_db \<Rightarrow> id list \<Rightarrow> id list" where
  "idsInSeqOrder db ids =
     (let out = map ev_id (filter (\<lambda>e. ev_id e \<in> set ids) (s_log db))
      in out @ filter (\<lambda>i. i \<notin> set out) ids)"

definition moving_id :: "session_db \<Rightarrow> thread_transition \<Rightarrow> id" where
  "moving_id db t = (if tt_thread t = [] then primary_thread_id (s_id db) else tt_thread t)"

text \<open>The rows the fold reads, with the transition standing in for its own thread's row.\<close>

definition rows_of ::
  "id \<Rightarrow> thread_transition \<Rightarrow> thread_row list \<Rightarrow> (session_status \<times> stop_reason option) list" where
  "rows_of tid t rs =
     filter (\<lambda>(st, _). st \<noteq> SessionTerminated)
       (map (\<lambda>r. if t_id r = tid then (tt_status t, tt_stop t) else (t_status r, t_stop r))
         (filter (\<lambda>r. \<not> t_archived r \<and> t_status r \<noteq> SessionTerminated) rs))"

definition fold_rows ::
  "session_db \<Rightarrow> thread_transition \<Rightarrow> (session_status \<times> stop_reason option) list" where
  "fold_rows db t = rows_of (moving_id db t) t (s_threads db)"

text \<open>
  The scan over those rows: \<open>None\<close> is the early return at the first running thread, otherwise
  whether any is rescheduling, the picked stop reason, the asks' ids and how many threads ask.
\<close>

fun fold_scan :: "(session_status \<times> stop_reason option) list \<Rightarrow> bool \<Rightarrow> stop_reason option \<Rightarrow> id list \<Rightarrow> nat
    \<Rightarrow> (bool \<times> stop_reason option \<times> id list \<times> nat) option" where
  "fold_scan [] res pick ids n = Some (res, pick, ids, n)"
| "fold_scan ((SessionRunning, _) # rs) res pick ids n = None"
| "fold_scan ((SessionRescheduling, _) # rs) res pick ids n = fold_scan rs True pick ids n"
| "fold_scan ((SessionIdle, None) # rs) res pick ids n = fold_scan rs res pick ids n"
| "fold_scan ((SessionIdle, Some r) # rs) res pick ids n =
     fold_scan rs res
       (case pick of None \<Rightarrow> Some r
        | Some p \<Rightarrow> if stopRank (stop_type r) > stopRank (stop_type p) then Some r else Some p)
       (if stop_type r = StopRequiresAction then ids @ stop_event_ids r else ids)
       (if stop_type r = StopRequiresAction then Suc n else n)"
| "fold_scan ((_, _) # rs) res pick ids n = fold_scan rs res pick ids n"

definition foldSession ::
  "session_db \<Rightarrow> thread_transition \<Rightarrow> bool \<Rightarrow> session_status \<times> stop_reason option" where
  "foldSession db t rowFound =
     (if tt_thread t = [] \<and> tt_status t = SessionTerminated then (SessionTerminated, None)
      else let threads = fold_rows db t in
        if \<not> rowFound \<or> threads = [] then (tt_status t, tt_stop t)
        else case fold_scan threads False None [] 0 of
            None \<Rightarrow> (SessionRunning, None)
          | Some (anyResched, pick, askIDs, askThreads) \<Rightarrow>
              if anyResched then (SessionRescheduling, None)
              else (SessionIdle,
                (case pick of
                   Some p \<Rightarrow> if stop_type p = StopRequiresAction
                     then Some \<lparr>stop_type = StopRequiresAction,
                                stop_event_ids = (if askThreads > 1 then idsInSeqOrder db askIDs else askIDs)\<rparr>
                     else Some p
                 | None \<Rightarrow> None)))"

text \<open>The UPDATE of the moving thread's row; the flag is whether a row matched.\<close>

definition move_row :: "id \<Rightarrow> session_status \<Rightarrow> stop_reason option \<Rightarrow> thread_row \<Rightarrow> thread_row" where
  "move_row tid st stop r =
     (if t_id r = tid
      then r\<lparr>t_status := st, t_stop := stop, t_transitioned := (t_transitioned r \<or> t_status r \<noteq> st)\<rparr>
      else r)"

definition stored_stop :: "thread_transition \<Rightarrow> stop_reason option" where
  "stored_stop t = (if tt_status t = SessionIdle then tt_stop t else None)"

definition move_thread :: "session_db \<Rightarrow> thread_transition \<Rightarrow> session_db" where
  "move_thread db t =
     db\<lparr>s_threads := map (move_row (moving_id db t) (tt_status t) (stored_stop t)) (s_threads db)\<rparr>"

definition has_thread :: "session_db \<Rightarrow> id \<Rightarrow> bool" where
  "has_thread db tid \<longleftrightarrow> tid \<in> t_id ` set (s_threads db)"

definition agent_name_of :: "session_db \<Rightarrow> id \<Rightarrow> string" where
  "agent_name_of db tid =
     (case filter (\<lambda>r. t_id r = tid) (s_threads db) of [] \<Rightarrow> [] | r # _ \<Rightarrow> t_agent_name r)"

definition thread_event :: "session_db \<Rightarrow> thread_transition \<Rightarrow> new_event option" where
  "thread_event db t =
     (let typ = (if tt_status t = SessionTerminated \<and> tt_thread t \<noteq> []
                 then Some EventSessionThreadStatusTerminated else threadStatusOf (tt_status t))
      in case typ of None \<Rightarrow> None
         | Some ty \<Rightarrow> Some ((mk_event ty (JObj (
               (if tt_thread t \<noteq> [] then [(''agent_name'', JStr (agent_name_of db (tt_thread t)))] else [])
               @ [(''session_thread_id'', JStr (moving_id db t))]
               @ (case stored_stop t of None \<Rightarrow> [] | Some r \<Rightarrow> [(''stop_reason'', stop_json r)]))))
             \<lparr>ne_thread := tt_thread t, ne_cross := tt_thread t \<noteq> []\<rparr>))"

text \<open>
  The session's own event: what the fold emits, given the fold, the stored status before the
  move and the transition's flags; \<open>None\<close> when the session says nothing.
\<close>

definition session_event ::
  "thread_transition \<Rightarrow> session_status \<times> stop_reason option \<Rightarrow> session_status \<Rightarrow> new_event option" where
  "session_event t fs current =
     (let (folded, foldedStop) = fs; changed = (folded \<noteq> current) in
      if changed \<or> tt_force t \<or> (tt_reemit t \<and> folded = tt_status t)
      then let (emit, stop) = (if \<not> changed \<and> folded \<noteq> tt_status t then (tt_status t, tt_stop t)
                               else (folded, foldedStop))
           in case sessionStatusOf emit of None \<Rightarrow> None
              | Some ty \<Rightarrow> Some ((mk_event ty (JObj (if emit = SessionIdle
                    then (case stop of None \<Rightarrow> [] | Some r \<Rightarrow> [(''stop_reason'', stop_json r)]) else [])))
                  \<lparr>ne_restated := (emit \<noteq> SessionRunning \<and> current \<noteq> SessionRunning)\<rparr>)
      else None)"

definition order_pair :: "new_event option \<Rightarrow> new_event option \<Rightarrow> new_event list" where
  "order_pair thread session =
     (let sessionFirst = (case session of None \<Rightarrow> False | Some e \<Rightarrow> ne_type e = EventSessionStatusRunning);
          pair = (if sessionFirst then [session, thread] else [thread, session])
      in List.map_filter id pair)"

definition TransitionThread :: "session_db \<Rightarrow> thread_transition
    \<Rightarrow> status_error + session_db \<times> new_event list \<times> session_status option" where
  "TransitionThread db t =
     (case sessionStatusOf (tt_status t) of None \<Rightarrow> Inl (NoStatusEvent (tt_status t))
      | Some _ \<Rightarrow>
        let tid = moving_id db t; rowFound = has_thread db tid; db1 = move_thread db t in
        if \<not> rowFound \<and> tt_thread t \<noteq> [] then Inl (ThreadNotInSession tid (s_id db))
        else
          let thread = thread_event db t;
              fs = foldSession db1 t rowFound;
              current = s_status db1;
              changed = (fst fs \<noteq> current);
              db2 = (if changed then db1\<lparr>s_status := fst fs\<rparr> else db1);
              moved = (if changed then Some (fst fs) else None);
              session = session_event t fs current
          in Inr (db2, order_pair thread session, moved))"

definition PreviewTransition :: "session_db \<Rightarrow> thread_transition \<Rightarrow> session_status \<times> stop_reason option" where
  "PreviewTransition db t = foldSession db t True"

text \<open>Whether moving the thread to running wakes it.\<close>

definition threadWakes :: "session_db \<Rightarrow> id \<Rightarrow> session_status \<Rightarrow> bool" where
  "threadWakes db threadID sessionStatus =
     (let tid = (if threadID = [] then primary_thread_id (s_id db) else threadID);
          status = (case filter (\<lambda>r. t_id r = tid) (s_threads db) of [] \<Rightarrow> sessionStatus | r # _ \<Rightarrow> t_status r)
      in status \<noteq> SessionRunning)"

section \<open>The fold's specification\<close>

text \<open>The precedence of the session status over the live threads' statuses.\<close>

definition spec_status :: "session_status set \<Rightarrow> session_status" where
  "spec_status S = (if SessionRunning \<in> S then SessionRunning
     else if SessionRescheduling \<in> S then SessionRescheduling else SessionIdle)"

definition live :: "thread_row \<Rightarrow> bool" where
  "live r \<longleftrightarrow> \<not> t_archived r \<and> t_status r \<noteq> SessionTerminated"

definition idle_stops :: "(session_status \<times> stop_reason option) list \<Rightarrow> stop_reason list" where
  "idle_stops rs = List.map_filter (\<lambda>(st, r). if st = SessionIdle then r else None) rs"

definition asks :: "stop_reason list \<Rightarrow> stop_reason list" where
  "asks rs = filter (\<lambda>r. stop_type r = StopRequiresAction) rs"

definition better :: "stop_reason option \<Rightarrow> stop_reason \<Rightarrow> stop_reason option" where
  "better pick r = (case pick of None \<Rightarrow> Some r
     | Some p \<Rightarrow> if stopRank (stop_type r) > stopRank (stop_type p) then Some r else Some p)"

lemma idle_stops_simps [simp]:
  "idle_stops [] = []"
  "idle_stops ((st, r) # rs) =
     (if st = SessionIdle then (case r of None \<Rightarrow> idle_stops rs | Some x \<Rightarrow> x # idle_stops rs) else idle_stops rs)"
  by (auto simp: idle_stops_def List.map_filter_def split: option.splits)

lemma asks_simps [simp]:
  "asks [] = []"
  "asks (r # rs) = (if stop_type r = StopRequiresAction then r # asks rs else asks rs)"
  by (auto simp: asks_def)

lemma fold_scan_None:
  "fold_scan rs res pick ids n = None \<longleftrightarrow> SessionRunning \<in> fst ` set rs"
  by (induction rs res pick ids n rule: fold_scan.induct) auto

lemma fold_scan_Some:
  "SessionRunning \<notin> fst ` set rs \<Longrightarrow>
   fold_scan rs res pick ids n =
     Some (res \<or> SessionRescheduling \<in> fst ` set rs, foldl better pick (idle_stops rs),
           ids @ concat (map stop_event_ids (asks (idle_stops rs))), n + length (asks (idle_stops rs)))"
  by (induction rs res pick ids n rule: fold_scan.induct) (auto simp: better_def)

text \<open>The pick is a reason of highest rank: there is one iff some idle thread has a reason.\<close>

lemma foldl_better_mem:
  "foldl better pick rs = Some p \<Longrightarrow> p \<in> set rs \<or> pick = Some p"
  by (induction rs arbitrary: pick) (auto simp: better_def split: option.splits if_splits)

lemma foldl_better_max:
  "foldl better pick rs = Some p \<Longrightarrow> r \<in> set rs \<or> pick = Some r \<Longrightarrow>
   stopRank (stop_type r) \<le> stopRank (stop_type p)"
proof (induction rs arbitrary: pick r)
  case Nil
  then show ?case by simp
next
  case (Cons x xs)
  obtain q where q: "better pick x = Some q" "stopRank (stop_type x) \<le> stopRank (stop_type q)"
      "\<And>r. pick = Some r \<Longrightarrow> stopRank (stop_type r) \<le> stopRank (stop_type q)"
    by (cases "better pick x") (auto simp: better_def split: option.splits if_splits)
  from Cons.prems(1) have f: "foldl better (Some q) xs = Some p" by (simp add: q(1))
  have "stopRank (stop_type q) \<le> stopRank (stop_type p)" by (rule Cons.IH [OF f]) simp
  with q(2,3) Cons.IH [OF f] Cons.prems(2) show ?case
    by (metis le_trans set_ConsD)
qed

lemma foldl_better_None: "foldl better pick rs = None \<longleftrightarrow> pick = None \<and> rs = []"
  by (induction rs arbitrary: pick) (auto simp: better_def split: option.splits)

lemma stopRank_3 [simp]: "stopRank s = 3 \<longleftrightarrow> s = StopRequiresAction"
  by (cases s) auto

lemma stopRank_le3: "stopRank s \<le> 3"
  by (cases s) auto

lemma pick_requires_action:
  "foldl better None rs = Some p \<Longrightarrow> stop_type p = StopRequiresAction \<longleftrightarrow> asks rs \<noteq> []"
proof -
  assume p: "foldl better None rs = Some p"
  show ?thesis
  proof
    assume "stop_type p = StopRequiresAction"
    with foldl_better_mem [OF p] show "asks rs \<noteq> []" by (auto simp: asks_def filter_empty_conv)
  next
    assume "asks rs \<noteq> []"
    then obtain r where r: "r \<in> set rs" "stop_type r = StopRequiresAction"
      by (auto simp: asks_def filter_empty_conv)
    have "3 \<le> stopRank (stop_type p)" using foldl_better_max [OF p, of r] r by simp
    with stopRank_le3 [of "stop_type p"] show "stop_type p = StopRequiresAction"
      by (metis le_antisym stopRank_3)
  qed
qed

lemma set_idsInSeqOrder [simp]: "set (idsInSeqOrder db ids) = set ids"
  by (auto simp: idsInSeqOrder_def Let_def)

lemma distinct_idsInSeqOrder:
  "distinct (map ev_id (s_log db)) \<Longrightarrow> distinct ids \<Longrightarrow> distinct (idsInSeqOrder db ids)"
  by (auto simp: idsInSeqOrder_def Let_def distinct_map intro: inj_on_subset)

lemma idsInSeqOrder_split:
  "\<exists>unlogged. idsInSeqOrder db ids = filter (\<lambda>i. i \<in> set ids) (map ev_id (s_log db)) @ unlogged \<and>
     set unlogged \<inter> ev_id ` set (s_log db) = {}"
  by (rule exI [of _ "filter (\<lambda>i. i \<notin> ev_id ` set (s_log db)) ids"])
     (auto simp: idsInSeqOrder_def Let_def filter_map comp_def intro: filter_cong)

text \<open>The fold without the abnormal arms: the status is \<open>spec_status\<close>.\<close>

lemma foldSession_status:
  assumes "\<not> (tt_thread t = [] \<and> tt_status t = SessionTerminated)" "fold_rows db t \<noteq> []"
  shows "fst (foldSession db t True) = spec_status (fst ` set (fold_rows db t))"
proof (cases "SessionRunning \<in> fst ` set (fold_rows db t)")
  case True
  then have "fold_scan (fold_rows db t) False None [] 0 = None" by (simp add: fold_scan_None)
  then show ?thesis using assms True by (auto simp: foldSession_def spec_status_def Let_def)
next
  case False
  then show ?thesis
    using assms fold_scan_Some [OF False]
    by (auto simp: foldSession_def spec_status_def Let_def)
qed

text \<open>And its stop reason: none unless idle; the asks' union when any thread asks.\<close>

lemma foldSession_asks:
  assumes "\<not> (tt_thread t = [] \<and> tt_status t = SessionTerminated)" "fold_rows db t \<noteq> []"
    and idle: "fst (foldSession db t True) = SessionIdle"
    and ask: "asks (idle_stops (fold_rows db t)) \<noteq> []"
  shows "\<exists>ids. snd (foldSession db t True) = Some \<lparr>stop_type = StopRequiresAction, stop_event_ids = ids\<rparr> \<and>
     set ids = (\<Union>r \<in> set (asks (idle_stops (fold_rows db t))). set (stop_event_ids r))"
proof -
  from idle have nr: "SessionRunning \<notin> fst ` set (fold_rows db t)"
      "SessionRescheduling \<notin> fst ` set (fold_rows db t)"
    unfolding foldSession_status [OF assms(1,2)] spec_status_def
    by (auto split: if_splits)
  obtain p where p: "foldl better None (idle_stops (fold_rows db t)) = Some p"
    using ask foldl_better_None [of None "idle_stops (fold_rows db t)"]
    by (cases "foldl better None (idle_stops (fold_rows db t))") auto
  have "stop_type p = StopRequiresAction" using pick_requires_action [OF p] ask by simp
  then show ?thesis
    using assms(1,2) nr fold_scan_Some [OF nr(1)] p
    by (auto simp: foldSession_def Let_def)
qed

lemma foldSession_multi:
  assumes "\<not> (tt_thread t = [] \<and> tt_status t = SessionTerminated)" "fold_rows db t \<noteq> []"
    and "fst (foldSession db t True) = SessionIdle"
    and "snd (foldSession db t True) = Some \<lparr>stop_type = StopRequiresAction, stop_event_ids = ids\<rparr>"
    and "length (asks (idle_stops (fold_rows db t))) > 1"
  shows "ids = idsInSeqOrder db (concat (map stop_event_ids (asks (idle_stops (fold_rows db t)))))"
proof -
  from assms(3) have nr: "SessionRunning \<notin> fst ` set (fold_rows db t)"
      "SessionRescheduling \<notin> fst ` set (fold_rows db t)"
    unfolding foldSession_status [OF assms(1,2)] spec_status_def
    by (auto split: if_splits)
  show ?thesis
    using assms nr fold_scan_Some [OF nr(1)]
    by (auto simp: foldSession_def Let_def dest: pick_requires_action split: option.splits if_splits)
qed

section \<open>Transitions\<close>

text \<open>
  The state the transaction keeps: thread ids are unique, the primary thread is live, and the
  session column is the fold over the live threads' statuses.
\<close>

definition live_statuses :: "session_db \<Rightarrow> session_status set" where
  "live_statuses db = t_status ` {r \<in> set (s_threads db). live r}"

definition session_wf :: "session_db \<Rightarrow> bool" where
  "session_wf db \<longleftrightarrow> distinct (map t_id (s_threads db)) \<and>
     (\<exists>r \<in> set (s_threads db). t_id r = primary_thread_id (s_id db) \<and> live r) \<and>
     s_status db = spec_status (live_statuses db)"

lemma move_row_sel [simp]:
  "t_id (move_row tid st stop r) = t_id r"
  "t_archived (move_row tid st stop r) = t_archived r"
  "t_agent_name (move_row tid st stop r) = t_agent_name r"
  "t_status (move_row tid st stop r) = (if t_id r = tid then st else t_status r)"
  by (simp_all add: move_row_def)

lemma moving_id_move [simp]: "moving_id (move_thread db t) u = moving_id db u"
  by (simp add: moving_id_def move_thread_def)

lemma s_status_move [simp]: "s_status (move_thread db t) = s_status db"
  by (simp add: move_thread_def)

lemma s_threads_move:
  "s_threads (move_thread db t) = map (move_row (moving_id db t) (tt_status t) (stored_stop t)) (s_threads db)"
  by (simp add: move_thread_def)

lemma rows_of_Nil [simp]: "rows_of tid t [] = []"
  by (simp add: rows_of_def)

lemma rows_of_Cons [simp]: "rows_of tid t (r # rs) =
  (if t_archived r \<or> t_status r = SessionTerminated then []
   else if t_id r = tid then (if tt_status t = SessionTerminated then [] else [(tt_status t, tt_stop t)])
   else [(t_status r, t_stop r)]) @ rows_of tid t rs"
  by (simp add: rows_of_def)

lemma rows_of_move:
  "fst ` set (rows_of tid t (map (move_row tid (tt_status t) stop) rs)) =
   t_status ` set (filter live (map (move_row tid (tt_status t) stop) rs))"
  by (induction rs) (auto simp: live_def)

lemma fold_rows_move: "fst ` set (fold_rows (move_thread db t) t) = live_statuses (move_thread db t)"
  unfolding fold_rows_def moving_id_move live_statuses_def
  using rows_of_move [of "moving_id db t" t "stored_stop t" "s_threads db"]
  by (simp only: s_threads_move set_filter)

lemma rows_of_preview:
  "(\<And>r. r \<in> set rs \<Longrightarrow> t_id r = tid \<Longrightarrow> t_status r \<noteq> SessionTerminated) \<Longrightarrow>
   rows_of tid t (map (move_row tid (tt_status t) stop) rs) = rows_of tid t rs"
  by (induction rs) (auto simp: move_row_def)

lemma fold_rows_preview:
  "(\<And>r. r \<in> set (s_threads db) \<Longrightarrow> t_id r = moving_id db t \<Longrightarrow> t_status r \<noteq> SessionTerminated) \<Longrightarrow>
   fold_rows (move_thread db t) t = fold_rows db t"
  using rows_of_preview [of "s_threads db" "moving_id db t" t "stored_stop t"]
  unfolding fold_rows_def moving_id_move by (simp add: move_thread_def)

lemma foldSession_cong:
  assumes "s_log db = s_log db'" "fold_rows db t = fold_rows db' t"
  shows "foldSession db t b = foldSession db' t b"
proof -
  have "idsInSeqOrder db = idsInSeqOrder db'"
    using assms(1) by (simp add: idsInSeqOrder_def fun_eq_iff)
  with assms(2) show ?thesis unfolding foldSession_def by presburger
qed

lemma TransitionThread_Inr:
  assumes "TransitionThread db t = Inr (db', evs, moved)"
  defines "fs \<equiv> foldSession (move_thread db t) t (has_thread db (moving_id db t))"
  shows "db' = (move_thread db t)\<lparr>s_status := fst fs\<rparr>"
    and "moved = (if fst fs = s_status db then None else Some (fst fs))"
    and "evs = order_pair (thread_event db t) (session_event t fs (s_status db))"
    and "sessionStatusOf (tt_status t) \<noteq> None"
  using assms
  by (auto simp: TransitionThread_def fs_def Let_def split: option.splits if_splits)

lemma session_wf_mover:
  assumes "session_wf db" "TransitionThread db t = Inr (db', evs, moved)"
  shows "has_thread db (moving_id db t)"
proof (cases "tt_thread t = []")
  case True
  with assms(1) show ?thesis by (force simp: session_wf_def has_thread_def moving_id_def)
next
  case False
  with assms(2) show ?thesis
    by (auto simp: TransitionThread_def Let_def split: option.splits if_splits)
qed

lemma live_move_primary:
  assumes "session_wf db" "\<not> (tt_thread t = [] \<and> tt_status t = SessionTerminated)"
    and "tt_thread t \<noteq> primary_thread_id (s_id db)"
  shows "\<exists>r \<in> set (s_threads (move_thread db t)). t_id r = primary_thread_id (s_id db) \<and> live r"
proof -
  from assms(1) obtain p where p: "p \<in> set (s_threads db)" "t_id p = primary_thread_id (s_id db)" "live p"
    by (auto simp: session_wf_def)
  let ?q = "move_row (moving_id db t) (tt_status t) (stored_stop t) p"
  have "live ?q" using p assms(2,3) by (auto simp: live_def moving_id_def split: if_splits)
  with p show ?thesis by (intro bexI [of _ ?q]) (auto simp: move_thread_def)
qed

lemma session_wf_step:
  assumes wf: "session_wf db" and ok: "TransitionThread db t = Inr (db', evs, moved)"
    and nt: "\<not> (tt_thread t = [] \<and> tt_status t = SessionTerminated)"
    and np: "tt_thread t \<noteq> primary_thread_id (s_id db)"
  shows "session_wf db'"
proof -
  have db': "db' = (move_thread db t)\<lparr>s_status := fst (foldSession (move_thread db t) t True)\<rparr>"
    using TransitionThread_Inr(1) [OF ok] session_wf_mover [OF wf ok] by simp
  obtain r where r: "r \<in> set (s_threads (move_thread db t))" "live r" "t_id r = primary_thread_id (s_id db)"
    using live_move_primary [OF wf nt np] by blast
  then have ne: "fold_rows (move_thread db t) t \<noteq> []"
    using fold_rows_move [of db t] by (auto simp: live_statuses_def)
  have "fst (foldSession (move_thread db t) t True) = spec_status (live_statuses (move_thread db t))"
    unfolding foldSession_status [OF nt ne] fold_rows_move ..
  moreover have "distinct (map t_id (s_threads (move_thread db t)))"
    using wf by (simp add: session_wf_def move_thread_def comp_def)
  ultimately show ?thesis
    using r by (auto simp: db' session_wf_def live_statuses_def) (auto simp: move_thread_def)
qed

section \<open>Properties\<close>

text \<open>
  C1: moving one thread keeps the session column equal to the fold over the live threads:
  running iff any is, else rescheduling iff any is, else idle.  The two excluded moves are the
  primary thread's end, which ends the session, and a move addressed by the primary's own id,
  which every caller spells as the empty id.
\<close>

theorem transition_keeps_fold:
  assumes "session_wf db" and "TransitionThread db t = Inr (db', evs, moved)"
    and "\<not> (tt_thread t = [] \<and> tt_status t = SessionTerminated)"
    and "tt_thread t \<noteq> primary_thread_id (s_id db)"
  shows "session_wf db' \<and> (moved = None \<longleftrightarrow> s_status db' = s_status db) \<and>
    (\<forall>s. moved = Some s \<longrightarrow> s = s_status db')"
  using session_wf_step [OF assms] TransitionThread_Inr(1,2) [OF assms(2)]
  by (auto split: if_splits)

definition demo_child :: thread_row where
  "demo_child = \<lparr>t_id = ''sthr_b'', t_parent = Some ''sthr_a'', t_status = SessionIdle,
     t_stop = Some \<lparr>stop_type = StopEndTurn, stop_event_ids = []\<rparr>, t_agent_name = ''kid'',
     t_archived = False, t_transitioned = True\<rparr>"

definition demo_primary :: thread_row where
  "demo_primary = \<lparr>t_id = ''sthr_a'', t_parent = None, t_status = SessionIdle,
     t_stop = Some \<lparr>stop_type = StopRequiresAction, stop_event_ids = [''e1'']\<rparr>, t_agent_name = ''root'',
     t_archived = False, t_transitioned = True\<rparr>"

definition demo_db :: session_db where
  "demo_db = \<lparr>s_id = ''sesn_a'', s_status = SessionIdle, s_archived = False, s_agent_name = ''root'',
     s_env_kind = EnvCloud, s_threads = [demo_primary, demo_child], s_log = []\<rparr>"

definition demo_move :: "id \<Rightarrow> session_status \<Rightarrow> thread_transition" where
  "demo_move tid st = \<lparr>tt_thread = tid, tt_status = st, tt_stop = None, tt_reemit = False, tt_force = False\<rparr>"

lemmas demo_defs = demo_child_def demo_primary_def demo_db_def demo_move_def

lemma demo_wf: "session_wf demo_db"
  by (auto simp: session_wf_def demo_defs live_statuses_def live_def spec_status_def primary_thread_id_def)

lemma demo_child_runs:
  "\<exists>db' evs. TransitionThread demo_db (demo_move ''sthr_b'' SessionRunning) = Inr (db', evs, Some SessionRunning)"
  by (simp add: TransitionThread_def demo_defs Let_def has_thread_def moving_id_def move_thread_def
      move_row_def foldSession_def fold_rows_def primary_thread_id_def)

theorem transition_keeps_fold_witness:
  "\<exists>db' evs. TransitionThread demo_db (demo_move ''sthr_b'' SessionRunning) = Inr (db', evs, Some SessionRunning)
     \<and> session_wf db' \<and> s_status db' = SessionRunning"
proof -
  obtain db' evs where ok:
      "TransitionThread demo_db (demo_move ''sthr_b'' SessionRunning) = Inr (db', evs, Some SessionRunning)"
    using demo_child_runs by blast
  have np: "\<not> (tt_thread (demo_move ''sthr_b'' SessionRunning) = [] \<and>
       tt_status (demo_move ''sthr_b'' SessionRunning) = SessionTerminated)"
      "tt_thread (demo_move ''sthr_b'' SessionRunning) \<noteq> primary_thread_id (s_id demo_db)"
    by (simp_all add: demo_defs primary_thread_id_def)
  show ?thesis using transition_keeps_fold [OF demo_wf ok np] ok by auto
qed

text \<open>
  The preview a settlement decides on is the fold its transition then stores, as long as
  the moving thread has not ended: the status \<open>PreviewTransition\<close> reports is the status
  \<open>TransitionThread\<close> leaves in the session column.
\<close>

theorem preview_is_transition:
  assumes "TransitionThread db t = Inr (db', evs, moved)" and "has_thread db (moving_id db t)"
    and "\<And>r. r \<in> set (s_threads db) \<Longrightarrow> t_id r = moving_id db t \<Longrightarrow> t_status r \<noteq> SessionTerminated"
  shows "s_status db' = fst (PreviewTransition db t)"
proof -
  have "foldSession (move_thread db t) t True = foldSession db t True"
    by (rule foldSession_cong [OF _ fold_rows_preview [OF assms(3)]]) (simp_all add: move_thread_def)
  then show ?thesis
    using TransitionThread_Inr(1) [OF assms(1)] assms(2) by (simp add: PreviewTransition_def)
qed

theorem preview_is_transition_witness:
  "fst (PreviewTransition demo_db (demo_move ''sthr_b'' SessionRunning)) = SessionRunning"
proof -
  obtain db' evs where ok:
      "TransitionThread demo_db (demo_move ''sthr_b'' SessionRunning) = Inr (db', evs, Some SessionRunning)"
    using demo_child_runs by blast
  have h: "has_thread demo_db (moving_id demo_db (demo_move ''sthr_b'' SessionRunning))"
    by (simp add: has_thread_def moving_id_def demo_defs)
  have "s_status db' = SessionRunning"
    using TransitionThread_Inr(1,2) [OF ok] by (auto split: if_splits)
  moreover have "t_status r \<noteq> SessionTerminated" if "r \<in> set (s_threads demo_db)" for r
    using that by (auto simp: demo_defs)
  ultimately show ?thesis using preview_is_transition [OF ok h] by simp
qed

text \<open>
  When the session rests idle and some live thread waits on a required action, the session's
  stop reason is \<open>requires_action\<close> and its event ids are exactly the union of the waiting
  threads' ids, those already on the log first, in log order, without repetition.
\<close>

theorem fold_asks_union:
  assumes "\<not> (tt_thread t = [] \<and> tt_status t = SessionTerminated)" and "fold_rows db t \<noteq> []"
    and "fst (foldSession db t True) = SessionIdle" and "asks (idle_stops (fold_rows db t)) \<noteq> []"
  shows "\<exists>ids. snd (foldSession db t True) = Some \<lparr>stop_type = StopRequiresAction, stop_event_ids = ids\<rparr> \<and>
     set ids = (\<Union>r \<in> set (asks (idle_stops (fold_rows db t))). set (stop_event_ids r)) \<and>
     (length (asks (idle_stops (fold_rows db t))) > 1 \<longrightarrow>
        (\<exists>unlogged. ids = filter (\<lambda>i. i \<in> set ids) (map ev_id (s_log db)) @ unlogged \<and>
           set unlogged \<inter> ev_id ` set (s_log db) = {}))"
proof -
  let ?as = "asks (idle_stops (fold_rows db t))"
  obtain ids where ids: "snd (foldSession db t True) = Some \<lparr>stop_type = StopRequiresAction, stop_event_ids = ids\<rparr>"
      "set ids = (\<Union>r \<in> set ?as. set (stop_event_ids r))"
    using foldSession_asks [OF assms] by blast
  have "\<exists>unlogged. ids = filter (\<lambda>i. i \<in> set ids) (map ev_id (s_log db)) @ unlogged \<and>
           set unlogged \<inter> ev_id ` set (s_log db) = {}" if "length ?as > 1"
  proof -
    have "ids = idsInSeqOrder db (concat (map stop_event_ids ?as))"
      using ids(1) that assms foldSession_multi by blast
    then show ?thesis using idsInSeqOrder_split [of db] by (metis set_idsInSeqOrder)
  qed
  with ids show ?thesis by blast
qed

definition demo_ask :: thread_transition where
  "demo_ask = \<lparr>tt_thread = ''sthr_b'', tt_status = SessionIdle,
     tt_stop = Some \<lparr>stop_type = StopRequiresAction, stop_event_ids = [''e2'', ''e0'']\<rparr>,
     tt_reemit = False, tt_force = False\<rparr>"

definition demo_logged :: event where
  "demo_logged = \<lparr>ev_id = ''e0'', ev_seq = 1, ev_type = EventAgentToolUse, ev_payload = JObj [],
     ev_processed = Some 5, ev_created = 5, ev_thread = ''sthr_b'', ev_cross = True\<rparr>"

theorem fold_asks_union_witness:
  "\<exists>ids. snd (foldSession (demo_db\<lparr>s_log := [demo_logged]\<rparr>) demo_ask True) =
       Some \<lparr>stop_type = StopRequiresAction, stop_event_ids = ids\<rparr> \<and> set ids = {''e0'', ''e1'', ''e2''}"
proof -
  let ?db = "demo_db\<lparr>s_log := [demo_logged]\<rparr>"
  have rows: "fold_rows ?db demo_ask =
      [(SessionIdle, Some \<lparr>stop_type = StopRequiresAction, stop_event_ids = [''e1'']\<rparr>),
       (SessionIdle, Some \<lparr>stop_type = StopRequiresAction, stop_event_ids = [''e2'', ''e0'']\<rparr>)]"
    by (simp add: fold_rows_def demo_defs demo_ask_def moving_id_def)
  have nt: "\<not> (tt_thread demo_ask = [] \<and> tt_status demo_ask = SessionTerminated)"
    by (simp add: demo_ask_def)
  have idle: "fst (foldSession ?db demo_ask True) = SessionIdle"
    by (simp add: foldSession_status [OF nt] rows spec_status_def)
  show ?thesis
    using fold_asks_union [OF nt _ idle] by (fastforce simp: rows)
qed

text \<open>
  The events of a move.  At most one thread event and one session event; the session event
  is there exactly when the folded status changed, or the move is forced, or it is a re-emit
  whose fold equals the thread's new status; \<open>session.status_running\<close> precedes the thread's own
  event and every other session event follows it.
\<close>

theorem transition_events:
  assumes "TransitionThread db t = Inr (db', evs, moved)" and "tt_thread t \<noteq> [] \<or> tt_status t \<noteq> SessionTerminated"
  shows "\<exists>th. thread_event db t = Some th \<and>
     (case session_event t (foldSession (move_thread db t) t (has_thread db (moving_id db t))) (s_status db) of
        None \<Rightarrow> evs = [th] \<and> moved = None \<and> \<not> tt_force t
      | Some se \<Rightarrow> (ne_type se = EventSessionStatusRunning \<and> evs = [se, th]) \<or>
                   (ne_type se \<noteq> EventSessionStatusRunning \<and> evs = [th, se]))"
proof -
  obtain th where th: "thread_event db t = Some th"
    using TransitionThread_Inr(4) [OF assms(1)] assms(2)
    by (cases "tt_status t") (auto simp: thread_event_def Let_def)
  note tr = TransitionThread_Inr [OF assms(1)]
  let ?fs = "foldSession (move_thread db t) t (has_thread db (moving_id db t))"
  have known: "sessionStatusOf (fst ?fs) \<noteq> None"
    using tr(4) by (auto simp: foldSession_def Let_def split: option.splits)
  show ?thesis
  proof (cases "session_event t ?fs (s_status db)")
    case None
    with known tr(4) have "fst ?fs = s_status db" "\<not> tt_force t"
      by (auto simp: session_event_def Let_def split: prod.splits if_splits option.splits)
    with None th tr show ?thesis by (auto simp: order_pair_def List.map_filter_def)
  next
    case (Some se)
    with th tr(3) show ?thesis by (auto simp: order_pair_def List.map_filter_def)
  qed
qed

theorem transition_events_witness:
  "\<exists>db' th se. TransitionThread demo_db (demo_move ''sthr_b'' SessionRunning) = Inr (db', [se, th], Some SessionRunning)
     \<and> ne_type se = EventSessionStatusRunning \<and> ne_type th = EventSessionThreadStatusRunning"
proof -
  obtain db' evs where ok:
      "TransitionThread demo_db (demo_move ''sthr_b'' SessionRunning) = Inr (db', evs, Some SessionRunning)"
    using demo_child_runs by blast
  let ?t = "demo_move ''sthr_b'' SessionRunning"
  have "tt_thread ?t \<noteq> [] \<or> tt_status ?t \<noteq> SessionTerminated" by (simp add: demo_defs)
  from transition_events [OF ok this] obtain th where th: "thread_event demo_db ?t = Some th"
    and c: "case session_event ?t (foldSession (move_thread demo_db ?t) ?t (has_thread demo_db (moving_id demo_db ?t))) (s_status demo_db) of
        None \<Rightarrow> evs = [th] \<and> Some SessionRunning = None \<and> \<not> tt_force ?t
      | Some se \<Rightarrow> (ne_type se = EventSessionStatusRunning \<and> evs = [se, th]) \<or>
                   (ne_type se \<noteq> EventSessionStatusRunning \<and> evs = [th, se])" by blast
  have "fst (foldSession (move_thread demo_db ?t) ?t (has_thread demo_db (moving_id demo_db ?t))) = SessionRunning"
    using TransitionThread_Inr(2) [OF ok] by (auto split: if_splits)
  then obtain se where "session_event ?t (foldSession (move_thread demo_db ?t) ?t (has_thread demo_db (moving_id demo_db ?t)))
       (s_status demo_db) = Some se" "ne_type se = EventSessionStatusRunning"
    by (cases "foldSession (move_thread demo_db ?t) ?t (has_thread demo_db (moving_id demo_db ?t))")
       (auto simp: session_event_def demo_defs mk_event_def)
  with c th ok show ?thesis
    by (auto simp: thread_event_def demo_defs mk_event_def)
qed

text \<open>
  the single-thread reduction.  With the primary as its only thread, a session's status and
  stop reason are the thread's: every move of the primary is a move of the session.
\<close>

theorem single_thread_reduction:
  assumes "s_threads db = [p]" and "t_id p = primary_thread_id (s_id db)" and "\<not> t_archived p"
    and "tt_thread t = []" and "TransitionThread db t = Inr (db', evs, moved)"
  shows "s_status db' = tt_status t \<and> map t_status (s_threads db') = [tt_status t]"
proof -
  have rows: "fold_rows (move_thread db t) t = [(tt_status t, tt_stop t)]" if "tt_status t \<noteq> SessionTerminated"
    unfolding fold_rows_def moving_id_move s_threads_move
    using that assms(1-4) by (simp add: moving_id_def)
  have "fst (foldSession (move_thread db t) t True) = tt_status t"
  proof (cases "tt_status t = SessionTerminated")
    case True
    then show ?thesis using assms(4) by (simp add: foldSession_def)
  next
    case False
    with TransitionThread_Inr(4) [OF assms(5)] show ?thesis
      by (cases "tt_status t") (simp_all add: foldSession_status rows spec_status_def)
  qed
  moreover have "has_thread db (moving_id db t)"
    using assms(1,2,4) by (simp add: has_thread_def moving_id_def)
  ultimately show ?thesis
    using TransitionThread_Inr(1) [OF assms(5)] assms(1,2,4)
    by (auto simp: s_threads_move moving_id_def)
qed

theorem single_thread_reduction_witness:
  "\<exists>db' evs. TransitionThread (demo_db\<lparr>s_threads := [demo_primary]\<rparr>) (demo_move [] SessionRescheduling) =
      Inr (db', evs, Some SessionRescheduling) \<and> s_status db' = SessionRescheduling"
proof -
  let ?db = "demo_db\<lparr>s_threads := [demo_primary]\<rparr>" and ?t = "demo_move [] SessionRescheduling"
  have "\<exists>db' evs. TransitionThread ?db ?t = Inr (db', evs, Some SessionRescheduling)"
    by (simp add: TransitionThread_def demo_defs Let_def has_thread_def moving_id_def move_thread_def
      move_row_def foldSession_def fold_rows_def primary_thread_id_def)
  then obtain db' evs where ok: "TransitionThread ?db ?t = Inr (db', evs, Some SessionRescheduling)" by blast
  have "s_status db' = tt_status ?t \<and> map t_status (s_threads db') = [tt_status ?t]"
    by (rule single_thread_reduction [of ?db demo_primary, OF _ _ _ _ ok]) (simp_all add: demo_defs primary_thread_id_def)
  with ok show ?thesis by (auto simp: demo_move_def)
qed

text \<open>
  The fold itself does not keep an ended session ended.  The header of status.go says the
  session is terminated iff the primary thread is; but a child's later move folds over the live
  threads only, so from a session whose primary has terminated it writes the child's status.
\<close>

theorem terminated_session_refolds:
  "\<exists>db t db' evs. s_status db = SessionTerminated \<and>
     (\<exists>p \<in> set (s_threads db). t_id p = primary_thread_id (s_id db) \<and> t_status p = SessionTerminated) \<and>
     TransitionThread db t = Inr (db', evs, Some SessionRunning) \<and> s_status db' = SessionRunning"
proof -
  let ?p = "demo_primary\<lparr>t_status := SessionTerminated\<rparr>"
  let ?db = "demo_db\<lparr>s_threads := [?p, demo_child], s_status := SessionTerminated\<rparr>"
  let ?t = "demo_move ''sthr_b'' SessionRunning"
  have "\<exists>db' evs. TransitionThread ?db ?t = Inr (db', evs, Some SessionRunning)"
    by (simp add: TransitionThread_def demo_defs Let_def has_thread_def moving_id_def move_thread_def
      move_row_def foldSession_def fold_rows_def primary_thread_id_def)
  then obtain db' evs where ok: "TransitionThread ?db ?t = Inr (db', evs, Some SessionRunning)" by blast
  then have "s_status db' = SessionRunning"
    using TransitionThread_Inr(1,2) [OF ok] by (auto split: if_splits)
  with ok show ?thesis
    by (intro exI [of _ ?db] exI [of _ ?t] exI [of _ db'] exI [of _ evs])
       (simp add: demo_db_def demo_primary_def primary_thread_id_def)
qed

end
