(* ===== verification/Tool_Flow.thy ===== *)
theory Tool_Flow
  imports Events_Domain
begin

text \<open>
  \<^verbatim>\<open>internal/events/toolflow.go\<close> and \<^verbatim>\<open>route.go\<close>: the predicates over one session's log that
  decide which tool calls are answered, settled and runnable, the checks an inbound batch of
  results and confirmations passes, the thread it is routed to, and the results the platform
  synthesizes for interrupted and denied calls.  The log is a list of rows in seq order; a SQL
  \<^verbatim>\<open>EXISTS\<close> is a bounded existential over it, a \<^verbatim>\<open>SELECT ... ORDER BY seq\<close> a filter.
\<close>

section \<open>Answered, settled, runnable\<close>

definition toolUseTypes :: "event_type list" where
  "toolUseTypes = [EventAgentToolUse, EventAgentMCPToolUse, EventAgentCustomToolUse]"

definition toolResultTypes :: "event_type list" where
  "toolResultTypes = [EventUserToolResult, EventUserCustomToolRes, EventAgentToolResult, EventAgentMCPToolResult]"

definition confirmableToolUseTypes :: "event_type list" where
  "confirmableToolUseTypes = [EventAgentToolUse, EventAgentMCPToolUse]"

fun coalesce_opt :: "'a option list \<Rightarrow> 'a option" where
  "coalesce_opt [] = None"
| "coalesce_opt (Some x # _) = Some x"
| "coalesce_opt (None # xs) = coalesce_opt xs"

text \<open>The call a result row answers, by whichever of the three reference keys it carries.\<close>

definition ref_of :: "json \<Rightarrow> id option" where
  "ref_of p = coalesce_opt [sql_text p ''tool_use_id'', sql_text p ''custom_tool_use_id'', sql_text p ''mcp_tool_use_id'']"

definition toolAnswer :: "event list \<Rightarrow> (event \<Rightarrow> bool) \<Rightarrow> id \<Rightarrow> bool" where
  "toolAnswer log P i \<longleftrightarrow> (\<exists>r \<in> set log. ev_type r \<in> set toolResultTypes \<and> P r \<and> ref_of (ev_payload r) = Some i)"

definition answeredBy :: "event list \<Rightarrow> id \<Rightarrow> bool" where
  "answeredBy log i = toolAnswer log (\<lambda>_. True) i"

definition processedAnswerBy :: "event list \<Rightarrow> id \<Rightarrow> bool" where
  "processedAnswerBy log i = toolAnswer log (\<lambda>r. ev_processed r \<noteq> None) i"

definition toolUseScope :: "event_type list \<Rightarrow> id list \<Rightarrow> event \<Rightarrow> bool" where
  "toolUseScope types extra tu \<longleftrightarrow> ev_type tu \<in> set types \<and> ev_id tu \<notin> set extra"

definition unansweredToolUse :: "event list \<Rightarrow> event_type list \<Rightarrow> id list \<Rightarrow> event \<Rightarrow> bool" where
  "unansweredToolUse log types extra tu \<longleftrightarrow> toolUseScope types extra tu \<and> \<not> answeredBy log (ev_id tu)"

definition unsettledToolUse :: "event list \<Rightarrow> event_type list \<Rightarrow> id list \<Rightarrow> event \<Rightarrow> bool" where
  "unsettledToolUse log types extra tu \<longleftrightarrow> toolUseScope types extra tu \<and> \<not> processedAnswerBy log (ev_id tu)"

definition perm_of :: "event \<Rightarrow> string option" where
  "perm_of tu = sql_text (ev_payload tu) ''evaluated_permission''"

definition allow_recorded :: "event list \<Rightarrow> (event \<Rightarrow> bool) \<Rightarrow> id \<Rightarrow> bool" where
  "allow_recorded log P i \<longleftrightarrow> (\<exists>c \<in> set log. ev_type c = EventUserToolConfirm \<and> P c
     \<and> sql_text (ev_payload c) ''tool_use_id'' = Some i \<and> sql_text (ev_payload c) ''result'' = Some ''allow'')"

definition permitted_by :: "event list \<Rightarrow> (event \<Rightarrow> bool) \<Rightarrow> id list \<Rightarrow> event \<Rightarrow> bool" where
  "permitted_by log P allowed tu \<longleftrightarrow>
     (perm_of tu = None \<or> perm_of tu = Some ''allow'') \<or> ev_id tu \<in> set allowed \<or> allow_recorded log P (ev_id tu)"

definition runnableToolUse :: "event list \<Rightarrow> event_type list \<Rightarrow> id list \<Rightarrow> id list \<Rightarrow> event \<Rightarrow> bool" where
  "runnableToolUse log types extra allowed tu \<longleftrightarrow>
     unansweredToolUse log types extra tu \<and> permitted_by log (\<lambda>_. True) allowed tu"

definition orderedToolHead :: "event list \<Rightarrow> id list \<Rightarrow> event \<Rightarrow> bool" where
  "orderedToolHead log extra tu \<longleftrightarrow>
     \<not> (\<exists>prior \<in> set log. ev_thread prior = ev_thread tu \<and> ev_seq prior < ev_seq tu
          \<and> unsettledToolUse log toolUseTypes extra prior)"

definition processedPermission :: "event list \<Rightarrow> id list \<Rightarrow> event \<Rightarrow> bool" where
  "processedPermission log allowed tu \<longleftrightarrow> permitted_by log (\<lambda>c. ev_processed c \<noteq> None) allowed tu"

definition orderedRunnableToolUse :: "event list \<Rightarrow> event_type list \<Rightarrow> id list \<Rightarrow> id list \<Rightarrow> event \<Rightarrow> bool" where
  "orderedRunnableToolUse log types extra allowed tu \<longleftrightarrow>
     unansweredToolUse log types extra tu \<and> orderedToolHead log extra tu \<and> processedPermission log allowed tu"

section \<open>Queries\<close>

definition exists_row :: "event list \<Rightarrow> (event \<Rightarrow> bool) \<Rightarrow> bool" where
  "exists_row log P \<longleftrightarrow> (\<exists>tu \<in> set log. P tu)"

definition HasUnansweredToolUse :: "event list \<Rightarrow> id list \<Rightarrow> bool" where
  "HasUnansweredToolUse log extra = exists_row log (unansweredToolUse log toolUseTypes extra)"

definition HasUnansweredThreadToolUse :: "event list \<Rightarrow> id \<Rightarrow> id list \<Rightarrow> bool" where
  "HasUnansweredThreadToolUse log thr extra =
     exists_row log (\<lambda>tu. unansweredToolUse log toolUseTypes extra tu \<and> ev_thread tu = thr)"

definition HasUnansweredPlatformToolUse :: "event list \<Rightarrow> id list \<Rightarrow> bool" where
  "HasUnansweredPlatformToolUse log extra = exists_row log (unansweredToolUse log [EventAgentToolUse] extra)"

record tool_use_ref =
  tr_id :: id
  tr_type :: event_type
  tr_thread :: id
  tr_cross :: bool

definition to_ref :: "event \<Rightarrow> tool_use_ref" where
  "to_ref tu = \<lparr>tr_id = ev_id tu, tr_type = ev_type tu, tr_thread = ev_thread tu, tr_cross = ev_cross tu\<rparr>"

definition UnansweredToolUses :: "event list \<Rightarrow> id list \<Rightarrow> tool_use_ref list" where
  "UnansweredToolUses log extra = map to_ref (filter (unansweredToolUse log toolUseTypes extra) log)"

definition UnansweredThreadToolUses :: "event list \<Rightarrow> id \<Rightarrow> id list \<Rightarrow> tool_use_ref list" where
  "UnansweredThreadToolUses log thr extra =
     map to_ref (filter (\<lambda>tu. unansweredToolUse log toolUseTypes extra tu \<and> ev_thread tu = thr) log)"

definition HasRunnableMCPToolUse :: "event list \<Rightarrow> id list \<Rightarrow> id list \<Rightarrow> bool" where
  "HasRunnableMCPToolUse log extra allowed = exists_row log (orderedRunnableToolUse log [EventAgentMCPToolUse] extra allowed)"

definition name_of :: "event \<Rightarrow> string" where
  "name_of tu = (case sql_text (ev_payload tu) ''name'' of None \<Rightarrow> [] | Some n \<Rightarrow> n)"

definition UnansweredPlatformToolNames :: "event list \<Rightarrow> id list \<Rightarrow> string list" where
  "UnansweredPlatformToolNames log extra = map name_of (filter (unansweredToolUse log [EventAgentToolUse] extra) log)"

definition RunnablePlatformToolNames :: "event list \<Rightarrow> id list \<Rightarrow> id list \<Rightarrow> string list" where
  "RunnablePlatformToolNames log extra allowed =
     map name_of (filter (orderedRunnableToolUse log [EventAgentToolUse] extra allowed) log)"

datatype exec_class = ExecNone | ExecMCP | ExecWeb | ExecTool

fun class_rank :: "exec_class \<Rightarrow> nat" where
  "class_rank ExecNone = 0" | "class_rank ExecMCP = 1" | "class_rank ExecWeb = 2" | "class_rank ExecTool = 3"

fun class_scan :: "(event \<Rightarrow> exec_class option) \<Rightarrow> event list \<Rightarrow> exec_class \<Rightarrow> exec_class" where
  "class_scan f [] c = c"
| "class_scan f (tu # tus) c = class_scan f tus (case f tu of None \<Rightarrow> c
     | Some n \<Rightarrow> if c = ExecNone \<or> class_rank n < class_rank c then n else c)"

definition class_of ::
  "event list \<Rightarrow> env_kind \<Rightarrow> id list \<Rightarrow> id list \<Rightarrow> (string \<Rightarrow> bool) \<Rightarrow> (string \<Rightarrow> bool) \<Rightarrow> event \<Rightarrow> exec_class option" where
  "class_of log env answered allowed isWeb isSettlement tu =
     (let worker = (env = EnvSelfHosted \<and> ev_type tu = EventAgentToolUse \<and> \<not> isWeb (name_of tu)) in
      if ev_type tu = EventAgentToolUse \<and> isSettlement (name_of tu) then None
      else if \<not> worker \<and> (\<not> orderedToolHead log answered tu \<or> \<not> processedPermission log allowed tu) then None
      else Some (if ev_type tu = EventAgentMCPToolUse then ExecMCP else if isWeb (name_of tu) then ExecWeb else ExecTool))"

definition RunnableExecClass ::
  "event list \<Rightarrow> env_kind \<Rightarrow> id list \<Rightarrow> id list \<Rightarrow> (string \<Rightarrow> bool) \<Rightarrow> (string \<Rightarrow> bool) \<Rightarrow> exec_class" where
  "RunnableExecClass log env answered allowed isWeb isSettlement =
     class_scan (class_of log env answered allowed isWeb isSettlement)
       (filter (runnableToolUse log confirmableToolUseTypes answered allowed) log) ExecNone"

text \<open>
  The drivers' scan: \<open>blocked\<close> holds the threads a row has closed, \<open>lanes\<close> the lane each thread's
  run is in.  The payload of a row must decode for its name (\<^verbatim>\<open>json.Unmarshal\<close>).
\<close>

definition lane_of :: "(string \<Rightarrow> bool) \<Rightarrow> event \<Rightarrow> string" where
  "lane_of isWeb tu = event_type_str (ev_type tu) @
     (if ev_type tu = EventAgentToolUse \<and> isWeb (go_str_field (ev_payload tu) ''name'') then ''/web'' else [])"

fun drain :: "event list \<Rightarrow> event_type \<Rightarrow> (string \<Rightarrow> bool) \<Rightarrow> event list \<Rightarrow> id list \<Rightarrow> (id \<Rightarrow> string option)
    \<Rightarrow> event list option" where
  "drain log useType isWeb [] blocked lanes = Some []"
| "drain log useType isWeb (tu # tus) blocked lanes =
     (let t = ev_thread tu; lane = lane_of isWeb tu in
      if t \<in> set blocked then drain log useType isWeb tus blocked lanes
      else if ev_type tu = EventAgentCustomToolUse \<or> answeredBy log (ev_id tu) \<or> \<not> processedPermission log [] tu
      then drain log useType isWeb tus (t # blocked) lanes
      else if \<not> go_struct_ok (ev_payload tu) [''name''] then None
      else if lanes t \<noteq> None \<and> lanes t \<noteq> Some lane then drain log useType isWeb tus (t # blocked) lanes
      else case drain log useType isWeb tus blocked (lanes(t \<mapsto> lane)) of
             None \<Rightarrow> None
           | Some out \<Rightarrow> Some (if ev_type tu = useType then tu # out else out))"

definition RunnableToolUses :: "event list \<Rightarrow> event_type \<Rightarrow> (string \<Rightarrow> bool) \<Rightarrow> event list option" where
  "RunnableToolUses log useType isWeb =
     drain log useType isWeb (filter (unsettledToolUse log toolUseTypes []) log) [] Map.empty"

definition Answered :: "event list \<Rightarrow> id \<Rightarrow> bool" where
  "Answered log i \<longleftrightarrow> (case find (\<lambda>e. ev_id e = i) log of None \<Rightarrow> False | Some tu \<Rightarrow> answeredBy log (ev_id tu))"

definition AnsweredSet :: "event list \<Rightarrow> id list \<Rightarrow> id list" where
  "AnsweredSet log ids =
     (let strs = filter (\<lambda>i. i \<noteq> []) ids in
      if strs = [] then []
      else map ev_id (filter (\<lambda>tu. ev_id tu \<in> set strs \<and> answeredBy log (ev_id tu)) log))"

text \<open>
  The threads a driver's pass may resume: the primary is the empty id and comes first; a session
  without thread rows is its primary alone.
\<close>

definition thread_key :: "thread_row \<Rightarrow> id" where
  "thread_key r = (if t_parent r = None then [] else t_id r)"

definition ResumableThreads :: "session_db \<Rightarrow> id list" where
  "ResumableThreads db =
     (let ts = (if s_threads db = [] then [([], s_status db)]
                else map (\<lambda>r. (thread_key r, t_status r)) (filter (\<lambda>r. \<not> t_archived r) (s_threads db)));
          ready = map fst (filter (\<lambda>(i, st). st = SessionRunning \<and>
            \<not> exists_row (s_log db) (\<lambda>tu. unsettledToolUse (s_log db) toolUseTypes [] tu \<and> ev_thread tu = i)) ts)
      in filter (\<lambda>i. i = []) ready @ filter (\<lambda>i. i \<noteq> []) ready)"

section \<open>Inbound checks\<close>

datatype refusal_msg =
    BadPayload string
  | NoSuchToolUse string id
  | WrongToolUse string id event_type event_type
  | PlatformExecuted id string
  | AwaitingConfirmation id
  | DuplicateConfirmation id
  | AlreadyConfirmed id
  | AlreadyAnswered id
  | ThreadArchived id
  | ThreadTerminated id

datatype flow_error =
    Refusal nat refusal_msg
  | NoPendingConfirmationError nat id string
  | ThreadNotFoundError id
  | Fault string

fun resultRefKey :: "event_type \<Rightarrow> string" where
  "resultRefKey EventUserToolResult = ''tool_use_id''"
| "resultRefKey EventUserCustomToolRes = ''custom_tool_use_id''"
| "resultRefKey _ = []"

text \<open>
  Decoding into \<^verbatim>\<open>map[string]json.RawMessage\<close> and then one entry into a string: an absent key
  is an error, a null is the empty string.
\<close>

definition payloadString :: "json \<Rightarrow> string \<Rightarrow> string option" where
  "payloadString p k = (case json_get p k of Some (JStr s) \<Rightarrow> Some s | Some JNull \<Rightarrow> Some [] | _ \<Rightarrow> None)"

definition ToolResultRefs :: "new_event list \<Rightarrow> id list" where
  "ToolResultRefs evs = List.map_filter (\<lambda>ev. if resultRefKey (ne_type ev) = [] then None
     else payloadString (ne_payload ev) (resultRefKey (ne_type ev))) evs"

definition ToolConfirmationRefs :: "new_event list \<Rightarrow> id list" where
  "ToolConfirmationRefs evs = List.map_filter (\<lambda>ev. if ne_type ev \<noteq> EventUserToolConfirm then None
     else payloadString (ne_payload ev) ''tool_use_id'') evs"

record result_drops =
  dr_answered :: "nat list"
  dr_doubled :: "(nat \<times> nat) list"

text \<open>\<open>seen\<close> maps a reference to its call's type and the position of its first result, or to
  no position when the log already answers it.\<close>

fun validate_results :: "event list \<Rightarrow> (string \<Rightarrow> bool) option \<Rightarrow> nat \<Rightarrow> new_event list
    \<Rightarrow> (id \<Rightarrow> (event_type \<times> nat option) option) \<Rightarrow> result_drops \<Rightarrow> flow_error + result_drops" where
  "validate_results log owned i [] seen drops = Inr drops"
| "validate_results log owned i (ev # evs) seen drops =
     (let refKey = resultRefKey (ne_type ev) in
      if refKey = [] then validate_results log owned (Suc i) evs seen drops
      else let wantUse = (if ne_type ev = EventUserCustomToolRes then EventAgentCustomToolUse else EventAgentToolUse) in
      case payloadString (ne_payload ev) refKey of
        None \<Rightarrow> Inl (Refusal i (BadPayload refKey))
      | Some ref \<Rightarrow>
        (case (case seen ref of
                 Some c \<Rightarrow> Some (c, True, [], [], False)
               | None \<Rightarrow> (case find (\<lambda>e. ev_id e = ref) log of
                    None \<Rightarrow> None
                  | Some tu \<Rightarrow> Some ((ev_type tu, if answeredBy log ref then None else Some i), False, name_of tu,
                      (case perm_of tu of None \<Rightarrow> [] | Some p \<Rightarrow> p), allow_recorded log (\<lambda>_. True) ref))) of
           None \<Rightarrow> Inl (Refusal i (NoSuchToolUse refKey ref))
         | Some (c, again, name, perm, confirmed) \<Rightarrow>
             let seen' = seen(ref \<mapsto> c) in
             if fst c \<noteq> wantUse then Inl (Refusal i (WrongToolUse refKey ref (fst c) wantUse))
             else case snd c of
               None \<Rightarrow> validate_results log owned (Suc i) evs seen' (drops\<lparr>dr_answered := dr_answered drops @ [i]\<rparr>)
             | Some at \<Rightarrow>
                 if again then validate_results log owned (Suc i) evs seen' (drops\<lparr>dr_doubled := dr_doubled drops @ [(i, at)]\<rparr>)
                 else if wantUse = EventAgentToolUse \<and> (case owned of None \<Rightarrow> False | Some f \<Rightarrow> f name)
                 then Inl (Refusal i (PlatformExecuted ref name))
                 else if perm = ''ask'' \<and> \<not> confirmed then Inl (Refusal i (AwaitingConfirmation ref))
                 else validate_results log owned (Suc i) evs seen' drops))"

definition ValidateToolResults :: "event list \<Rightarrow> new_event list \<Rightarrow> (string \<Rightarrow> bool) option \<Rightarrow> flow_error + result_drops" where
  "ValidateToolResults log evs owned = validate_results log owned 0 evs Map.empty \<lparr>dr_answered = [], dr_doubled = []\<rparr>"

fun validate_confirmations :: "event list \<Rightarrow> nat \<Rightarrow> new_event list \<Rightarrow> id list \<Rightarrow> flow_error + unit" where
  "validate_confirmations log i [] seen = Inr ()"
| "validate_confirmations log i (ev # evs) seen =
     (if ne_type ev \<noteq> EventUserToolConfirm then validate_confirmations log (Suc i) evs seen
      else case payloadString (ne_payload ev) ''tool_use_id'' of
        None \<Rightarrow> Inl (Refusal i (BadPayload ''tool_use_id''))
      | Some ref \<Rightarrow>
        if ref \<in> set seen then Inl (Refusal i (DuplicateConfirmation ref))
        else case find (\<lambda>e. ev_id e = ref \<and> ev_type e \<in> set confirmableToolUseTypes) log of
          None \<Rightarrow> Inl (NoPendingConfirmationError i ref ''names no confirmable tool use in this session'')
        | Some tu \<Rightarrow>
          if perm_of tu \<noteq> Some ''ask''
          then Inl (NoPendingConfirmationError i ref ''tool use was not gated for confirmation'')
          else if exists_row log (\<lambda>c. ev_type c = EventUserToolConfirm \<and> sql_text (ev_payload c) ''tool_use_id'' = Some ref)
          then Inl (Refusal i (AlreadyConfirmed ref))
          else if answeredBy log ref then Inl (Refusal i (AlreadyAnswered ref))
          else validate_confirmations log (Suc i) evs (ref # seen))"

definition ValidateToolConfirmations :: "event list \<Rightarrow> new_event list \<Rightarrow> flow_error + unit" where
  "ValidateToolConfirmations log evs = validate_confirmations log 0 evs []"

definition unconfirmed_ask :: "event list \<Rightarrow> id list \<Rightarrow> event \<Rightarrow> bool" where
  "unconfirmed_ask log extra tu \<longleftrightarrow> ev_type tu \<in> set confirmableToolUseTypes \<and> perm_of tu = Some ''ask''
     \<and> ev_id tu \<notin> set extra
     \<and> \<not> exists_row log (\<lambda>c. ev_type c = EventUserToolConfirm \<and> sql_text (ev_payload c) ''tool_use_id'' = Some (ev_id tu))
     \<and> \<not> answeredBy log (ev_id tu)"

definition UnconfirmedAskEvents :: "event list \<Rightarrow> id list \<Rightarrow> id list" where
  "UnconfirmedAskEvents log extra = map ev_id (filter (unconfirmed_ask log extra) log)"

definition UnconfirmedThreadAskEvents :: "event list \<Rightarrow> id \<Rightarrow> id list \<Rightarrow> id list" where
  "UnconfirmedThreadAskEvents log thr extra =
     map ev_id (filter (\<lambda>tu. unconfirmed_ask log extra tu \<and> ev_thread tu = thr) log)"

section \<open>Synthesized answers\<close>

fun toolUseAnswer :: "event_type \<Rightarrow> (event_type \<times> string \<times> bool) option" where
  "toolUseAnswer EventAgentToolUse = Some (EventAgentToolResult, ''tool_use_id'', False)"
| "toolUseAnswer EventAgentCustomToolUse = Some (EventUserCustomToolRes, ''custom_tool_use_id'', True)"
| "toolUseAnswer EventAgentMCPToolUse = Some (EventAgentMCPToolResult, ''mcp_tool_use_id'', False)"
| "toolUseAnswer _ = None"

definition InterruptResultText :: string where
  "InterruptResultText = ''Tool execution was interrupted before completion. Please retry.''"

definition answer_payload :: "string \<Rightarrow> id \<Rightarrow> string \<Rightarrow> bool \<Rightarrow> json" where
  "answer_payload refKey i txt thread = JObj ([(refKey, JStr i),
     (''content'', JArr [JObj [(''type'', JStr ''text''), (''text'', JStr txt)]]), (''is_error'', JBool True)]
     @ (if thread then [(''session_thread_id'', JNull)] else []))"

fun InterruptResults :: "int \<Rightarrow> tool_use_ref list \<Rightarrow> string + new_event list" where
  "InterruptResults now [] = Inr []"
| "InterruptResults now (u # us) =
     (case toolUseAnswer (tr_type u) of
        None \<Rightarrow> Inl (''no result event answers a '' @ event_type_str (tr_type u) @ '' tool use'')
      | Some (result, refKey, thread) \<Rightarrow>
          (case InterruptResults now us of
             Inl e \<Rightarrow> Inl e
           | Inr out \<Rightarrow> Inr ((mk_event result (answer_payload refKey (tr_id u) InterruptResultText thread))
               \<lparr>ne_processed := Some now, ne_thread := tr_thread u, ne_cross := tr_cross u\<rparr> # out)))"

definition denialText :: "string \<Rightarrow> string \<Rightarrow> string" where
  "denialText name denyMessage = ''Permission to use '' @ name @ '' has been rejected.'' @
     (if denyMessage \<noteq> [] then '' Rejection message: '' @ denyMessage else [])"

definition in_range :: "char \<Rightarrow> char \<Rightarrow> char \<Rightarrow> bool" where
  "in_range lo c hi \<longleftrightarrow> byte lo \<le> byte c \<and> byte c \<le> byte hi"

definition model_char :: "char \<Rightarrow> char" where
  "model_char c = (if in_range (CHR ''a'') c (CHR ''z'') \<or> in_range (CHR ''A'') c (CHR ''Z'')
     \<or> in_range (CHR ''0'') c (CHR ''9'') \<or> c = CHR ''_'' \<or> c = CHR ''-'' then c else CHR ''_'')"

definition MCPModelName :: "string \<Rightarrow> string \<Rightarrow> string" where
  "MCPModelName server tool = ''mcp__'' @ map model_char server @ ''__'' @ map model_char tool"

definition modelName :: "event \<Rightarrow> string" where
  "modelName u = (if ev_type u = EventAgentMCPToolUse
     then MCPModelName (case sql_text (ev_payload u) ''mcp_server_name'' of None \<Rightarrow> [] | Some s \<Rightarrow> s) (name_of u)
     else name_of u)"

text \<open>The refused calls of a batch with their messages, or None when a confirmation does not decode.\<close>

fun denials :: "new_event list \<Rightarrow> (id \<times> string) list option" where
  "denials [] = Some []"
| "denials (ev # evs) =
     (if ne_type ev \<noteq> EventUserToolConfirm then denials evs
      else if \<not> go_struct_ok (ne_payload ev) [''result'', ''tool_use_id'', ''deny_message''] then None
      else case denials evs of None \<Rightarrow> None
        | Some ds \<Rightarrow> Some (if go_str_field (ne_payload ev) ''result'' \<noteq> ''deny'' then ds
             else (go_str_field (ne_payload ev) ''tool_use_id'', go_str_field (ne_payload ev) ''deny_message'') # ds))"

fun denial_results :: "event list \<Rightarrow> (id \<times> string) list \<Rightarrow> flow_error + new_event list \<times> id list" where
  "denial_results log [] = Inr ([], [])"
| "denial_results log ((i, msg) # ds) =
     (case find (\<lambda>e. ev_id e = i) log of
        None \<Rightarrow> Inl (Fault ''denied tool_use_id does not name an event in this session'')
      | Some use \<Rightarrow>
        (case toolUseAnswer (ev_type use) of
           None \<Rightarrow> Inl (Fault ''no result event answers the denied event'')
         | Some (result, refKey, _) \<Rightarrow>
           (case denial_results log ds of
              Inl e \<Rightarrow> Inl e
            | Inr (out, answered) \<Rightarrow>
                Inr ((mk_event result (answer_payload refKey i (denialText (modelName use) msg) False))
                  \<lparr>ne_thread := ev_thread use, ne_cross := ev_cross use\<rparr> # out, i # answered))))"

definition DenialResults :: "event list \<Rightarrow> new_event list \<Rightarrow> flow_error + new_event list \<times> id list" where
  "DenialResults log evs = (case denials evs of
     None \<Rightarrow> Inl (Fault ''confirmation does not decode'')
   | Some ds \<Rightarrow> denial_results log ds)"

section \<open>Routing\<close>

text \<open>
  Each event with the thread and surface the append stores, and whether it is an interrupt that
  named a thread.  The code reads a call several events name once; the log does not change
  between the reads, so reading it again is the same.
\<close>

definition route_event :: "session_db \<Rightarrow> nat \<Rightarrow> new_event \<Rightarrow> flow_error + new_event \<times> bool" where
  "route_event db i ev =
     (if ne_type ev = EventUserToolConfirm \<or> ne_type ev = EventUserToolResult \<or> ne_type ev = EventUserCustomToolRes
      then let refKey = (if resultRefKey (ne_type ev) = [] then ''tool_use_id'' else resultRefKey (ne_type ev)) in
        case payloadString (ne_payload ev) refKey of
          None \<Rightarrow> Inl (Refusal i (BadPayload refKey))
        | Some ref \<Rightarrow> (case find (\<lambda>e. ev_id e = ref) (s_log db) of
            None \<Rightarrow> Inl (Refusal i (NoSuchToolUse refKey ref))
          | Some tu \<Rightarrow> Inr (ev\<lparr>ne_thread := ev_thread tu, ne_cross := ev_cross tu\<rparr>, False))
      else if ne_type ev = EventUserInterrupt \<and> ne_thread ev \<noteq> []
      then if ne_thread ev = primary_thread_id (s_id db) then Inr (ev\<lparr>ne_thread := []\<rparr>, True)
        else case find (\<lambda>r. t_id r = ne_thread ev) (s_threads db) of
          None \<Rightarrow> Inl (ThreadNotFoundError (ne_thread ev))
        | Some r \<Rightarrow> if t_archived r then Inl (Refusal i (ThreadArchived (ne_thread ev)))
            else if t_status r = SessionTerminated then Inl (Refusal i (ThreadTerminated (ne_thread ev)))
            else Inr (ev\<lparr>ne_cross := True\<rparr>, True)
      else Inr (ev, False))"

fun route_all :: "session_db \<Rightarrow> nat \<Rightarrow> new_event list \<Rightarrow> flow_error + (new_event \<times> bool) list" where
  "route_all db i [] = Inr []"
| "route_all db i (ev # evs) =
     (case route_event db i ev of Inl e \<Rightarrow> Inl e
      | Inr r \<Rightarrow> (case route_all db (Suc i) evs of Inl e \<Rightarrow> Inl e | Inr rs \<Rightarrow> Inr (r # rs)))"

definition RouteInbound :: "session_db \<Rightarrow> new_event list \<Rightarrow> flow_error + new_event list \<times> bool list" where
  "RouteInbound db evs = (case route_all db 0 evs of Inl e \<Rightarrow> Inl e | Inr rs \<Rightarrow> Inr (map fst rs, map snd rs))"

section \<open>Properties of the drivers' scan\<close>

lemma drain_props:
  assumes "drain log useType isWeb tus blocked lanes = Some out" "u \<in> set out"
  shows "u \<in> set tus \<and> ev_type u = useType \<and> ev_type u \<noteq> EventAgentCustomToolUse \<and> \<not> answeredBy log (ev_id u)
    \<and> processedPermission log [] u \<and> ev_thread u \<notin> set blocked
    \<and> (lanes (ev_thread u) = None \<or> lanes (ev_thread u) = Some (lane_of isWeb u))"
  using assms
proof (induction tus arbitrary: blocked lanes out)
  case (Cons tu tus)
  then show ?case
    by (fastforce simp: Let_def split: if_splits option.splits)
qed simp

text \<open>Every call the scan passes on the way to a returned one, on its thread, is in its lane.\<close>

lemma drain_prefix:
  assumes "drain log useType isWeb (xs @ u # ys) blocked lanes = Some out" "u \<in> set out"
    and "distinct (map ev_id (xs @ u # ys))" and "p \<in> set xs" "ev_thread p = ev_thread u"
  shows "ev_type p \<noteq> EventAgentCustomToolUse \<and> \<not> answeredBy log (ev_id p) \<and> processedPermission log [] p
    \<and> lane_of isWeb p = lane_of isWeb u"
  using assms
proof (induction xs arbitrary: blocked lanes out)
  case (Cons x xs)
  have nx: "u \<noteq> x" using Cons.prems(3) by auto
  show ?case
  proof (cases "p = x")
    case True
    have t: "ev_thread x = ev_thread u" using True Cons.prems(5) by simp
    from Cons.prems(1,2) show ?thesis
      by (auto simp: Let_def True t nx split: if_splits option.splits dest!: drain_props)
  next
    case False
    then have p: "p \<in> set xs" using Cons.prems(4) by simp
    have d: "distinct (map ev_id (xs @ u # ys))" using Cons.prems(3) by simp
    show ?thesis using Cons.prems(1,2) nx Cons.IH [OF _ _ d p Cons.prems(5)]
      by (auto simp: Let_def split: if_splits option.splits)
  qed
qed simp

text \<open>A session's log: rows in strictly increasing seq, ids unique.\<close>

definition log_wf :: "event list \<Rightarrow> bool" where
  "log_wf log \<longleftrightarrow> sorted_wrt (\<lambda>a b. ev_seq a < ev_seq b) log \<and> distinct (map ev_id log)"

lemma drain_sorted:
  "drain log useType isWeb tus blocked lanes = Some out \<Longrightarrow> sorted_wrt P tus \<Longrightarrow> sorted_wrt P out"
proof (induction tus arbitrary: blocked lanes out)
  case (Cons tu tus)
  then show ?case
    by (fastforce simp: Let_def split: if_splits option.splits dest: drain_props)
qed simp

lemma before_split:
  assumes "sorted_wrt (\<lambda>a b. ev_seq a < ev_seq b) xs" "u \<in> set xs" "p \<in> set xs" "ev_seq p < ev_seq u"
  shows "\<exists>as bs. xs = as @ u # bs \<and> p \<in> set as"
proof -
  obtain as bs where x: "xs = as @ u # bs" using assms(2) split_list by metis
  have "p \<notin> set (u # bs)" using assms(1,4) unfolding x by (auto simp: sorted_wrt_append)
  with assms(3) x show ?thesis by auto
qed

definition demo_call :: "id \<Rightarrow> nat \<Rightarrow> event_type \<Rightarrow> string \<Rightarrow> string \<Rightarrow> event" where
  "demo_call i n ty name perm = \<lparr>ev_id = i, ev_seq = n, ev_type = ty,
     ev_payload = JObj [(''name'', JStr name), (''evaluated_permission'', JStr perm)],
     ev_processed = Some 1, ev_created = 1, ev_thread = [], ev_cross = False\<rparr>"

definition demo_log :: "event list" where
  "demo_log = [demo_call ''c1'' 1 EventAgentToolUse ''bash'' ''allow'', demo_call ''c2'' 2 EventAgentToolUse ''bash'' ''allow'',
     demo_call ''c3'' 3 EventAgentToolUse ''bash'' ''ask'']"

lemmas demo_eval = demo_log_def demo_call_def log_wf_def unsettledToolUse_def unansweredToolUse_def toolUseScope_def
  processedAnswerBy_def answeredBy_def toolAnswer_def toolUseTypes_def toolResultTypes_def confirmableToolUseTypes_def
  processedPermission_def permitted_by_def allow_recorded_def perm_of_def sql_text_def json_get_def name_of_def
  go_struct_ok_def go_str_field_def fold_name_def lane_of_def fold_rune_def byte_def

text \<open>
  C6: a driver never crosses an open call.  Every call the drivers' scan returns is of the type
  asked for, unanswered and permitted by a processed confirmation (or needs none); and every
  earlier call of the same thread that is not yet settled is itself unanswered, permitted and in
  the same lane, so the driver runs it first.  The calls come in log order.
\<close>

theorem runnable_no_crossing:
  assumes "log_wf log" and "RunnableToolUses log useType isWeb = Some out"
  shows "sorted_wrt (\<lambda>a b. ev_seq a < ev_seq b) out \<and>
    (\<forall>u \<in> set out. u \<in> set log \<and> ev_type u = useType \<and> unansweredToolUse log toolUseTypes [] u \<and> processedPermission log [] u \<and>
      (\<forall>p \<in> set log. ev_thread p = ev_thread u \<and> ev_seq p < ev_seq u \<and> unsettledToolUse log toolUseTypes [] p \<longrightarrow>
         ev_type p \<noteq> EventAgentCustomToolUse \<and> \<not> answeredBy log (ev_id p) \<and> processedPermission log [] p \<and>
         lane_of isWeb p = lane_of isWeb u))"
proof -
  let ?open = "filter (unsettledToolUse log toolUseTypes []) log"
  have d: "drain log useType isWeb ?open [] Map.empty = Some out" using assms(2) by (simp add: RunnableToolUses_def)
  have so: "sorted_wrt (\<lambda>a b. ev_seq a < ev_seq b) ?open" "distinct (map ev_id ?open)"
    using assms(1) by (simp_all add: log_wf_def sorted_wrt_filter distinct_map_filter)
  show ?thesis
  proof (intro conjI ballI impI drain_sorted [OF d so(1)])
    fix u assume u: "u \<in> set out"
    note dp = drain_props [OF d u]
    then show "u \<in> set log" "ev_type u = useType" "unansweredToolUse log toolUseTypes [] u" "processedPermission log [] u"
      by (auto simp: unansweredToolUse_def unsettledToolUse_def)
    fix p assume p: "p \<in> set log" "ev_thread p = ev_thread u \<and> ev_seq p < ev_seq u \<and> unsettledToolUse log toolUseTypes [] p"
    have "\<exists>as bs. ?open = as @ u # bs \<and> p \<in> set as" by (rule before_split [OF so(1)]) (use dp p in auto)
    then obtain as bs where ab: "?open = as @ u # bs" "p \<in> set as" by blast
    note pf = drain_prefix [OF d [unfolded ab(1)] u so(2) [unfolded ab(1)] ab(2)]
    show "ev_type p \<noteq> EventAgentCustomToolUse" "\<not> answeredBy log (ev_id p)" "processedPermission log [] p"
      "lane_of isWeb p = lane_of isWeb u" using pf p(2) by auto
  qed
qed

theorem runnable_no_crossing_witness:
  "\<exists>out. RunnableToolUses demo_log EventAgentToolUse (\<lambda>_. False) = Some out \<and> map ev_id out = [''c1'', ''c2''] \<and>
     sorted_wrt (\<lambda>a b. ev_seq a < ev_seq b) out"
proof -
  have w: "log_wf demo_log" by (simp add: demo_eval)
  obtain out where r: "RunnableToolUses demo_log EventAgentToolUse (\<lambda>_. False) = Some out" "map ev_id out = [''c1'', ''c2'']"
    by (simp add: RunnableToolUses_def demo_eval)
  have "sorted_wrt (\<lambda>a b. ev_seq a < ev_seq b) out" using runnable_no_crossing [OF w r(1)] by (rule conjunct1)
  with r show ?thesis by (intro exI conjI)
qed

section \<open>Properties of the inbound checks\<close>

definition result_ref :: "new_event \<Rightarrow> id option" where
  "result_ref ev = (if resultRefKey (ne_type ev) = [] then None else payloadString (ne_payload ev) (resultRefKey (ne_type ev)))"

definition wanted_use :: "new_event \<Rightarrow> event_type" where
  "wanted_use ev = (if ne_type ev = EventUserCustomToolRes then EventAgentCustomToolUse else EventAgentToolUse)"

text \<open>A call a client's result may answer now.\<close>

definition answerable :: "event list \<Rightarrow> (string \<Rightarrow> bool) option \<Rightarrow> event \<Rightarrow> bool" where
  "answerable log owned tu \<longleftrightarrow> \<not> answeredBy log (ev_id tu)
     \<and> \<not> (ev_type tu = EventAgentToolUse \<and> (case owned of None \<Rightarrow> False | Some f \<Rightarrow> f (name_of tu)))
     \<and> (perm_of tu = Some ''ask'' \<longrightarrow> allow_recorded log (\<lambda>_. True) (ev_id tu))"

text \<open>What the check remembers of a reference agrees with the log.\<close>

definition seen_ok :: "event list \<Rightarrow> (id \<Rightarrow> (event_type \<times> nat option) option) \<Rightarrow> bool" where
  "seen_ok log seen \<longleftrightarrow> (\<forall>ref c. seen ref = Some c \<longrightarrow>
     (\<exists>tu. find (\<lambda>e. ev_id e = ref) log = Some tu \<and> fst c = ev_type tu \<and> (snd c = None \<longleftrightarrow> answeredBy log ref)))"

definition placed :: "event list \<Rightarrow> (string \<Rightarrow> bool) option \<Rightarrow> new_event \<Rightarrow> bool \<Rightarrow> bool \<Rightarrow> bool \<Rightarrow> bool" where
  "placed log owned ev earlier answered doubled \<longleftrightarrow>
     (\<exists>tu. (find (\<lambda>e. ev_id e = the (result_ref ev)) log = Some tu) \<and> result_ref ev = Some (ev_id tu)
       \<and> ev_type tu = wanted_use ev
       \<and> (answered \<longleftrightarrow> answeredBy log (ev_id tu)) \<and> (doubled \<longleftrightarrow> earlier \<and> \<not> answeredBy log (ev_id tu))
       \<and> (\<not> answered \<and> \<not> doubled \<longrightarrow> answerable log owned tu))"

lemma find_id: "find (\<lambda>e. ev_id e = i) log = Some tu \<Longrightarrow> ev_id tu = i \<and> tu \<in> set log"
  by (auto simp: find_Some_iff)

text \<open>One step of the check: the head is placed, and the rest runs with what it has seen.\<close>

lemma validate_results_step:
  assumes "validate_results log owned i (ev # evs) seen drops = Inr D" "seen_ok log seen" "resultRefKey (ne_type ev) \<noteq> []"
  obtains ref c a d where "result_ref ev = Some ref" "seen_ok log (seen(ref \<mapsto> c))" "placed log owned ev (seen ref \<noteq> None) a d"
    "validate_results log owned (Suc i) evs (seen(ref \<mapsto> c))
       (if a then drops\<lparr>dr_answered := dr_answered drops @ [i]\<rparr>
        else if d then drops\<lparr>dr_doubled := dr_doubled drops @ [(i, the (snd c))]\<rparr> else drops) = Inr D"
proof -
  from assms(1,3) obtain ref where ref: "payloadString (ne_payload ev) (resultRefKey (ne_type ev)) = Some ref"
    by (cases "payloadString (ne_payload ev) (resultRefKey (ne_type ev))") (simp_all add: Let_def)
  then have rr: "result_ref ev = Some ref" using assms(3) by (simp add: result_ref_def)
  show ?thesis
  proof (cases "seen ref")
    case (Some c)
    then obtain tu where tu: "find (\<lambda>e. ev_id e = ref) log = Some tu" "fst c = ev_type tu" "snd c = None \<longleftrightarrow> answeredBy log ref"
      using assms(2) unfolding seen_ok_def by blast
    have id: "ev_id tu = ref" using find_id [OF tu(1)] by simp
    have w: "fst c = wanted_use ev" using assms(1,3) ref Some
      by (auto simp: Let_def wanted_use_def split: if_splits)
    have seen: "seen(ref \<mapsto> c) = seen" using Some by auto
    have r: "validate_results log owned (Suc i) evs seen (if snd c = None then drops\<lparr>dr_answered := dr_answered drops @ [i]\<rparr>
        else drops\<lparr>dr_doubled := dr_doubled drops @ [(i, the (snd c))]\<rparr>) = Inr D"
      using assms(1,3) ref Some w seen by (cases "snd c") (auto simp: Let_def wanted_use_def split: if_splits)
    show ?thesis
      by (rule that [OF rr, of c "snd c = None" "snd c \<noteq> None"])
         (use assms(2) seen r tu id w rr Some in \<open>auto simp: placed_def\<close>)
  next
    case None
    from assms(1,3) ref None obtain tu where tu: "find (\<lambda>e. ev_id e = ref) log = Some tu"
      by (cases "find (\<lambda>e. ev_id e = ref) log") (simp_all add: Let_def)
    have id: "ev_id tu = ref" using find_id [OF tu] by simp
    let ?c = "(ev_type tu, if answeredBy log ref then None else Some i)"
    have w: "ev_type tu = wanted_use ev" using assms(1,3) ref None tu
      by (auto simp: Let_def wanted_use_def split: if_splits)
    have so: "seen_ok log (seen(ref \<mapsto> ?c))" using assms(2) tu by (auto simp: seen_ok_def)
    show ?thesis
    proof (cases "answeredBy log ref")
      case True
      then have "validate_results log owned (Suc i) evs (seen(ref \<mapsto> ?c)) (drops\<lparr>dr_answered := dr_answered drops @ [i]\<rparr>) = Inr D"
        using assms(1,3) ref None tu w by (auto simp: Let_def wanted_use_def split: if_splits)
      then show ?thesis
        by (intro that [OF rr so, of True False]) (use tu id w rr True None in \<open>auto simp: placed_def\<close>)
    next
      case False
      then have r: "validate_results log owned (Suc i) evs (seen(ref \<mapsto> ?c)) drops = Inr D \<and> answerable log owned tu"
        using assms(1,3) ref None tu w id
        by (auto simp: Let_def wanted_use_def answerable_def split: if_splits option.splits)
      then show ?thesis
        by (intro that [OF rr so, of False False]) (use tu id w rr False None in \<open>auto simp: placed_def\<close>)
    qed
  qed
qed

lemma ex_less_Suc_Cons: "(\<exists>j' < Suc j. P ((x # xs) ! j')) \<longleftrightarrow> P x \<or> (\<exists>j' < j. P (xs ! j'))"
  by (auto simp: less_Suc_eq_0_disj)

lemma placed_ref: "placed log owned ev e a d \<Longrightarrow> \<exists>r. result_ref ev = Some r"
  by (auto simp: placed_def)

lemma validate_results_placed:
  assumes "validate_results log owned i evs seen drops = Inr D" "seen_ok log seen"
  shows "\<exists>A B. dr_answered D = dr_answered drops @ A \<and> dr_doubled D = dr_doubled drops @ B \<and>
    (\<forall>k \<in> set A \<union> fst ` set B. i \<le> k) \<and>
    (\<forall>j < length evs. resultRefKey (ne_type (evs ! j)) \<noteq> [] \<longrightarrow>
       placed log owned (evs ! j) (seen (the (result_ref (evs ! j))) \<noteq> None \<or> (\<exists>j' < j. result_ref (evs ! j') = result_ref (evs ! j)))
         (i + j \<in> set A) (i + j \<in> fst ` set B))"
  using assms
proof (induction evs arbitrary: i seen drops)
  case Nil
  then show ?case by auto
next
  case (Cons ev evs)
  show ?case
  proof (cases "resultRefKey (ne_type ev) = []")
    case True
    then have "result_ref ev = None" by (simp add: result_ref_def)
    moreover have "validate_results log owned (Suc i) evs seen drops = Inr D" using Cons.prems(1) True by simp
    from Cons.IH [OF this Cons.prems(2)] obtain A B where
      AB: "dr_answered D = dr_answered drops @ A" "dr_doubled D = dr_doubled drops @ B" "\<forall>k \<in> set A \<union> fst ` set B. Suc i \<le> k"
      "\<And>j. j < length evs \<Longrightarrow> resultRefKey (ne_type (evs ! j)) \<noteq> [] \<Longrightarrow>
       placed log owned (evs ! j) (seen (the (result_ref (evs ! j))) \<noteq> None \<or> (\<exists>j' < j. result_ref (evs ! j') = result_ref (evs ! j)))
         (Suc i + j \<in> set A) (Suc i + j \<in> fst ` set B)" by blast
    ultimately have "placed log owned ((ev # evs) ! j) (seen (the (result_ref ((ev # evs) ! j))) \<noteq> None \<or>
        (\<exists>j' < j. result_ref ((ev # evs) ! j') = result_ref ((ev # evs) ! j))) (i + j \<in> set A) (i + j \<in> fst ` set B)"
      if j: "j < length (ev # evs)" "resultRefKey (ne_type ((ev # evs) ! j)) \<noteq> []" for j
    proof (cases j)
      case 0
      with j(2) True show ?thesis by simp
    next
      case (Suc j')
      then have p: "placed log owned (evs ! j') (seen (the (result_ref (evs ! j'))) \<noteq> None \<or>
          (\<exists>k < j'. result_ref (evs ! k) = result_ref (evs ! j'))) (Suc i + j' \<in> set A) (Suc i + j' \<in> fst ` set B)"
        using AB(4) j by simp
      then obtain r where "result_ref (evs ! j') = Some r" using placed_ref by blast
      with p Suc \<open>result_ref ev = None\<close> show ?thesis by (simp add: ex_less_Suc_Cons [of j' "\<lambda>x. result_ref x = _"])
    qed
    with AB(1-3) show ?thesis by (intro exI [of _ A] exI [of _ B]) (auto dest: Suc_leD)
  next
    case False
    from Cons.prems(1,2) False show ?thesis
    proof (rule validate_results_step)
      fix ref c a d
      assume st: "result_ref ev = Some ref" "seen_ok log (seen(ref \<mapsto> c))" "placed log owned ev (seen ref \<noteq> None) a d"
        and r: "validate_results log owned (Suc i) evs (seen(ref \<mapsto> c))
          (if a then drops\<lparr>dr_answered := dr_answered drops @ [i]\<rparr>
           else if d then drops\<lparr>dr_doubled := dr_doubled drops @ [(i, the (snd c))]\<rparr> else drops) = Inr D"
      have ad: "\<not> (a \<and> d)" using st(3) by (auto simp: placed_def)
      let ?drops = "if a then drops\<lparr>dr_answered := dr_answered drops @ [i]\<rparr>
           else if d then drops\<lparr>dr_doubled := dr_doubled drops @ [(i, the (snd c))]\<rparr> else drops"
      from Cons.IH [OF r st(2)] obtain A B where
        raw: "dr_answered D = dr_answered ?drops @ A" "dr_doubled D = dr_doubled ?drops @ B"
        and AB3: "\<forall>k \<in> set A \<union> fst ` set B. Suc i \<le> k"
        and P: "\<And>j. j < length evs \<Longrightarrow> resultRefKey (ne_type (evs ! j)) \<noteq> [] \<Longrightarrow>
         placed log owned (evs ! j) ((seen(ref \<mapsto> c)) (the (result_ref (evs ! j))) \<noteq> None \<or> (\<exists>j' < j. result_ref (evs ! j') = result_ref (evs ! j)))
           (Suc i + j \<in> set A) (Suc i + j \<in> fst ` set B)" by blast
      have AB: "dr_answered D = dr_answered drops @ (if a then [i] else []) @ A"
            "dr_doubled D = dr_doubled drops @ (if d then [(i, the (snd c))] else []) @ B"
        using raw ad by simp_all
      note AB = AB AB3
      let ?A = "(if a then [i] else []) @ A" and ?B = "(if d then [(i, the (snd c))] else []) @ B"
      have i: "i \<notin> set A" "i \<notin> fst ` set B" using AB(3) not_less_eq_eq by blast+
      have "placed log owned ((ev # evs) ! j) (seen (the (result_ref ((ev # evs) ! j))) \<noteq> None \<or>
          (\<exists>j' < j. result_ref ((ev # evs) ! j') = result_ref ((ev # evs) ! j))) (i + j \<in> set ?A) (i + j \<in> fst ` set ?B)"
        if j: "j < length (ev # evs)" "resultRefKey (ne_type ((ev # evs) ! j)) \<noteq> []" for j
      proof (cases j)
        case 0
        with st(1,3) i show ?thesis by (cases d) simp_all
      next
        case (Suc j')
        then have p: "placed log owned (evs ! j') ((seen(ref \<mapsto> c)) (the (result_ref (evs ! j'))) \<noteq> None \<or>
            (\<exists>k < j'. result_ref (evs ! k) = result_ref (evs ! j'))) (Suc i + j' \<in> set A) (Suc i + j' \<in> fst ` set B)"
          using P j by simp
        then obtain r where "result_ref (evs ! j') = Some r" using placed_ref by blast
        with p Suc st(1) show ?thesis
          by (cases "r = ref"; cases d) (simp_all add: ex_less_Suc_Cons [of j' "\<lambda>x. result_ref x = _"])
      qed
      moreover have "\<forall>k \<in> set ?A \<union> fst ` set ?B. i \<le> k" using AB(3) by (auto dest: Suc_leD)
      ultimately show ?thesis using AB(1,2) by (intro exI [of _ ?A] exI [of _ ?B]) blast
    qed
  qed
qed

text \<open>
  C7: a client's results cannot answer a call twice or out of turn.  When a batch passes, every
  result in it names a call of the matching kind in the session; it is dropped as answered
  exactly when the log already answers the call, as doubled exactly when an earlier result of the
  batch names it, and otherwise the call is unanswered, is not the platform's own to answer, and
  is not waiting for a confirmation.
\<close>

theorem results_answer_once:
  assumes "ValidateToolResults log evs owned = Inr drops" and "j < length evs" and "resultRefKey (ne_type (evs ! j)) \<noteq> []"
  shows "\<exists>tu \<in> set log. result_ref (evs ! j) = Some (ev_id tu) \<and> ev_type tu = wanted_use (evs ! j) \<and>
    (j \<in> set (dr_answered drops) \<longleftrightarrow> answeredBy log (ev_id tu)) \<and>
    (j \<in> fst ` set (dr_doubled drops) \<longleftrightarrow> (\<exists>j' < j. result_ref (evs ! j') = result_ref (evs ! j)) \<and> \<not> answeredBy log (ev_id tu)) \<and>
    (j \<notin> set (dr_answered drops) \<union> fst ` set (dr_doubled drops) \<longrightarrow> answerable log owned tu)"
proof -
  have "placed log owned (evs ! j) (\<exists>j' < j. result_ref (evs ! j') = result_ref (evs ! j))
      (j \<in> set (dr_answered drops)) (j \<in> fst ` set (dr_doubled drops))"
    using validate_results_placed [OF assms(1) [unfolded ValidateToolResults_def]] assms(2,3)
    by (auto simp: seen_ok_def)
  then show ?thesis unfolding placed_def using find_id by blast
qed

definition demo_result :: "id \<Rightarrow> new_event" where
  "demo_result i = mk_event EventUserToolResult (JObj [(''tool_use_id'', JStr i)])"

theorem results_answer_once_witness:
  "\<exists>drops. ValidateToolResults demo_log [demo_result ''c1'', demo_result ''c1''] None = Inr drops \<and>
     1 \<in> fst ` set (dr_doubled drops)"
proof -
  obtain drops where v: "ValidateToolResults demo_log [demo_result ''c1'', demo_result ''c1''] None = Inr drops"
    by (simp add: ValidateToolResults_def demo_result_def mk_event_def payloadString_def ref_of_def demo_eval)
  have "\<not> answeredBy demo_log i" for i by (simp add: demo_eval)
  with results_answer_once [OF v, of 1] v show ?thesis
    by (auto simp: demo_result_def mk_event_def)
qed

lemma validate_confirmations_ok:
  assumes "validate_confirmations log i evs seen = Inr ()"
  shows "\<exists>refs. ToolConfirmationRefs evs = refs \<and> distinct refs \<and> set refs \<inter> set seen = {} \<and>
    length refs = length (filter (\<lambda>ev. ne_type ev = EventUserToolConfirm) evs) \<and>
    (\<forall>ref \<in> set refs. \<exists>tu \<in> set log. ev_id tu = ref \<and> unconfirmed_ask log [] tu)"
  using assms
proof (induction evs arbitrary: i seen)
  case Nil
  then show ?case by (simp add: ToolConfirmationRefs_def List.map_filter_simps)
next
  case (Cons ev evs)
  show ?case
  proof (cases "ne_type ev = EventUserToolConfirm")
    case False
    with Cons show ?thesis by (simp add: ToolConfirmationRefs_def List.map_filter_simps)
  next
    case True
    then obtain ref where ref: "payloadString (ne_payload ev) ''tool_use_id'' = Some ref"
      using Cons.prems by (cases "payloadString (ne_payload ev) ''tool_use_id''") simp_all
    with True Cons.prems obtain tu where tu: "find (\<lambda>e. ev_id e = ref \<and> ev_type e \<in> set confirmableToolUseTypes) log = Some tu"
      by (simp split: if_splits option.splits)
    have t: "tu \<in> set log" "ev_id tu = ref" "ev_type tu \<in> set confirmableToolUseTypes" using tu by (auto simp: find_Some_iff)
    from Cons.prems True ref tu have r: "validate_confirmations log (Suc i) evs (ref # seen) = Inr ()" "ref \<notin> set seen"
        "unconfirmed_ask log [] tu"
      using t by (auto simp: unconfirmed_ask_def split: if_splits)
    have e: "ToolConfirmationRefs (ev # evs) = ref # ToolConfirmationRefs evs"
      using True ref by (simp add: ToolConfirmationRefs_def List.map_filter_simps)
    from Cons.IH [OF r(1)] r(2,3) t True show ?thesis unfolding e by auto
  qed
qed

text \<open>
  A confirmation batch that passes resolves each gated call once: the calls it names are
  distinct, each is an ask-gated call of the session that is neither confirmed nor answered, and
  every confirmation of the batch names one.
\<close>

theorem confirmations_resolve_once:
  assumes "ValidateToolConfirmations log evs = Inr ()"
  shows "distinct (ToolConfirmationRefs evs) \<and>
    length (ToolConfirmationRefs evs) = length (filter (\<lambda>ev. ne_type ev = EventUserToolConfirm) evs) \<and>
    set (ToolConfirmationRefs evs) \<subseteq> set (UnconfirmedAskEvents log [])"
  using validate_confirmations_ok [OF assms [unfolded ValidateToolConfirmations_def]]
  by (auto simp: UnconfirmedAskEvents_def)

definition demo_confirm :: "id \<Rightarrow> string \<Rightarrow> new_event" where
  "demo_confirm i res = mk_event EventUserToolConfirm (JObj [(''tool_use_id'', JStr i), (''result'', JStr res)])"

theorem confirmations_resolve_once_witness:
  "set (ToolConfirmationRefs [demo_confirm ''c3'' ''deny'']) \<subseteq> set (UnconfirmedAskEvents demo_log [])"
proof -
  have "ValidateToolConfirmations demo_log [demo_confirm ''c3'' ''deny''] = Inr ()"
    by (simp add: ValidateToolConfirmations_def demo_confirm_def mk_event_def payloadString_def exists_row_def ref_of_def demo_eval)
  from confirmations_resolve_once [OF this] show ?thesis by simp
qed

text \<open>Routing refuses nothing the checks accepted, save an interrupt that names a thread.\<close>

lemma payload_found:
  assumes "ValidateToolResults log evs owned = Inr drops" "j < length evs"
    "ne_type (evs ! j) = EventUserToolResult \<or> ne_type (evs ! j) = EventUserCustomToolRes"
  shows "\<exists>ref tu. payloadString (ne_payload (evs ! j)) (resultRefKey (ne_type (evs ! j))) = Some ref \<and> find (\<lambda>e. ev_id e = ref) log = Some tu"
proof -
  have k: "resultRefKey (ne_type (evs ! j)) \<noteq> []" using assms(3) by auto
  have "placed log owned (evs ! j) (\<exists>j' < j. result_ref (evs ! j') = result_ref (evs ! j))
      (j \<in> set (dr_answered drops)) (j \<in> fst ` set (dr_doubled drops))"
    using validate_results_placed [OF assms(1) [unfolded ValidateToolResults_def]] assms(2) k by (auto simp: seen_ok_def)
  with k show ?thesis by (auto simp: placed_def result_ref_def)
qed

lemma confirmation_found:
  assumes "validate_confirmations log i evs seen = Inr ()" "j < length evs" "ne_type (evs ! j) = EventUserToolConfirm"
  shows "\<exists>ref tu. payloadString (ne_payload (evs ! j)) ''tool_use_id'' = Some ref \<and> find (\<lambda>e. ev_id e = ref) log = Some tu"
  using assms
proof (induction evs arbitrary: i seen j)
  case (Cons ev evs)
  show ?case
  proof (cases j)
    case 0
    with Cons.prems(1,3) obtain ref tu where r: "payloadString (ne_payload ev) ''tool_use_id'' = Some ref"
        "find (\<lambda>e. ev_id e = ref \<and> ev_type e \<in> set confirmableToolUseTypes) log = Some tu"
      by (simp split: if_splits option.splits)
    then have "tu \<in> set log \<and> ev_id tu = ref" by (auto simp: find_Some_iff)
    then have "find (\<lambda>e. ev_id e = ref) log \<noteq> None" by (auto simp: find_None_iff)
    with r(1) 0 show ?thesis by auto
  next
    case (Suc j')
    have "\<exists>i seen. validate_confirmations log i evs seen = Inr ()"
      using Cons.prems(1) by (auto split: if_splits option.splits)
    then obtain i' seen' where v: "validate_confirmations log i' evs seen' = Inr ()" by blast
    show ?thesis using Cons.IH [OF v, of j'] Cons.prems(2,3) Suc by simp
  qed
qed simp

lemma route_event_ok:
  assumes "route_event db i ev = Inr (ev', sc)"
  shows "ne_type ev' = ne_type ev \<and> ne_payload ev' = ne_payload ev"
  using assms by (auto simp: route_event_def Let_def split: if_splits option.splits)

lemma route_event_answer:
  assumes "ne_type ev = EventUserToolConfirm \<or> ne_type ev = EventUserToolResult \<or> ne_type ev = EventUserCustomToolRes"
    and "payloadString (ne_payload ev) (if resultRefKey (ne_type ev) = [] then ''tool_use_id'' else resultRefKey (ne_type ev)) = Some ref"
    and "find (\<lambda>e. ev_id e = ref) (s_log db) = Some tu"
  shows "route_event db i ev = Inr (ev\<lparr>ne_thread := ev_thread tu, ne_cross := ev_cross tu\<rparr>, False)"
  using assms by (auto simp: route_event_def Let_def)

lemma route_all_nth:
  "route_all db i evs = Inr rs \<Longrightarrow> length rs = length evs \<and> (\<forall>j < length evs. route_event db (i + j) (evs ! j) = Inr (rs ! j))"
proof (induction evs arbitrary: i rs)
  case (Cons ev evs)
  from Cons.prems obtain r rs' where r: "route_event db i ev = Inr r" "route_all db (Suc i) evs = Inr rs'" "rs = r # rs'"
    by (auto split: sum.splits)
  have "route_event db (i + j) ((ev # evs) ! j) = Inr (rs ! j)" if "j < length (ev # evs)" for j
    using that r Cons.IH [OF r(2)] by (cases j) auto
  with r Cons.IH [OF r(2)] show ?case by simp
qed simp

lemma route_all_error: "route_all db i evs = Inl e \<Longrightarrow> \<exists>j < length evs. route_event db (i + j) (evs ! j) = Inl e"
proof (induction evs arbitrary: i)
  case (Cons ev evs)
  show ?case
  proof (cases "route_event db i ev")
    case (Inl e')
    with Cons.prems show ?thesis by auto
  next
    case (Inr r)
    with Cons.prems have "route_all db (Suc i) evs = Inl e" by (auto split: sum.splits)
    from Cons.IH [OF this] obtain j where "j < length evs" "route_event db (Suc i + j) (evs ! j) = Inl e" by blast
    then show ?thesis by (intro exI [of _ "Suc j"]) auto
  qed
qed simp

text \<open>
  An answer lands where the call was made.  For a batch that passed both checks, routing
  fails only over an interrupt whose claim names a thread that is missing, archived or
  terminated; otherwise every result and confirmation is written on the thread of the call it
  answers and is cross-posted exactly as the call was, with type and payload untouched.
\<close>

theorem route_follows_call:
  assumes "ValidateToolResults (s_log db) evs owned = Inr drops" and "ValidateToolConfirmations (s_log db) evs = Inr ()"
  shows "case RouteInbound db evs of
      Inl e \<Rightarrow> (\<exists>j < length evs. ne_type (evs ! j) = EventUserInterrupt \<and> ne_thread (evs ! j) \<noteq> [] \<and> route_event db j (evs ! j) = Inl e)
    | Inr (evs', scoped) \<Rightarrow> length evs' = length evs \<and> length scoped = length evs \<and>
        (\<forall>j < length evs. ne_type (evs' ! j) = ne_type (evs ! j) \<and> ne_payload (evs' ! j) = ne_payload (evs ! j) \<and>
          (ne_type (evs ! j) \<in> {EventUserToolConfirm, EventUserToolResult, EventUserCustomToolRes} \<longrightarrow>
             (\<exists>tu \<in> set (s_log db). payloadString (ne_payload (evs ! j))
                (if ne_type (evs ! j) = EventUserCustomToolRes then ''custom_tool_use_id'' else ''tool_use_id'') = Some (ev_id tu) \<and>
                ne_thread (evs' ! j) = ev_thread tu \<and> ne_cross (evs' ! j) = ev_cross tu)))"
proof -
  let ?ans = "\<lambda>ev. ne_type ev \<in> {EventUserToolConfirm, EventUserToolResult, EventUserCustomToolRes}"
  have ans: "\<exists>ref tu. payloadString (ne_payload (evs ! j))
        (if ne_type (evs ! j) = EventUserCustomToolRes then ''custom_tool_use_id'' else ''tool_use_id'') = Some ref
      \<and> find (\<lambda>e. ev_id e = ref) (s_log db) = Some tu
      \<and> (\<forall>i. route_event db i (evs ! j) = Inr ((evs ! j)\<lparr>ne_thread := ev_thread tu, ne_cross := ev_cross tu\<rparr>, False))"
    if j: "j < length evs" "?ans (evs ! j)" for j
  proof -
    have k: "(if resultRefKey (ne_type (evs ! j)) = [] then ''tool_use_id'' else resultRefKey (ne_type (evs ! j)))
        = (if ne_type (evs ! j) = EventUserCustomToolRes then ''custom_tool_use_id'' else ''tool_use_id'')"
      using j(2) by auto
    obtain ref tu where "payloadString (ne_payload (evs ! j))
        (if ne_type (evs ! j) = EventUserCustomToolRes then ''custom_tool_use_id'' else ''tool_use_id'') = Some ref"
        "find (\<lambda>e. ev_id e = ref) (s_log db) = Some tu"
      using payload_found [OF assms(1) j(1)] confirmation_found [OF assms(2) [unfolded ValidateToolConfirmations_def] j(1)] j(2)
      by (cases "ne_type (evs ! j)") auto
    with route_event_answer [of "evs ! j" ref db tu] j(2) k show ?thesis by auto
  qed
  show ?thesis
  proof (cases "route_all db 0 evs")
    case (Inl e)
    then obtain j where j: "j < length evs" "route_event db j (evs ! j) = Inl e" using route_all_error [of db 0] by auto
    then have "\<not> ?ans (evs ! j)" using ans [OF j(1)] by auto
    then have "ne_type (evs ! j) = EventUserInterrupt \<and> ne_thread (evs ! j) \<noteq> []"
      using j(2) by (auto simp: route_event_def split: if_splits)
    with Inl j show ?thesis by (auto simp: RouteInbound_def)
  next
    case (Inr rs)
    note n = route_all_nth [OF this, simplified]
    have "ne_type (map fst rs ! j) = ne_type (evs ! j) \<and> ne_payload (map fst rs ! j) = ne_payload (evs ! j)
        \<and> (?ans (evs ! j) \<longrightarrow> (\<exists>tu \<in> set (s_log db). payloadString (ne_payload (evs ! j))
           (if ne_type (evs ! j) = EventUserCustomToolRes then ''custom_tool_use_id'' else ''tool_use_id'') = Some (ev_id tu)
           \<and> ne_thread (map fst rs ! j) = ev_thread tu \<and> ne_cross (map fst rs ! j) = ev_cross tu))" if j: "j < length evs" for j
    proof (intro conjI impI)
      have r: "route_event db j (evs ! j) = Inr (fst (rs ! j), snd (rs ! j))" using n j by simp
      show "ne_type (map fst rs ! j) = ne_type (evs ! j)" "ne_payload (map fst rs ! j) = ne_payload (evs ! j)"
        using route_event_ok [OF r] n j by simp_all
      assume a: "?ans (evs ! j)"
      from ans [OF j a] obtain ref tu where *: "payloadString (ne_payload (evs ! j))
          (if ne_type (evs ! j) = EventUserCustomToolRes then ''custom_tool_use_id'' else ''tool_use_id'') = Some ref"
          "find (\<lambda>e. ev_id e = ref) (s_log db) = Some tu"
          "\<forall>i. route_event db i (evs ! j) = Inr ((evs ! j)\<lparr>ne_thread := ev_thread tu, ne_cross := ev_cross tu\<rparr>, False)" by blast
      then have f: "fst (rs ! j) = (evs ! j)\<lparr>ne_thread := ev_thread tu, ne_cross := ev_cross tu\<rparr>"
        using r by (metis Pair_inject sum.inject(2))
      with * find_id [OF *(2)] n j show "\<exists>tu \<in> set (s_log db). payloadString (ne_payload (evs ! j))
           (if ne_type (evs ! j) = EventUserCustomToolRes then ''custom_tool_use_id'' else ''tool_use_id'') = Some (ev_id tu)
           \<and> ne_thread (map fst rs ! j) = ev_thread tu \<and> ne_cross (map fst rs ! j) = ev_cross tu"
        by (intro bexI [of _ tu]) auto
    qed
    with Inr n show ?thesis by (simp add: RouteInbound_def)
  qed
qed

definition demo_session :: session_db where
  "demo_session = \<lparr>s_id = ''sesn_1'', s_status = SessionRunning, s_archived = False, s_agent_name = ''a'',
     s_env_kind = EnvCloud, s_threads = [], s_log = demo_log\<rparr>"

theorem route_follows_call_witness:
  "\<exists>evs' scoped. RouteInbound demo_session [demo_result ''c1''] = Inr (evs', scoped) \<and> length evs' = 1"
proof -
  have 1: "ValidateToolResults (s_log demo_session) [demo_result ''c1''] None = Inr \<lparr>dr_answered = [], dr_doubled = []\<rparr>"
    by (simp add: demo_session_def ValidateToolResults_def demo_result_def mk_event_def payloadString_def ref_of_def demo_eval)
  have 2: "ValidateToolConfirmations (s_log demo_session) [demo_result ''c1''] = Inr ()"
    by (simp add: ValidateToolConfirmations_def demo_result_def mk_event_def)
  show ?thesis using route_follows_call [OF 1 2]
    by (cases "RouteInbound demo_session [demo_result ''c1'']") (auto simp: demo_result_def mk_event_def)
qed

section \<open>Properties of the schedule\<close>

lemma class_scan_min:
  "class_scan f tus c =
     (let cs = c # List.map_filter f tus in
      if ExecMCP \<in> set cs then ExecMCP else if ExecWeb \<in> set cs then ExecWeb else if ExecTool \<in> set cs then ExecTool else ExecNone)"
  if "\<And>tu n. f tu = Some n \<Longrightarrow> n \<noteq> ExecNone"
proof (induction tus arbitrary: c)
  case Nil
  then show ?case by (cases c) (simp_all add: List.map_filter_simps)
next
  case (Cons tu tus)
  show ?case
  proof (cases "f tu")
    case None
    with Cons show ?thesis by (simp add: List.map_filter_simps)
  next
    case (Some n)
    with that [OF Some] show ?thesis
      by (cases n; cases c) (simp_all add: Cons List.map_filter_simps Let_def)
  qed
qed

lemma class_of_ne: "class_of log env answered allowed isWeb isSettlement tu = Some n \<Longrightarrow> n \<noteq> ExecNone"
  by (auto simp: class_of_def Let_def split: if_splits)

lemma exec_class_mem:
  "n \<in> set (List.map_filter (class_of log env answered allowed isWeb isSettlement)
      (filter (runnableToolUse log confirmableToolUseTypes answered allowed) log)) \<longleftrightarrow>
   (\<exists>tu \<in> set log. runnableToolUse log confirmableToolUseTypes answered allowed tu \<and>
      class_of log env answered allowed isWeb isSettlement tu = Some n)"
  by (auto simp: List.map_filter_def image_iff)

lemma processed_runnable:
  "orderedRunnableToolUse log types extra allowed tu \<longleftrightarrow>
     runnableToolUse log types extra allowed tu \<and> orderedToolHead log extra tu \<and> processedPermission log allowed tu"
  by (auto simp: orderedRunnableToolUse_def runnableToolUse_def processedPermission_def permitted_by_def allow_recorded_def)

text \<open>
  The work class a settlement schedules is right.  It is MCP exactly when an MCP call is
  runnable now, so no other driver is handed a log with one outstanding; in a cloud environment
  it is none exactly when no confirmable call but the settlement's own is runnable, web exactly
  when no MCP call is but a web call is, and otherwise the sandbox tools.
\<close>

theorem exec_class_correct:
  "(RunnableExecClass log env answered allowed isWeb isSettlement = ExecMCP \<longleftrightarrow> HasRunnableMCPToolUse log answered allowed) \<and>
   (let platform = (\<lambda>web. \<exists>tu \<in> set log. orderedRunnableToolUse log [EventAgentToolUse] answered allowed tu
          \<and> \<not> isSettlement (name_of tu) \<and> isWeb (name_of tu) = web);
        c = RunnableExecClass log EnvCloud answered allowed isWeb isSettlement in
    (c = ExecWeb \<longleftrightarrow> \<not> HasRunnableMCPToolUse log answered allowed \<and> platform True) \<and>
    (c = ExecTool \<longleftrightarrow> \<not> HasRunnableMCPToolUse log answered allowed \<and> \<not> platform True \<and> platform False) \<and>
    (c = ExecNone \<longleftrightarrow> \<not> HasRunnableMCPToolUse log answered allowed \<and> \<not> platform True \<and> \<not> platform False))"
proof -
  let ?mem = "\<lambda>env n. \<exists>tu \<in> set log. runnableToolUse log confirmableToolUseTypes answered allowed tu \<and>
      class_of log env answered allowed isWeb isSettlement tu = Some n"
  let ?plat = "\<lambda>web. \<exists>tu \<in> set log. orderedRunnableToolUse log [EventAgentToolUse] answered allowed tu
          \<and> \<not> isSettlement (name_of tu) \<and> isWeb (name_of tu) = web"
  have scan: "RunnableExecClass log env answered allowed isWeb isSettlement =
      (if ?mem env ExecMCP then ExecMCP else if ?mem env ExecWeb then ExecWeb else if ?mem env ExecTool then ExecTool else ExecNone)" for env
    using class_scan_min [of "class_of log env answered allowed isWeb isSettlement", OF class_of_ne,
        where tus = "filter (runnableToolUse log confirmableToolUseTypes answered allowed) log" and c = ExecNone]
    by (simp add: RunnableExecClass_def exec_class_mem Let_def)
  have conf: "runnableToolUse log confirmableToolUseTypes answered allowed tu \<longleftrightarrow>
      runnableToolUse log [EventAgentToolUse] answered allowed tu \<or> runnableToolUse log [EventAgentMCPToolUse] answered allowed tu" for tu
    by (auto simp: runnableToolUse_def unansweredToolUse_def toolUseScope_def confirmableToolUseTypes_def)
  have ty: "runnableToolUse log [ty] answered allowed tu \<Longrightarrow> ev_type tu = ty" for ty tu
    by (simp add: runnableToolUse_def unansweredToolUse_def toolUseScope_def)
  have mcp: "?mem env ExecMCP \<longleftrightarrow> HasRunnableMCPToolUse log answered allowed" for env
    unfolding HasRunnableMCPToolUse_def exists_row_def processed_runnable conf
    by (rule bex_cong) (auto simp: class_of_def Let_def dest: ty split: if_splits)
  have web: "?mem EnvCloud ExecWeb \<longleftrightarrow> ?plat True"
    unfolding processed_runnable conf by (rule bex_cong) (auto simp: class_of_def Let_def dest: ty split: if_splits)
  have tool: "?mem EnvCloud ExecTool \<longleftrightarrow> ?plat False"
    unfolding processed_runnable conf by (rule bex_cong) (auto simp: class_of_def Let_def dest: ty split: if_splits)
  show ?thesis unfolding scan mcp web tool Let_def by simp
qed

end
