(* ===== verification/Event_Append.thy ===== *)
theory Event_Append
  imports Thread_Status Tool_Flow "HOL-Library.Word"
begin

text \<open>
  \<^verbatim>\<open>internal/events/log.go\<close> (\<^verbatim>\<open>AppendInTx\<close>), \<^verbatim>\<open>usage.go\<close> and \<^verbatim>\<open>status.go\<close>
  (\<^verbatim>\<open>AppendTransition\<close>): the one writer of a session's log.  An append is a function of the
  session's rows, the batch, the options and the readings it takes of clocks and id generator
  (\<open>readings\<close>); it returns the rows it inserted and the session's rows after the transaction, or
  an error that leaves everything as it was.  Instants are integers in microseconds, and running
  time is kept in microseconds where the code keeps a float of seconds.
\<close>

section \<open>Usage and running time\<close>

record usage =
  u_input :: "64 word"
  u_output :: "64 word"
  u_cache_read :: "64 word"
  u_cache_1h :: "64 word"
  u_cache_5m :: "64 word"

record model_usage =
  m_cache_creation :: "64 word"
  m_cache_read :: "64 word"
  m_input :: "64 word"
  m_output :: "64 word"

definition usage_add :: "usage \<Rightarrow> model_usage \<Rightarrow> usage" where
  "usage_add u mu = u\<lparr>u_input := u_input u + m_input mu, u_output := u_output u + m_output mu,
     u_cache_read := u_cache_read u + m_cache_read mu, u_cache_5m := u_cache_5m u + m_cache_creation mu\<rparr>"

definition usageAfter :: "usage \<Rightarrow> model_usage option \<Rightarrow> usage" where
  "usageAfter u add = (case add of None \<Rightarrow> u | Some mu \<Rightarrow> usage_add u mu)"

definition ActiveSecondsAt :: "int \<Rightarrow> int option \<Rightarrow> int \<Rightarrow> int" where
  "ActiveSecondsAt active since at = (case since of None \<Rightarrow> active | Some s \<Rightarrow> active + max 0 (at - s))"

record session_clock =
  c_active :: int
  c_since :: "int option"
  c_changed :: bool

definition clock_step :: "session_clock \<Rightarrow> event_type \<Rightarrow> int \<Rightarrow> bool \<Rightarrow> session_clock" where
  "clock_step c typ at restated =
     (if typ = EventSessionStatusRunning then c\<lparr>c_since := Some at, c_changed := True\<rparr>
      else if typ = EventSessionStatusIdle \<or> typ = EventSessionStatusRescheduled \<or> typ = EventSessionStatusTerminated
      then (if c_since c = None then c
            else c\<lparr>c_active := (if restated then c_active c else ActiveSecondsAt (c_active c) (c_since c) at),
                   c_since := None, c_changed := True\<rparr>)
      else c)"

definition sessionStatusTypes :: "event_type \<Rightarrow> bool" where
  "sessionStatusTypes t \<longleftrightarrow> t \<in> {EventSessionStatusRunning, EventSessionStatusIdle,
     EventSessionStatusRescheduled, EventSessionStatusTerminated}"

fun withUsageSnapshots :: "new_event list \<Rightarrow> new_event list" where
  "withUsageSnapshots [] = []"
| "withUsageSnapshots (ev # evs) =
     (if ne_type ev = EventSessionStatusIdle
      then (mk_event EventSessionUsage (JObj []))\<lparr>ne_processed := ne_processed ev, ne_restated := ne_restated ev\<rparr>
             # ev # withUsageSnapshots evs
      else ev # withUsageSnapshots evs)"

text \<open>
  The usage body: token counts as signed decimals, running time rounded to the millisecond
  (half away from zero) and printed in seconds.
\<close>

fun dec :: "nat \<Rightarrow> string" where
  "dec n = (if n < 10 then [char_of (48 + n)] else dec (n div 10) @ [char_of (48 + n mod 10)])"

declare dec.simps [simp del]

definition dec_int :: "int \<Rightarrow> string" where
  "dec_int i = (if i < 0 then CHR ''-'' # dec (nat (- i)) else dec (nat i))"

definition round_ms :: "int \<Rightarrow> int" where
  "round_ms us = (if us < 0 then - ((- us + 500) div 1000) else (us + 500) div 1000)"

definition frac3 :: "nat \<Rightarrow> string" where
  "frac3 n = (if n = 0 then [] else if n mod 100 = 0 then CHR ''.'' # dec (n div 100)
     else if n mod 10 = 0 then ''.'' @ (if n < 100 then ''0'' else []) @ dec (n div 10)
     else ''.'' @ (if n < 10 then ''00'' else if n < 100 then ''0'' else []) @ dec n)"

definition seconds_text :: "int \<Rightarrow> string" where
  "seconds_text us = (let ms = round_ms us in
     (if ms < 0 then ''-'' else []) @ dec (nat \<bar>ms\<bar> div 1000) @ frac3 (nat \<bar>ms\<bar> mod 1000))"

definition usageSnapshot :: "usage \<Rightarrow> int \<Rightarrow> json" where
  "usageSnapshot u active = JObj [(''usage'', JObj [
     (''input_tokens'', JNum (dec_int (sint (u_input u)))), (''output_tokens'', JNum (dec_int (sint (u_output u)))),
     (''cache_read_input_tokens'', JNum (dec_int (sint (u_cache_read u)))),
     (''cache_creation'', JObj [(''ephemeral_1h_input_tokens'', JNum (dec_int (sint (u_cache_1h u)))),
        (''ephemeral_5m_input_tokens'', JNum (dec_int (sint (u_cache_5m u))))]),
     (''active_seconds'', JNum (seconds_text active))])]"

section \<open>The session's rows, the options, the readings\<close>

record store =
  st_db :: session_db
  st_usage :: usage
  st_active :: int
  st_since :: "int option"
  st_delegation :: nat
  st_thread_usage :: "id \<Rightarrow> usage option"
  st_outcomes :: "outcome_evaluation list"
  st_thinking :: "thinking_block list"

datatype append_error =
    AppendRequiresEvent
  | ConsumeRequiresStart
  | StreamOnly event_type
  | ErrSessionArchived
  | PayloadNotObject
  | CallbackFailed string
  | TransitionFailed status_error

record append_opts =
  o_thread :: id
  o_set_status :: "session_status option"
  o_add_usage :: "model_usage option"
  o_mark :: nat
  o_consume :: bool
  o_outcomes :: "(outcome_evaluation list \<Rightarrow> string + outcome_evaluation list) option"
  o_thinking :: "thinking_block list"
  o_then :: "(store \<Rightarrow> string + store) option"

definition no_opts :: append_opts where
  "no_opts = \<lparr>o_thread = [], o_set_status = None, o_add_usage = None, o_mark = 0, o_consume = False,
     o_outcomes = None, o_thinking = [], o_then = None\<rparr>"

record readings =
  k_now :: "nat \<Rightarrow> int"       \<comment> \<open>time.Now() when position i is laid out\<close>
  k_consumed :: int           \<comment> \<open>time.Now() under the row lock\<close>
  k_stmt :: int               \<comment> \<open>statement_timestamp() of the INSERT\<close>
  k_mark :: int               \<comment> \<open>clock_timestamp() of the MarkProcessedThrough update\<close>
  k_id :: "nat \<Rightarrow> id"        \<comment> \<open>domain.NewID at position i\<close>

section \<open>Laying out the batch\<close>

definition withAgentName :: "json \<Rightarrow> string \<Rightarrow> json option" where
  "withAgentName p name = (case p of
     JObj kvs \<Rightarrow> Some (if ''agent_name'' \<in> fst ` set kvs then p else JObj (kvs @ [(''agent_name'', JStr name)]))
   | _ \<Rightarrow> None)"

definition stamp_of :: "readings \<Rightarrow> bool \<Rightarrow> nat \<Rightarrow> int option \<Rightarrow> int option \<Rightarrow> new_event \<Rightarrow> int option" where
  "stamp_of K consume i lastStamp carry ev =
     (let given = (if ne_processed ev = None then carry else ne_processed ev);
          p0 = (if i = 0 \<and> consume then Some (k_consumed K) else given);
          p1 = (if p0 = None \<and> \<not> stamped_on_consumption (ne_type ev) then Some (k_now K i) else p0)
      in case p1 of None \<Rightarrow> None
         | Some t \<Rightarrow> Some (case lastStamp of None \<Rightarrow> t | Some l \<Rightarrow> if t < l then l else t))"

text \<open>
  The loop of \<^verbatim>\<open>AppendInTx\<close>: \<open>carry\<close> is the stamp a session.usage leaves to the event after it
  when that one brought none, \<open>clk\<close> the running time when the batch moves it.
\<close>

fun layout :: "readings \<Rightarrow> bool \<Rightarrow> string \<Rightarrow> usage \<Rightarrow> int \<Rightarrow> nat \<Rightarrow> nat \<Rightarrow> int option \<Rightarrow> int option
    \<Rightarrow> session_clock option \<Rightarrow> new_event list \<Rightarrow> append_error + event list \<times> session_clock option" where
  "layout K consume agent snap created i seq lastStamp carry clk [] = Inr ([], clk)"
| "layout K consume agent snap created i seq lastStamp carry clk (ev # evs) =
     (case (if ne_thread ev = [] \<and> primaryStatusEvents (ne_type ev) then withAgentName (ne_payload ev) agent
            else Some (ne_payload ev)) of
        None \<Rightarrow> Inl PayloadNotObject
      | Some payload0 \<Rightarrow>
          let proc = stamp_of K consume i lastStamp carry ev;
              lastStamp' = (case proc of None \<Rightarrow> lastStamp | Some t \<Rightarrow> Some t);
              carry' = (if ne_type ev = EventSessionUsage then proc else None);
              (payload, clk') = (case (clk, proc) of
                 (Some c, Some at) \<Rightarrow>
                   ((if ne_type ev = EventSessionUsage
                     then usageSnapshot snap (if ne_restated ev then c_active c else ActiveSecondsAt (c_active c) (c_since c) at)
                     else payload0), Some (clock_step c (ne_type ev) at (ne_restated ev)))
               | _ \<Rightarrow> (payload0, clk));
              row = \<lparr>ev_id = (if ne_id ev = [] then k_id K i else ne_id ev), ev_seq = Suc seq, ev_type = ne_type ev,
                     ev_payload = payload, ev_processed = proc, ev_created = created,
                     ev_thread = ne_thread ev, ev_cross = ne_cross ev\<rparr>
          in case layout K consume agent snap created (Suc i) (Suc seq) lastStamp' carry' clk' evs of
               Inl e \<Rightarrow> Inl e
             | Inr (rows, clkn) \<Rightarrow> Inr (row # rows, clkn))"

section \<open>AppendInTx\<close>

definition RequestInputTypes :: "event_type list" where
  "RequestInputTypes = consumed_inputs @ [EventSystemMessage]"

definition answerTypes :: "event_type list" where
  "answerTypes = [EventUserToolResult, EventUserCustomToolRes, EventUserToolConfirm]"

definition mark_through :: "int \<Rightarrow> nat \<Rightarrow> id \<Rightarrow> event list \<Rightarrow> event list" where
  "mark_through at through thr log = map (\<lambda>e. if ev_seq e \<le> through \<and> ev_processed e = None \<and> ev_thread e = thr
     \<and> ev_type e \<in> set RequestInputTypes then e\<lparr>ev_processed := Some at\<rparr> else e) log"

definition consumed_by :: "event list \<Rightarrow> nat \<Rightarrow> id \<Rightarrow> event \<Rightarrow> bool" where
  "consumed_by log start thr e \<longleftrightarrow> ev_seq e < start \<and> ev_processed e = None \<and> ev_thread e = thr
     \<and> (ev_type e \<in> set RequestInputTypes \<or> ev_type e = EventUserInterrupt
        \<or> (ev_type e \<in> set answerTypes \<and> ref_of (ev_payload e) \<noteq> None \<and>
           (\<exists>r \<in> set log. ev_seq r < start \<and> ev_processed r \<noteq> None \<and> ev_type r \<in> set toolResultTypes
              \<and> ref_of (ev_payload r) = ref_of (ev_payload e))))"

definition consume_inputs :: "int \<Rightarrow> nat \<Rightarrow> id \<Rightarrow> event list \<Rightarrow> event list" where
  "consume_inputs at start thr log = map (\<lambda>e. if consumed_by log start thr e then e\<lparr>ev_processed := Some at\<rparr> else e) log"

definition floor_created :: "readings \<Rightarrow> event list \<Rightarrow> int" where
  "floor_created K log = (if log = [] then k_stmt K else max (k_stmt K) (ev_created (last log) + 1))"

definition last_seq :: "event list \<Rightarrow> nat" where
  "last_seq log = (if log = [] then 0 else ev_seq (last log))"

definition empty_append :: "new_event list \<Rightarrow> append_opts \<Rightarrow> bool" where
  "empty_append evs opts \<longleftrightarrow> evs = [] \<and> o_set_status opts = None \<and> o_add_usage opts = None
     \<and> o_mark opts = 0 \<and> o_outcomes opts = None \<and> o_then opts = None"

definition stream_only :: "new_event list \<Rightarrow> event_type option" where
  "stream_only evs = map_option ne_type (find (\<lambda>ev. \<not> persisted (ne_type ev)) evs)"

text \<open>The rows after the INSERT and the session-row updates that follow it, in the code's order.\<close>

definition after_insert :: "readings \<Rightarrow> store \<Rightarrow> new_event list \<Rightarrow> append_opts \<Rightarrow> event list \<Rightarrow> session_clock option \<Rightarrow> store" where
  "after_insert K st evs opts rows clk =
     (let db = st_db st;
          st1 = st\<lparr>st_db := db\<lparr>s_log := s_log db @ rows\<rparr>, st_thinking := st_thinking st @ o_thinking opts\<rparr>;
          st2 = (case clk of Some c \<Rightarrow> if c_changed c then st1\<lparr>st_active := c_active c, st_since := c_since c\<rparr> else st1 | None \<Rightarrow> st1);
          st3 = (if \<exists>ev \<in> set evs. starts_new_work (ne_type ev) then st2\<lparr>st_delegation := 0\<rparr> else st2);
          st4 = (case o_set_status opts of None \<Rightarrow> st3 | Some s \<Rightarrow> st3\<lparr>st_db := (st_db st3)\<lparr>s_status := s\<rparr>\<rparr>)
      in case o_add_usage opts of None \<Rightarrow> st4
         | Some mu \<Rightarrow>
             (let tid = (if o_thread opts = [] then primary_thread_id (s_id db) else o_thread opts)
              in st4\<lparr>st_usage := usageAfter (st_usage st) (Some mu),
                     st_thread_usage := (case st_thread_usage st tid of None \<Rightarrow> st_thread_usage st
                       | Some tu \<Rightarrow> (st_thread_usage st)(tid \<mapsto> usage_add tu mu))\<rparr>))"

definition set_log :: "store \<Rightarrow> event list \<Rightarrow> store" where
  "set_log st log = st\<lparr>st_db := (st_db st)\<lparr>s_log := log\<rparr>\<rparr>"

definition stamp_inputs :: "readings \<Rightarrow> append_opts \<Rightarrow> event list \<Rightarrow> store \<Rightarrow> store" where
  "stamp_inputs K opts rows st6 =
     (let st7 = (if o_mark opts > 0 then set_log st6 (mark_through (k_mark K) (o_mark opts) (o_thread opts) (s_log (st_db st6))) else st6)
      in if o_consume opts then set_log st7 (consume_inputs (k_consumed K - 1) (ev_seq (hd rows)) (o_thread opts) (s_log (st_db st7))) else st7)"

definition AppendInTx :: "readings \<Rightarrow> store \<Rightarrow> new_event list \<Rightarrow> append_opts \<Rightarrow> append_error + store \<times> event list" where
  "AppendInTx K st evs0 opts =
     (if empty_append evs0 opts then Inl AppendRequiresEvent
      else if o_consume opts \<and> (evs0 = [] \<or> ne_type (hd evs0) \<noteq> EventSpanModelRequestStart) then Inl ConsumeRequiresStart
      else case stream_only evs0 of Some t \<Rightarrow> Inl (StreamOnly t)
      | None \<Rightarrow>
      if s_archived (st_db st) then Inl ErrSessionArchived
      else
        let db = st_db st; evs = withUsageSnapshots evs0;
            clk = (if \<exists>ev \<in> set evs. sessionStatusTypes (ne_type ev)
                   then Some \<lparr>c_active = st_active st, c_since = st_since st, c_changed = False\<rparr> else None)
        in case layout K (o_consume opts) (s_agent_name db) (usageAfter (st_usage st) (o_add_usage opts))
                  (floor_created K (s_log db)) 0 (last_seq (s_log db)) None None clk evs of
          Inl e \<Rightarrow> Inl e
        | Inr (rows, clk') \<Rightarrow>
            let st5 = after_insert K st evs opts rows clk' in
            (case (case o_outcomes opts of None \<Rightarrow> Inr st5
                   | Some f \<Rightarrow> (case f (st_outcomes st5) of Inl e \<Rightarrow> Inl e | Inr os \<Rightarrow> Inr (st5\<lparr>st_outcomes := os\<rparr>))) of
               Inl e \<Rightarrow> Inl (CallbackFailed e)
             | Inr st6 \<Rightarrow>
                 (case o_then opts of None \<Rightarrow> Inr (stamp_inputs K opts rows st6, rows)
                  | Some f \<Rightarrow> (case f (stamp_inputs K opts rows st6) of Inl e \<Rightarrow> Inl (CallbackFailed e) | Inr st9 \<Rightarrow> Inr (st9, rows)))))"

section \<open>AppendTransition\<close>

fun run_transitions :: "session_db \<Rightarrow> session_status \<Rightarrow> bool \<Rightarrow> thread_transition list
    \<Rightarrow> status_error + session_db \<times> new_event list \<times> bool" where
  "run_transitions db before woke [] = Inr (db, [], woke)"
| "run_transitions db before woke (t # ts) =
     (let woke' = (if tt_status t = SessionRunning \<and> \<not> tt_force t \<and> \<not> woke then threadWakes db (tt_thread t) before else woke)
      in case TransitionThread db t of
           Inl e \<Rightarrow> Inl e
         | Inr (db', out, _) \<Rightarrow>
             (case run_transitions db' before woke' ts of
                Inl e \<Rightarrow> Inl e
              | Inr (db'', outs, w) \<Rightarrow> Inr (db'', out @ outs, w)))"

definition AppendTransition :: "readings \<Rightarrow> store \<Rightarrow> new_event list \<Rightarrow> thread_transition list \<Rightarrow> append_opts
    \<Rightarrow> append_error + store \<times> event list" where
  "AppendTransition K st evs ts opts =
     (let before = s_status (st_db st) in
      case run_transitions (st_db st) before False ts of
        Inl e \<Rightarrow> Inl (TransitionFailed e)
      | Inr (db, emitted, woke) \<Rightarrow>
          AppendInTx K (st\<lparr>st_db := db\<rparr>) (if woke then emitted @ evs else evs @ emitted)
            (opts\<lparr>o_set_status := (if s_status db \<noteq> before then Some (s_status db) else None)\<rparr>))"

section \<open>Facts about the layout\<close>

lemma layout_Cons:
  assumes "layout K consume agent snap created i seq lastStamp carry clk (ev # evs) = Inr (rows, clkn)"
  obtains row rows' clk' where "rows = row # rows'"
    "layout K consume agent snap created (Suc i) (Suc seq)
       (case ev_processed row of None \<Rightarrow> lastStamp | Some t \<Rightarrow> Some t)
       (if ne_type ev = EventSessionUsage then ev_processed row else None) clk' evs = Inr (rows', clkn)"
    "ev_processed row = stamp_of K consume i lastStamp carry ev"
    "ev_id row = (if ne_id ev = [] then k_id K i else ne_id ev)" "ev_seq row = Suc seq" "ev_type row = ne_type ev"
    "ev_created row = created" "ev_thread row = ne_thread ev" "ev_cross row = ne_cross ev"
    "clk' = (case (clk, ev_processed row) of (Some c, Some at) \<Rightarrow> Some (clock_step c (ne_type ev) at (ne_restated ev)) | _ \<Rightarrow> clk)"
    "ne_type ev = EventSessionUsage \<Longrightarrow> (case (clk, ev_processed row) of
        (Some c, Some at) \<Rightarrow> ev_payload row = usageSnapshot snap (if ne_restated ev then c_active c else ActiveSecondsAt (c_active c) (c_since c) at)
      | _ \<Rightarrow> True)"
    "ne_type ev \<noteq> EventSessionUsage \<Longrightarrow> \<not> primaryStatusEvents (ne_type ev) \<Longrightarrow> ev_payload row = ne_payload ev"
proof -
  obtain p0 where p0: "(if ne_thread ev = [] \<and> primaryStatusEvents (ne_type ev) then withAgentName (ne_payload ev) agent
        else Some (ne_payload ev)) = Some p0"
    using assms by (cases "if ne_thread ev = [] \<and> primaryStatusEvents (ne_type ev) then withAgentName (ne_payload ev) agent
        else Some (ne_payload ev)") simp_all
  let ?proc = "stamp_of K consume i lastStamp carry ev"
  let ?pc = "case (clk, ?proc) of
       (Some c, Some at) \<Rightarrow>
         ((if ne_type ev = EventSessionUsage
           then usageSnapshot snap (if ne_restated ev then c_active c else ActiveSecondsAt (c_active c) (c_since c) at)
           else p0), Some (clock_step c (ne_type ev) at (ne_restated ev)))
     | _ \<Rightarrow> (p0, clk)"
  let ?row = "\<lparr>ev_id = (if ne_id ev = [] then k_id K i else ne_id ev), ev_seq = Suc seq, ev_type = ne_type ev,
     ev_payload = fst ?pc, ev_processed = ?proc, ev_created = created, ev_thread = ne_thread ev, ev_cross = ne_cross ev\<rparr>"
  from assms p0 obtain rows' where r: "rows = ?row # rows'"
    "layout K consume agent snap created (Suc i) (Suc seq) (case ?proc of None \<Rightarrow> lastStamp | Some t \<Rightarrow> Some t)
       (if ne_type ev = EventSessionUsage then ?proc else None) (snd ?pc) evs = Inr (rows', clkn)"
    by (auto simp: Let_def split: sum.splits prod.splits)
  show ?thesis
    by (rule that [of ?row rows' "snd ?pc"]) (use r p0 in \<open>auto split: option.splits if_splits\<close>)
qed

lemma layout_length: "layout K consume agent snap created i seq ls carry clk evs = Inr (rows, clkn) \<Longrightarrow> length rows = length evs"
proof (induction evs arbitrary: i seq ls carry clk rows)
  case (Cons ev evs)
  from Cons.prems show ?case by (rule layout_Cons) (use Cons.IH in auto)
qed simp

lemma layout_rows:
  assumes "layout K consume agent snap created i seq ls carry clk evs = Inr (rows, clkn)" "j < length evs"
  shows "ev_seq (rows ! j) = Suc (seq + j) \<and> ev_type (rows ! j) = ne_type (evs ! j) \<and> ev_created (rows ! j) = created
    \<and> ev_thread (rows ! j) = ne_thread (evs ! j) \<and> ev_cross (rows ! j) = ne_cross (evs ! j)
    \<and> ev_id (rows ! j) = (if ne_id (evs ! j) = [] then k_id K (i + j) else ne_id (evs ! j))
    \<and> (ne_type (evs ! j) \<noteq> EventSessionUsage \<longrightarrow> \<not> primaryStatusEvents (ne_type (evs ! j)) \<longrightarrow> ev_payload (rows ! j) = ne_payload (evs ! j))"
  using assms
proof (induction evs arbitrary: i seq ls carry clk rows j)
  case (Cons ev evs)
  from Cons.prems(1) show ?case
  proof (rule layout_Cons)
    fix row rows' clk'
    assume r: "rows = row # rows'"
      "layout K consume agent snap created (Suc i) (Suc seq) (case ev_processed row of None \<Rightarrow> ls | Some t \<Rightarrow> Some t)
        (if ne_type ev = EventSessionUsage then ev_processed row else None) clk' evs = Inr (rows', clkn)"
      and f: "ev_id row = (if ne_id ev = [] then k_id K i else ne_id ev)" "ev_seq row = Suc seq" "ev_type row = ne_type ev"
        "ev_created row = created" "ev_thread row = ne_thread ev" "ev_cross row = ne_cross ev"
        "ne_type ev \<noteq> EventSessionUsage \<Longrightarrow> \<not> primaryStatusEvents (ne_type ev) \<Longrightarrow> ev_payload row = ne_payload ev"
    show ?thesis
    proof (cases j)
      case 0
      with r f show ?thesis by simp
    next
      case (Suc j')
      with Cons.IH [OF r(2), of j'] Cons.prems(2) r(1) show ?thesis by simp
    qed
  qed
qed simp

lemma layout_stamped:
  "layout K consume agent snap created i seq ls carry clk evs = Inr (rows, clkn) \<Longrightarrow> j < length evs \<Longrightarrow>
   ne_processed (evs ! j) \<noteq> None \<or> \<not> stamped_on_consumption (ne_type (evs ! j)) \<Longrightarrow> ev_processed (rows ! j) \<noteq> None"
proof (induction evs arbitrary: i seq ls carry clk rows j)
  case (Cons ev evs)
  from Cons.prems(1) show ?case
  proof (rule layout_Cons)
    fix row rows' clk'
    assume r: "rows = row # rows'"
      "layout K consume agent snap created (Suc i) (Suc seq) (case ev_processed row of None \<Rightarrow> ls | Some t \<Rightarrow> Some t)
        (if ne_type ev = EventSessionUsage then ev_processed row else None) clk' evs = Inr (rows', clkn)"
      and p: "ev_processed row = stamp_of K consume i ls carry ev"
    show ?thesis
    proof (cases j)
      case 0
      with r(1) p Cons.prems(3) show ?thesis by (auto simp: stamp_of_def Let_def split: option.splits)
    next
      case (Suc j')
      with Cons.IH [OF r(2), of j'] Cons.prems(2,3) r(1) show ?thesis by simp
    qed
  qed
qed simp

definition stamps_from :: "int option \<Rightarrow> event list \<Rightarrow> bool" where
  "stamps_from l rows \<longleftrightarrow> sorted (List.map_filter (\<lambda>x. x) (l # map ev_processed rows))"

lemma stamp_ge: "stamp_of K consume i (Some l) carry ev = Some t \<Longrightarrow> l \<le> t"
  by (auto simp: stamp_of_def Let_def split: option.splits if_splits)

lemma layout_stamps:
  "layout K consume agent snap created i seq ls carry clk evs = Inr (rows, clkn) \<Longrightarrow> stamps_from ls rows"
proof (induction evs arbitrary: i seq ls carry clk rows)
  case Nil
  then show ?case by (cases ls) (auto simp: stamps_from_def List.map_filter_simps)
next
  case (Cons ev evs)
  from Cons.prems show ?case
  proof (rule layout_Cons)
    fix row rows' clk'
    assume r: "rows = row # rows'"
      "layout K consume agent snap created (Suc i) (Suc seq) (case ev_processed row of None \<Rightarrow> ls | Some t \<Rightarrow> Some t)
        (if ne_type ev = EventSessionUsage then ev_processed row else None) clk' evs = Inr (rows', clkn)"
      and p: "ev_processed row = stamp_of K consume i ls carry ev"
    have le: "l \<le> t" if "ev_processed row = Some t" "ls = Some l" for l t using p that stamp_ge by metis
    from Cons.IH [OF r(2)] r(1) show ?thesis
      by (cases "ev_processed row"; cases ls)
         (auto simp: stamps_from_def List.map_filter_simps intro: le order_trans [OF le])
  qed
qed

text \<open>A successful append without a nested callback: its rows and the log it leaves.\<close>

definition unstamped :: "event \<Rightarrow> event" where
  "unstamped e = e\<lparr>ev_processed := None\<rparr>"

lemma after_insert_log: "s_log (st_db (after_insert K st evs opts rows clk)) = s_log (st_db st) @ rows"
  by (auto simp: after_insert_def Let_def split: option.splits)

lemma AppendInTx_cases:
  assumes "AppendInTx K st evs0 opts = Inr (st', rows)"
  obtains clk' st6 where
    "\<not> empty_append evs0 opts" "o_consume opts \<Longrightarrow> evs0 \<noteq> [] \<and> ne_type (hd evs0) = EventSpanModelRequestStart"
    "\<forall>ev \<in> set evs0. persisted (ne_type ev)" "\<not> s_archived (st_db st)"
    "layout K (o_consume opts) (s_agent_name (st_db st)) (usageAfter (st_usage st) (o_add_usage opts))
       (floor_created K (s_log (st_db st))) 0 (last_seq (s_log (st_db st))) None None
       (if \<exists>ev \<in> set (withUsageSnapshots evs0). sessionStatusTypes (ne_type ev)
        then Some \<lparr>c_active = st_active st, c_since = st_since st, c_changed = False\<rparr> else None) (withUsageSnapshots evs0) = Inr (rows, clk')"
    "st6 = after_insert K st (withUsageSnapshots evs0) opts rows clk' \<or>
       (\<exists>os. st6 = (after_insert K st (withUsageSnapshots evs0) opts rows clk')\<lparr>st_outcomes := os\<rparr>)"
    "case o_then opts of None \<Rightarrow> st' = stamp_inputs K opts rows st6 | Some f \<Rightarrow> f (stamp_inputs K opts rows st6) = Inr st'"
proof -
  let ?evs = "withUsageSnapshots evs0"
  let ?clk = "if \<exists>ev \<in> set ?evs. sessionStatusTypes (ne_type ev)
        then Some \<lparr>c_active = st_active st, c_since = st_since st, c_changed = False\<rparr> else None"
  let ?lay = "layout K (o_consume opts) (s_agent_name (st_db st)) (usageAfter (st_usage st) (o_add_usage opts))
       (floor_created K (s_log (st_db st))) 0 (last_seq (s_log (st_db st))) None None ?clk ?evs"
  have g: "\<not> empty_append evs0 opts" "o_consume opts \<Longrightarrow> evs0 \<noteq> [] \<and> ne_type (hd evs0) = EventSpanModelRequestStart"
    "stream_only evs0 = None" "\<not> s_archived (st_db st)"
    using assms by (auto simp: AppendInTx_def split: if_splits option.splits)
  have p: "\<forall>ev \<in> set evs0. persisted (ne_type ev)" using g(3) by (auto simp: stream_only_def find_None_iff)
  obtain rows' clk' where l: "?lay = Inr (rows', clk')"
    using assms g by (cases ?lay) (auto simp: AppendInTx_def split: if_splits)
  let ?st5 = "after_insert K st ?evs opts rows' clk'"
  let ?mut = "case o_outcomes opts of None \<Rightarrow> Inr ?st5
     | Some f \<Rightarrow> (case f (st_outcomes ?st5) of Inl e \<Rightarrow> Inl e | Inr os \<Rightarrow> Inr (?st5\<lparr>st_outcomes := os\<rparr>))"
  obtain st6 where m: "?mut = Inr st6"
    using assms g l by (cases ?mut) (auto simp: AppendInTx_def Let_def split: if_splits)
  have e: "AppendInTx K st evs0 opts = (case o_then opts of None \<Rightarrow> Inr (stamp_inputs K opts rows' st6, rows')
      | Some f \<Rightarrow> (case f (stamp_inputs K opts rows' st6) of Inl e \<Rightarrow> Inl (CallbackFailed e) | Inr st9 \<Rightarrow> Inr (st9, rows')))"
    using g l m by (auto simp: AppendInTx_def Let_def)
  have r: "rows' = rows" "case o_then opts of None \<Rightarrow> st' = stamp_inputs K opts rows' st6 | Some f \<Rightarrow> f (stamp_inputs K opts rows' st6) = Inr st'"
    using assms unfolding e by (auto split: option.splits sum.splits)
  have s6: "st6 = ?st5 \<or> (\<exists>os. st6 = ?st5\<lparr>st_outcomes := os\<rparr>)" using m by (auto split: option.splits sum.splits)
  show ?thesis
    by (rule that [OF g(1,2) p g(4) l [unfolded r(1)] s6 [unfolded r(1)] r(2) [unfolded r(1)]])
qed

lemma mark_unstamped: "map unstamped (mark_through at n thr log) = map unstamped log"
  by (simp add: mark_through_def unstamped_def)

lemma consume_unstamped: "map unstamped (consume_inputs at n thr log) = map unstamped log"
  by (simp add: consume_inputs_def unstamped_def)

lemma append_log:
  assumes "AppendInTx K st evs0 opts = Inr (st', rows)" "o_then opts = None"
  shows "map unstamped (s_log (st_db st')) = map unstamped (s_log (st_db st) @ rows)"
  using assms(1)
proof (rule AppendInTx_cases)
  fix clk' st6
  assume s6: "st6 = after_insert K st (withUsageSnapshots evs0) opts rows clk' \<or>
       (\<exists>os. st6 = (after_insert K st (withUsageSnapshots evs0) opts rows clk')\<lparr>st_outcomes := os\<rparr>)"
    and r: "case o_then opts of None \<Rightarrow> st' = stamp_inputs K opts rows st6 | Some f \<Rightarrow> f (stamp_inputs K opts rows st6) = Inr st'"
  have "s_log (st_db st6) = s_log (st_db st) @ rows" using s6 after_insert_log by (auto simp: after_insert_log)
  with r assms(2) show ?thesis
    by (simp add: stamp_inputs_def Let_def set_log_def mark_unstamped consume_unstamped)
qed

lemma unstamped_fields [simp]:
  "ev_id (unstamped e) = ev_id e" "ev_seq (unstamped e) = ev_seq e" "ev_type (unstamped e) = ev_type e"
  "ev_payload (unstamped e) = ev_payload e" "ev_created (unstamped e) = ev_created e" "ev_thread (unstamped e) = ev_thread e"
  by (simp_all add: unstamped_def)

lemma log_wf_unstamped: "log_wf (map unstamped log) = log_wf log"
  by (simp add: log_wf_def sorted_wrt_map comp_def)

lemma last_seq_max: "log_wf log \<Longrightarrow> e \<in> set log \<Longrightarrow> ev_seq e \<le> last_seq log"
proof -
  assume w: "log_wf log" and e: "e \<in> set log"
  then obtain xs l where l: "log = xs @ [l]" by (cases log rule: rev_cases) auto
  with w e show ?thesis by (auto simp: log_wf_def last_seq_def sorted_wrt_append)
qed

lemma log_wf_append:
  assumes "log_wf log" "map ev_seq rows = [Suc (last_seq log) ..< Suc (last_seq log) + length rows]"
    and "distinct (map ev_id rows)" "ev_id ` set log \<inter> ev_id ` set rows = {}"
  shows "log_wf (log @ rows)"
proof -
  have "ev_seq r > last_seq log" if "r \<in> set rows" for r
  proof -
    have "ev_seq r \<in> set (map ev_seq rows)" using that by simp
    then show ?thesis unfolding assms(2) by auto
  qed
  moreover have "sorted_wrt (<) (map ev_seq rows)" unfolding assms(2) by (rule sorted_wrt_upt)
  ultimately have "sorted_wrt (\<lambda>a b. ev_seq a < ev_seq b) (log @ rows)"
    using assms(1) last_seq_max [OF assms(1)] unfolding log_wf_def sorted_wrt_append sorted_wrt_map by (meson le_less_trans)
  moreover have "distinct (map ev_id (log @ rows))" using assms(1,3,4) by (simp add: log_wf_def)
  ultimately show ?thesis by (simp add: log_wf_def)
qed

lemma layout_seqs:
  assumes "layout K consume agent snap created i seq ls carry clk evs = Inr (rows, clkn)"
  shows "map ev_seq rows = [Suc seq ..< Suc seq + length rows]"
  by (rule nth_equalityI) (use layout_rows [OF assms] layout_length [OF assms] in \<open>simp_all del: upt_Suc\<close>)

lemma created_sorted_last: "sorted (map ev_created log) \<Longrightarrow> e \<in> set log \<Longrightarrow> ev_created e \<le> ev_created (last log)"
  by (cases log rule: rev_cases) (auto simp: sorted_append)

lemma stamp_inputs_keep:
  assumes "e \<in> set (s_log (st_db st6))" "ev_processed e \<noteq> None"
  shows "e \<in> set (s_log (st_db (stamp_inputs K opts rows st6)))"
proof -
  have m: "e \<in> set (mark_through at n thr log)" if "e \<in> set log" for at n thr log
    unfolding mark_through_def set_map using that assms(2) by (intro image_eqI [of _ _ e]) simp_all
  have c: "e \<in> set (consume_inputs at n thr log)" if "e \<in> set log" for at n thr log
    unfolding consume_inputs_def set_map using that assms(2) by (intro image_eqI [of _ _ e]) (simp_all add: consumed_by_def)
  show ?thesis using assms(1) by (simp add: stamp_inputs_def Let_def set_log_def m c)
qed

text \<open>
  C8: the log is append-only and strictly ordered.  A successful append leaves every earlier row
  in place, changing at most a missing processed stamp, and adds exactly its own rows after them:
  consecutive sequence numbers, one creation time later than every earlier row's, processing
  stamps that never run backwards through the batch.  Ids stay unique and the order strict.
\<close>

theorem append_only_log:
  assumes "log_wf (s_log (st_db st))" and "sorted (map ev_created (s_log (st_db st)))"
    and "AppendInTx K st evs opts = Inr (st', rows)" and "o_then opts = None"
    and "distinct (map ev_id rows)" and "ev_id ` set (s_log (st_db st)) \<inter> ev_id ` set rows = {}"
  shows "map unstamped (s_log (st_db st')) = map unstamped (s_log (st_db st) @ rows)
    \<and> (\<forall>e \<in> set (s_log (st_db st)). ev_processed e \<noteq> None \<longrightarrow> e \<in> set (s_log (st_db st')))
    \<and> map ev_type rows = map ne_type (withUsageSnapshots evs)
    \<and> map ev_seq rows = [Suc (last_seq (s_log (st_db st))) ..< Suc (last_seq (s_log (st_db st))) + length rows]
    \<and> (\<forall>e \<in> set (s_log (st_db st)). \<forall>r \<in> set rows. ev_created e < ev_created r)
    \<and> sorted (List.map_filter ev_processed rows)
    \<and> log_wf (s_log (st_db st')) \<and> sorted (map ev_created (s_log (st_db st')))"
  using assms(3)
proof (rule AppendInTx_cases)
  fix clk' st6
  let ?log = "s_log (st_db st)" and ?evs = "withUsageSnapshots evs"
  let ?clk = "if \<exists>ev \<in> set ?evs. sessionStatusTypes (ne_type ev)
        then Some \<lparr>c_active = st_active st, c_since = st_since st, c_changed = False\<rparr> else None"
  assume l: "layout K (o_consume opts) (s_agent_name (st_db st)) (usageAfter (st_usage st) (o_add_usage opts))
       (floor_created K ?log) 0 (last_seq ?log) None None ?clk ?evs = Inr (rows, clk')"
    and s6: "st6 = after_insert K st ?evs opts rows clk' \<or> (\<exists>os. st6 = (after_insert K st ?evs opts rows clk')\<lparr>st_outcomes := os\<rparr>)"
    and r: "case o_then opts of None \<Rightarrow> st' = stamp_inputs K opts rows st6 | Some f \<Rightarrow> f (stamp_inputs K opts rows st6) = Inr st'"
  have log6: "s_log (st_db st6) = ?log @ rows" using s6 by (auto simp: after_insert_log)
  have u: "map unstamped (s_log (st_db st')) = map unstamped (?log @ rows)" by (rule append_log [OF assms(3,4)])
  have keep: "\<forall>e \<in> set ?log. ev_processed e \<noteq> None \<longrightarrow> e \<in> set (s_log (st_db st'))"
    using stamp_inputs_keep r assms(4) log6 by simp
  have ty: "map ev_type rows = map ne_type ?evs"
    by (rule nth_equalityI) (use layout_rows [OF l] layout_length [OF l] in simp_all)
  note sq = layout_seqs [OF l]
  have cr: "\<forall>r \<in> set rows. ev_created r = floor_created K ?log"
    using layout_rows [OF l] layout_length [OF l] by (metis in_set_conv_nth)
  have lt: "\<forall>e \<in> set ?log. \<forall>r \<in> set rows. ev_created e < ev_created r"
    using cr created_sorted_last [OF assms(2)] by (fastforce simp: floor_created_def)
  have st: "sorted (List.map_filter ev_processed rows)"
    using layout_stamps [OF l] by (simp add: stamps_from_def List.map_filter_def filter_map comp_def)
  have wf: "log_wf (s_log (st_db st'))"
    using log_wf_append [OF assms(1) sq assms(5,6)] log_wf_unstamped [of "s_log (st_db st')"] log_wf_unstamped [of "?log @ rows"] u by simp
  have "map ev_created (s_log (st_db st')) = map ev_created (?log @ rows)"
    using arg_cong [OF u, of "map ev_created"] by (simp add: comp_def)
  moreover have "sorted (map ev_created (?log @ rows))"
    using assms(2) lt cr by (force simp: sorted_append sorted_wrt_map intro: sorted_wrt01 sorted_wrt_mono_rel [of _ "\<lambda>_ _. True"])
  ultimately show ?thesis using u keep ty sq lt st wf by simp
qed

definition demo_K :: readings where
  "demo_K = \<lparr>k_now = (\<lambda>_. 50), k_consumed = 60, k_stmt = 70, k_mark = 80, k_id = (\<lambda>i. ''sevt_'' @ replicate (Suc i) (CHR ''n''))\<rparr>"

definition demo_usage :: usage where
  "demo_usage = \<lparr>u_input = 0, u_output = 0, u_cache_read = 0, u_cache_1h = 0, u_cache_5m = 0\<rparr>"

definition demo_store :: "event list \<Rightarrow> store" where
  "demo_store log = \<lparr>st_db = demo_session\<lparr>s_log := log\<rparr>, st_usage = demo_usage, st_active = 0, st_since = Some 10,
     st_delegation = 0, st_thread_usage = Map.empty, st_outcomes = [], st_thinking = []\<rparr>"

lemma demo_append:
  "\<exists>st' rows. AppendInTx demo_K (demo_store demo_log) [mk_event EventUserMessage (JObj [])] no_opts = Inr (st', rows) \<and>
     map ev_id rows = [''sevt_n'']"
  by (simp add: AppendInTx_def empty_append_def stream_only_def persisted_def mk_event_def no_opts_def demo_store_def
      demo_session_def sessionStatusTypes_def primaryStatusEvents_def stamp_of_def Let_def demo_K_def dec.simps)

theorem append_only_log_witness:
  "\<exists>st' rows. AppendInTx demo_K (demo_store demo_log) [mk_event EventUserMessage (JObj [])] no_opts = Inr (st', rows) \<and>
     log_wf (s_log (st_db st'))"
proof -
  obtain st' rows where a: "AppendInTx demo_K (demo_store demo_log) [mk_event EventUserMessage (JObj [])] no_opts = Inr (st', rows)"
    "map ev_id rows = [''sevt_n'']" using demo_append by auto
  have w: "log_wf (s_log (st_db (demo_store demo_log)))" "sorted (map ev_created (s_log (st_db (demo_store demo_log))))"
    by (simp_all add: demo_store_def demo_eval)
  have i: "distinct (map ev_id rows)" "ev_id ` set (s_log (st_db (demo_store demo_log))) \<inter> ev_id ` set rows = {}"
    using a(2) by (auto simp: demo_store_def demo_log_def demo_call_def)
  show ?thesis using append_only_log [OF w a(1) _ i] a(1) by (simp add: no_opts_def)
qed

lemma withUsage_hd: "evs \<noteq> [] \<Longrightarrow> ne_type (hd evs) \<noteq> EventSessionStatusIdle \<Longrightarrow>
    withUsageSnapshots evs \<noteq> [] \<and> hd (withUsageSnapshots evs) = hd evs"
  by (cases evs) auto

text \<open>
  C10: a model request consumes exactly its thread's waiting input.  After an append that opens a
  request, no request input of that thread below the start is left unprocessed; each was stamped
  one microsecond before the start, the start's own stamp is the one taken under the lock; rows
  of other threads, and answers to calls still open, are untouched.
\<close>

theorem consume_stamps_inputs:
  assumes "AppendInTx K st evs opts = Inr (st', rows)" and "o_consume opts" and "o_then opts = None" and "o_mark opts = 0"
  shows "rows \<noteq> [] \<and> ev_type (hd rows) = EventSpanModelRequestStart \<and> ev_processed (hd rows) = Some (k_consumed K) \<and>
    s_log (st_db st') = consume_inputs (k_consumed K - 1) (ev_seq (hd rows)) (o_thread opts) (s_log (st_db st) @ rows) \<and>
    (\<forall>e \<in> set (s_log (st_db st')). ev_thread e = o_thread opts \<and> ev_seq e < ev_seq (hd rows) \<and> ev_type e \<in> set RequestInputTypes \<longrightarrow>
       ev_processed e \<noteq> None) \<and>
    (\<forall>e \<in> set (s_log (st_db st)). (ev_thread e \<noteq> o_thread opts \<or> (ev_type e \<in> set answerTypes \<and>
       (\<exists>i. ref_of (ev_payload e) = Some i \<and> \<not> processedAnswerBy (s_log (st_db st) @ rows) i))) \<longrightarrow> e \<in> set (s_log (st_db st')))"
  using assms(1)
proof (rule AppendInTx_cases)
  fix clk' st6
  let ?log = "s_log (st_db st)" and ?evs = "withUsageSnapshots evs"
  let ?clk = "if \<exists>ev \<in> set ?evs. sessionStatusTypes (ne_type ev)
        then Some \<lparr>c_active = st_active st, c_since = st_since st, c_changed = False\<rparr> else None"
  assume h: "o_consume opts \<Longrightarrow> evs \<noteq> [] \<and> ne_type (hd evs) = EventSpanModelRequestStart"
    and l: "layout K (o_consume opts) (s_agent_name (st_db st)) (usageAfter (st_usage st) (o_add_usage opts))
       (floor_created K ?log) 0 (last_seq ?log) None None ?clk ?evs = Inr (rows, clk')"
    and s6: "st6 = after_insert K st ?evs opts rows clk' \<or> (\<exists>os. st6 = (after_insert K st ?evs opts rows clk')\<lparr>st_outcomes := os\<rparr>)"
    and r: "case o_then opts of None \<Rightarrow> st' = stamp_inputs K opts rows st6 | Some f \<Rightarrow> f (stamp_inputs K opts rows st6) = Inr st'"
  from h assms(2) have e0: "?evs \<noteq> []" "ne_type (hd ?evs) = EventSpanModelRequestStart" using withUsage_hd [of evs] by auto
  then obtain ev es where ee: "?evs = ev # es" by (cases ?evs) auto
  have first: "rows \<noteq> []" "ev_type (hd rows) = EventSpanModelRequestStart" "ev_processed (hd rows) = Some (k_consumed K)"
  proof -
    from l [unfolded ee] obtain row rows' where "rows = row # rows'" "ev_type row = ne_type ev"
        "ev_processed row = stamp_of K (o_consume opts) 0 None None ev" by (rule layout_Cons) auto
    then show "rows \<noteq> []" "ev_type (hd rows) = EventSpanModelRequestStart" "ev_processed (hd rows) = Some (k_consumed K)"
      using assms(2) e0(2) ee by (simp_all add: stamp_of_def)
  qed
  have log6: "s_log (st_db st6) = ?log @ rows" using s6 by (auto simp: after_insert_log)
  have lg: "s_log (st_db st') = consume_inputs (k_consumed K - 1) (ev_seq (hd rows)) (o_thread opts) (?log @ rows)"
    using r assms(2-4) log6 by (simp add: stamp_inputs_def Let_def set_log_def)
  have stamped: "\<forall>e \<in> set (s_log (st_db st')). ev_thread e = o_thread opts \<and> ev_seq e < ev_seq (hd rows) \<and> ev_type e \<in> set RequestInputTypes \<longrightarrow>
       ev_processed e \<noteq> None"
    unfolding lg consume_inputs_def by (auto simp: consumed_by_def)
  have kept: "e \<in> set (s_log (st_db st'))" if "e \<in> set ?log" "\<not> consumed_by (?log @ rows) (ev_seq (hd rows)) (o_thread opts) e" for e
    unfolding lg consume_inputs_def set_map using that by (intro image_eqI [of _ _ e]) simp_all
  have open_answer: "\<not> consumed_by (?log @ rows) (ev_seq (hd rows)) (o_thread opts) e"
    if "ev_type e \<in> set answerTypes" "ref_of (ev_payload e) = Some i" "\<not> processedAnswerBy (?log @ rows) i" for e i
    using that by (auto simp: consumed_by_def processedAnswerBy_def toolAnswer_def answerTypes_def RequestInputTypes_def consumed_inputs_def)
  have other: "\<not> consumed_by (?log @ rows) (ev_seq (hd rows)) (o_thread opts) e" if "ev_thread e \<noteq> o_thread opts" for e
    using that by (simp add: consumed_by_def)
  show ?thesis using first lg stamped kept open_answer other by blast
qed

theorem consume_stamps_inputs_witness:
  "\<exists>st' rows. AppendInTx demo_K (demo_store demo_log) [mk_event EventSpanModelRequestStart (JObj [])] (no_opts\<lparr>o_consume := True\<rparr>) = Inr (st', rows)
     \<and> ev_processed (hd rows) = Some 60"
proof -
  obtain st' rows where a: "AppendInTx demo_K (demo_store demo_log) [mk_event EventSpanModelRequestStart (JObj [])]
      (no_opts\<lparr>o_consume := True\<rparr>) = Inr (st', rows)"
    by (simp add: AppendInTx_def empty_append_def stream_only_def persisted_def mk_event_def no_opts_def demo_store_def
        demo_session_def sessionStatusTypes_def primaryStatusEvents_def stamp_of_def Let_def)
  show ?thesis using consume_stamps_inputs [OF a] a by (simp add: no_opts_def demo_K_def)
qed

section \<open>Interrupts\<close>

lemma InterruptResults_total:
  "(\<forall>u \<in> set us. tr_type u \<in> set toolUseTypes) \<Longrightarrow> \<exists>evs. InterruptResults now us = Inr evs"
  by (induction us) (auto simp: toolUseTypes_def)

lemma ref_of_answer:
  "toolUseAnswer ty = Some (res, key, thr) \<Longrightarrow> ref_of (answer_payload key i txt b) = Some i"
  by (cases ty) (auto simp: ref_of_def answer_payload_def sql_text_def json_get_def)

lemma InterruptResults_shape:
  assumes "InterruptResults now us = Inr evs"
  shows "length evs = length us \<and> (\<forall>j < length us. ne_type (evs ! j) \<in> set toolResultTypes \<and>
    ref_of (ne_payload (evs ! j)) = Some (tr_id (us ! j)) \<and> ne_processed (evs ! j) = Some now \<and>
    ne_thread (evs ! j) = tr_thread (us ! j) \<and> ne_cross (evs ! j) = tr_cross (us ! j))"
  using assms
proof (induction us arbitrary: evs)
  case (Cons u us)
  obtain res key thr where a: "toolUseAnswer (tr_type u) = Some (res, key, thr)"
    using Cons.prems by (auto split: option.splits)
  then obtain out where o: "InterruptResults now us = Inr out"
      "evs = (mk_event res (answer_payload key (tr_id u) InterruptResultText thr))
         \<lparr>ne_processed := Some now, ne_thread := tr_thread u, ne_cross := tr_cross u\<rparr> # out"
    using Cons.prems by (auto split: sum.splits)
  have "res \<in> set toolResultTypes" using a by (cases "tr_type u") (auto simp: toolResultTypes_def)
  moreover have "ref_of (answer_payload key (tr_id u) InterruptResultText thr) = Some (tr_id u)" by (rule ref_of_answer [OF a])
  ultimately show ?case using Cons.IH [OF o(1)] o(2) by (auto simp: nth_Cons mk_event_def split: nat.splits)
qed simp

lemma withUsage_none: "(\<forall>ev \<in> set evs. ne_type ev \<noteq> EventSessionStatusIdle) \<Longrightarrow> withUsageSnapshots evs = evs"
  by (induction evs) auto

lemma answeredBy_unstamped: "answeredBy (map unstamped log) i = answeredBy log i"
  by (auto simp: answeredBy_def toolAnswer_def)

lemma answeredBy_append: "answeredBy (a @ b) i \<longleftrightarrow> answeredBy a i \<or> answeredBy b i"
  by (auto simp: answeredBy_def toolAnswer_def)

text \<open>Rows an append leaves of events that came stamped: their fields, in the log it leaves.\<close>

lemma stamped_rows_land:
  assumes "AppendInTx K st evs opts = Inr (st', rows)" "o_then opts = None"
    and "\<forall>ev \<in> set evs. ne_type ev \<in> set toolResultTypes \<and> ne_processed ev \<noteq> None"
  shows "length rows = length evs \<and> (\<forall>j < length evs. ev_type (rows ! j) = ne_type (evs ! j) \<and>
    ev_payload (rows ! j) = ne_payload (evs ! j) \<and> ev_thread (rows ! j) = ne_thread (evs ! j) \<and>
    ev_cross (rows ! j) = ne_cross (evs ! j) \<and> ev_processed (rows ! j) \<noteq> None \<and> rows ! j \<in> set (s_log (st_db st')))"
  using assms(1)
proof (rule AppendInTx_cases)
  fix clk' st6
  let ?log = "s_log (st_db st)" and ?evs = "withUsageSnapshots evs"
  let ?clk = "if \<exists>ev \<in> set ?evs. sessionStatusTypes (ne_type ev)
        then Some \<lparr>c_active = st_active st, c_since = st_since st, c_changed = False\<rparr> else None"
  assume l0: "layout K (o_consume opts) (s_agent_name (st_db st)) (usageAfter (st_usage st) (o_add_usage opts))
       (floor_created K ?log) 0 (last_seq ?log) None None ?clk ?evs = Inr (rows, clk')"
    and s6: "st6 = after_insert K st ?evs opts rows clk' \<or> (\<exists>os. st6 = (after_insert K st ?evs opts rows clk')\<lparr>st_outcomes := os\<rparr>)"
    and r: "case o_then opts of None \<Rightarrow> st' = stamp_inputs K opts rows st6 | Some f \<Rightarrow> f (stamp_inputs K opts rows st6) = Inr st'"
  have e: "?evs = evs" using assms(3) by (intro withUsage_none) (auto simp: toolResultTypes_def)
  note l = l0 [unfolded e] and len = layout_length [OF l0 [unfolded e]]
  have np: "ne_type ev \<noteq> EventSessionUsage \<and> \<not> primaryStatusEvents (ne_type ev)" if "ev \<in> set evs" for ev
    using assms(3) that by (auto simp: toolResultTypes_def primaryStatusEvents_def)
  have log6: "s_log (st_db st6) = ?log @ rows" using s6 by (auto simp: after_insert_log)
  have proc: "ev_processed (rows ! j) \<noteq> None" if "j < length evs" for j
    using layout_stamped [OF l that] assms(3) that by simp
  have "rows ! j \<in> set (s_log (st_db st'))" if "j < length evs" for j
    using stamp_inputs_keep [of "rows ! j" st6 K opts rows] proc [OF that] r assms(2) log6 that len by simp
  with layout_rows [OF l] np proc len show ?thesis by simp
qed

text \<open>
  C9: an interrupt leaves nothing outstanding.  Appending the results synthesized for the calls
  that were unanswered answers every tool call of the session, each outstanding call by exactly
  one result, already processed, on the call's own thread and surface; no call that was answered
  before gets a second answer.
\<close>

theorem interrupt_answers_all:
  assumes "InterruptResults now (UnansweredToolUses (s_log (st_db st)) []) = Inr evs"
    and "AppendInTx K st evs opts = Inr (st', rows)" and "o_then opts = None"
  shows "\<not> HasUnansweredToolUse (s_log (st_db st')) [] \<and>
    map (\<lambda>r. ref_of (ev_payload r)) rows = map (\<lambda>u. Some (tr_id u)) (UnansweredToolUses (s_log (st_db st)) []) \<and>
    map ev_thread rows = map tr_thread (UnansweredToolUses (s_log (st_db st)) []) \<and>
    map ev_cross rows = map tr_cross (UnansweredToolUses (s_log (st_db st)) []) \<and>
    (\<forall>tu \<in> set (s_log (st_db st)). unansweredToolUse (s_log (st_db st)) toolUseTypes [] tu \<longrightarrow> processedAnswerBy (s_log (st_db st')) (ev_id tu))"
proof -
  let ?log = "s_log (st_db st)" and ?us = "UnansweredToolUses (s_log (st_db st)) []"
  note sh = InterruptResults_shape [OF assms(1)]
  have ty: "\<forall>ev \<in> set evs. ne_type ev \<in> set toolResultTypes \<and> ne_processed ev \<noteq> None"
    using sh by (auto simp: in_set_conv_nth)
  note ld = stamped_rows_land [OF assms(2,3) ty]
  have len: "length rows = length ?us" using ld sh by simp
  have refs: "map (\<lambda>r. ref_of (ev_payload r)) rows = map (\<lambda>u. Some (tr_id u)) ?us"
      "map ev_thread rows = map tr_thread ?us" "map ev_cross rows = map tr_cross ?us"
    by (rule nth_equalityI; use ld sh len in simp)+
  have pa: "processedAnswerBy (s_log (st_db st')) (ev_id tu)"
    if tu: "tu \<in> set ?log" "unansweredToolUse ?log toolUseTypes [] tu" for tu
  proof -
    have "to_ref tu \<in> set ?us" using tu by (auto simp: UnansweredToolUses_def)
    then obtain j where j: "j < length ?us" "?us ! j = to_ref tu" by (auto simp: in_set_conv_nth)
    with ld sh len ty show ?thesis unfolding processedAnswerBy_def toolAnswer_def
      by (intro bexI [of _ "rows ! j"]) (auto simp: to_ref_def)
  qed
  have u: "map unstamped (s_log (st_db st')) = map unstamped (?log @ rows)" by (rule append_log [OF assms(2,3)])
  have ans: "answeredBy (s_log (st_db st')) i \<longleftrightarrow> answeredBy (?log @ rows) i" for i
    using answeredBy_unstamped [of "s_log (st_db st')"] answeredBy_unstamped [of "?log @ rows"] u by simp
  have "\<not> unansweredToolUse (s_log (st_db st')) toolUseTypes [] tu" if tu: "tu \<in> set (s_log (st_db st'))" for tu
  proof
    assume un: "unansweredToolUse (s_log (st_db st')) toolUseTypes [] tu"
    have "unstamped tu \<in> set (map unstamped (?log @ rows))" using tu u by (metis image_eqI list.set_map)
    then obtain x where x: "x \<in> set (?log @ rows)" "unstamped x = unstamped tu" unfolding set_map by (elim imageE) metis
    have xf: "ev_type x = ev_type tu" "ev_id x = ev_id tu"
      using arg_cong [OF x(2), of ev_type] arg_cong [OF x(2), of ev_id] by simp_all
    show False
    proof (cases "x \<in> set rows")
      case True
      then obtain j where "j < length rows" "x = rows ! j" by (metis in_set_conv_nth)
      then have "ev_type x \<in> set toolResultTypes" using ld ty by simp
      with un xf show False by (auto simp: unansweredToolUse_def toolUseScope_def toolUseTypes_def toolResultTypes_def)
    next
      case False
      with x(1) have xl: "x \<in> set ?log" by simp
      have "unansweredToolUse ?log toolUseTypes [] x"
        using un xf ans by (auto simp: unansweredToolUse_def toolUseScope_def answeredBy_append)
      from pa [OF xl this] un xf show False
        by (auto simp: unansweredToolUse_def processedAnswerBy_def answeredBy_def toolAnswer_def)
    qed
  qed
  with refs pa show ?thesis by (auto simp: HasUnansweredToolUse_def exists_row_def)
qed

theorem interrupt_answers_all_witness:
  "\<exists>evs st' rows. InterruptResults 40 (UnansweredToolUses demo_log []) = Inr evs \<and>
     AppendInTx demo_K (demo_store demo_log) evs no_opts = Inr (st', rows) \<and> \<not> HasUnansweredToolUse (s_log (st_db st')) []"
proof -
  have us: "UnansweredToolUses demo_log [] = map to_ref demo_log"
    by (simp add: UnansweredToolUses_def demo_eval)
  obtain evs where e: "InterruptResults 40 (UnansweredToolUses (s_log (st_db (demo_store demo_log))) []) = Inr evs"
    using InterruptResults_total [of "map to_ref demo_log" 40] us
    by (auto simp: demo_store_def to_ref_def demo_log_def demo_call_def toolUseTypes_def)
  note sh = InterruptResults_shape [OF e]
  obtain st' rows where a: "AppendInTx demo_K (demo_store demo_log) evs no_opts = Inr (st', rows)"
    using e us by (auto simp: demo_store_def demo_log_def to_ref_def demo_call_def AppendInTx_def empty_append_def stream_only_def
        persisted_def mk_event_def no_opts_def demo_session_def sessionStatusTypes_def primaryStatusEvents_def Let_def split: sum.splits)
  show ?thesis using interrupt_answers_all [OF e a] e a by (auto simp: no_opts_def demo_store_def)
qed

section \<open>Running time\<close>

lemma layout_append:
  assumes "layout K consume agent snap created i seq ls carry clk (xs @ ys) = Inr (rows, clkn)"
  shows "\<exists>r1 r2 i' seq' ls' carry' clk'. rows = r1 @ r2 \<and> layout K consume agent snap created i seq ls carry clk xs = Inr (r1, clk') \<and>
    layout K consume agent snap created i' seq' ls' carry' clk' ys = Inr (r2, clkn) \<and> (i' = 0 \<longrightarrow> xs = [] \<and> i = 0)"
  using assms
proof (induction xs arbitrary: i seq ls carry clk rows)
  case Nil
  then show ?case by auto
next
  case (Cons ev xs)
  obtain p0 where p0: "(if ne_thread ev = [] \<and> primaryStatusEvents (ne_type ev) then withAgentName (ne_payload ev) agent
        else Some (ne_payload ev)) = Some p0"
    using Cons.prems by (cases "if ne_thread ev = [] \<and> primaryStatusEvents (ne_type ev) then withAgentName (ne_payload ev) agent
        else Some (ne_payload ev)") simp_all
  from Cons.prems obtain row rows' ls' carry' clk' where r: "rows = row # rows'"
      "layout K consume agent snap created (Suc i) (Suc seq) ls' carry' clk' (xs @ ys) = Inr (rows', clkn)"
      "\<And>zs. layout K consume agent snap created i seq ls carry clk (ev # zs) =
         (case layout K consume agent snap created (Suc i) (Suc seq) ls' carry' clk' zs of Inl e \<Rightarrow> Inl e | Inr (rs, c) \<Rightarrow> Inr (row # rs, c))"
    using p0 by (auto simp: Let_def split: sum.splits prod.splits)
  from Cons.IH [OF r(2)] obtain r1 r2 i' seq' ls2 carry2 clk2 where *: "rows' = r1 @ r2"
      "layout K consume agent snap created (Suc i) (Suc seq) ls' carry' clk' xs = Inr (r1, clk2)"
      "layout K consume agent snap created i' seq' ls2 carry2 clk2 ys = Inr (r2, clkn)" "i' = 0 \<longrightarrow> xs = [] \<and> Suc i = 0" by blast
  have "layout K consume agent snap created i seq ls carry clk (ev # xs) = Inr (row # r1, clk2)"
    unfolding r(3) *(2) by simp
  with * r(1) show ?case
    by (intro exI [of _ "row # r1"] exI [of _ r2] exI [of _ i'] exI [of _ seq'] exI [of _ ls2] exI [of _ carry2] exI [of _ clk2]) simp
qed

lemma layout_appendE:
  assumes "layout K consume agent snap created i seq ls carry clk (xs @ ys) = Inr (rows, clkn)"
  obtains r1 r2 i' seq' ls' carry' clk' where "rows = r1 @ r2" "layout K consume agent snap created i seq ls carry clk xs = Inr (r1, clk')"
    "layout K consume agent snap created i' seq' ls' carry' clk' ys = Inr (r2, clkn)" "i' = 0 \<longrightarrow> xs = [] \<and> i = 0"
  using layout_append [OF assms] by (elim exE conjE) (rule that)

text \<open>An unchanged clock is the stored one.\<close>

definition keeps_clock :: "session_clock \<Rightarrow> session_clock \<Rightarrow> bool" where
  "keeps_clock c0 c \<longleftrightarrow> c_changed c \<or> (c_active c = c_active c0 \<and> c_since c = c_since c0)"

lemma step_keeps: "keeps_clock c0 c \<Longrightarrow> keeps_clock c0 (clock_step c ty at rs)"
  by (auto simp: keeps_clock_def clock_step_def)

lemma layout_clock:
  "layout K consume agent snap created i seq ls carry (Some c) evs = Inr (rows, clkn) \<Longrightarrow> keeps_clock c0 c \<Longrightarrow>
   \<exists>c'. clkn = Some c' \<and> keeps_clock c0 c'"
proof (induction evs arbitrary: i seq ls carry c rows)
  case (Cons ev evs)
  from Cons.prems(1) show ?case
  proof (rule layout_Cons)
    fix row rows' clk'
    assume l: "layout K consume agent snap created (Suc i) (Suc seq) (case ev_processed row of None \<Rightarrow> ls | Some t \<Rightarrow> Some t)
        (if ne_type ev = EventSessionUsage then ev_processed row else None) clk' evs = Inr (rows', clkn)"
      and c: "clk' = (case (Some c, ev_processed row) of (Some c, Some at) \<Rightarrow> Some (clock_step c (ne_type ev) at (ne_restated ev)) | _ \<Rightarrow> Some c)"
    obtain c1 where c1: "clk' = Some c1" "keeps_clock c0 c1"
      using c Cons.prems(2) step_keeps by (cases "ev_processed row") auto
    from Cons.IH [OF l [unfolded c1(1)] c1(2)] show ?thesis .
  qed
qed auto

text \<open>Whether the session runs after the session-status events of a batch.\<close>

fun runs :: "bool \<Rightarrow> event_type list \<Rightarrow> bool" where
  "runs b [] = b"
| "runs b (t # ts) = runs (if t = EventSessionStatusRunning then True else if sessionStatusTypes t then False else b) ts"

lemma status_not_consumed: "sessionStatusTypes t \<Longrightarrow> \<not> stamped_on_consumption t"
  by (auto simp: sessionStatusTypes_def stamped_on_consumption_def inbound_iff consumed_inputs_def)

lemma step_runs: "(c_since (clock_step c t at rs) \<noteq> None) = runs (c_since c \<noteq> None) [t]"
  by (auto simp: clock_step_def sessionStatusTypes_def)

lemma layout_runs:
  "layout K consume agent snap created i seq ls carry (Some c) evs = Inr (rows, Some c') \<Longrightarrow>
   (c_since c' \<noteq> None) = runs (c_since c \<noteq> None) (map ne_type evs)"
proof (induction evs arbitrary: i seq ls carry c rows)
  case (Cons ev evs)
  from Cons.prems(1) show ?case
  proof (rule layout_Cons)
    fix row rows' clk'
    assume l: "layout K consume agent snap created (Suc i) (Suc seq) (case ev_processed row of None \<Rightarrow> ls | Some t \<Rightarrow> Some t)
        (if ne_type ev = EventSessionUsage then ev_processed row else None) clk' evs = Inr (rows', Some c')"
      and p: "ev_processed row = stamp_of K consume i ls carry ev"
      and c: "clk' = (case (Some c, ev_processed row) of (Some c, Some at) \<Rightarrow> Some (clock_step c (ne_type ev) at (ne_restated ev)) | _ \<Rightarrow> Some c)"
    show ?thesis
    proof (cases "ev_processed row")
      case None
      then have "\<not> sessionStatusTypes (ne_type ev)" using p status_not_consumed
        by (auto simp: stamp_of_def Let_def split: option.splits if_splits)
      then have "runs (c_since c \<noteq> None) [ne_type ev] = (c_since c \<noteq> None)" by (auto simp: sessionStatusTypes_def)
      with Cons.IH [of "Suc i" "Suc seq" ls _ c] l c None show ?thesis by simp
    next
      case (Some at)
      have "clk' = Some (clock_step c (ne_type ev) at (ne_restated ev))" using c Some by simp
      from Cons.IH [OF l [unfolded this]] show ?thesis unfolding step_runs by simp
    qed
  qed
qed simp

lemma runs_none: "(\<forall>t \<in> set ts. \<not> sessionStatusTypes t) \<Longrightarrow> runs b ts = b"
  by (induction ts arbitrary: b) (auto simp: sessionStatusTypes_def)

lemma runs_append: "runs b (xs @ ys) = runs (runs b xs) ys"
  by (induction xs arbitrary: b) auto

lemma runs_usage: "runs b (map ne_type (withUsageSnapshots evs)) = runs b (map ne_type evs)"
  by (induction evs arbitrary: b) (auto simp: sessionStatusTypes_def mk_event_def)

text \<open>The session row's clock after an append: open exactly when the batch leaves it running.\<close>

lemma after_insert_since:
  "st_since (after_insert K st evs opts rows clk) = (case clk of Some c \<Rightarrow> if c_changed c then c_since c else st_since st | None \<Rightarrow> st_since st)"
  "st_active (after_insert K st evs opts rows clk) = (case clk of Some c \<Rightarrow> if c_changed c then c_active c else st_active st | None \<Rightarrow> st_active st)"
  "st_usage (after_insert K st evs opts rows clk) = usageAfter (st_usage st) (o_add_usage opts)"
  "s_status (st_db (after_insert K st evs opts rows clk)) = (case o_set_status opts of None \<Rightarrow> s_status (st_db st) | Some s \<Rightarrow> s)"
  by (auto simp: after_insert_def Let_def usageAfter_def split: option.splits)

lemma stamp_inputs_row [simp]:
  "st_since (stamp_inputs K opts rows st) = st_since st" "st_active (stamp_inputs K opts rows st) = st_active st"
  "st_usage (stamp_inputs K opts rows st) = st_usage st" "s_status (st_db (stamp_inputs K opts rows st)) = s_status (st_db st)"
  by (simp_all add: stamp_inputs_def Let_def set_log_def)

lemma layout_no_clock:
  "layout K consume agent snap created i seq ls carry None evs = Inr (rows, clkn) \<Longrightarrow> clkn = None"
proof (induction evs arbitrary: i seq ls carry rows)
  case (Cons ev evs)
  from Cons.prems show ?case by (rule layout_Cons) (use Cons.IH in auto)
qed simp

lemma stamp_some: "\<not> stamped_on_consumption (ne_type ev) \<Longrightarrow> stamp_of K consume i ls carry ev \<noteq> None"
  by (auto simp: stamp_of_def Let_def split: option.splits)

text \<open>The last two rows of a batch that ends in an idle.\<close>

lemma two_rows:
  assumes "layout K consume agent snap created i seq ls carry (Some c)
      [(mk_event EventSessionUsage (JObj []))\<lparr>ne_processed := ne_processed idle, ne_restated := ne_restated idle\<rparr>, idle] = Inr (rows, clkn)"
    and "ne_type idle = EventSessionStatusIdle" "\<not> (consume \<and> i = 0)"
  shows "\<exists>u r c'. rows = [u, r] \<and> clkn = Some c' \<and> ev_type u = EventSessionUsage \<and> ev_type r = EventSessionStatusIdle \<and>
    ev_processed u = ev_processed r \<and> ev_processed r \<noteq> None \<and> ev_payload u = usageSnapshot snap (c_active c') \<and> c_since c' = None"
proof -
  let ?u = "(mk_event EventSessionUsage (JObj []))\<lparr>ne_processed := ne_processed idle, ne_restated := ne_restated idle\<rparr>"
  have un: "\<not> stamped_on_consumption EventSessionUsage"
    by (simp add: stamped_on_consumption_def inbound_iff consumed_inputs_def)
  obtain t where t: "stamp_of K consume i ls carry ?u = Some t"
    using stamp_some [of ?u K consume i ls carry] un by (auto simp: mk_event_def)
  have t2: "stamp_of K consume (Suc i) (Some t) (Some t) idle = Some t"
    using t assms(2,3) by (auto simp: stamp_of_def Let_def mk_event_def split: option.splits if_splits)
  from assms(1) show ?thesis
  proof (rule layout_Cons)
    fix u rows1 clk1
    assume r1: "rows = u # rows1" "ev_processed u = stamp_of K consume i ls carry ?u" "ev_type u = ne_type ?u"
      "layout K consume agent snap created (Suc i) (Suc seq) (case ev_processed u of None \<Rightarrow> ls | Some t \<Rightarrow> Some t)
        (if ne_type ?u = EventSessionUsage then ev_processed u else None) clk1 [idle] = Inr (rows1, clkn)"
      "clk1 = (case (Some c, ev_processed u) of (Some c, Some at) \<Rightarrow> Some (clock_step c (ne_type ?u) at (ne_restated ?u)) | _ \<Rightarrow> Some c)"
      "ne_type ?u = EventSessionUsage \<Longrightarrow> (case (Some c, ev_processed u) of
        (Some c, Some at) \<Rightarrow> ev_payload u = usageSnapshot snap (if ne_restated ?u then c_active c else ActiveSecondsAt (c_active c) (c_since c) at)
      | _ \<Rightarrow> True)"
    have ty: "ne_type ?u = EventSessionUsage" "ne_restated ?u = ne_restated idle" by (simp_all add: mk_event_def)
    have c1: "clk1 = Some c" using r1(2,5) t ty by (simp add: clock_step_def)
    have l2: "layout K consume agent snap created (Suc i) (Suc seq) (Some t) (Some t) (Some c) [idle] = Inr (rows1, clkn)"
      using r1(2,4) t ty c1 by simp
    from l2 show ?thesis
    proof (rule layout_Cons)
      fix r rows2 clk2
      assume r2: "rows1 = r # rows2" "ev_processed r = stamp_of K consume (Suc i) (Some t) (Some t) idle" "ev_type r = ne_type idle"
        "layout K consume agent snap created (Suc (Suc i)) (Suc (Suc seq)) (case ev_processed r of None \<Rightarrow> Some t | Some t \<Rightarrow> Some t)
          (if ne_type idle = EventSessionUsage then ev_processed r else None) clk2 [] = Inr (rows2, clkn)"
        "clk2 = (case (Some c, ev_processed r) of (Some c, Some at) \<Rightarrow> Some (clock_step c (ne_type idle) at (ne_restated idle)) | _ \<Rightarrow> Some c)"
      have pr: "ev_processed r = Some t" "ev_processed u = Some t" using r2(2) t2 r1(2) t by simp_all
      let ?c = "clock_step c EventSessionStatusIdle t (ne_restated idle)"
      have cl: "clkn = Some ?c" "rows2 = []" using r2(4,5) pr assms(2) by simp_all
      have act: "c_active ?c = (if ne_restated idle then c_active c else ActiveSecondsAt (c_active c) (c_since c) t)" "c_since ?c = None"
        by (auto simp: clock_step_def ActiveSecondsAt_def)
      have "ev_payload u = usageSnapshot snap (c_active ?c)" using r1(6) [OF ty(1)] pr(2) ty(2) act(1) by simp
      then show ?thesis using r1(1,3) r2(1,3) cl pr act(2) ty(1) assms(2) by simp
    qed
  qed
qed

lemma append_row:
  assumes "AppendInTx K st evs opts = Inr (st', rows)" "o_then opts = None"
  obtains clk' where "layout K (o_consume opts) (s_agent_name (st_db st)) (usageAfter (st_usage st) (o_add_usage opts))
       (floor_created K (s_log (st_db st))) 0 (last_seq (s_log (st_db st))) None None
       (if \<exists>ev \<in> set (withUsageSnapshots evs). sessionStatusTypes (ne_type ev)
        then Some \<lparr>c_active = st_active st, c_since = st_since st, c_changed = False\<rparr> else None) (withUsageSnapshots evs) = Inr (rows, clk')"
    "st_since st' = (case clk' of Some c \<Rightarrow> c_since c | None \<Rightarrow> st_since st)"
    "st_active st' = (case clk' of Some c \<Rightarrow> c_active c | None \<Rightarrow> st_active st)"
    "st_usage st' = usageAfter (st_usage st) (o_add_usage opts)"
    "s_status (st_db st') = (case o_set_status opts of None \<Rightarrow> s_status (st_db st) | Some s \<Rightarrow> s)"
  using assms(1)
proof (rule AppendInTx_cases)
  fix clk' st6
  let ?evs = "withUsageSnapshots evs"
  let ?c0 = "\<lparr>c_active = st_active st, c_since = st_since st, c_changed = False\<rparr>"
  let ?clk = "if \<exists>ev \<in> set ?evs. sessionStatusTypes (ne_type ev) then Some ?c0 else None"
  assume l: "layout K (o_consume opts) (s_agent_name (st_db st)) (usageAfter (st_usage st) (o_add_usage opts))
       (floor_created K (s_log (st_db st))) 0 (last_seq (s_log (st_db st))) None None ?clk ?evs = Inr (rows, clk')"
    and s6: "st6 = after_insert K st ?evs opts rows clk' \<or> (\<exists>os. st6 = (after_insert K st ?evs opts rows clk')\<lparr>st_outcomes := os\<rparr>)"
    and r: "case o_then opts of None \<Rightarrow> st' = stamp_inputs K opts rows st6 | Some f \<Rightarrow> f (stamp_inputs K opts rows st6) = Inr st'"
  have k: "keeps_clock ?c0 c" if "clk' = Some c" for c
  proof (cases "\<exists>ev \<in> set ?evs. sessionStatusTypes (ne_type ev)")
    case True
    then show ?thesis using layout_clock [OF l [unfolded if_P [OF True]], of ?c0] that by (auto simp: keeps_clock_def)
  next
    case False
    then show ?thesis using layout_no_clock [OF l [unfolded if_not_P [OF False]]] that by simp
  qed
  have s: "st_since st' = st_since st6" "st_active st' = st_active st6" "st_usage st' = st_usage st6" "s_status (st_db st') = s_status (st_db st6)"
    using r assms(2) by simp_all
  have s6': "st_since st6 = st_since (after_insert K st ?evs opts rows clk')" "st_active st6 = st_active (after_insert K st ?evs opts rows clk')"
    "st_usage st6 = st_usage (after_insert K st ?evs opts rows clk')" "s_status (st_db st6) = s_status (st_db (after_insert K st ?evs opts rows clk'))"
    using s6 by auto
  show ?thesis
    by (rule that [OF l]) (use k in \<open>auto simp: s s6' after_insert_since keeps_clock_def split: option.splits\<close>)
qed

text \<open>
  C11: a usage snapshot agrees with the session row.  An append that ends in a session idle writes
  a session.usage right before it under the same stamp; its body reports exactly the token totals
  and the running time the transaction leaves on the session row, where the interval is closed.
\<close>

theorem usage_matches_row:
  assumes "AppendInTx K st (xs @ [idle]) opts = Inr (st', rows)" and "ne_type idle = EventSessionStatusIdle" and "o_then opts = None"
  shows "\<exists>rows0 u i. rows = rows0 @ [u, i] \<and> ev_type u = EventSessionUsage \<and> ev_type i = EventSessionStatusIdle \<and>
    ev_processed u = ev_processed i \<and> ev_processed i \<noteq> None \<and>
    ev_payload u = usageSnapshot (st_usage st') (st_active st') \<and> st_since st' = None"
  using assms(1,3)
proof (rule append_row)
  fix clk'
  let ?u = "(mk_event EventSessionUsage (JObj []))\<lparr>ne_processed := ne_processed idle, ne_restated := ne_restated idle\<rparr>"
  let ?c0 = "\<lparr>c_active = st_active st, c_since = st_since st, c_changed = False\<rparr>"
  have e: "withUsageSnapshots (xs @ [idle]) = withUsageSnapshots xs @ [?u, idle]"
    by (induction xs) (auto simp: assms(2))
  assume l: "layout K (o_consume opts) (s_agent_name (st_db st)) (usageAfter (st_usage st) (o_add_usage opts))
       (floor_created K (s_log (st_db st))) 0 (last_seq (s_log (st_db st))) None None
       (if \<exists>ev \<in> set (withUsageSnapshots (xs @ [idle])). sessionStatusTypes (ne_type ev) then Some ?c0 else None) (withUsageSnapshots (xs @ [idle])) = Inr (rows, clk')"
    and s: "st_since st' = (case clk' of Some c \<Rightarrow> c_since c | None \<Rightarrow> st_since st)"
    "st_active st' = (case clk' of Some c \<Rightarrow> c_active c | None \<Rightarrow> st_active st)" "st_usage st' = usageAfter (st_usage st) (o_add_usage opts)"
  have ex: "\<exists>ev \<in> set (withUsageSnapshots (xs @ [idle])). sessionStatusTypes (ne_type ev)"
    using assms(2) by (simp add: e sessionStatusTypes_def)
  from l [unfolded if_P [OF ex], unfolded e] show ?thesis
  proof (rule layout_appendE)
    fix r1 r2 i' seq' ls' carry' clk1
    assume *: "rows = r1 @ r2"
        "layout K (o_consume opts) (s_agent_name (st_db st)) (usageAfter (st_usage st) (o_add_usage opts))
         (floor_created K (s_log (st_db st))) 0 (last_seq (s_log (st_db st))) None None (Some ?c0) (withUsageSnapshots xs) = Inr (r1, clk1)"
        "layout K (o_consume opts) (s_agent_name (st_db st)) (usageAfter (st_usage st) (o_add_usage opts))
         (floor_created K (s_log (st_db st))) i' seq' ls' carry' clk1 [?u, idle] = Inr (r2, clk')"
        "i' = 0 \<longrightarrow> withUsageSnapshots xs = [] \<and> (0::nat) = 0"
    obtain c1 where c1: "clk1 = Some c1" using layout_clock [OF *(2), of ?c0] by (auto simp: keeps_clock_def)
    have nc: "\<not> (o_consume opts \<and> i' = 0)"
    proof
      assume a: "o_consume opts \<and> i' = 0"
      from assms(1) have "ne_type (hd (xs @ [idle])) = EventSpanModelRequestStart" by (rule AppendInTx_cases) (use a in blast)
      moreover have "xs = []" using a *(4) by (cases xs) (auto split: if_splits)
      ultimately show False using assms(2) by simp
    qed
    note fin = two_rows [OF *(3) [unfolded c1] assms(2) nc]
    from fin *(1) s show ?thesis by (auto intro!: exI [of _ r1])
  qed
qed

text \<open>An append only fails where its guards say so.\<close>

lemma layout_total:
  "(\<forall>ev \<in> set evs. ne_thread ev = [] \<and> primaryStatusEvents (ne_type ev) \<longrightarrow> (\<exists>kvs. ne_payload ev = JObj kvs)) \<Longrightarrow>
   \<exists>rows clkn. layout K consume agent snap created i seq ls carry clk evs = Inr (rows, clkn)"
proof (induction evs arbitrary: i seq ls carry clk)
  case (Cons ev evs)
  have "(if ne_thread ev = [] \<and> primaryStatusEvents (ne_type ev) then withAgentName (ne_payload ev) agent else Some (ne_payload ev)) \<noteq> None"
    using Cons.prems by (auto simp: withAgentName_def)
  then obtain p0 where p0: "(if ne_thread ev = [] \<and> primaryStatusEvents (ne_type ev) then withAgentName (ne_payload ev) agent
      else Some (ne_payload ev)) = Some p0" by (metis option.exhaust)
  show ?case
  proof (cases "layout K consume agent snap created i seq ls carry clk (ev # evs)")
    case (Inl e)
    then have "\<exists>i seq ls carry clk. layout K consume agent snap created i seq ls carry clk evs = Inl e"
      using p0 by (simp add: Let_def split: sum.splits prod.splits) blast
    then obtain i' seq' ls' carry' clk' where "layout K consume agent snap created i' seq' ls' carry' clk' evs = Inl e" by blast
    moreover obtain res where "layout K consume agent snap created i' seq' ls' carry' clk' evs = Inr res"
      using Cons.IH Cons.prems by (metis list.set_intros(2))
    ultimately show ?thesis by simp
  next
    case (Inr r)
    then show ?thesis by (cases r) auto
  qed
qed simp

lemma withUsage_primary:
  "\<forall>ev \<in> set evs. ne_thread ev = [] \<and> primaryStatusEvents (ne_type ev) \<longrightarrow> (\<exists>kvs. ne_payload ev = JObj kvs) \<Longrightarrow>
   \<forall>ev \<in> set (withUsageSnapshots evs). ne_thread ev = [] \<and> primaryStatusEvents (ne_type ev) \<longrightarrow> (\<exists>kvs. ne_payload ev = JObj kvs)"
  by (induction evs) (auto simp: mk_event_def)

lemma append_total:
  assumes "\<not> empty_append evs opts" "\<not> o_consume opts" "\<forall>ev \<in> set evs. persisted (ne_type ev)" "\<not> s_archived (st_db st)"
    and "\<forall>ev \<in> set evs. ne_thread ev = [] \<and> primaryStatusEvents (ne_type ev) \<longrightarrow> (\<exists>kvs. ne_payload ev = JObj kvs)"
    and "o_outcomes opts = None" "o_then opts = None"
  shows "\<exists>st' rows. AppendInTx K st evs opts = Inr (st', rows)"
proof -
  have so: "stream_only evs = None" using assms(3) by (auto simp: stream_only_def find_None_iff)
  obtain rows clk where l: "layout K (o_consume opts) (s_agent_name (st_db st)) (usageAfter (st_usage st) (o_add_usage opts))
       (floor_created K (s_log (st_db st))) 0 (last_seq (s_log (st_db st))) None None
       (if \<exists>ev \<in> set (withUsageSnapshots evs). sessionStatusTypes (ne_type ev)
        then Some \<lparr>c_active = st_active st, c_since = st_since st, c_changed = False\<rparr> else None) (withUsageSnapshots evs) = Inr (rows, clk)"
    using layout_total [OF withUsage_primary [OF assms(5)], of K "o_consume opts" "s_agent_name (st_db st)"
        "usageAfter (st_usage st) (o_add_usage opts)" "floor_created K (s_log (st_db st))" 0 "last_seq (s_log (st_db st))" None None
        "if \<exists>ev \<in> set (withUsageSnapshots evs). sessionStatusTypes (ne_type ev)
        then Some \<lparr>c_active = st_active st, c_since = st_since st, c_changed = False\<rparr> else None"] by (elim exE) (rule that)
  show ?thesis using assms(1,2,4,6,7) so l by (simp add: AppendInTx_def Let_def)
qed

theorem usage_matches_row_witness:
  "\<exists>st' rows. AppendInTx demo_K (demo_store demo_log) [mk_event EventSessionStatusIdle (JObj [])] no_opts = Inr (st', rows) \<and>
     (\<exists>u \<in> set rows. ev_payload u = usageSnapshot (st_usage st') (st_active st'))"
proof -
  obtain st' rows where a: "AppendInTx demo_K (demo_store demo_log) [mk_event EventSessionStatusIdle (JObj [])] no_opts = Inr (st', rows)"
    using append_total [of "[mk_event EventSessionStatusIdle (JObj [])]" no_opts "demo_store demo_log" demo_K]
    by (auto simp: empty_append_def persisted_def mk_event_def no_opts_def demo_store_def demo_session_def primaryStatusEvents_def)
  have a': "AppendInTx demo_K (demo_store demo_log) ([] @ [mk_event EventSessionStatusIdle (JObj [])]) no_opts = Inr (st', rows)"
    using a by simp
  show ?thesis using usage_matches_row [OF a'] a
    by (auto simp: mk_event_def no_opts_def)
qed

text \<open>The events one transition emits leave the session running exactly when the fold says so.\<close>

lemma foldSession_known: "sessionStatusOf (tt_status t) \<noteq> None \<Longrightarrow> sessionStatusOf (fst (foldSession db t rf)) \<noteq> None"
  by (auto simp: foldSession_def Let_def split: option.splits)

lemma sessionStatusOf_types:
  "sessionStatusOf st = Some ty \<Longrightarrow> sessionStatusTypes ty \<and> (ty = EventSessionStatusRunning \<longleftrightarrow> st = SessionRunning)"
  by (cases st) (auto simp: sessionStatusTypes_def)

lemma thread_event_type: "thread_event db t = Some e \<Longrightarrow> \<not> sessionStatusTypes (ne_type e)"
  by (cases "tt_status t") (auto simp: thread_event_def Let_def sessionStatusTypes_def mk_event_def split: if_splits)

lemma transition_runs:
  assumes "TransitionThread db t = Inr (db', out, moved)" "\<not> tt_force t"
  shows "runs (s_status db = SessionRunning) (map ne_type out) = (s_status db' = SessionRunning)"
proof -
  from assms(1) have known: "sessionStatusOf (tt_status t) \<noteq> None" by (auto simp: TransitionThread_def split: option.splits)
  let ?rf = "has_thread db (moving_id db t)"
  let ?fs = "foldSession (move_thread db t) t ?rf"
  let ?se = "session_event t ?fs (s_status db)"
  have r: "out = order_pair (thread_event db t) ?se" "s_status db' = fst ?fs"
    using assms(1) by (auto simp: TransitionThread_def Let_def split: option.splits if_splits)
  obtain ty where ty: "sessionStatusOf (fst ?fs) = Some ty" using foldSession_known [OF known] by (metis option.exhaust)
  have se: "(case ?se of None \<Rightarrow> fst ?fs = s_status db | Some e \<Rightarrow> ne_type e = ty)"
    using assms(2) ty by (auto simp: session_event_def Let_def mk_event_def split: prod.splits option.splits)
  have "runs b (map ne_type out) = runs b (case ?se of None \<Rightarrow> [] | Some e \<Rightarrow> [ne_type e])" for b
    using thread_event_type [of db t] unfolding r(1)
    by (cases "thread_event db t"; cases ?se)
       (auto simp: order_pair_def Let_def List.map_filter_simps sessionStatusTypes_def)
  with se sessionStatusOf_types [OF ty] r(2) show ?thesis by (auto split: option.splits)
qed

lemma run_transitions_runs:
  "run_transitions db before woke ts = Inr (db', emitted, w) \<Longrightarrow> \<forall>t \<in> set ts. \<not> tt_force t \<Longrightarrow>
   runs (s_status db = SessionRunning) (map ne_type emitted) = (s_status db' = SessionRunning)"
proof (induction ts arbitrary: db woke emitted)
  case (Cons t ts)
  from Cons.prems(1) obtain db1 out mv outs woke1 where s: "TransitionThread db t = Inr (db1, out, mv)"
      "run_transitions db1 before woke1 ts = Inr (db', outs, w)" "emitted = out @ outs"
    by (auto simp: Let_def split: sum.splits)
  with Cons.IH [OF s(2)] Cons.prems(2) transition_runs [OF s(1)] show ?case by (simp add: runs_append)
qed simp

definition clock_ok :: "store \<Rightarrow> bool" where
  "clock_ok st \<longleftrightarrow> (st_since st \<noteq> None \<longleftrightarrow> s_status (st_db st) = SessionRunning)"

text \<open>
  C12: the running-time clock follows the status.  A commit of thread transitions (none of them the
  reclaim's forced pair) and other events keeps the session row consistent: an interval is open
  exactly while the stored session status is running, so running time is counted once and only
  while the session runs.
\<close>

theorem transition_keeps_clock:
  assumes "clock_ok st" and "AppendTransition K st evs ts opts = Inr (st', rows)" and "o_then opts = None"
    and "\<forall>t \<in> set ts. \<not> tt_force t" and "\<forall>ev \<in> set evs. \<not> sessionStatusTypes (ne_type ev)"
  shows "clock_ok st'"
proof -
  obtain db emitted woke where t: "run_transitions (st_db st) (s_status (st_db st)) False ts = Inr (db, emitted, woke)"
      and a: "AppendInTx K (st\<lparr>st_db := db\<rparr>) (if woke then emitted @ evs else evs @ emitted)
        (opts\<lparr>o_set_status := (if s_status db \<noteq> s_status (st_db st) then Some (s_status db) else None)\<rparr>) = Inr (st', rows)"
    using assms(2) by (auto simp: AppendTransition_def Let_def split: sum.splits)
  let ?batch = "if woke then emitted @ evs else evs @ emitted"
  have rb: "runs b (map ne_type (withUsageSnapshots ?batch)) = runs b (map ne_type emitted)" for b
    using runs_none [of "map ne_type evs"] assms(5) by (simp add: runs_usage runs_append)
  have re: "runs (s_status (st_db st) = SessionRunning) (map ne_type emitted) = (s_status db = SessionRunning)"
    by (rule run_transitions_runs [OF t assms(4)])
  have th: "o_then (opts\<lparr>o_set_status := (if s_status db \<noteq> s_status (st_db st) then Some (s_status db) else None)\<rparr>) = None"
    using assms(3) by simp
  from a th show ?thesis
  proof (rule append_row)
    fix clk'
    let ?c0 = "\<lparr>c_active = st_active (st\<lparr>st_db := db\<rparr>), c_since = st_since (st\<lparr>st_db := db\<rparr>), c_changed = False\<rparr>"
    let ?opts = "opts\<lparr>o_set_status := (if s_status db \<noteq> s_status (st_db st) then Some (s_status db) else None)\<rparr>"
    let ?st = "st\<lparr>st_db := db\<rparr>"
    let ?any = "\<exists>ev \<in> set (withUsageSnapshots ?batch). sessionStatusTypes (ne_type ev)"
    assume l: "layout K (o_consume ?opts) (s_agent_name (st_db ?st)) (usageAfter (st_usage ?st) (o_add_usage ?opts))
       (floor_created K (s_log (st_db ?st))) 0 (last_seq (s_log (st_db ?st))) None None
       (if ?any then Some ?c0 else None) (withUsageSnapshots ?batch) = Inr (rows, clk')"
      and si: "st_since st' = (case clk' of Some c \<Rightarrow> c_since c | None \<Rightarrow> st_since ?st)"
      and ss: "s_status (st_db st') = (case o_set_status ?opts of None \<Rightarrow> s_status (st_db ?st) | Some s \<Rightarrow> s)"
    have status: "s_status (st_db st') = s_status db" using ss by (auto split: if_splits)
    show ?thesis
    proof (cases ?any)
      case True
      note l' = l [unfolded if_P [OF True]]
      obtain c' where c': "clk' = Some c'" using layout_clock [OF l', of ?c0] by (auto simp: keeps_clock_def)
      have "(c_since c' \<noteq> None) = runs (st_since st \<noteq> None) (map ne_type emitted)"
        using layout_runs [OF l' [unfolded c']] by (simp add: rb)
      with assms(1) re c' si status show ?thesis by (simp add: clock_ok_def)
    next
      case False
      have n: "clk' = None" using layout_no_clock [OF l [unfolded if_not_P [OF False]]] .
      have "runs b (map ne_type emitted) = b" for b
        using runs_none [of "map ne_type (withUsageSnapshots ?batch)" b] False rb [of b] by auto
      with assms(1) re n si status show ?thesis by (simp add: clock_ok_def)
    qed
  qed
qed

lemma demo_transition:
  "\<exists>db' evs mv. TransitionThread (demo_db\<lparr>s_log := demo_log\<rparr>) (demo_move ''sthr_b'' SessionRunning) = Inr (db', evs, mv)
     \<and> \<not> s_archived db' \<and> evs \<noteq> [] \<and> (\<forall>ev \<in> set evs. persisted (ne_type ev) \<and> ne_type ev \<noteq> EventSpanModelRequestStart
       \<and> (ne_thread ev = [] \<and> primaryStatusEvents (ne_type ev) \<longrightarrow> (\<exists>kvs. ne_payload ev = JObj kvs)))"
  by (simp add: TransitionThread_def demo_defs Let_def has_thread_def moving_id_def move_thread_def move_row_def foldSession_def
      fold_rows_def primary_thread_id_def thread_event_def session_event_def order_pair_def mk_event_def List.map_filter_simps
      persisted_def primaryStatusEvents_def)

theorem transition_keeps_clock_witness:
  "\<exists>st' rows. AppendTransition demo_K ((demo_store [])\<lparr>st_db := demo_db\<lparr>s_log := demo_log\<rparr>, st_since := None\<rparr>) []
      [demo_move ''sthr_b'' SessionRunning] no_opts = Inr (st', rows) \<and> clock_ok st'"
proof -
  let ?st = "(demo_store [])\<lparr>st_db := demo_db\<lparr>s_log := demo_log\<rparr>, st_since := None\<rparr>"
  obtain db' evs mv where t: "TransitionThread (demo_db\<lparr>s_log := demo_log\<rparr>) (demo_move ''sthr_b'' SessionRunning) = Inr (db', evs, mv)"
      "\<not> s_archived db'" "evs \<noteq> []" and p: "\<forall>ev \<in> set evs. persisted (ne_type ev)"
      "\<forall>ev \<in> set evs. ne_thread ev = [] \<and> primaryStatusEvents (ne_type ev) \<longrightarrow> (\<exists>kvs. ne_payload ev = JObj kvs)"
    using demo_transition by auto
  let ?o = "no_opts\<lparr>o_set_status := (if s_status db' \<noteq> SessionIdle then Some (s_status db') else None)\<rparr>"
  have s: "s_status (demo_db\<lparr>s_log := demo_log\<rparr>) = SessionIdle" by (simp add: demo_db_def)
  obtain st' rows where a: "AppendInTx demo_K (?st\<lparr>st_db := db'\<rparr>) evs ?o = Inr (st', rows)"
    using append_total [of evs ?o "?st\<lparr>st_db := db'\<rparr>" demo_K] t(2,3) p by (auto simp: empty_append_def no_opts_def)
  then have at: "AppendTransition demo_K ?st [] [demo_move ''sthr_b'' SessionRunning] no_opts = Inr (st', rows)"
    using t(1) s by (simp add: AppendTransition_def Let_def)
  have ok: "clock_ok ?st" by (simp add: clock_ok_def s)
  show ?thesis using transition_keeps_clock [OF ok at] at by (simp add: no_opts_def demo_move_def)
qed

end
