(* ===== verification/Ordered_Tools.thy ===== *)
theory Ordered_Tools
  imports Event_Append "HOL-Library.AList"
begin

text \<open>
  \<^verbatim>\<open>internal/events/orderedtools.go\<close> and \<^verbatim>\<open>awaiting.go\<close>: the ordered processing of one
  thread's tool calls.  Receipt of an answer is separate from its processing: \<open>walkReady\<close> takes
  the calls in log order as far as their answers go, \<open>AdvanceThreadTools\<close> stamps what the walk
  consumes and writes the results of denials, \<open>AnswerPlan\<close> predicts the same walk before a
  send's answers are on the log, and \<open>SettleTransition\<close> is the move the thread makes.  The
  \<^verbatim>\<open>LIMIT 1\<close> lookups of a call's result and confirmation take the first row of the log; the
  inbound checks admit only one.
\<close>

section \<open>A thread's calls\<close>

record tool_flow =
  tf_pending :: "id list"
  tf_unsettled :: bool
  tf_platform :: bool

definition Running :: "tool_flow \<Rightarrow> bool" where
  "Running f \<longleftrightarrow> \<not> tf_unsettled f \<or> tf_platform f"

definition flow_equal :: "tool_flow \<Rightarrow> tool_flow \<Rightarrow> bool" where
  "flow_equal f g \<longleftrightarrow> tf_unsettled f = tf_unsettled g \<and> tf_platform f = tf_platform g \<and> tf_pending f = tf_pending g"

record ordered_call =
  oc_id :: id
  oc_type :: event_type
  oc_payload :: json
  oc_name :: string
  oc_permission :: string
  oc_result :: id
  oc_conf_id :: id
  oc_conf :: "json option"
  oc_confirmed :: bool
  oc_resolved :: bool

definition workerCall :: "env_kind \<Rightarrow> (string \<Rightarrow> bool) \<Rightarrow> ordered_call \<Rightarrow> bool" where
  "workerCall kind owned c \<longleftrightarrow> kind = EnvSelfHosted \<and> oc_type c = EventAgentToolUse \<and> \<not> owned (oc_name c)"

definition call_asks :: "ordered_call \<Rightarrow> bool" where
  "call_asks c \<longleftrightarrow> oc_permission c = ''ask''"

definition external :: "env_kind \<Rightarrow> (string \<Rightarrow> bool) \<Rightarrow> ordered_call \<Rightarrow> bool" where
  "external kind owned c \<longleftrightarrow> oc_type c = EventAgentCustomToolUse \<or> workerCall kind owned c"

definition posted_call :: "new_event \<Rightarrow> ordered_call" where
  "posted_call ev = \<lparr>oc_id = ne_id ev, oc_type = ne_type ev, oc_payload = JNull,
     oc_name = go_str_field (ne_payload ev) ''name'', oc_permission = go_str_field (ne_payload ev) ''evaluated_permission'',
     oc_result = [], oc_conf_id = [], oc_conf = None, oc_confirmed = False, oc_resolved = False\<rparr>"

definition ToolWaitIDs :: "new_event list \<Rightarrow> env_kind \<Rightarrow> (string \<Rightarrow> bool) \<Rightarrow> id list" where
  "ToolWaitIDs batch kind owned = map ne_id (filter (\<lambda>ev. ne_type ev \<in> set toolUseTypes
     \<and> go_str_field (ne_payload ev) ''evaluated_permission'' \<noteq> ''deny''
     \<and> (call_asks (posted_call ev) \<or> external kind owned (posted_call ev))) batch)"

definition result_row :: "event list \<Rightarrow> id \<Rightarrow> event option" where
  "result_row log i = find (\<lambda>r. ev_type r \<in> set toolResultTypes \<and> ref_of (ev_payload r) = Some i) log"

definition conf_row :: "event list \<Rightarrow> id \<Rightarrow> event option" where
  "conf_row log i = find (\<lambda>c. ev_type c = EventUserToolConfirm \<and> sql_text (ev_payload c) ''tool_use_id'' = Some i) log"

definition open_call :: "event list \<Rightarrow> id \<Rightarrow> event \<Rightarrow> bool" where
  "open_call log tid tu \<longleftrightarrow> ev_type tu \<in> set toolUseTypes \<and> ev_thread tu = tid \<and>
     (case result_row log (ev_id tu) of None \<Rightarrow> True | Some r \<Rightarrow> ev_processed r = None)"

definition row_id :: "event option \<Rightarrow> id" where
  "row_id r = (case r of None \<Rightarrow> [] | Some e \<Rightarrow> ev_id e)"

definition call_of :: "event list \<Rightarrow> event \<Rightarrow> ordered_call" where
  "call_of log tu =
     (let c = conf_row log (ev_id tu) in
      \<lparr>oc_id = ev_id tu, oc_type = ev_type tu, oc_payload = ev_payload tu,
       oc_name = go_str_field (ev_payload tu) ''name'', oc_permission = go_str_field (ev_payload tu) ''evaluated_permission'',
       oc_result = row_id (result_row log (ev_id tu)), oc_conf_id = row_id c, oc_conf = map_option ev_payload c,
       oc_confirmed = (case c of None \<Rightarrow> False | Some e \<Rightarrow> ev_processed e \<noteq> None), oc_resolved = False\<rparr>)"

datatype tool_error =
    FlowError flow_error
  | AppendFailed append_error
  | StatusFailed status_error
  | CallDecode
  | UnsettledNoWait id
  | NoThreadRow

definition threadCallsOf :: "event list \<Rightarrow> id \<Rightarrow> tool_error + ordered_call list" where
  "threadCallsOf log tid =
     (let tus = filter (open_call log tid) log in
      if list_all (\<lambda>tu. go_struct_ok (ev_payload tu) [''name'', ''evaluated_permission'']) tus
      then Inr (map (call_of log) tus) else Inl CallDecode)"

definition threadCalls :: "session_db \<Rightarrow> id \<Rightarrow> tool_error + ordered_call list \<times> env_kind" where
  "threadCalls db tid = (case threadCallsOf (s_log db) tid of Inl e \<Rightarrow> Inl e | Inr cs \<Rightarrow> Inr (cs, s_env_kind db))"

fun summarize_from :: "env_kind \<Rightarrow> (string \<Rightarrow> bool) \<Rightarrow> tool_flow \<Rightarrow> ordered_call list \<Rightarrow> tool_flow" where
  "summarize_from kind owned out [] = out"
| "summarize_from kind owned out (c # cs) =
     (if oc_resolved c then summarize_from kind owned out cs
      else let ext = external kind owned c; gated = (call_asks c \<and> \<not> oc_confirmed c) in
        summarize_from kind owned
          \<lparr>tf_pending = (if ext \<or> gated then tf_pending out @ [oc_id c] else tf_pending out), tf_unsettled = True,
           tf_platform = (if \<not> tf_unsettled out then \<not> ext \<and> \<not> gated \<and> oc_result c = [] else tf_platform out)\<rparr> cs)"

definition no_flow :: tool_flow where
  "no_flow = \<lparr>tf_pending = [], tf_unsettled = False, tf_platform = False\<rparr>"

definition summarizeTools :: "env_kind \<Rightarrow> (string \<Rightarrow> bool) \<Rightarrow> ordered_call list \<Rightarrow> tool_flow" where
  "summarizeTools kind owned calls = summarize_from kind owned no_flow calls"

definition ThreadToolFlow :: "session_db \<Rightarrow> id \<Rightarrow> (string \<Rightarrow> bool) \<Rightarrow> tool_error + tool_flow" where
  "ThreadToolFlow db tid owned = (case threadCalls db tid of Inl e \<Rightarrow> Inl e
     | Inr (calls, kind) \<Rightarrow> Inr (summarizeTools kind owned calls))"

definition PendingThreadApprovals :: "session_db \<Rightarrow> id \<Rightarrow> tool_error + bool" where
  "PendingThreadApprovals db tid = (case threadCalls db tid of Inl e \<Rightarrow> Inl e
     | Inr (calls, _) \<Rightarrow> Inr (list_ex (\<lambda>c. call_asks c \<and> \<not> oc_confirmed c) calls))"

section \<open>The walk\<close>

definition ready :: "ordered_call \<Rightarrow> bool" where
  "ready c \<longleftrightarrow> \<not> (oc_result c = [] \<and> (\<not> call_asks c \<or> oc_conf_id c = []))"

text \<open>\<open>consume\<close> takes the walk's state and the call, and reports the call as it marks it and whether it is resolved.\<close>

fun walkReady :: "('s \<Rightarrow> ordered_call \<Rightarrow> 'e + 's \<times> ordered_call \<times> bool) \<Rightarrow> 's \<Rightarrow> ordered_call list
    \<Rightarrow> 'e + 's \<times> ordered_call list" where
  "walkReady consume s [] = Inr (s, [])"
| "walkReady consume s (c # cs) =
     (if \<not> ready c then Inr (s, c # cs)
      else case consume s c of
        Inl e \<Rightarrow> Inl e
      | Inr (s', c', resolved) \<Rightarrow>
          if \<not> resolved then Inr (s', c' # cs)
          else case walkReady consume s' cs of Inl e \<Rightarrow> Inl e | Inr (s'', cs') \<Rightarrow> Inr (s'', c' # cs'))"

definition denies :: "json option \<Rightarrow> bool" where
  "denies conf = (case conf of None \<Rightarrow> False | Some p \<Rightarrow> go_str_field p ''result'' = ''deny'')"

definition conf_event :: "ordered_call \<Rightarrow> new_event" where
  "conf_event c = mk_event EventUserToolConfirm (case oc_conf c of None \<Rightarrow> JNull | Some p \<Rightarrow> p)"

definition stamp_row :: "int \<Rightarrow> id \<Rightarrow> event list \<Rightarrow> event list" where
  "stamp_row at i log = map (\<lambda>e. if ev_id e = i \<and> ev_processed e = None then e\<lparr>ev_processed := Some at\<rparr> else e) log"

text \<open>
  The readings an advance takes: the database clock of the \<open>n\<close>-th call's stamps and the readings of
  the append of its denial.
\<close>

record advance_reads =
  ar_conf :: "nat \<Rightarrow> int"
  ar_result :: "nat \<Rightarrow> int"
  ar_append :: "nat \<Rightarrow> readings"

definition advance_consume :: "advance_reads \<Rightarrow> store \<times> nat \<Rightarrow> ordered_call
    \<Rightarrow> tool_error + (store \<times> nat) \<times> ordered_call \<times> bool" where
  "advance_consume R s c =
     (let (st, n) = s; log = s_log (st_db st) in
      if oc_result c \<noteq> []
      then let log1 = (if oc_conf_id c \<noteq> [] then stamp_row (ar_conf R n) (oc_conf_id c) log else log)
        in Inr ((set_log st (stamp_row (ar_result R n) (oc_result c) log1), Suc n), c\<lparr>oc_resolved := True\<rparr>, True)
      else let st1 = set_log st (stamp_row (ar_conf R n) (oc_conf_id c) log); c1 = c\<lparr>oc_confirmed := True\<rparr>
        in case DenialResults (s_log (st_db st1)) [conf_event c] of
          Inl e \<Rightarrow> Inl (FlowError e)
        | Inr (results, _) \<Rightarrow>
            if results = [] then Inr ((st1, Suc n), c1, False)
            else case AppendInTx (ar_append R n) st1 results no_opts of
              Inl e \<Rightarrow> Inl (AppendFailed e)
            | Inr (st2, _) \<Rightarrow> Inr ((st2, Suc n), c1\<lparr>oc_resolved := True\<rparr>, True))"

definition AdvanceThreadTools :: "advance_reads \<Rightarrow> store \<Rightarrow> id \<Rightarrow> (string \<Rightarrow> bool) \<Rightarrow> tool_error + store \<times> tool_flow" where
  "AdvanceThreadTools R st tid owned =
     (case threadCalls (st_db st) tid of
        Inl e \<Rightarrow> Inl e
      | Inr (calls, kind) \<Rightarrow>
          (case walkReady (advance_consume R) (st, 0) calls of
             Inl e \<Rightarrow> Inl e
           | Inr ((st', _), calls') \<Rightarrow> Inr (st', summarizeTools kind owned calls')))"

section \<open>The plan of a send\<close>

record answer_step =
  as_answer :: id
  as_denials :: "new_event list"

record answer_plan =
  ap_pending :: "id list"
  ap_steps :: "(id \<times> answer_step list) list"
  ap_denied :: "id list"
  ap_moot :: "id list"

definition isAnswer :: "event_type \<Rightarrow> bool" where
  "isAnswer t \<longleftrightarrow> t \<in> set answerTypes"

definition answerRef :: "new_event \<Rightarrow> id" where
  "answerRef ev = (let p = ne_payload ev; a = go_str_field p ''tool_use_id''; b = go_str_field p ''custom_tool_use_id'' in
     if a \<noteq> [] then a else if b \<noteq> [] then b else go_str_field p ''mcp_tool_use_id'')"

definition NewAnswerPlan :: "new_event list \<Rightarrow> answer_plan" where
  "NewAnswerPlan posted = \<lparr>ap_pending = map ne_id (filter (\<lambda>ev. isAnswer (ne_type ev)) posted), ap_steps = [], ap_denied = [], ap_moot = []\<rparr>"

text \<open>A posted answer read as though already on the log.\<close>

definition overlay_call :: "new_event \<Rightarrow> ordered_call \<Rightarrow> ordered_call" where
  "overlay_call ev c =
     (if \<not> isAnswer (ne_type ev) \<or> oc_id c \<noteq> answerRef ev then c
      else if ne_type ev = EventUserToolConfirm
      then (if oc_conf_id c = [] then c\<lparr>oc_conf_id := ne_id ev, oc_conf := Some (ne_payload ev)\<rparr> else c)
      else if oc_result c = [] then c\<lparr>oc_result := ne_id ev\<rparr> else c)"

definition moot_event :: "id \<Rightarrow> id list \<Rightarrow> new_event \<Rightarrow> answer_plan \<Rightarrow> answer_plan" where
  "moot_event tid answered ev p =
     (if ne_type ev = EventUserToolConfirm \<and> ne_thread ev = tid \<and> answerRef ev \<in> set answered
      then p\<lparr>ap_pending := removeAll (ne_id ev) (ap_pending p), ap_moot := ap_moot p @ [ne_id ev]\<rparr> else p)"

definition take_pending :: "id \<Rightarrow> answer_plan \<times> answer_step list \<Rightarrow> answer_plan \<times> answer_step list" where
  "take_pending i s = (let (p, steps) = s in
     if i \<in> set (ap_pending p)
     then (p\<lparr>ap_pending := removeAll i (ap_pending p)\<rparr>, steps @ [\<lparr>as_answer = i, as_denials = []\<rparr>]) else (p, steps))"

definition plan_consume :: "event list \<Rightarrow> answer_plan \<times> answer_step list \<Rightarrow> ordered_call
    \<Rightarrow> tool_error + (answer_plan \<times> answer_step list) \<times> ordered_call \<times> bool" where
  "plan_consume log s c =
     (let (p1, steps1) = take_pending (oc_result c) (take_pending (oc_conf_id c) s);
          c1 = c\<lparr>oc_confirmed := (oc_conf_id c \<noteq> []), oc_resolved := (oc_result c \<noteq> [] \<or> denies (oc_conf c))\<rparr>
      in if \<not> oc_resolved c1 \<or> oc_result c \<noteq> [] then Inr ((p1, steps1), c1, oc_resolved c1)
         else if steps1 = [] then Inr ((p1, steps1), c1, True)
         else case DenialResults log [conf_event c] of
             Inl e \<Rightarrow> Inl (FlowError e)
           | Inr (results, _) \<Rightarrow>
               Inr ((p1\<lparr>ap_denied := ap_denied p1 @ [oc_conf_id c]\<rparr>,
                     butlast steps1 @ [(last steps1)\<lparr>as_denials := as_denials (last steps1) @ results\<rparr>]), c1, True))"

definition plan_walk :: "answer_plan \<Rightarrow> session_db \<Rightarrow> id \<Rightarrow> new_event list \<Rightarrow> new_event list
    \<Rightarrow> tool_error + answer_plan \<times> ordered_call list \<times> env_kind" where
  "plan_walk p db tid posted synthesized =
     (let answered = map answerRef synthesized in
      case threadCalls db tid of
        Inl e \<Rightarrow> Inl e
      | Inr (calls0, kind) \<Rightarrow>
          let calls = map (fold overlay_call posted) (filter (\<lambda>c. oc_id c \<notin> set answered) calls0);
              p1 = fold (moot_event tid answered) posted p
          in case walkReady (plan_consume (s_log db)) (p1, []) calls of
               Inl e \<Rightarrow> Inl e
             | Inr ((p2, steps), calls') \<Rightarrow>
                 Inr ((if steps \<noteq> [] then p2\<lparr>ap_steps := AList.update tid steps (ap_steps p2)\<rparr> else p2), calls', kind))"

definition Settle :: "answer_plan \<Rightarrow> session_db \<Rightarrow> id \<Rightarrow> new_event list \<Rightarrow> (string \<Rightarrow> bool)
    \<Rightarrow> tool_error + answer_plan \<times> tool_flow" where
  "Settle p db tid posted owned = (case plan_walk p db tid posted [] of Inl e \<Rightarrow> Inl e
     | Inr (p', calls, kind) \<Rightarrow> Inr (p', summarizeTools kind owned calls))"

definition Interrupted :: "answer_plan \<Rightarrow> session_db \<Rightarrow> id \<Rightarrow> new_event list \<Rightarrow> new_event list \<Rightarrow> tool_error + answer_plan" where
  "Interrupted p db tid posted synthesized =
     (if \<not> list_ex (\<lambda>ev. isAnswer (ne_type ev) \<and> ne_thread ev = tid) posted then Inr p
      else case plan_walk p db tid posted synthesized of Inl e \<Rightarrow> Inl e | Inr (p', _, _) \<Rightarrow> Inr p')"

definition StampConfirmations :: "int \<Rightarrow> id list \<Rightarrow> event list \<Rightarrow> event list" where
  "StampConfirmations at ids log =
     map (\<lambda>e. if ev_id e \<in> set ids \<and> ev_processed e = None then e\<lparr>ev_processed := Some at\<rparr> else e) log"

definition StampSupersededAnswers :: "int \<Rightarrow> tool_use_ref list \<Rightarrow> event list \<Rightarrow> event list" where
  "StampSupersededAnswers at calls log = map (\<lambda>e. if ev_processed e = None \<and> ev_type e \<in> set answerTypes
     \<and> (case ref_of (ev_payload e) of None \<Rightarrow> False | Some i \<Rightarrow> i \<in> tr_id ` set calls)
     then e\<lparr>ev_processed := Some at\<rparr> else e) log"

definition DeniedRefs :: "new_event list \<Rightarrow> id list" where
  "DeniedRefs evs = map answerRef (filter (\<lambda>ev. ne_type ev = EventUserToolConfirm \<and> denies (Some (ne_payload ev))) evs)"

section \<open>Settling the thread\<close>

definition ToolFlowThreads :: "session_db \<Rightarrow> id list" where
  "ToolFlowThreads db = map thread_key (filter (\<lambda>r. \<not> t_archived r \<and> (t_status r = SessionRunning
       \<or> (t_status r = SessionIdle \<and> (case t_stop r of None \<Rightarrow> False | Some s \<Rightarrow> stop_type s = StopRequiresAction)))) (s_threads db))
     @ (if \<not> s_archived db \<and> s_status db = SessionRunning \<and> s_threads db = [] then [[]] else [])"

definition SettleTransition :: "session_db \<Rightarrow> id \<Rightarrow> tool_flow \<Rightarrow> tool_error + thread_transition option" where
  "SettleTransition db tid flow =
     (if \<not> Running flow \<and> tf_pending flow = [] then Inl (UnsettledNoWait tid)
      else let want = (if Running flow then SessionRunning else SessionIdle);
          stop = (if Running flow then None else Some \<lparr>stop_type = StopRequiresAction, stop_event_ids = tf_pending flow\<rparr>);
          threadID = (if tid = [] then primary_thread_id (s_id db) else tid)
        in case (case find (\<lambda>r. t_id r = threadID) (s_threads db) of
                   Some r \<Rightarrow> Some (t_status r, t_stop r)
                 | None \<Rightarrow> if tid = [] then Some (s_status db, None) else None) of
          None \<Rightarrow> Inl NoThreadRow
        | Some (status, previous) \<Rightarrow>
            if status = SessionTerminated \<or> status = SessionRescheduling then Inr None
            else if status = want \<and> (stop = None \<or> previous = stop) then Inr None
            else Inr (Some \<lparr>tt_thread = tid, tt_status = want, tt_stop = stop, tt_reemit = (want = SessionIdle), tt_force = False\<rparr>))"

definition SettleToolFlow :: "readings \<Rightarrow> store \<Rightarrow> id \<Rightarrow> tool_flow \<Rightarrow> tool_error + store \<times> session_status option" where
  "SettleToolFlow K st tid flow =
     (case SettleTransition (st_db st) tid flow of
        Inl e \<Rightarrow> Inl e
      | Inr None \<Rightarrow> Inr (st, None)
      | Inr (Some t) \<Rightarrow>
          (case TransitionThread (st_db st) t of
             Inl e \<Rightarrow> Inl (StatusFailed e)
           | Inr (db, evs, moved) \<Rightarrow>
               (case AppendInTx K (st\<lparr>st_db := db\<rparr>) evs no_opts of
                  Inl e \<Rightarrow> Inl (AppendFailed e)
                | Inr (st', _) \<Rightarrow> Inr (st', moved))))"

section \<open>Waiting on responses\<close>

record awaited_response =
  aw_id :: id
  aw_confirmation :: bool
  aw_result :: bool

definition awaited_of :: "env_kind \<Rightarrow> (string \<Rightarrow> bool) \<Rightarrow> ordered_call \<Rightarrow> awaited_response" where
  "awaited_of kind owned c = \<lparr>aw_id = oc_id c, aw_confirmation = (call_asks c \<and> oc_conf_id c = []),
     aw_result = (external kind owned c \<and> oc_result c = [])\<rparr>"

definition ThreadWaits :: "event list \<Rightarrow> id \<Rightarrow> env_kind \<Rightarrow> (string \<Rightarrow> bool) \<Rightarrow> tool_error + tool_flow \<times> awaited_response list" where
  "ThreadWaits log tid kind owned = (case threadCallsOf log tid of Inl e \<Rightarrow> Inl e
     | Inr calls \<Rightarrow> Inr (summarizeTools kind owned calls,
         filter (\<lambda>a. aw_confirmation a \<or> aw_result a)
           (map (awaited_of kind owned) (filter (\<lambda>c. \<not> (oc_conf_id c \<noteq> [] \<and> denies (oc_conf c))) calls))))"

record while_awaiting_error =
  wa_type :: event_type
  wa_index :: nat
  wa_ids :: "id list"

fun awaiting_scan :: "(nat \<Rightarrow> bool) \<Rightarrow> nat \<Rightarrow> new_event list \<Rightarrow> awaited_response list \<Rightarrow> (nat \<times> event_type) option
    \<Rightarrow> awaited_response list \<times> (nat \<times> event_type) option" where
  "awaiting_scan reaches i [] awaited first = (awaited, first)"
| "awaiting_scan reaches i (ev # evs) awaited first =
     (if ne_type ev = EventUserToolResult \<or> ne_type ev = EventUserCustomToolRes
      then awaiting_scan reaches (Suc i) evs (filter (\<lambda>a. aw_id a \<noteq> answerRef ev) awaited) first
      else if ne_type ev = EventUserToolConfirm
      then awaiting_scan reaches (Suc i) evs
        (filter (\<lambda>a. \<not> (\<not> aw_confirmation a \<and> \<not> aw_result a))
          (map (\<lambda>a. if aw_id a = answerRef ev
                    then a\<lparr>aw_confirmation := False, aw_result := (aw_result a \<and> \<not> denies (Some (ne_payload ev)))\<rparr> else a) awaited)) first
      else if ne_type ev = EventUserInterrupt
      then awaiting_scan reaches (Suc i) evs (if reaches i then [] else awaited) first
      else if ne_type ev = EventUserMessage \<or> ne_type ev = EventUserDefineOutcome
      then awaiting_scan reaches (Suc i) evs awaited (if first = None then Some (i, ne_type ev) else first)
      else awaiting_scan reaches (Suc i) evs awaited first)"

definition CheckWhileAwaiting :: "awaited_response list \<Rightarrow> new_event list \<Rightarrow> (nat \<Rightarrow> bool) \<Rightarrow> while_awaiting_error option" where
  "CheckWhileAwaiting awaited posted reaches =
     (case awaiting_scan reaches 0 posted awaited None of
        (left, Some (i, t)) \<Rightarrow> if left = [] then None else Some \<lparr>wa_type = t, wa_index = i, wa_ids = map aw_id left\<rparr>
      | (_, None) \<Rightarrow> None)"

section \<open>The walk's marks\<close>

text \<open>
  What a consumer of the walk promises: it reports a call resolved exactly when a result or a
  denial answers it, marks it so, and only confirms a call it leaves to run.  The marks of a walk
  are then those of a pure reference walk, whatever else the consumer does.
\<close>

definition resolves :: "ordered_call \<Rightarrow> bool" where
  "resolves c \<longleftrightarrow> oc_result c \<noteq> [] \<or> denies (oc_conf c)"

fun spec_walk :: "ordered_call list \<Rightarrow> ordered_call list" where
  "spec_walk [] = []"
| "spec_walk (c # cs) = (if \<not> ready c then c # cs
     else if resolves c then c\<lparr>oc_resolved := True\<rparr> # spec_walk cs else c\<lparr>oc_confirmed := True\<rparr> # cs)"

definition fresh :: "ordered_call list \<Rightarrow> bool" where
  "fresh cs \<longleftrightarrow> list_all (\<lambda>c. \<not> oc_resolved c) cs"

definition same_mark :: "ordered_call \<Rightarrow> ordered_call \<Rightarrow> bool" where
  "same_mark c d \<longleftrightarrow> oc_resolved c = oc_resolved d \<and> (\<not> oc_resolved c \<longrightarrow> c = d)"

lemma same_mark_self [simp]: "same_mark c c"
  by (simp add: same_mark_def)

lemma same_mark_refl: "list_all2 same_mark cs cs"
  by (simp add: list_all2_same same_mark_def)

lemma summarize_same:
  "list_all2 same_mark cs ds \<Longrightarrow> summarize_from kind owned out cs = summarize_from kind owned out ds"
proof (induction cs ds arbitrary: out rule: list_all2_induct)
  case (Cons c cs d ds)
  then show ?case by (cases "oc_resolved c") (auto simp: same_mark_def Let_def)
qed simp

locale walk_consumer =
  fixes consume :: "'s \<Rightarrow> ordered_call \<Rightarrow> 'e + 's \<times> ordered_call \<times> bool"
  assumes marks: "ready c \<Longrightarrow> \<not> oc_resolved c \<Longrightarrow> consume s c = Inr (s', c', b) \<Longrightarrow>
    b = resolves c \<and> oc_resolved c' = b \<and> (\<not> b \<longrightarrow> c' = c\<lparr>oc_confirmed := True\<rparr>)"
begin

lemma walk_marks:
  "walkReady consume s cs = Inr (s', cs') \<Longrightarrow> fresh cs \<Longrightarrow> list_all2 same_mark cs' (spec_walk cs)"
proof (induction cs arbitrary: s s' cs')
  case (Cons c cs)
  show ?case
  proof (cases "ready c")
    case True
    obtain s1 c1 b where c: "consume s c = Inr (s1, c1, b)"
      using Cons.prems(1) True by (cases "consume s c") auto
    have m: "b = resolves c" "oc_resolved c1 = b" "\<not> b \<longrightarrow> c1 = c\<lparr>oc_confirmed := True\<rparr>"
      using marks [OF True _ c] Cons.prems(2) by (simp_all add: fresh_def)
    show ?thesis
    proof (cases b)
      case t: True
      obtain s2 cs2 where w: "walkReady consume s1 cs = Inr (s2, cs2)" "cs' = c1 # cs2"
        using Cons.prems(1) True t c by (auto split: sum.splits)
      have "list_all2 same_mark cs2 (spec_walk cs)" using Cons.IH [OF w(1)] Cons.prems(2) by (simp add: fresh_def)
      with m t True w show ?thesis by (simp add: same_mark_def [of c1])
    next
      case f: False
      then have "cs' = c1 # cs" using Cons.prems(1) True c by simp
      with m f True show ?thesis by (simp add: same_mark_refl)
    qed
  next
    case False
    then show ?thesis using Cons.prems by (auto simp: same_mark_refl)
  qed
qed simp

lemma walk_flow:
  "walkReady consume s cs = Inr (s', cs') \<Longrightarrow> fresh cs \<Longrightarrow>
   summarizeTools kind owned cs' = summarizeTools kind owned (spec_walk cs)"
  unfolding summarizeTools_def by (intro summarize_same walk_marks)

end

lemma denial_iff:
  assumes "DenialResults log [conf_event c] = Inr (results, refs)"
  shows "results \<noteq> [] \<longleftrightarrow> denies (oc_conf c)"
  using assms
  by (auto simp: DenialResults_def conf_event_def mk_event_def denies_def go_str_field_def split: option.splits if_splits sum.splits prod.splits)

lemma ready_conf: "ready c \<Longrightarrow> oc_result c = [] \<Longrightarrow> oc_conf_id c \<noteq> []"
  by (simp add: ready_def)

interpretation advance: walk_consumer "advance_consume R" for R
proof
  fix c s s' c' b
  assume r: "ready c" "\<not> oc_resolved c" and a: "advance_consume R s c = Inr (s', c', b)"
  obtain st n where s: "s = (st, n)" by (cases s)
  let ?log = "s_log (st_db (set_log st (stamp_row (ar_conf R n) (oc_conf_id c) (s_log (st_db st)))))"
  show "b = resolves c \<and> oc_resolved c' = b \<and> (\<not> b \<longrightarrow> c' = c\<lparr>oc_confirmed := True\<rparr>)"
  proof (cases "oc_result c = []")
    case True
    obtain rs refs where d: "DenialResults ?log [conf_event c] = Inr (rs, refs)"
      using a True by (cases "DenialResults ?log [conf_event c]") (auto simp: advance_consume_def s)
    from denial_iff [OF d] a True d r(2) show ?thesis
      by (auto simp: advance_consume_def s resolves_def Let_def split: if_splits sum.splits)
  next
    case False
    then show ?thesis using a by (auto simp: advance_consume_def s resolves_def Let_def)
  qed
qed

interpretation plan: walk_consumer "plan_consume log" for log
proof
  fix c s s' c' b
  assume r: "ready c" "\<not> oc_resolved c" and a: "plan_consume log s c = Inr (s', c', b)"
  have "oc_result c = [] \<Longrightarrow> (oc_conf_id c \<noteq> []) = True" using ready_conf [OF r(1)] by simp
  with a r(2) show "b = resolves c \<and> oc_resolved c' = b \<and> (\<not> b \<longrightarrow> c' = c\<lparr>oc_confirmed := True\<rparr>)"
    by (auto simp: plan_consume_def resolves_def Let_def split: if_splits sum.splits prod.splits)
qed

section \<open>What the walks touch\<close>

text \<open>The answers a walk takes up, and a row as it is after some rows were stamped.\<close>

fun ready_ids :: "ordered_call list \<Rightarrow> id list" where
  "ready_ids [] = []"
| "ready_ids (c # cs) = (if \<not> ready c then []
     else (if oc_conf_id c = [] then [] else [oc_conf_id c]) @ (if oc_result c = [] then [] else [oc_result c])
       @ (if resolves c then ready_ids cs else []))"

definition stamp_rel :: "id list \<Rightarrow> event \<Rightarrow> event \<Rightarrow> bool" where
  "stamp_rel ids e e' \<longleftrightarrow> unstamped e' = unstamped e \<and> (ev_processed e' = None \<longleftrightarrow> ev_processed e = None \<and> ev_id e \<notin> set ids)"

definition grown :: "id list \<Rightarrow> event list \<Rightarrow> event list \<Rightarrow> bool" where
  "grown ids log log' \<longleftrightarrow> (\<exists>l1 new. log' = l1 @ new \<and> list_all2 (stamp_rel ids) log l1)"

lemma grownI: "list_all2 (stamp_rel ids) log l1 \<Longrightarrow> grown ids log (l1 @ new)"
  by (auto simp: grown_def)

lemma grownE:
  assumes "grown ids log log'"
  obtains l1 new where "log' = l1 @ new" "list_all2 (stamp_rel ids) log l1"
  using assms by (auto simp: grown_def)

lemma stamp_rel_trans: "stamp_rel a x y \<Longrightarrow> stamp_rel b y z \<Longrightarrow> stamp_rel (a @ b) x z"
  by (metis (no_types, lifting) Un_iff set_append stamp_rel_def unstamped_fields(1))

lemma grown_trans:
  assumes "grown a x y" "grown b y z"
  shows "grown (a @ b) x z"
proof -
  from assms(1) obtain y1 n1 where y: "y = y1 @ n1" "list_all2 (stamp_rel a) x y1" by (rule grownE)
  from assms(2) obtain z1 n2 where z: "z = z1 @ n2" "list_all2 (stamp_rel b) y z1" by (rule grownE)
  from z(2) y(1) obtain u v where u: "z1 = u @ v" "list_all2 (stamp_rel b) y1 u"
    by (auto simp: list_all2_append1)
  have "list_all2 (stamp_rel (a @ b)) x u" by (rule list_all2_trans [OF _ y(2) u(2)]) (rule stamp_rel_trans)
  then show ?thesis using grownI [of "a @ b" x u "v @ n2"] z(1) u(1) by simp
qed

lemma grown_stamp: "grown [i] log (stamp_row at i log)"
proof -
  have "list_all2 (stamp_rel [i]) log (stamp_row at i log)"
    by (auto simp: stamp_row_def list_all2_map2 list_all2_same stamp_rel_def unstamped_def)
  then show ?thesis using grownI [of "[i]" log _ "[]"] by simp
qed

lemma grown_append: "grown [] log (log @ new)"
  by (rule grownI) (simp add: list_all2_same stamp_rel_def)

lemma append_plain:
  assumes "AppendInTx K st evs no_opts = Inr (st', rows)"
  shows "st_db st' = (st_db st)\<lparr>s_log := s_log (st_db st) @ rows\<rparr>"
  using assms
proof (rule AppendInTx_cases)
  fix clk' st6
  assume "st6 = after_insert K st (withUsageSnapshots evs) no_opts rows clk' \<or>
      (\<exists>os. st6 = (after_insert K st (withUsageSnapshots evs) no_opts rows clk')\<lparr>st_outcomes := os\<rparr>)"
    and "case o_then no_opts of None \<Rightarrow> st' = stamp_inputs K no_opts rows st6 | Some f \<Rightarrow> f (stamp_inputs K no_opts rows st6) = Inr st'"
  then show ?thesis
    by (auto simp: no_opts_def stamp_inputs_def after_insert_def Let_def split: option.splits)
qed

lemma take_pending_pending: "take_pending i (p, steps) = (p', steps') \<Longrightarrow> ap_pending p' = removeAll i (ap_pending p)"
  by (auto simp: take_pending_def split: if_splits)

lemma plan_consume_pending:
  assumes "plan_consume log (p, steps) c = Inr ((p', steps'), c', b)"
  shows "ap_pending p' = removeAll (oc_result c) (removeAll (oc_conf_id c) (ap_pending p))"
proof -
  obtain p1 s1 where t1: "take_pending (oc_conf_id c) (p, steps) = (p1, s1)" by (meson surj_pair)
  obtain p2 s2 where t2: "take_pending (oc_result c) (p1, s1) = (p2, s2)" by (meson surj_pair)
  have "ap_pending p' = ap_pending p2"
    using assms by (auto simp: plan_consume_def t1 t2 Let_def split: if_splits sum.splits prod.splits)
  with take_pending_pending [OF t1] take_pending_pending [OF t2] show ?thesis by simp
qed

lemma plan_walk_pending:
  "walkReady (plan_consume log) (p, steps) cs = Inr ((p', steps'), cs') \<Longrightarrow> fresh cs \<Longrightarrow> [] \<notin> set (ap_pending p) \<Longrightarrow>
   ap_pending p' = filter (\<lambda>i. i \<notin> set (ready_ids cs)) (ap_pending p)"
proof (induction cs arbitrary: p steps cs')
  case (Cons c cs)
  show ?case
  proof (cases "ready c")
    case True
    obtain p1 s1 c1 b where c: "plan_consume log (p, steps) c = Inr ((p1, s1), c1, b)"
      using Cons.prems(1) True by (cases "plan_consume log (p, steps) c") auto
    have b: "b = resolves c" using plan.marks [OF True _ c] Cons.prems(2) by (simp add: fresh_def)
    have p1: "ap_pending p1 = filter (\<lambda>i. i \<noteq> oc_conf_id c \<and> i \<noteq> oc_result c) (ap_pending p)"
      using plan_consume_pending [OF c] by (auto simp: removeAll_filter_not_eq intro: filter_cong)
    have rest: "ap_pending p' = filter (\<lambda>i. i \<notin> set (if b then ready_ids cs else [])) (ap_pending p1)"
    proof (cases b)
      case bt: True
      then obtain cs2 where "walkReady (plan_consume log) (p1, s1) cs = Inr ((p', steps'), cs2)"
        using Cons.prems(1) True c by (auto split: sum.splits)
      from Cons.IH [OF this] Cons.prems(2,3) p1 bt show ?thesis by (simp add: fresh_def)
    next
      case False
      then show ?thesis using Cons.prems(1) True c by simp
    qed
    show ?thesis unfolding rest p1 filter_filter
      by (rule filter_cong) (use Cons.prems(3) b True in auto)
  next
    case False
    then have "ready_ids (c # cs) = []" by simp
    moreover have "p' = p" using Cons.prems(1) False by simp
    ultimately show ?thesis by (simp del: ready_ids.simps)
  qed
qed simp

section \<open>The walks always return\<close>

definition call_ok :: "event list \<Rightarrow> ordered_call \<Rightarrow> bool" where
  "call_ok log c \<longleftrightarrow> \<not> oc_resolved c \<and> (\<exists>u. find (\<lambda>e. ev_id e = oc_id c) log = Some u \<and> ev_type u \<in> set toolUseTypes) \<and>
     (oc_conf_id c \<noteq> [] \<longrightarrow> (\<exists>p. oc_conf c = Some p \<and> go_struct_ok p [''result'', ''tool_use_id'', ''deny_message'']
        \<and> go_str_field p ''tool_use_id'' = oc_id c))"

lemma find_grown:
  assumes "list_all2 (stamp_rel ids) log l1" "find (\<lambda>e. ev_id e = i) log = Some u"
  shows "\<exists>v. find (\<lambda>e. ev_id e = i) (l1 @ new) = Some v \<and> ev_type v = ev_type u"
  using assms
proof (induction log l1 rule: list_all2_induct)
  case (Cons x xs y ys)
  have "ev_id y = ev_id x" "ev_type y = ev_type x"
    using Cons.hyps(1) by (metis stamp_rel_def unstamped_fields(1), metis stamp_rel_def unstamped_fields(3))
  with Cons show ?case by (auto split: if_splits)
qed simp

lemma call_ok_grown: "grown ids log log' \<Longrightarrow> call_ok log c \<Longrightarrow> call_ok log' c"
proof (erule grownE)
  fix l1 new
  assume "call_ok log c" and g: "log' = l1 @ new" "list_all2 (stamp_rel ids) log l1"
  then obtain u where u: "find (\<lambda>e. ev_id e = oc_id c) log = Some u" "ev_type u \<in> set toolUseTypes" by (auto simp: call_ok_def)
  obtain v where "find (\<lambda>e. ev_id e = oc_id c) log' = Some v" "ev_type v = ev_type u"
    using find_grown [OF g(2) u(1), of new] g(1) by auto
  with \<open>call_ok log c\<close> u(2) show "call_ok log' c" by (simp add: call_ok_def)
qed

lemma denial_total:
  assumes "call_ok log c" "oc_conf_id c \<noteq> []"
  shows "\<exists>rs refs. DenialResults log [conf_event c] = Inr (rs, refs) \<and> (\<forall>ev \<in> set rs. ne_type ev \<in> set toolResultTypes)"
proof -
  obtain p u where p: "oc_conf c = Some p" "go_struct_ok p [''result'', ''tool_use_id'', ''deny_message'']"
    "go_str_field p ''tool_use_id'' = oc_id c" and u: "find (\<lambda>e. ev_id e = oc_id c) log = Some u" "ev_type u \<in> set toolUseTypes"
    using assms by (auto simp: call_ok_def)
  have "toolUseAnswer (ev_type u) \<noteq> None" using u(2) by (auto simp: toolUseTypes_def)
  then obtain res key thr where a: "toolUseAnswer (ev_type u) = Some (res, key, thr)" by (cases "toolUseAnswer (ev_type u)") auto
  then have "res \<in> set toolResultTypes" by (cases "ev_type u") (auto simp: toolResultTypes_def)
  with p u a show ?thesis by (simp add: DenialResults_def conf_event_def mk_event_def)
qed

lemma append_results_total:
  assumes "rs \<noteq> []" "\<forall>ev \<in> set rs. ne_type ev \<in> set toolResultTypes" "\<not> s_archived (st_db st)"
  shows "\<exists>st' rows. AppendInTx K st rs no_opts = Inr (st', rows)"
proof (rule append_total)
  show "\<not> empty_append rs no_opts" using assms(1) by (simp add: empty_append_def)
  show "\<forall>ev \<in> set rs. persisted (ne_type ev)"
    "\<forall>ev \<in> set rs. ne_thread ev = [] \<and> primaryStatusEvents (ne_type ev) \<longrightarrow> (\<exists>kvs. ne_payload ev = JObj kvs)"
    using assms(2) by (auto simp: toolResultTypes_def persisted_def primaryStatusEvents_def)
qed (simp_all add: no_opts_def assms(3))

lemma set_log_db [simp]: "st_db (set_log st log) = (st_db st)\<lparr>s_log := log\<rparr>"
  by (simp add: set_log_def)

lemma advance_consume_total:
  assumes "ready c" "call_ok (s_log (st_db st)) c" "\<not> s_archived (st_db st)"
  shows "\<exists>st' c'. advance_consume R (st, n) c = Inr ((st', Suc n), c', resolves c) \<and> \<not> s_archived (st_db st') \<and>
    s_env_kind (st_db st') = s_env_kind (st_db st) \<and>
    grown ((if oc_conf_id c = [] then [] else [oc_conf_id c]) @ (if oc_result c = [] then [] else [oc_result c]))
      (s_log (st_db st)) (s_log (st_db st'))"
proof (cases "oc_result c = []")
  case False
  let ?log = "s_log (st_db st)"
  let ?l1 = "if oc_conf_id c \<noteq> [] then stamp_row (ar_conf R n) (oc_conf_id c) ?log else ?log"
  have g1: "grown (if oc_conf_id c = [] then [] else [oc_conf_id c]) ?log ?l1"
    using grown_append [of ?log "[]"] grown_stamp by simp
  have "grown ((if oc_conf_id c = [] then [] else [oc_conf_id c]) @ [oc_result c]) ?log (stamp_row (ar_result R n) (oc_result c) ?l1)"
    by (rule grown_trans [OF g1 grown_stamp])
  with False assms(3) show ?thesis by (simp add: advance_consume_def resolves_def Let_def)
next
  case True
  let ?log1 = "stamp_row (ar_conf R n) (oc_conf_id c) (s_log (st_db st))"
  have cid: "oc_conf_id c \<noteq> []" by (rule ready_conf [OF assms(1) True])
  have g1: "grown [oc_conf_id c] (s_log (st_db st)) ?log1" by (rule grown_stamp)
  obtain rs refs where d: "DenialResults ?log1 [conf_event c] = Inr (rs, refs)" "\<forall>ev \<in> set rs. ne_type ev \<in> set toolResultTypes"
    using denial_total [OF call_ok_grown [OF g1 assms(2)] cid] by blast
  have dn: "rs \<noteq> [] \<longleftrightarrow> resolves c" using denial_iff [OF d(1)] True by (simp add: resolves_def)
  show ?thesis
  proof (cases "rs = []")
    case rs: True
    then have "\<not> resolves c" using dn by simp
    with rs True cid d g1 assms(3) show ?thesis by (simp add: advance_consume_def Let_def)
  next
    case rs: False
    obtain st2 rows where a: "AppendInTx (ar_append R n) (set_log st ?log1) rs no_opts = Inr (st2, rows)"
      using append_results_total [OF rs d(2), of "set_log st ?log1" "ar_append R n"] assms(3) by auto
    note db = append_plain [OF a]
    have "grown ([oc_conf_id c] @ []) (s_log (st_db st)) (?log1 @ rows)" by (rule grown_trans [OF g1 grown_append])
    with rs True cid d a db dn assms(3) show ?thesis by (simp add: advance_consume_def Let_def)
  qed
qed

lemma advance_walk_total:
  "list_all (call_ok (s_log (st_db st))) cs \<Longrightarrow> \<not> s_archived (st_db st) \<Longrightarrow>
   \<exists>st' m cs'. walkReady (advance_consume R) (st, n) cs = Inr ((st', m), cs') \<and>
     grown (ready_ids cs) (s_log (st_db st)) (s_log (st_db st'))"
proof (induction cs arbitrary: st n)
  case Nil
  then show ?case using grown_append [of "s_log (st_db st)" "[]"] by simp
next
  case (Cons c cs)
  show ?case
  proof (cases "ready c")
    case True
    let ?ids = "(if oc_conf_id c = [] then [] else [oc_conf_id c]) @ (if oc_result c = [] then [] else [oc_result c])"
    obtain st1 c1 where c: "advance_consume R (st, n) c = Inr ((st1, Suc n), c1, resolves c)" "\<not> s_archived (st_db st1)"
      "grown ?ids (s_log (st_db st)) (s_log (st_db st1))"
      using advance_consume_total [OF True, of st R n] Cons.prems by auto
    show ?thesis
    proof (cases "resolves c")
      case r: True
      have "list_all (call_ok (s_log (st_db st1))) cs" using Cons.prems(1) call_ok_grown [OF c(3)] by (auto simp: list_all_iff)
      from Cons.IH [OF this c(2), of "Suc n"] obtain st2 m cs2 where
        w: "walkReady (advance_consume R) (st1, Suc n) cs = Inr ((st2, m), cs2)"
           "grown (ready_ids cs) (s_log (st_db st1)) (s_log (st_db st2))" by blast
      show ?thesis using grown_trans [OF c(3) w(2)] w(1) c(1) r True by simp
    next
      case False
      then show ?thesis using c(1,3) True by simp
    qed
  next
    case False
    then show ?thesis using grown_append [of "s_log (st_db st)" "[]"] by simp
  qed
qed

lemma plan_walk_total:
  "list_all (call_ok log) cs \<Longrightarrow> \<exists>p' steps' cs'. walkReady (plan_consume log) (p, steps) cs = Inr ((p', steps'), cs')"
proof (induction cs arbitrary: p steps)
  case (Cons c cs)
  show ?case
  proof (cases "ready c")
    case True
    have "\<exists>p1 s1 c1 b. plan_consume log (p, steps) c = Inr ((p1, s1), c1, b)"
    proof (cases "oc_result c = []")
      case e: True
      from denial_total [OF _ ready_conf [OF True e], of log] Cons.prems
      obtain rs refs where "DenialResults log [conf_event c] = Inr (rs, refs)" by auto
      then show ?thesis by (auto simp: plan_consume_def Let_def split: prod.split)
    next
      case False
      then show ?thesis by (auto simp: plan_consume_def Let_def split: prod.split)
    qed
    then obtain p1 s1 c1 b where c: "plan_consume log (p, steps) c = Inr ((p1, s1), c1, b)" by blast
    obtain p2 s2 cs2 where "walkReady (plan_consume log) (p1, s1) cs = Inr ((p2, s2), cs2)"
      using Cons.IH [of p1 s1] Cons.prems by auto
    with c True show ?thesis by simp
  qed simp
qed simp

section \<open>Answers read as though already on the log\<close>

definition result_event :: "new_event list \<Rightarrow> id \<Rightarrow> new_event option" where
  "result_event posted i = find (\<lambda>ev. (ne_type ev = EventUserToolResult \<or> ne_type ev = EventUserCustomToolRes) \<and> answerRef ev = i) posted"

definition conf_posted :: "new_event list \<Rightarrow> id \<Rightarrow> new_event option" where
  "conf_posted posted i = find (\<lambda>ev. ne_type ev = EventUserToolConfirm \<and> answerRef ev = i) posted"

definition new_id :: "new_event option \<Rightarrow> id" where
  "new_id ev = (case ev of None \<Rightarrow> [] | Some e \<Rightarrow> ne_id e)"

lemma overlay_fold:
  "\<forall>ev \<in> set posted. ne_id ev \<noteq> [] \<Longrightarrow> fold overlay_call posted c =
     c\<lparr>oc_result := (if oc_result c = [] then new_id (result_event posted (oc_id c)) else oc_result c),
       oc_conf_id := (if oc_conf_id c = [] then new_id (conf_posted posted (oc_id c)) else oc_conf_id c),
       oc_conf := (if oc_conf_id c = [] \<and> conf_posted posted (oc_id c) \<noteq> None
                   then map_option ne_payload (conf_posted posted (oc_id c)) else oc_conf c)\<rparr>"
proof (induction posted arbitrary: c)
  case Nil
  then show ?case by (simp add: result_event_def conf_posted_def new_id_def)
next
  case (Cons ev posted)
  let ?d = "overlay_call ev c"
  have i: "oc_id ?d = oc_id c" by (simp add: overlay_call_def)
  have "\<forall>ev \<in> set posted. ne_id ev \<noteq> []" using Cons.prems by simp
  note ih = Cons.IH [OF this, of ?d, unfolded i]
  have e: "fold overlay_call (ev # posted) c = fold overlay_call posted ?d" by simp
  show ?case unfolding e ih
    using Cons.prems
    by (cases "oc_id c = answerRef ev"; cases "ne_type ev = EventUserToolConfirm"; cases "isAnswer (ne_type ev)"; cases "oc_result c = []"; cases "oc_conf_id c = []")
       (simp_all add: overlay_call_def result_event_def conf_posted_def new_id_def isAnswer_def answerTypes_def)
qed

text \<open>
  The rows of a send's events, unprocessed; and what the inbound checks leave of the events: their
  ids are set and their payloads name their call under its one key.
\<close>

definition landed :: "new_event list \<Rightarrow> event list \<Rightarrow> bool" where
  "landed posted rows \<longleftrightarrow> list_all2 (\<lambda>ev r. ev_id r = ne_id ev \<and> ev_type r = ne_type ev \<and> ev_payload r = ne_payload ev
     \<and> ev_processed r = None) posted rows"

definition conf_plain :: "json \<Rightarrow> bool" where
  "conf_plain p \<longleftrightarrow> go_struct_ok p [''result'', ''tool_use_id'', ''deny_message''] \<and>
     sql_text p ''tool_use_id'' = Some (go_str_field p ''tool_use_id'') \<and> go_str_field p ''tool_use_id'' \<noteq> []"

definition posted_ok :: "new_event list \<Rightarrow> bool" where
  "posted_ok posted \<longleftrightarrow> list_all (\<lambda>ev. inbound (ne_type ev) \<and> ne_id ev \<noteq> [] \<and>
     (if ne_type ev = EventUserToolConfirm then conf_plain (ne_payload ev)
      else isAnswer (ne_type ev) \<longrightarrow> ref_of (ne_payload ev) = Some (answerRef ev))) posted"

definition log_plain :: "event list \<Rightarrow> bool" where
  "log_plain log \<longleftrightarrow> log_wf log \<and> list_all (\<lambda>e. ev_id e \<noteq> [] \<and> (ev_type e = EventUserToolConfirm \<longrightarrow> conf_plain (ev_payload e))) log"

lemma conf_plain_ref: "conf_plain (ne_payload ev) \<Longrightarrow> answerRef ev = go_str_field (ne_payload ev) ''tool_use_id''"
  by (simp add: conf_plain_def answerRef_def Let_def)

lemma landed_result:
  assumes "landed posted rows" "posted_ok posted"
  shows "row_id (result_row rows i) = new_id (result_event posted i) \<and>
    (\<forall>r. result_row rows i = Some r \<longrightarrow> ev_processed r = None)"
  using assms unfolding landed_def
proof (induction posted rows rule: list_all2_induct)
  case (Cons ev posted r rows)
  have "ev_type r \<in> set toolResultTypes \<and> ref_of (ev_payload r) = Some i \<longleftrightarrow>
      (ne_type ev = EventUserToolResult \<or> ne_type ev = EventUserCustomToolRes) \<and> answerRef ev = i"
    using Cons.hyps(1) Cons.prems by (auto simp: posted_ok_def toolResultTypes_def isAnswer_def answerTypes_def inbound_iff)
  with Cons show ?case by (simp add: result_row_def result_event_def posted_ok_def row_id_def new_id_def)
qed (simp add: result_row_def result_event_def row_id_def new_id_def)

lemma landed_conf:
  assumes "landed posted rows" "posted_ok posted"
  shows "row_id (conf_row rows i) = new_id (conf_posted posted i) \<and> map_option ev_payload (conf_row rows i) = map_option ne_payload (conf_posted posted i) \<and>
    (\<forall>r. conf_row rows i = Some r \<longrightarrow> ev_processed r = None)"
  using assms unfolding landed_def
proof (induction posted rows rule: list_all2_induct)
  case (Cons ev posted r rows)
  have "ev_type r = EventUserToolConfirm \<and> sql_text (ev_payload r) ''tool_use_id'' = Some i \<longleftrightarrow>
      ne_type ev = EventUserToolConfirm \<and> answerRef ev = i"
    using Cons.hyps(1) Cons.prems conf_plain_ref [of ev] by (auto simp: posted_ok_def conf_plain_def)
  with Cons show ?case by (simp add: conf_row_def conf_posted_def posted_ok_def row_id_def new_id_def)
qed (simp add: conf_row_def conf_posted_def row_id_def new_id_def)

lemma find_app: "find P (xs @ ys) = (case find P xs of None \<Rightarrow> find P ys | Some a \<Rightarrow> Some a)"
  by (induction xs) auto

lemma find_SomeD: "find P xs = Some x \<Longrightarrow> x \<in> set xs \<and> P x"
  by (induction xs) (auto split: if_splits)

lemma call_of_landed:
  assumes "landed posted rows" "posted_ok posted" "log_plain log"
  shows "call_of (log @ rows) tu = fold overlay_call posted (call_of log tu)"
proof -
  let ?i = "ev_id tu"
  have ne: "\<forall>ev \<in> set posted. ne_id ev \<noteq> []" using assms(2) by (auto simp: posted_ok_def list_all_iff)
  have ids: "ev_id e \<noteq> []" if "e \<in> set log" for e using that assms(3) by (auto simp: log_plain_def list_all_iff)
  have r: "row_id (result_row log ?i) = [] \<longleftrightarrow> result_row log ?i = None" "row_id (conf_row log ?i) = [] \<longleftrightarrow> conf_row log ?i = None"
    using ids by (auto simp: row_id_def result_row_def conf_row_def dest: find_SomeD split: option.splits)
  have ra: "result_row (log @ rows) ?i = (case result_row log ?i of None \<Rightarrow> result_row rows ?i | Some a \<Rightarrow> Some a)"
    "conf_row (log @ rows) ?i = (case conf_row log ?i of None \<Rightarrow> conf_row rows ?i | Some a \<Rightarrow> Some a)"
    by (simp_all only: result_row_def conf_row_def find_app)
  have pc: "conf_posted posted ?i = None \<longleftrightarrow> conf_row rows ?i = None"
    using landed_conf [OF assms(1,2), of ?i] by (metis option.map_disc_iff)
  note lr = landed_result [OF assms(1,2), of ?i] and lc = landed_conf [OF assms(1,2), of ?i]
  have h1: "row_id (result_row (log @ rows) ?i) =
      (if row_id (result_row log ?i) = [] then new_id (result_event posted ?i) else row_id (result_row log ?i))"
    using lr r(1) unfolding ra by (cases "result_row log ?i") simp_all
  have h2: "row_id (conf_row (log @ rows) ?i) =
      (if row_id (conf_row log ?i) = [] then new_id (conf_posted posted ?i) else row_id (conf_row log ?i))"
    using lc r(2) unfolding ra by (cases "conf_row log ?i") simp_all
  have h3: "map_option ev_payload (conf_row (log @ rows) ?i) = (if row_id (conf_row log ?i) = [] \<and> conf_posted posted ?i \<noteq> None
      then map_option ne_payload (conf_posted posted ?i) else map_option ev_payload (conf_row log ?i))"
    using lc r(2) pc unfolding ra by (cases "conf_row log ?i") auto
  have h4: "(case conf_row (log @ rows) ?i of None \<Rightarrow> False | Some e \<Rightarrow> ev_processed e \<noteq> None) =
      (case conf_row log ?i of None \<Rightarrow> False | Some e \<Rightarrow> ev_processed e \<noteq> None)"
    using lc unfolding ra by (cases "conf_row log ?i"; cases "conf_row rows ?i") simp_all
  show ?thesis unfolding overlay_fold [OF ne] by (auto simp: call_of_def Let_def h1 h2 h3 h4)
qed

lemma open_call_landed:
  assumes "landed posted rows" "posted_ok posted"
  shows "open_call (log @ rows) tid tu \<longleftrightarrow> open_call log tid tu"
  using landed_result [OF assms, of "ev_id tu"]
  by (auto simp: open_call_def result_row_def find_app split: option.splits)

lemma landed_no_calls:
  assumes "landed posted rows" "posted_ok posted"
  shows "filter (open_call log tid) rows = []"
proof -
  have "ev_type r \<notin> set toolUseTypes" if r: "r \<in> set rows" for r
  proof -
    obtain j where j: "j < length rows" "r = rows ! j" using r by (auto simp: in_set_conv_nth)
    then have "ev_type r = ne_type (posted ! j)" "inbound (ne_type (posted ! j))"
      using assms by (auto simp: landed_def posted_ok_def list_all2_conv_all_nth list_all_length)
    then show ?thesis by (auto simp: toolUseTypes_def inbound_iff)
  qed
  then show ?thesis by (auto simp: filter_empty_conv open_call_def)
qed

lemma threadCalls_landed:
  assumes "landed posted rows" "posted_ok posted" "log_plain log" "threadCallsOf log tid = Inr calls"
  shows "threadCallsOf (log @ rows) tid = Inr (map (fold overlay_call posted) calls)"
proof -
  have oc: "open_call (log @ rows) tid = open_call log tid" by (rule ext) (rule open_call_landed [OF assms(1,2)])
  have co: "call_of (log @ rows) = fold overlay_call posted \<circ> call_of log"
    by (rule ext) (simp add: call_of_landed [OF assms(1-3)])
  show ?thesis using assms(4) landed_no_calls [OF assms(1,2)]
    by (auto simp: threadCallsOf_def Let_def oc co split: if_splits)
qed

lemma find_distinct_id: "distinct (map ev_id log) \<Longrightarrow> u \<in> set log \<Longrightarrow> find (\<lambda>e. ev_id e = ev_id u) log = Some u"
  by (induction log) (auto simp: image_iff)

lemma calls_ok:
  assumes "posted_ok posted" "log_plain log" "threadCallsOf log tid = Inr calls"
  shows "list_all (call_ok log) (map (fold overlay_call posted) calls)"
proof -
  have "call_ok log (fold overlay_call posted (call_of log tu))" if tu: "tu \<in> set log" "ev_type tu \<in> set toolUseTypes" for tu
  proof -
    have ne: "\<forall>ev \<in> set posted. ne_id ev \<noteq> []" using assms(1) by (auto simp: posted_ok_def list_all_iff)
    have d: "distinct (map ev_id log)" using assms(2) by (simp add: log_plain_def log_wf_def)
    have ids: "row_id (conf_row log (ev_id tu)) \<noteq> []" if "conf_row log (ev_id tu) = Some e" for e
      using find_SomeD [OF that [unfolded conf_row_def]] that assms(2) by (auto simp: log_plain_def list_all_iff row_id_def)
    have cl: "conf_plain (ev_payload e) \<and> go_str_field (ev_payload e) ''tool_use_id'' = ev_id tu" if e: "conf_row log (ev_id tu) = Some e" for e
    proof -
      have "e \<in> set log" "ev_type e = EventUserToolConfirm" "sql_text (ev_payload e) ''tool_use_id'' = Some (ev_id tu)"
        using e by (auto simp: conf_row_def find_Some_iff)
      then show ?thesis using assms(2) by (auto simp: log_plain_def list_all_iff conf_plain_def)
    qed
    have cp: "conf_plain (ne_payload ev) \<and> go_str_field (ne_payload ev) ''tool_use_id'' = ev_id tu" if e: "conf_posted posted (ev_id tu) = Some ev" for ev
    proof -
      have "ev \<in> set posted" "ne_type ev = EventUserToolConfirm" "answerRef ev = ev_id tu"
        using e by (auto simp: conf_posted_def find_Some_iff)
      then show ?thesis using assms(1) conf_plain_ref [of ev] by (auto simp: posted_ok_def list_all_iff)
    qed
    let ?c = "fold overlay_call posted (call_of log tu)"
    have conf: "oc_conf_id ?c \<noteq> [] \<longrightarrow> (\<exists>p. oc_conf ?c = Some p \<and> conf_plain p \<and> go_str_field p ''tool_use_id'' = ev_id tu)"
    proof (cases "conf_row log (ev_id tu)")
      case None
      show ?thesis unfolding overlay_fold [OF ne] using cp
        by (cases "conf_posted posted (ev_id tu)") (simp_all add: call_of_def Let_def row_id_def new_id_def None)
    next
      case (Some e)
      show ?thesis unfolding overlay_fold [OF ne] using ids [OF Some] cl [OF Some] by (simp add: call_of_def Let_def Some)
    qed
    have "oc_id ?c = ev_id tu" "\<not> oc_resolved ?c" unfolding overlay_fold [OF ne] by (simp_all add: call_of_def Let_def)
    then show ?thesis unfolding call_ok_def using conf find_distinct_id [OF d tu(1)] tu(2) by (auto simp: conf_plain_def)
  qed
  then show ?thesis using assms(3) by (auto simp: threadCallsOf_def Let_def list_all_iff open_call_def split: if_splits)
qed

lemma call_ok_fresh: "list_all (call_ok log) cs \<Longrightarrow> fresh cs"
  by (auto simp: fresh_def list_all_iff call_ok_def)

lemma grown_nth:
  assumes "grown ids log log'" "j < length log"
  shows "ev_processed (log' ! j) = None \<longleftrightarrow> ev_processed (log ! j) = None \<and> ev_id (log ! j) \<notin> set ids"
  using assms by (auto simp: grown_def list_all2_conv_all_nth nth_append stamp_rel_def)

text \<open>
  C16: a send's plan predicts its settlement.  Planned before the answers are on the log, the walk
  leaves the thread in the flow that advancing the thread reads once they are, and the plan's
  pending answers are exactly the posted answers the advance leaves unprocessed.  Both always
  return when the thread's calls decode.
\<close>

theorem plan_predicts_settlement:
  assumes "log_plain (s_log (st_db st))" "posted_ok posted" "landed posted rows" "\<not> s_archived (st_db st)"
    and "threadCallsOf (s_log (st_db st)) tid = Inr calls"
  shows "\<exists>p flow st'. Settle (NewAnswerPlan posted) (st_db st) tid posted owned = Inr (p, flow) \<and>
     AdvanceThreadTools R (set_log st (s_log (st_db st) @ rows)) tid owned = Inr (st', flow) \<and>
     (\<forall>j < length posted. isAnswer (ne_type (posted ! j)) \<longrightarrow>
        (ne_id (posted ! j) \<in> set (ap_pending p) \<longleftrightarrow>
         ev_processed (s_log (st_db st') ! (length (s_log (st_db st)) + j)) = None))"
proof -
  let ?log = "s_log (st_db st)" and ?st = "set_log st (s_log (st_db st) @ rows)"
  let ?cs = "map (fold overlay_call posted) calls" and ?p0 = "NewAnswerPlan posted"
  have ok: "list_all (call_ok ?log) ?cs" by (rule calls_ok [OF assms(2,1,5)])
  have ok2: "list_all (call_ok (?log @ rows)) ?cs"
    using ok call_ok_grown [OF grown_append [of ?log rows]] by (auto simp: list_all_iff)
  note fr = call_ok_fresh [OF ok]
  obtain p steps cs1 where w1: "walkReady (plan_consume ?log) (?p0, []) ?cs = Inr ((p, steps), cs1)"
    using plan_walk_total [OF ok] by blast
  obtain st' m cs2 where w2: "walkReady (advance_consume R) (?st, 0) ?cs = Inr ((st', m), cs2)"
    and g: "grown (ready_ids ?cs) (?log @ rows) (s_log (st_db st'))"
    using advance_walk_total [of ?st ?cs R 0] ok2 assms(4) by auto
  define flow where "flow = summarizeTools (s_env_kind (st_db st)) owned (spec_walk ?cs)"
  have mo: "fold (moot_event tid []) posted q = q" for q by (induction posted) (simp_all add: moot_event_def)
  define p' where "p' = (if steps \<noteq> [] then p\<lparr>ap_steps := AList.update tid steps (ap_steps p)\<rparr> else p)"
  have S: "Settle ?p0 (st_db st) tid posted owned = Inr (p', flow)"
    using w1 plan.walk_flow [OF w1 fr] assms(5)
    by (simp add: Settle_def plan_walk_def threadCalls_def mo Let_def flow_def p'_def)
  have A: "AdvanceThreadTools R ?st tid owned = Inr (st', flow)"
    using w2 advance.walk_flow [OF w2 fr] threadCalls_landed [OF assms(3,2,1,5)]
    by (simp add: AdvanceThreadTools_def threadCalls_def flow_def)
  have ne: "[] \<notin> set (ap_pending ?p0)" using assms(2) by (auto simp: NewAnswerPlan_def posted_ok_def list_all_iff)
  have pend: "ap_pending p' = filter (\<lambda>i. i \<notin> set (ready_ids ?cs)) (ap_pending ?p0)"
    using plan_walk_pending [OF w1 fr ne] by (simp add: p'_def)
  have "ne_id (posted ! j) \<in> set (ap_pending p') \<longleftrightarrow> ev_processed (s_log (st_db st') ! (length ?log + j)) = None"
    if j: "j < length posted" "isAnswer (ne_type (posted ! j))" for j
  proof -
    have l: "length rows = length posted" "ev_id (rows ! j) = ne_id (posted ! j)" "ev_processed (rows ! j) = None"
      using assms(3) j(1) by (auto simp: landed_def list_all2_conv_all_nth)
    have "ne_id (posted ! j) \<in> set (ap_pending ?p0)" using j by (auto simp: NewAnswerPlan_def)
    then show ?thesis using grown_nth [OF g, of "length ?log + j"] l j(1) unfolding pend by (simp add: nth_append)
  qed
  with S A show ?thesis by blast
qed

text \<open>An ask-gated MCP call, and a send that denies it.\<close>

definition asked_call :: event where
  "asked_call = \<lparr>ev_id = ''sevt_a'', ev_seq = 1, ev_type = EventAgentMCPToolUse,
     ev_payload = JObj [(''name'', JStr ''read''), (''evaluated_permission'', JStr ''ask'')], ev_processed = Some 1, ev_created = 1,
     ev_thread = [], ev_cross = False\<rparr>"

definition demo_denial :: json where
  "demo_denial = JObj [(''tool_use_id'', JStr ''sevt_a''), (''result'', JStr ''deny'')]"

definition demo_posted :: "new_event list" where
  "demo_posted = [(mk_event EventUserToolConfirm demo_denial)\<lparr>ne_id := ''sevt_c''\<rparr>]"

definition demo_rows :: "event list" where
  "demo_rows = [\<lparr>ev_id = ''sevt_c'', ev_seq = 2, ev_type = EventUserToolConfirm, ev_payload = demo_denial,
     ev_processed = None, ev_created = 2, ev_thread = [], ev_cross = False\<rparr>]"

definition demo_reads :: advance_reads where
  "demo_reads = \<lparr>ar_conf = (\<lambda>_. 40), ar_result = (\<lambda>_. 41), ar_append = (\<lambda>_. demo_K)\<rparr>"

lemma demo_posted_ok: "posted_ok demo_posted" "landed demo_posted demo_rows" "log_plain [asked_call]"
  by (simp_all add: posted_ok_def demo_posted_def demo_denial_def mk_event_def inbound_iff conf_plain_def go_struct_ok_def
      sql_text_def json_get_def go_str_field_def landed_def demo_rows_def log_plain_def log_wf_def asked_call_def
      fold_name_def byte_def fold_rune_def)

lemma asked_calls: "threadCallsOf [asked_call] [] = Inr [call_of [asked_call] asked_call]"
  by (simp add: threadCallsOf_def open_call_def result_row_def asked_call_def toolUseTypes_def toolResultTypes_def go_struct_ok_def)

theorem plan_predicts_settlement_witness:
  "\<exists>p flow st'. Settle (NewAnswerPlan demo_posted) (st_db (demo_store [asked_call])) [] demo_posted (\<lambda>_. False) = Inr (p, flow) \<and>
     AdvanceThreadTools demo_reads (set_log (demo_store [asked_call]) ([asked_call] @ demo_rows)) [] (\<lambda>_. False) = Inr (st', flow) \<and>
     (''sevt_c'' \<in> set (ap_pending p) \<longleftrightarrow> ev_processed (s_log (st_db st') ! 1) = None)"
proof -
  have "s_log (st_db (demo_store [asked_call])) = [asked_call]" "\<not> s_archived (st_db (demo_store [asked_call]))"
    by (simp_all add: demo_store_def demo_session_def)
  with plan_predicts_settlement [of "demo_store [asked_call]" demo_posted demo_rows "[]" _ "\<lambda>_. False" demo_reads] demo_posted_ok asked_calls
  obtain p flow st' where *: "Settle (NewAnswerPlan demo_posted) (st_db (demo_store [asked_call])) [] demo_posted (\<lambda>_. False) = Inr (p, flow)"
    "AdvanceThreadTools demo_reads (set_log (demo_store [asked_call]) ([asked_call] @ demo_rows)) [] (\<lambda>_. False) = Inr (st', flow)"
    "\<forall>j < length demo_posted. isAnswer (ne_type (demo_posted ! j)) \<longrightarrow>
       (ne_id (demo_posted ! j) \<in> set (ap_pending p) \<longleftrightarrow> ev_processed (s_log (st_db st') ! (1 + j)) = None)" by auto
  have "''sevt_c'' \<in> set (ap_pending p) \<longleftrightarrow> ev_processed (s_log (st_db st') ! 1) = None"
    using *(3) by (simp add: demo_posted_def mk_event_def isAnswer_def answerTypes_def)
  with *(1,2) show ?thesis by (intro exI conjI)
qed

section \<open>Settling twice\<close>

lemma find_move:
  "find (\<lambda>r. t_id r = i) (map (move_row j st stop) rs) = map_option (move_row j st stop) (find (\<lambda>r. t_id r = i) rs)"
  by (induction rs) (auto simp: move_row_def)

lemma transition_threads:
  assumes "TransitionThread db t = Inr (db', evs, moved)"
  shows "s_threads db' = s_threads (move_thread db t) \<and> s_id db' = s_id db"
  using assms by (auto simp: TransitionThread_def Let_def move_thread_def split: option.splits if_splits)

lemma SettleTransition_log [simp]: "SettleTransition (db\<lparr>s_log := l\<rparr>) tid flow = SettleTransition db tid flow"
  by (simp add: SettleTransition_def Let_def split: option.split)

lemma settle_after:
  assumes s: "SettleTransition db tid flow = Inr (Some t)" and t: "TransitionThread db t = Inr (db', evs, moved)"
    and row: "has_thread db (if tid = [] then primary_thread_id (s_id db) else tid)"
  shows "SettleTransition db' tid flow = Inr None"
proof -
  let ?i = "if tid = [] then primary_thread_id (s_id db) else tid"
  obtain r where r: "find (\<lambda>r. t_id r = ?i) (s_threads db) = Some r"
    using row by (cases "find (\<lambda>r. t_id r = ?i) (s_threads db)") (auto simp: has_thread_def find_None_iff)
  define want where "want = (if Running flow then SessionRunning else SessionIdle)"
  define stop where "stop = (if Running flow then None else Some \<lparr>stop_type = StopRequiresAction, stop_event_ids = tf_pending flow\<rparr>)"
  have tt: "t = \<lparr>tt_thread = tid, tt_status = want, tt_stop = stop, tt_reemit = (want = SessionIdle), tt_force = False\<rparr>"
    and np: "\<not> (\<not> Running flow \<and> tf_pending flow = [])"
    using s r by (auto simp: SettleTransition_def Let_def want_def stop_def split: if_splits)
  have "find (\<lambda>r. t_id r = ?i) (s_threads db') = Some (move_row ?i want (stored_stop t) r)"
    using transition_threads [OF t] r find_SomeD [OF r] by (simp add: move_thread_def find_move moving_id_def tt)
  then show ?thesis using np transition_threads [OF t] find_SomeD [OF r]
    by (auto simp: SettleTransition_def Let_def move_row_def stored_stop_def tt want_def stop_def)
qed

text \<open>
  Settling is idempotent.  After a thread was settled on a flow, settling it on the same flow
  again writes nothing and emits nothing: the thread already rests there with the same blockers.
\<close>

theorem settle_idempotent:
  assumes "SettleToolFlow K st tid flow = Inr (st', moved)"
    and "has_thread (st_db st) (if tid = [] then primary_thread_id (s_id (st_db st)) else tid)"
  shows "SettleToolFlow K' st' tid flow = Inr (st', None)"
proof -
  obtain o' where o': "SettleTransition (st_db st) tid flow = Inr o'" using assms(1) by (cases "SettleTransition (st_db st) tid flow") (auto simp: SettleToolFlow_def)
  show ?thesis
  proof (cases o')
    case None
    then have "st' = st" using assms(1) o' by (simp add: SettleToolFlow_def)
    then show ?thesis using None o' by (simp add: SettleToolFlow_def)
  next
    case (Some t)
    obtain db evs m where t: "TransitionThread (st_db st) t = Inr (db, evs, m)"
      using assms(1) o' Some by (cases "TransitionThread (st_db st) t") (auto simp: SettleToolFlow_def)
    obtain rows where a: "AppendInTx K (st\<lparr>st_db := db\<rparr>) evs no_opts = Inr (st', rows)"
      using assms(1) o' Some t by (auto simp: SettleToolFlow_def split: sum.splits)
    have "SettleTransition db tid flow = Inr None" by (rule settle_after [OF _ t assms(2)]) (simp add: o' Some)
    then have "SettleTransition (st_db st') tid flow = Inr None" unfolding append_plain [OF a] by simp
    then show ?thesis by (simp add: SettleToolFlow_def)
  qed
qed

theorem settle_idempotent_witness:
  "\<exists>st' moved. SettleToolFlow demo_K ((demo_store [])\<lparr>st_db := demo_db\<lparr>s_log := demo_log\<rparr>\<rparr>) ''sthr_b'' no_flow = Inr (st', moved) \<and>
     SettleToolFlow demo_K st' ''sthr_b'' no_flow = Inr (st', None)"
proof -
  let ?st = "(demo_store [])\<lparr>st_db := demo_db\<lparr>s_log := demo_log\<rparr>\<rparr>"
  obtain db' evs mv where t: "TransitionThread (demo_db\<lparr>s_log := demo_log\<rparr>) (demo_move ''sthr_b'' SessionRunning) = Inr (db', evs, mv)"
      "\<not> s_archived db'" "evs \<noteq> []" and p: "\<forall>ev \<in> set evs. persisted (ne_type ev)"
      "\<forall>ev \<in> set evs. ne_thread ev = [] \<and> primaryStatusEvents (ne_type ev) \<longrightarrow> (\<exists>kvs. ne_payload ev = JObj kvs)"
    using demo_transition by auto
  obtain st' rows where a: "AppendInTx demo_K (?st\<lparr>st_db := db'\<rparr>) evs no_opts = Inr (st', rows)"
    using append_total [of evs no_opts "?st\<lparr>st_db := db'\<rparr>" demo_K] t(2,3) p by (auto simp: empty_append_def no_opts_def)
  have "SettleTransition (demo_db\<lparr>s_log := demo_log\<rparr>) ''sthr_b'' no_flow = Inr (Some (demo_move ''sthr_b'' SessionRunning))"
    by (simp add: SettleTransition_def Running_def no_flow_def demo_defs)
  with t(1) a have s: "SettleToolFlow demo_K ?st ''sthr_b'' no_flow = Inr (st', mv)" by (simp add: SettleToolFlow_def)
  have "SettleToolFlow demo_K st' ''sthr_b'' no_flow = Inr (st', None)"
    by (rule settle_idempotent [OF s]) (simp add: has_thread_def demo_defs)
  with s show ?thesis by (intro exI conjI)
qed

section \<open>What a send leaves awaited\<close>

definition still_awaited :: "(nat \<Rightarrow> bool) \<Rightarrow> nat \<Rightarrow> new_event list \<Rightarrow> awaited_response \<Rightarrow> bool" where
  "still_awaited reaches n posted a \<longleftrightarrow>
     \<not> (\<exists>j < length posted. ne_type (posted ! j) = EventUserInterrupt \<and> reaches (n + j)) \<and>
     \<not> (\<exists>ev \<in> set posted. (ne_type ev = EventUserToolResult \<or> ne_type ev = EventUserCustomToolRes) \<and> answerRef ev = aw_id a) \<and>
     (aw_confirmation a \<and> \<not> (\<exists>ev \<in> set posted. ne_type ev = EventUserToolConfirm \<and> answerRef ev = aw_id a) \<or>
      aw_result a \<and> \<not> (\<exists>ev \<in> set posted. ne_type ev = EventUserToolConfirm \<and> answerRef ev = aw_id a \<and> denies (Some (ne_payload ev))))"

definition opens_input :: "new_event \<Rightarrow> bool" where
  "opens_input ev \<longleftrightarrow> ne_type ev = EventUserMessage \<or> ne_type ev = EventUserDefineOutcome"

fun first_input :: "nat \<Rightarrow> new_event list \<Rightarrow> (nat \<times> event_type) option" where
  "first_input n [] = None"
| "first_input n (ev # evs) = (if opens_input ev then Some (n, ne_type ev) else first_input (Suc n) evs)"

lemma all_Suc: "(\<exists>j < Suc n. P j) \<longleftrightarrow> P 0 \<or> (\<exists>j < n. P (Suc j))"
  using less_Suc_eq_0_disj by auto

lemma still_Cons:
  "still_awaited reaches n (ev # evs) a \<longleftrightarrow>
     (if ne_type ev = EventUserInterrupt \<and> reaches n then False
      else if (ne_type ev = EventUserToolResult \<or> ne_type ev = EventUserCustomToolRes) \<and> answerRef ev = aw_id a then False
      else if ne_type ev = EventUserToolConfirm \<and> answerRef ev = aw_id a
      then still_awaited reaches (Suc n) evs (a\<lparr>aw_confirmation := False, aw_result := (aw_result a \<and> \<not> denies (Some (ne_payload ev)))\<rparr>)
      else still_awaited reaches (Suc n) evs a)"
  unfolding still_awaited_def by (simp add: all_Suc) blast

lemma scan_first: "snd (awaiting_scan reaches n posted awaited first) = (if first = None then first_input n posted else first)"
  by (induction posted arbitrary: n awaited first) (auto simp: opens_input_def)

lemma scan_left:
  "list_all (\<lambda>a. aw_confirmation a \<or> aw_result a) awaited \<Longrightarrow>
   map aw_id (fst (awaiting_scan reaches n posted awaited first)) = map aw_id (filter (still_awaited reaches n posted) awaited)"
proof (induction posted arbitrary: n awaited first)
  case Nil
  have "filter (still_awaited reaches n []) awaited = awaited"
    using Nil by (auto simp: filter_id_conv still_awaited_def list_all_iff)
  then show ?case by simp
next
  case (Cons ev evs)
  let ?still = "still_awaited reaches (Suc n) evs"
  consider (res) "ne_type ev = EventUserToolResult \<or> ne_type ev = EventUserCustomToolRes"
    | (conf) "ne_type ev = EventUserToolConfirm" | (intr) "ne_type ev = EventUserInterrupt"
    | (other) "ne_type ev \<notin> {EventUserToolResult, EventUserCustomToolRes, EventUserToolConfirm, EventUserInterrupt}" by auto
  then show ?case
  proof cases
    case res
    have "filter ?still (filter (\<lambda>a. aw_id a \<noteq> answerRef ev) awaited) = filter (still_awaited reaches n (ev # evs)) awaited"
      unfolding filter_filter by (rule filter_cong) (use res in \<open>auto simp: still_Cons\<close>)
    with res Cons show ?thesis by (auto simp: list_all_iff)
  next
    case conf
    let ?f = "\<lambda>a. if aw_id a = answerRef ev then a\<lparr>aw_confirmation := False, aw_result := (aw_result a \<and> \<not> denies (Some (ne_payload ev)))\<rparr> else a"
    let ?aw = "filter (\<lambda>a. \<not> (\<not> aw_confirmation a \<and> \<not> aw_result a)) (map ?f awaited)"
    have "filter ?still ?aw = filter ?still (map ?f awaited)"
      unfolding filter_filter by (rule filter_cong) (auto simp: still_awaited_def)
    also have "\<dots> = map ?f (filter (still_awaited reaches n (ev # evs)) awaited)"
      unfolding filter_map comp_def by (rule arg_cong [where f = "map ?f"], rule filter_cong) (use conf in \<open>auto simp: still_Cons\<close>)
    finally have "map aw_id (filter ?still ?aw) = map aw_id (filter (still_awaited reaches n (ev # evs)) awaited)" by simp
    moreover have "list_all (\<lambda>a. aw_confirmation a \<or> aw_result a) ?aw" by (auto simp: list_all_iff)
    ultimately show ?thesis using conf Cons.IH [of ?aw "Suc n" first] by (simp del: map_map)
  next
    case intr
    then show ?thesis using Cons.IH [OF Cons.prems] by (auto simp: still_Cons Cons.IH [of "[]"])
  next
    case other
    then have "filter (still_awaited reaches n (ev # evs)) awaited = filter ?still awaited" by (intro filter_cong) (auto simp: still_Cons)
    with other Cons.IH [OF Cons.prems] show ?thesis by simp
  qed
qed

text \<open>
  A send is refused while the primary waits exactly when it carries a message or an outcome and
  some response is still awaited once all its own answers are in, wherever in the send they stand:
  not after an interrupt that reaches the primary, not for a call with a result, a confirmation
  only while none came, a result unless a denial came.  The refusal names the first such event and
  the responses still awaited.
\<close>

theorem awaiting_refusal:
  assumes "list_all (\<lambda>a. aw_confirmation a \<or> aw_result a) awaited"
  shows "CheckWhileAwaiting awaited posted reaches =
    (case first_input 0 posted of
       None \<Rightarrow> None
     | Some (i, t) \<Rightarrow> let ids = map aw_id (filter (still_awaited reaches 0 posted) awaited) in
         if ids = [] then None else Some \<lparr>wa_type = t, wa_index = i, wa_ids = ids\<rparr>)"
proof -
  let ?s = "awaiting_scan reaches 0 posted awaited None"
  have l: "map aw_id (fst ?s) = map aw_id (filter (still_awaited reaches 0 posted) awaited)" by (rule scan_left [OF assms])
  moreover have "snd ?s = first_input 0 posted" using scan_first [of reaches 0 posted awaited None] by simp
  ultimately show ?thesis
    by (cases ?s) (auto simp: CheckWhileAwaiting_def Let_def split: option.splits)
qed

theorem awaiting_refusal_witness:
  "CheckWhileAwaiting [\<lparr>aw_id = ''sevt_a'', aw_confirmation = True, aw_result = False\<rparr>, \<lparr>aw_id = ''sevt_b'', aw_confirmation = False, aw_result = True\<rparr>]
     [mk_event EventUserMessage (JObj []), (mk_event EventUserToolConfirm demo_denial)\<lparr>ne_id := ''sevt_c''\<rparr>] (\<lambda>_. False)
   = Some \<lparr>wa_type = EventUserMessage, wa_index = 0, wa_ids = [''sevt_b'']\<rparr>"
proof -
  let ?aw = "[\<lparr>aw_id = ''sevt_a'', aw_confirmation = True, aw_result = False\<rparr>, \<lparr>aw_id = ''sevt_b'', aw_confirmation = False, aw_result = True\<rparr>]"
  let ?p = "[mk_event EventUserMessage (JObj []), (mk_event EventUserToolConfirm demo_denial)\<lparr>ne_id := ''sevt_c''\<rparr>]"
  have ref: "answerRef (?p ! 1) = ''sevt_a''"
    by (simp add: answerRef_def mk_event_def demo_denial_def go_str_field_def fold_name_def byte_def fold_rune_def)
  have "list_all (\<lambda>a. aw_confirmation a \<or> aw_result a) ?aw" by simp
  from awaiting_refusal [OF this, of ?p "\<lambda>_. False"] ref show ?thesis
    by (simp add: still_awaited_def opens_input_def Let_def) (simp add: mk_event_def)
qed

end
