(* ===== verification/Go_Time.thy ===== *)
theory Go_Time
  imports Main "HOL-Library.Product_Lexorder"
begin

text \<open>
  The part of Go's \<^verbatim>\<open>time\<close> package the scheduler uses: the proleptic Gregorian calendar of
  \<^verbatim>\<open>time.Date\<close> in UTC and of the fields \<^verbatim>\<open>Year\<close>, \<^verbatim>\<open>Month\<close>, \<^verbatim>\<open>Day\<close>,
  \<^verbatim>\<open>Hour\<close>, \<^verbatim>\<open>Minute\<close>, \<^verbatim>\<open>Weekday\<close>.  A wall clock is a tuple, compared
  lexicographically; \<open>minute\<close> counts it in minutes since 1970 and \<open>wall_of\<close> reads a count back.  The
  two are inverse and monotone on valid wall clocks.
\<close>

type_synonym wall = "int \<times> nat \<times> nat \<times> nat \<times> nat"
  \<comment> \<open>year, month, day, hour, minute\<close>

section \<open>The calendar\<close>

definition leap :: "int \<Rightarrow> bool" where
  "leap y \<longleftrightarrow> y mod 4 = 0 \<and> (y mod 100 \<noteq> 0 \<or> y mod 400 = 0)"

definition daysIn :: "int \<Rightarrow> nat \<Rightarrow> nat" where
  "daysIn y mo = (if mo = 2 then (if leap y then 29 else 28) else if mo \<in> {4, 6, 9, 11} then 30 else 31)"

definition before_month :: "int \<Rightarrow> nat \<Rightarrow> nat" where
  "before_month y mo = sum_list (map (daysIn y) [1..<mo])"

definition before_year :: "int \<Rightarrow> int" where
  "before_year y = 365 * (y - 1) + (y - 1) div 4 - (y - 1) div 100 + (y - 1) div 400"

definition epoch_days :: int where
  "epoch_days = 719162"

definition days :: "int \<Rightarrow> nat \<Rightarrow> nat \<Rightarrow> int" where
  "days y mo d = before_year y + int (before_month y mo) + int d - 1 - epoch_days"

definition minute :: "wall \<Rightarrow> int" where
  "minute w = (case w of (y, mo, d, h, mi) \<Rightarrow> (days y mo d * 24 + int h) * 60 + int mi)"

definition weekday :: "int \<Rightarrow> nat \<Rightarrow> nat \<Rightarrow> nat" where
  "weekday y mo d = nat ((days y mo d + 4) mod 7)"

definition valid :: "wall \<Rightarrow> bool" where
  "valid w = (case w of (y, mo, d, h, mi) \<Rightarrow> 1 \<le> mo \<and> mo \<le> 12 \<and> 1 \<le> d \<and> d \<le> daysIn y mo \<and> h < 24 \<and> mi < 60)"

lemma step_div: "(y :: int) div k = (y - 1) div k + (if y mod k = 0 then 1 else 0)" if "0 < k"
proof (cases "y mod k = 0")
  case True
  then have y: "y = k * (y div k)" using mult_div_mod_eq [of k y] by simp
  have "k * (y div k - 1) = k * (y div k) - k" by (simp add: right_diff_distrib)
  with y have "y - 1 = k * (y div k - 1) + (k - 1)" by linarith
  then have "(y - 1) div k = y div k - 1" by (rule int_div_pos_eq) (use that in auto)
  with True show ?thesis by simp
next
  case False
  have "y - 1 = k * (y div k) + (y mod k - 1)" by simp
  moreover have "0 < y mod k" using False pos_mod_sign [OF that, of y] by linarith
  ultimately have "(y - 1) div k = y div k" using pos_mod_bound [OF that, of y] by (intro int_div_pos_eq [of _ _ _ "y mod k - 1"]) auto
  with False show ?thesis by simp
qed

lemma mod_400: "(y :: int) mod 400 = 0 \<Longrightarrow> y mod 100 = 0" "(y :: int) mod 100 = 0 \<Longrightarrow> y mod 4 = 0"
  using dvd_trans [of 100 400 y] dvd_trans [of 4 100 y] by (simp_all add: dvd_eq_mod_eq_0)

lemma before_year_Suc: "before_year (y + 1) = before_year y + (if leap y then 366 else 365)"
proof -
  define a b c a' b' c' where n: "a = y div 4" "b = y div 100" "c = y div 400" "a' = (y - 1) div 4" "b' = (y - 1) div 100" "c' = (y - 1) div 400"
  define p q r where m: "p \<longleftrightarrow> y mod 4 = 0" "q \<longleftrightarrow> y mod 100 = 0" "r \<longleftrightarrow> y mod 400 = 0"
  have "a = a' + (if p then 1 else 0)" "b = b' + (if q then 1 else 0)" "c = c' + (if r then 1 else 0)"
    unfolding n m by (rule step_div; simp)+
  moreover have "before_year (y + 1) = 365 * y + a - b + c" "before_year y = 365 * y - 365 + a' - b' + c'"
    by (simp_all add: before_year_def n)
  moreover have "leap y \<longleftrightarrow> p \<and> (\<not> q \<or> r)" by (simp add: leap_def m)
  moreover have "r \<longrightarrow> q" "q \<longrightarrow> p" using mod_400 [of y] by (simp_all add: m)
  ultimately show ?thesis by (cases p; cases q; cases r) simp_all
qed

lemma before_year_mono_Suc: "before_year y + 365 * int k \<le> before_year (y + int k)"
proof (induction k)
  case (Suc k)
  have "before_year (y + int (Suc k)) = before_year (y + int k) + (if leap (y + int k) then 366 else 365)"
    using before_year_Suc [of "y + int k"] by (simp add: algebra_simps)
  with Suc show ?case by (simp split: if_splits)
qed simp

lemma before_year_mono: "y \<le> y' \<Longrightarrow> before_year y + 365 * (y' - y) \<le> before_year y'"
  using before_year_mono_Suc [of y "nat (y' - y)"] by simp

lemma before_month_Suc: "1 \<le> mo \<Longrightarrow> before_month y (Suc mo) = before_month y mo + daysIn y mo"
  by (simp add: before_month_def)

lemma before_month_mono: "1 \<le> m \<Longrightarrow> m \<le> m' \<Longrightarrow> before_month y m \<le> before_month y m'"
proof (induction m')
  case (Suc n)
  then show ?case by (cases "m \<le> n") (auto simp: before_month_Suc le_Suc_eq)
qed simp

lemma before_month_13: "before_month y 13 = (if leap y then 366 else 365)"
  by (simp add: before_month_def daysIn_def upt_rec)

lemma day_of_year:
  assumes "1 \<le> mo" "mo \<le> 12" "d \<le> daysIn y mo"
  shows "before_month y mo + d \<le> (if leap y then 366 else 365)"
proof -
  have "before_month y mo + d \<le> before_month y (Suc mo)" using assms by (simp add: before_month_Suc)
  also have "\<dots> \<le> before_month y 13" using assms by (intro before_month_mono) simp_all
  finally show ?thesis by (simp add: before_month_13)
qed

section \<open>Monotonicity\<close>

lemma days_mono:
  assumes v: "1 \<le> mo" "mo \<le> 12" "1 \<le> d" "d \<le> daysIn y mo" and v': "1 \<le> mo'" "mo' \<le> 12" "1 \<le> d'" "d' \<le> daysIn y' mo'"
    and l: "(y, mo, d) < (y', mo', d')"
  shows "days y mo d < days y' mo' d'"
proof -
  consider "y < y'" | "y = y'" "mo < mo'" | "y = y'" "mo = mo'" "d < d'" using l by (auto simp: less_prod_def')
  then show ?thesis
  proof cases
    case 1
    have "int (before_month y mo + d) \<le> (if leap y then 366 else 365)" using day_of_year [OF v(1,2,4)] by (simp split: if_splits)
    moreover have "before_year (y + 1) \<le> before_year y'" using before_year_mono [of "y + 1" y'] 1 by simp
    ultimately show ?thesis using before_year_Suc [of y] v'(3) unfolding days_def by (simp split: if_splits)
  next
    case 2
    have "before_month y (Suc mo) \<le> before_month y mo'" using 2 v(1) by (intro before_month_mono) simp_all
    then show ?thesis using 2 v v'(3) by (simp add: days_def before_month_Suc)
  next
    case 3
    then show ?thesis by (simp add: days_def)
  qed
qed

lemma minute_mono: "valid v \<Longrightarrow> valid w \<Longrightarrow> v < w \<Longrightarrow> minute v < minute w"
proof -
  assume a: "valid v" "valid w" "v < w"
  obtain y mo d h mi where v: "v = (y, mo, d, h, mi)" by (cases v)
  obtain y' mo' d' h' mi' where w: "w = (y', mo', d', h', mi')" by (cases w)
  consider "(y, mo, d) < (y', mo', d')" | "y = y'" "mo = mo'" "d = d'" "h < h' \<or> h = h' \<and> mi < mi'"
    using a(3) by (auto simp: v w less_prod_def')
  then show ?thesis
  proof cases
    case 1
    then have "days y mo d < days y' mo' d'" using a(1,2) by (intro days_mono) (simp_all add: valid_def v w)
    then have "days y mo d + 1 \<le> days y' mo' d'" by simp
    then show ?thesis using a(1,2) by (simp add: minute_def v w valid_def)
  next
    case 2
    then show ?thesis using a(1,2) by (auto simp: minute_def v w valid_def)
  qed
qed

lemma minute_le_iff: "valid v \<Longrightarrow> valid w \<Longrightarrow> minute v \<le> minute w \<longleftrightarrow> v \<le> w"
  using minute_mono [of v w] minute_mono [of w v] by (cases v w rule: linorder_cases) auto

lemma minute_inj: "valid v \<Longrightarrow> valid w \<Longrightarrow> minute v = minute w \<longleftrightarrow> v = w"
  using minute_mono [of v w] minute_mono [of w v] by (cases v w rule: linorder_cases) auto

section \<open>Reading a wall clock\<close>

function year_of :: "int \<Rightarrow> int \<Rightarrow> int" where
  "year_of z y = (if z < before_year y then year_of z (y - 1)
     else if before_year (y + 1) \<le> z then year_of z (y + 1) else y)"
  by pat_completeness auto
termination
proof (relation "measure (\<lambda>(z, y). if z < before_year y then Suc (nat (before_year y - z)) else nat (z + 1 - before_year (y + 1)))", goal_cases)
  case (2 z y)
  have "before_year y = before_year (y - 1) + (if leap (y - 1) then 366 else 365)" using before_year_Suc [of "y - 1"] by simp
  with 2 show ?case by (simp split: if_splits) 
next
  case (3 z y)
  with before_year_Suc [of y] before_year_Suc [of "y + 1"] show ?case by (simp split: if_splits)
qed simp

declare year_of.simps [simp del]

function month_of :: "int \<Rightarrow> nat \<Rightarrow> nat \<Rightarrow> nat \<times> nat" where
  "month_of y mo doy = (if mo \<ge> 12 \<or> doy < daysIn y mo then (mo, doy + 1) else month_of y (Suc mo) (doy - daysIn y mo))"
  by pat_completeness auto
termination
  by (relation "measure (\<lambda>(y, mo, doy). 12 - mo)") auto

declare month_of.simps [simp del]

definition date_of :: "int \<Rightarrow> int \<times> nat \<times> nat" where
  "date_of z = (let n = z + epoch_days; y = year_of n (n * 400 div 146097 + 1) in (y, month_of y 1 (nat (n - before_year y))))"

definition wall_of :: "int \<Rightarrow> wall" where
  "wall_of m = (let (y, mo, d) = date_of (m div 1440); r = nat (m mod 1440) in (y, mo, d, r div 60, r mod 60))"

lemma year_of_correct: "before_year (year_of z y) \<le> z \<and> z < before_year (year_of z y + 1)"
proof (induction z y rule: year_of.induct)
  case (1 z y)
  then show ?case by (subst (1 2) year_of.simps) (auto simp: not_less)
qed

lemma month_of_correct:
  "1 \<le> mo \<Longrightarrow> mo \<le> 12 \<Longrightarrow> before_month y mo + doy < (if leap y then 366 else 365) \<Longrightarrow> month_of y mo doy = (mo', d) \<Longrightarrow>
   1 \<le> mo' \<and> mo' \<le> 12 \<and> 1 \<le> d \<and> d \<le> daysIn y mo' \<and> before_month y mo' + d = before_month y mo + doy + 1"
proof (induction y mo doy arbitrary: rule: month_of.induct)
  case (1 y mo doy)
  show ?case
  proof (cases "mo \<ge> 12 \<or> doy < daysIn y mo")
    case True
    then have r: "mo' = mo" "d = doy + 1" using 1(5) by (simp_all add: month_of.simps [of y mo doy])
    have "doy < daysIn y mo"
    proof (cases "doy < daysIn y mo")
      case False
      then have "mo = 12" using True 1(3) by simp
      then show ?thesis using 1(4) before_month_13 [of y] before_month_Suc [of 12 y] by simp
    qed
    then show ?thesis using r 1(2,3) by simp
  next
    case False
    then have "month_of y (Suc mo) (doy - daysIn y mo) = (mo', d)" using 1(5) by (simp add: month_of.simps [of y mo doy])
    moreover have "before_month y (Suc mo) + (doy - daysIn y mo) = before_month y mo + doy" using False 1(2) by (simp add: before_month_Suc)
    ultimately show ?thesis using 1(1) [OF False] 1(2-4) False by simp
  qed
qed

lemma date_of_correct:
  assumes "date_of z = (y, mo, d)"
  shows "1 \<le> mo \<and> mo \<le> 12 \<and> 1 \<le> d \<and> d \<le> daysIn y mo \<and> days y mo d = z"
proof -
  let ?n = "z + epoch_days"
  have y: "y = year_of ?n (?n * 400 div 146097 + 1)" and m: "month_of y 1 (nat (?n - before_year y)) = (mo, d)"
    using assms by (auto simp: date_of_def Let_def)
  have b: "before_year y \<le> ?n" "?n < before_year (y + 1)" using year_of_correct y by auto
  have z: "before_month y 1 = 0" by (simp add: before_month_def)
  have "before_month y 1 + nat (?n - before_year y) < (if leap y then 366 else 365)"
    using b before_year_Suc [of y] z by (simp add: nat_less_iff split: if_splits)
  from month_of_correct [OF _ _ this m] b z show ?thesis by (auto simp: days_def)
qed

lemma wall_of_correct: "valid (wall_of m) \<and> minute (wall_of m) = m"
proof -
  obtain y mo d where d: "date_of (m div 1440) = (y, mo, d)" by (cases "date_of (m div 1440)")
  let ?r = "nat (m mod 1440)"
  have r: "?r < 1440" by (simp add: nat_less_iff)
  have w: "wall_of m = (y, mo, d, ?r div 60, ?r mod 60)" by (simp add: wall_of_def d Let_def)
  have "int (?r div 60) * 60 + int (?r mod 60) = m mod 1440" by (simp add: zdiv_int zmod_int)
  moreover have "minute (wall_of m) = (m div 1440) * 1440 + (int (?r div 60) * 60 + int (?r mod 60))"
    using date_of_correct [OF d] by (simp add: w minute_def)
  ultimately have "minute (wall_of m) = m" using div_mult_mod_eq [of m 1440] by linarith
  moreover have "valid (wall_of m)" using date_of_correct [OF d] r by (simp add: w valid_def less_mult_imp_div_less)
  ultimately show ?thesis by simp
qed

lemma valid_wall_of [simp]: "valid (wall_of m)" and minute_wall_of [simp]: "minute (wall_of m) = m"
  using wall_of_correct by simp_all

lemma wall_of_eq: "valid w \<Longrightarrow> wall_of m = w \<longleftrightarrow> m = minute w"
  by (metis minute_inj minute_wall_of valid_wall_of)

end
