(* ===== verification/Cron.thy ===== *)
theory Cron
  imports Go_Prelude Go_Time
begin

text \<open>
  \<^verbatim>\<open>internal/cron/cron.go\<close>: the occurrence engine behind a deployment's schedule.  Instants are
  integers in nanoseconds since 1970.  A \<^verbatim>\<open>time.Location\<close> is its offset function: the seconds
  east of UTC in effect at a Unix second; \<^verbatim>\<open>time.LoadLocation\<close> over the embedded database is
  the parameter \<open>tzdata\<close>.
\<close>

section \<open>Parsing\<close>

datatype cron_error =
    FieldCount nat
  | EmptyElement string string
  | BadStep string string
  | BackwardRange string string
  | NotANumber string string
  | OutOfRange int string
  | WindowBackwards
  | NegativeCount int
  | TimezoneRequired
  | TimezoneLocal
  | TimezoneUnknown string

record field_spec =
  f_name :: string
  f_min :: nat
  f_max :: nat

definition cron_fields :: "field_spec list" where
  "cron_fields =
     [\<lparr>f_name = ''minute'', f_min = 0, f_max = 59\<rparr>, \<lparr>f_name = ''hour'', f_min = 0, f_max = 23\<rparr>,
      \<lparr>f_name = ''day-of-month'', f_min = 1, f_max = 31\<rparr>, \<lparr>f_name = ''month'', f_min = 1, f_max = 12\<rparr>,
      \<lparr>f_name = ''day-of-week'', f_min = 0, f_max = 7\<rparr>]"

type_synonym mask = "bool list"

record schedule =
  sc_minute :: mask
  sc_hour :: mask
  sc_dom :: mask
  sc_month :: mask
  sc_dow :: mask
  sc_dom_restricted :: bool
  sc_dow_restricted :: bool

definition parseValue :: "string \<Rightarrow> field_spec \<Rightarrow> cron_error + nat" where
  "parseValue s f = (case atoi s of None \<Rightarrow> Inl (NotANumber s (f_name f))
     | Some v \<Rightarrow> if v < int (f_min f) \<or> v > int (f_max f) then Inl (OutOfRange v (f_name f)) else Inr (nat v))"

text \<open>The loop over a range: the increment is taken only while it stays within the range.\<close>

function set_range :: "nat \<Rightarrow> nat \<Rightarrow> nat \<Rightarrow> mask \<Rightarrow> mask" where
  "set_range v hi step m =
     (if v \<le> hi \<and> step > 0 then (let m' = m[v := True] in if hi - v < step then m' else set_range (v + step) hi step m') else m)"
  by pat_completeness auto
termination
  by (relation "measure (\<lambda>(v, hi, step, m). Suc hi - v)") auto

declare set_range.simps [simp del]

text \<open>One comma-separated element: its first value, its last and its step.\<close>

definition parseElem :: "string \<Rightarrow> field_spec \<Rightarrow> string \<Rightarrow> cron_error + nat \<times> nat \<times> nat" where
  "parseElem part f elem =
     (if elem = [] then Inl (EmptyElement (f_name f) part)
      else let (rng, stepStr, hasStep) = cut (CHR ''/'') elem in
        case (if hasStep then (case atoi stepStr of None \<Rightarrow> None | Some n \<Rightarrow> if n < 1 then None else Some (nat n)) else Some 1) of
          None \<Rightarrow> Inl (BadStep stepStr (f_name f))
        | Some step \<Rightarrow>
            if rng = ''*'' then Inr (f_min f, f_max f, step)
            else let (loStr, hiStr, isRange) = cut (CHR ''-'') rng in
              case parseValue loStr f of Inl e \<Rightarrow> Inl e
              | Inr lo \<Rightarrow>
                  if isRange
                  then (case parseValue hiStr f of Inl e \<Rightarrow> Inl e
                        | Inr hi \<Rightarrow> if hi < lo then Inl (BackwardRange rng (f_name f)) else Inr (lo, hi, step))
                  else if hasStep then Inr (lo, f_max f, step) else Inr (lo, lo, step))"

fun parse_elems :: "string \<Rightarrow> field_spec \<Rightarrow> string list \<Rightarrow> mask \<Rightarrow> cron_error + mask" where
  "parse_elems part f [] m = Inr m"
| "parse_elems part f (e # es) m = (case parseElem part f e of Inl err \<Rightarrow> Inl err
     | Inr (lo, hi, step) \<Rightarrow> parse_elems part f es (set_range lo hi step m))"

definition parseField :: "string \<Rightarrow> field_spec \<Rightarrow> mask \<Rightarrow> cron_error + mask" where
  "parseField part f m = parse_elems part f (split_on (CHR '','') part) m"

definition empty_mask :: mask where
  "empty_mask = replicate 64 False"

fun parse_masks :: "string list \<Rightarrow> field_spec list \<Rightarrow> cron_error + mask list" where
  "parse_masks (p # ps) (f # fs) = (case parseField p f empty_mask of Inl e \<Rightarrow> Inl e
     | Inr m \<Rightarrow> (case parse_masks ps fs of Inl e \<Rightarrow> Inl e | Inr ms \<Rightarrow> Inr (m # ms)))"
| "parse_masks _ _ = Inr []"

definition parse :: "string \<Rightarrow> cron_error + schedule" where
  "parse expr =
     (let parts = Go_Prelude.fields expr in
      if length parts \<noteq> 5 then Inl (FieldCount (length parts))
      else case parse_masks parts cron_fields of
        Inl e \<Rightarrow> Inl e
      | Inr ms \<Rightarrow> Inr \<lparr>sc_minute = ms ! 0, sc_hour = ms ! 1, sc_dom = ms ! 2, sc_month = ms ! 3,
          sc_dow = (if (ms ! 4) ! 7 then (ms ! 4)[0 := True] else ms ! 4),
          sc_dom_restricted = (parts ! 2 \<noteq> ''*''), sc_dow_restricted = (parts ! 4 \<noteq> ''*'')\<rparr>)"

definition RestrictsBothDays :: "string \<Rightarrow> cron_error + bool" where
  "RestrictsBothDays expr = (case parse expr of Inl e \<Rightarrow> Inl e | Inr s \<Rightarrow> Inr (sc_dom_restricted s \<and> sc_dow_restricted s))"

section \<open>Locations\<close>

type_synonym zone = "int \<Rightarrow> int"

definition loadLocation :: "(string \<Rightarrow> zone option) \<Rightarrow> string \<Rightarrow> cron_error + zone" where
  "loadLocation tzdata tz = (if tz = [] then Inl TimezoneRequired else if tz = ''Local'' then Inl TimezoneLocal
     else case tzdata tz of None \<Rightarrow> Inl (TimezoneUnknown tz) | Some z \<Rightarrow> Inr z)"

definition compile :: "(string \<Rightarrow> zone option) \<Rightarrow> string \<Rightarrow> string \<Rightarrow> cron_error + schedule \<times> zone" where
  "compile tzdata expr tz = (case parse expr of Inl e \<Rightarrow> Inl e
     | Inr s \<Rightarrow> (case loadLocation tzdata tz of Inl e \<Rightarrow> Inl e | Inr z \<Rightarrow> Inr (s, z)))"

definition second :: int where
  "second = 1000000000"

definition hour :: int where
  "hour = 3600 * second"

definition utc :: "wall \<Rightarrow> int" where
  "utc w = minute w * 60 * second"
  \<comment> \<open>time.Date(y, mo, d, h, mi, 0, 0, time.UTC)\<close>

text \<open>The wall clock an instant renders as in a location, to the minute, and its local Unix second.\<close>

definition local_second :: "zone \<Rightarrow> int \<Rightarrow> int" where
  "local_second z t = t div second + z (t div second)"

definition in_loc :: "zone \<Rightarrow> int \<Rightarrow> wall" where
  "in_loc z t = wall_of (local_second z t div 60)"

section \<open>Stepping\<close>

definition SearchYears :: int where
  "SearchYears = 12"

definition ambiguityMargin :: int where
  "ambiguityMargin = 3 * hour"

definition matchesDay :: "schedule \<Rightarrow> int \<Rightarrow> nat \<Rightarrow> nat \<Rightarrow> bool" where
  "matchesDay s y mo d =
     (let dom = sc_dom s ! d; dow = sc_dow s ! weekday y mo d in
      if sc_dom_restricted s \<and> sc_dow_restricted s then dom \<or> dow
      else if sc_dom_restricted s then dom
      else if sc_dow_restricted s then dow
      else True)"

definition nextMonth :: "int \<Rightarrow> nat \<Rightarrow> wall" where
  "nextMonth y mo = (if mo + 1 > 12 then (y + 1, 1, 1, 0, 0) else (y, mo + 1, 1, 0, 0))"

definition nextDay :: "int \<Rightarrow> nat \<Rightarrow> nat \<Rightarrow> wall" where
  "nextDay y mo d = (if d + 1 > daysIn y mo then nextMonth y mo else (y, mo, d + 1, 0, 0))"

definition nextHour :: "int \<Rightarrow> nat \<Rightarrow> nat \<Rightarrow> nat \<Rightarrow> wall" where
  "nextHour y mo d h = (if h + 1 > 23 then nextDay y mo d else (y, mo, d, h + 1, 0))"

definition nextMinute :: "int \<Rightarrow> nat \<Rightarrow> nat \<Rightarrow> nat \<Rightarrow> nat \<Rightarrow> wall" where
  "nextMinute y mo d h mi = (if mi + 1 > 59 then nextHour y mo d h else (y, mo, d, h, mi + 1))"

definition probe_offsets :: "zone \<Rightarrow> wall \<Rightarrow> int list" where
  "probe_offsets z w = (case w of (y, mo, d, _, _) \<Rightarrow>
     let p = utc (y, mo, d, 12, 0) in
     foldl (\<lambda>offs t. let o' = z (t div second) in if o' \<in> set offs then offs else offs @ [o']) []
       [p - 36 * hour, p, p + 36 * hour])"

definition instantsFor :: "zone \<Rightarrow> wall \<Rightarrow> int list" where
  "instantsFor z w = sort (foldl (\<lambda>out off. let u = utc w - off * second in
     if in_loc z u = w \<and> u \<notin> set out then out @ [u] else out) [] (probe_offsets z w))"

section \<open>The walk\<close>

text \<open>How many steps are ahead at most: every step of the cursor lowers it.\<close>

fun ahead :: "int \<Rightarrow> wall \<Rightarrow> nat" where
  "ahead ly (y, mo, d, h, mi) = (((nat (ly + 1 - y) * 14 + (13 - mo)) * 33 + (32 - d)) * 25 + (24 - h)) * 61 + (60 - mi)"

lemma daysIn_le: "daysIn y mo \<le> 31"
  by (simp add: daysIn_def)

lemma ahead_month: "y \<le> ly \<Longrightarrow> ahead ly (nextMonth y mo) < ahead ly (y, mo, d, h, mi)"
proof (cases "mo + 1 > 12")
  case True
  assume "y \<le> ly"
  then have "nat (ly + 1 - y) = Suc (nat (ly - y))" by simp
  with True show ?thesis by (simp add: nextMonth_def)
next
  case False
  then have "13 - mo = Suc (12 - mo)" by simp
  with False show ?thesis by (simp add: nextMonth_def)
qed

lemma ahead_day: "y \<le> ly \<Longrightarrow> ahead ly (nextDay y mo d) < ahead ly (y, mo, d, h, mi)"
proof (cases "d + 1 > daysIn y mo")
  case False
  then have "32 - d = Suc (31 - d)" using daysIn_le [of y mo] by simp
  with False show ?thesis by (simp add: nextDay_def)
qed (simp add: nextDay_def ahead_month del: ahead.simps)

lemma ahead_hour: "y \<le> ly \<Longrightarrow> ahead ly (nextHour y mo d h) < ahead ly (y, mo, d, h, mi)"
proof (cases "h + 1 > 23")
  case False
  then have "24 - h = Suc (23 - h)" by simp
  with False show ?thesis by (simp add: nextHour_def)
qed (simp add: nextHour_def ahead_day del: ahead.simps)

lemma ahead_minute: "y \<le> ly \<Longrightarrow> ahead ly (nextMinute y mo d h mi) < ahead ly (y, mo, d, h, mi)"
proof (cases "mi + 1 > 59")
  case False
  then have "60 - mi = Suc (59 - mi)" by simp
  with False show ?thesis by (simp add: nextMinute_def)
qed (simp add: nextMinute_def ahead_hour del: ahead.simps)

lemmas ahead_next = ahead_month ahead_day ahead_hour ahead_minute

text \<open>\<open>til\<close> is absent for no upper bound, \<open>n\<close> negative for no count limit.\<close>

function walk_loop :: "schedule \<Rightarrow> zone \<Rightarrow> int \<Rightarrow> int option \<Rightarrow> int \<Rightarrow> int \<Rightarrow> wall \<Rightarrow> int option \<Rightarrow> int list \<Rightarrow> int list" where
  "walk_loop s z after til n lastYear (y, mo, d, h, mi) stopAt out =
     (if y > lastYear then out
      else if \<not> sc_month s ! mo then walk_loop s z after til n lastYear (nextMonth y mo) stopAt out
      else if \<not> matchesDay s y mo d then walk_loop s z after til n lastYear (nextDay y mo d) stopAt out
      else if \<not> sc_hour s ! h then walk_loop s z after til n lastYear (nextHour y mo d h) stopAt out
      else if \<not> sc_minute s ! mi then walk_loop s z after til n lastYear (nextMinute y mo d h mi) stopAt out
      else
        let naive = utc (y, mo, d, h, mi) in
        if (case stopAt of None \<Rightarrow> False | Some t \<Rightarrow> naive > t) then out
        else
          let out' = out @ filter (\<lambda>u. u > after \<and> (case til of None \<Rightarrow> True | Some t \<Rightarrow> u \<le> t)) (instantsFor z (y, mo, d, h, mi));
              stopAt' = (if n > 0 \<and> stopAt = None \<and> int (length out') \<ge> n then Some (naive + ambiguityMargin) else stopAt)
          in walk_loop s z after til n lastYear (nextMinute y mo d h mi) stopAt' out')"
  by pat_completeness auto
termination
  by (relation "measure (\<lambda>(s, z, a, u, n, ly, w, st, out). ahead ly w)")
     (auto simp: ahead_next simp del: ahead.simps)

declare walk_loop.simps [simp del]

definition sortUnique :: "int list \<Rightarrow> int list" where
  "sortUnique ts = remdups_adj (sort ts)"

definition walk :: "schedule \<Rightarrow> zone \<Rightarrow> int \<Rightarrow> int option \<Rightarrow> int \<Rightarrow> int list" where
  "walk s z after til n =
     (let lastYear = fst (in_loc z after) + SearchYears;
          stopAt = map_option (\<lambda>t. utc (in_loc z t) + ambiguityMargin) til;
          out = sortUnique (walk_loop s z after til n lastYear (in_loc z (after - ambiguityMargin)) stopAt [])
      in if n > 0 \<and> int (length out) > n then take (nat n) out else out)"

text \<open>The zero \<^verbatim>\<open>time.Time\<close>, January 1 of year 1, stands for no bound.\<close>

definition zero_time :: int where
  "zero_time = - 62135596800 * second"

definition bound :: "int \<Rightarrow> int option" where
  "bound t = (if t = zero_time then None else Some t)"

definition Due :: "(string \<Rightarrow> zone option) \<Rightarrow> string \<Rightarrow> string \<Rightarrow> int \<Rightarrow> int \<Rightarrow> cron_error + int list" where
  "Due tzdata expr tz from to = (if to < from then Inl WindowBackwards
     else case compile tzdata expr tz of Inl e \<Rightarrow> Inl e | Inr (s, z) \<Rightarrow> Inr (walk s z from (bound to) (- 1)))"

definition Upcoming :: "(string \<Rightarrow> zone option) \<Rightarrow> string \<Rightarrow> string \<Rightarrow> int \<Rightarrow> int \<Rightarrow> cron_error + int list" where
  "Upcoming tzdata expr tz after n = (if n < 0 then Inl (NegativeCount n)
     else case compile tzdata expr tz of Inl e \<Rightarrow> Inl e
     | Inr (s, z) \<Rightarrow> Inr (if n = 0 then [] else walk s z after None n))"

definition Next :: "(string \<Rightarrow> zone option) \<Rightarrow> string \<Rightarrow> string \<Rightarrow> int \<Rightarrow> cron_error + int option" where
  "Next tzdata expr tz after = (case Upcoming tzdata expr tz after 1 of Inl e \<Rightarrow> Inl e
     | Inr got \<Rightarrow> Inr (if got = [] then None else Some (hd got)))"

section \<open>What a field selects\<close>

lemma set_range_length [simp]: "length (set_range v hi step m) = length m"
proof (induction v hi step m rule: set_range.induct)
  case (1 v hi step m)
  then show ?case by (subst set_range.simps) (simp add: Let_def)
qed

lemma set_range_nth:
  "hi < length m \<Longrightarrow> 0 < step \<Longrightarrow> i < length m \<Longrightarrow>
   set_range v hi step m ! i \<longleftrightarrow> m ! i \<or> (v \<le> i \<and> i \<le> hi \<and> step dvd (i - v))"
proof (induction v hi step m rule: set_range.induct)
  case (1 v hi step m)
  show ?case
  proof (cases "v \<le> hi")
    case True
    let ?m = "m[v := True]"
    have dv: "step dvd (i - (v + step)) \<longleftrightarrow> step dvd (i - v)" if "v + step \<le> i"
    proof -
      have "i - v = (i - (v + step)) + step" using that by simp
      then show ?thesis by (metis dvd_add_triv_right_iff)
    qed
    have small: "i = v \<or> v + step \<le> i" if "step dvd (i - v)" "v \<le> i"
      using dvd_imp_le [OF that(1)] that(2) by linarith
    show ?thesis
    proof (cases "hi - v < step")
      case t: True
      then have "set_range v hi step m = ?m" using True 1(3) by (subst set_range.simps) (simp add: Let_def)
      then show ?thesis using small t True 1(2,4) by (auto simp: nth_list_update)
    next
      case f: False
      then have "set_range v hi step m = set_range (v + step) hi step ?m" using True 1(3) by (subst set_range.simps) (simp add: Let_def)
      moreover have "set_range (v + step) hi step ?m ! i \<longleftrightarrow> ?m ! i \<or> (v + step \<le> i \<and> i \<le> hi \<and> step dvd (i - (v + step)))"
        using 1(1) [OF _ refl f] True 1(2-4) by simp
      ultimately show ?thesis using small dv True 1(2,4) by (auto simp: nth_list_update)
    qed
  next
    case False
    then show ?thesis by (subst set_range.simps) auto
  qed
qed

definition denotes :: "string \<Rightarrow> field_spec \<Rightarrow> string \<Rightarrow> nat \<Rightarrow> bool" where
  "denotes part f e v = (case parseElem part f e of Inl _ \<Rightarrow> False
     | Inr (lo, hi, step) \<Rightarrow> lo \<le> v \<and> v \<le> hi \<and> step dvd (v - lo))"

lemma parseValue_range: "parseValue x f = Inr v \<Longrightarrow> f_min f \<le> v \<and> v \<le> f_max f"
  by (auto simp: parseValue_def split: option.splits if_splits)

lemma parseElem_range:
  assumes "parseElem part f e = Inr (lo, hi, step)"
  shows "0 < step \<and> f_min f \<le> lo \<and> hi \<le> f_max f"
  using assms
  by (auto simp: parseElem_def Let_def split: if_splits prod.splits option.splits sum.splits dest!: parseValue_range)

lemma parse_elems_nth:
  "parse_elems part f es m = Inr m' \<Longrightarrow> f_max f < length m \<Longrightarrow> length m' = length m \<and>
   (\<forall>v < length m. m' ! v \<longleftrightarrow> m ! v \<or> (\<exists>e \<in> set es. denotes part f e v))"
proof (induction es arbitrary: m)
  case (Cons e es)
  obtain lo hi step where e: "parseElem part f e = Inr (lo, hi, step)" and r: "parse_elems part f es (set_range lo hi step m) = Inr m'"
    using Cons.prems(1) by (auto split: sum.splits prod.splits)
  note pr = parseElem_range [OF e]
  have "set_range lo hi step m ! v \<longleftrightarrow> m ! v \<or> denotes part f e v" if "v < length m" for v
    using set_range_nth [of hi m step v lo] pr that Cons.prems(2) by (simp add: denotes_def e)
  with Cons.IH [OF r] Cons.prems(2) show ?case by auto
qed simp

text \<open>
  A cron field selects exactly what its elements denote.  A parsed field's mask holds a value
  exactly when one of the comma-separated elements names it: the value lies in the element's range
  and a whole number of steps above its start; every value lies within the field's bounds, whatever
  step the expression carries.
\<close>

theorem parse_field_meaning:
  assumes "parseField part f empty_mask = Inr m" "f_max f < 64"
  shows "length m = 64 \<and> (\<forall>v < 64. m ! v \<longleftrightarrow> (\<exists>e \<in> set (split_on (CHR '','') part). denotes part f e v)) \<and>
    (\<forall>v < 64. m ! v \<longrightarrow> f_min f \<le> v \<and> v \<le> f_max f)"
proof -
  have l: "length m = 64" and n: "\<forall>v < 64. m ! v \<longleftrightarrow> (\<exists>e \<in> set (split_on (CHR '','') part). denotes part f e v)"
    using parse_elems_nth [of part f _ empty_mask m] assms by (auto simp: parseField_def empty_mask_def)
  have "f_min f \<le> v \<and> v \<le> f_max f" if d: "denotes part f e v" for e v
  proof -
    obtain lo hi step where e: "parseElem part f e = Inr (lo, hi, step)" "lo \<le> v" "v \<le> hi"
      using d by (auto simp: denotes_def split: sum.splits)
    from parseElem_range [OF e(1)] e(2,3) show ?thesis by auto
  qed
  with l n show ?thesis by auto
qed

theorem parse_field_meaning_witness:
  "\<exists>m. parseField ''*/20'' \<lparr>f_name = ''minute'', f_min = 0, f_max = 59\<rparr> empty_mask = Inr m \<and> m ! 40 \<and> \<not> m ! 41"
proof -
  let ?f = "\<lparr>f_name = ''minute'', f_min = 0, f_max = 59\<rparr>"
  have e: "parseElem ''*/20'' ?f ''*/20'' = Inr (0, 59, 20)"
    by (simp add: parseElem_def atoi_def is_digit_def digit_val_def)
  then obtain m where m: "parseField ''*/20'' ?f empty_mask = Inr m" by (simp add: parseField_def)
  from parse_field_meaning [OF m] show ?thesis using m by (simp add: denotes_def e)
qed

section \<open>The cursor\<close>

definition matches :: "schedule \<Rightarrow> wall \<Rightarrow> bool" where
  "matches s w = (case w of (y, mo, d, h, mi) \<Rightarrow> sc_month s ! mo \<and> matchesDay s y mo d \<and> sc_hour s ! h \<and> sc_minute s ! mi)"

lemma valid_next:
  assumes "valid (y, mo, d, h, mi)"
  shows "valid (nextMonth y mo)" "valid (nextDay y mo d)" "valid (nextHour y mo d h)" "valid (nextMinute y mo d h mi)"
proof -
  have "1 \<le> daysIn y mo" for y mo by (simp add: daysIn_def)
  with assms show m: "valid (nextMonth y mo)" by (simp add: valid_def nextMonth_def)
  with assms show d: "valid (nextDay y mo d)" by (simp add: valid_def nextDay_def split: prod.splits)
  with assms show h: "valid (nextHour y mo d h)" by (simp add: valid_def nextHour_def split: prod.splits)
  with assms show "valid (nextMinute y mo d h mi)" by (simp add: valid_def nextMinute_def split: prod.splits)
qed

text \<open>A valid wall clock from the cursor on and before the next one agrees with the cursor in the fields the step keeps.\<close>

lemma skip_month:
  assumes "valid (y, mo, d, h, mi)" "valid (y', mo', d', h', mi')" "(y, mo, d, h, mi) \<le> (y', mo', d', h', mi')"
    and "(y', mo', d', h', mi') < nextMonth y mo"
  shows "y' = y \<and> mo' = mo"
  using assms by (auto simp: valid_def nextMonth_def less_prod_def' less_eq_prod_def split: if_splits)

lemma skip_day:
  assumes "valid (y, mo, d, h, mi)" "valid (y', mo', d', h', mi')" "(y, mo, d, h, mi) \<le> (y', mo', d', h', mi')"
    and "(y', mo', d', h', mi') < nextDay y mo d"
  shows "y' = y \<and> mo' = mo \<and> d' = d"
proof (cases "d + 1 > daysIn y mo")
  case True
  then have "y' = y \<and> mo' = mo" using skip_month [OF assms(1-3)] assms(4) by (simp add: nextDay_def)
  then show ?thesis using True assms by (auto simp: valid_def less_eq_prod_def less_prod_def')
next
  case False
  then show ?thesis using assms by (auto simp: valid_def nextDay_def less_eq_prod_def less_prod_def')
qed

lemma skip_hour:
  assumes "valid (y, mo, d, h, mi)" "valid (y', mo', d', h', mi')" "(y, mo, d, h, mi) \<le> (y', mo', d', h', mi')"
    and "(y', mo', d', h', mi') < nextHour y mo d h"
  shows "y' = y \<and> mo' = mo \<and> d' = d \<and> h' = h"
proof (cases "h + 1 > 23")
  case True
  then have "y' = y \<and> mo' = mo \<and> d' = d" using skip_day [OF assms(1-3)] assms(4) by (simp add: nextHour_def)
  then show ?thesis using True assms by (auto simp: valid_def less_eq_prod_def less_prod_def')
next
  case False
  then show ?thesis using assms by (auto simp: valid_def nextHour_def less_eq_prod_def less_prod_def')
qed

lemma skip_minute:
  assumes "valid (y, mo, d, h, mi)" "valid (y', mo', d', h', mi')" "(y, mo, d, h, mi) \<le> (y', mo', d', h', mi')"
    and "(y', mo', d', h', mi') < nextMinute y mo d h mi"
  shows "y' = y \<and> mo' = mo \<and> d' = d \<and> h' = h \<and> mi' = mi"
proof (cases "mi + 1 > 59")
  case True
  then have "y' = y \<and> mo' = mo \<and> d' = d \<and> h' = h" using skip_hour [OF assms(1-3)] assms(4) by (simp add: nextMinute_def)
  then show ?thesis using True assms by (auto simp: valid_def less_eq_prod_def less_prod_def')
next
  case False
  then show ?thesis using assms by (auto simp: valid_def nextMinute_def less_eq_prod_def less_prod_def')
qed

lemma next_greater: "(y, mo, d, h, mi) < nextMinute y mo d h mi" "(y, mo, d, h, mi) < nextHour y mo d h"
  "(y, mo, d, h, mi) < nextDay y mo d" "(y, mo, d, h, mi) < nextMonth y mo"
  by (auto simp: nextMinute_def nextHour_def nextDay_def nextMonth_def less_prod_def')

text \<open>The matching wall clocks from a cursor on, and how each step of the walk leaves them.\<close>

definition upcoming :: "schedule \<Rightarrow> int \<Rightarrow> wall \<Rightarrow> wall set" where
  "upcoming s ly w = {v. valid v \<and> w \<le> v \<and> fst v \<le> ly \<and> matches s v}"

lemma upcoming_skip:
  assumes "valid w" "w < w'" "\<And>v. valid v \<Longrightarrow> w \<le> v \<Longrightarrow> v < w' \<Longrightarrow> \<not> matches s v"
  shows "upcoming s ly w = upcoming s ly w'"
proof -
  have "w \<le> v \<longleftrightarrow> w' \<le> v" if "valid v" "matches s v" for v
  proof
    assume "w \<le> v"
    then have "\<not> v < w'" using assms(3) [OF that(1)] that(2) by blast
    then show "w' \<le> v" by (simp only: not_less)
  next
    assume "w' \<le> v"
    then show "w \<le> v" using assms(2) by (metis order.strict_implies_order order.trans)
  qed
  then show ?thesis by (auto simp: upcoming_def)
qed

lemma upcoming_month: "valid (y, mo, d, h, mi) \<Longrightarrow> \<not> sc_month s ! mo \<Longrightarrow> upcoming s ly (y, mo, d, h, mi) = upcoming s ly (nextMonth y mo)"
  by (rule upcoming_skip) (auto simp: next_greater matches_def dest: skip_month)

lemma upcoming_day: "valid (y, mo, d, h, mi) \<Longrightarrow> \<not> matchesDay s y mo d \<Longrightarrow> upcoming s ly (y, mo, d, h, mi) = upcoming s ly (nextDay y mo d)"
  by (rule upcoming_skip) (auto simp: next_greater matches_def dest: skip_day)

lemma upcoming_hour: "valid (y, mo, d, h, mi) \<Longrightarrow> \<not> sc_hour s ! h \<Longrightarrow> upcoming s ly (y, mo, d, h, mi) = upcoming s ly (nextHour y mo d h)"
  by (rule upcoming_skip) (auto simp: next_greater matches_def dest: skip_hour)

lemma upcoming_minute: "valid (y, mo, d, h, mi) \<Longrightarrow> \<not> sc_minute s ! mi \<Longrightarrow> upcoming s ly (y, mo, d, h, mi) = upcoming s ly (nextMinute y mo d h mi)"
  by (rule upcoming_skip) (auto simp: next_greater matches_def dest: skip_minute)

lemma upcoming_insert:
  assumes "valid w" "matches s w" "fst w \<le> ly" "w < w'" "\<And>v. valid v \<Longrightarrow> w \<le> v \<Longrightarrow> v < w' \<Longrightarrow> v = w"
  shows "upcoming s ly w = insert w (upcoming s ly w')"
proof (intro set_eqI iffI)
  fix v assume "v \<in> upcoming s ly w"
  then show "v \<in> insert w (upcoming s ly w')" using assms(5) [of v] unfolding upcoming_def by (cases "v < w'") (auto simp only: mem_Collect_eq not_less insert_iff)
next
  fix v assume v: "v \<in> insert w (upcoming s ly w')"
  have "w \<le> v" if "w' \<le> v" using assms(4) that by (metis order.strict_implies_order order.trans)
  with v assms(1-3) show "v \<in> upcoming s ly w" unfolding upcoming_def by (auto simp only: mem_Collect_eq insert_iff)
qed

lemma upcoming_match:
  assumes "valid (y, mo, d, h, mi)" "matches s (y, mo, d, h, mi)" "y \<le> ly"
  shows "upcoming s ly (y, mo, d, h, mi) = insert (y, mo, d, h, mi) (upcoming s ly (nextMinute y mo d h mi))"
proof (rule upcoming_insert)
  show "v = (y, mo, d, h, mi)" if "valid v" "(y, mo, d, h, mi) \<le> v" "v < nextMinute y mo d h mi" for v
    using skip_minute [OF assms(1), of "fst v" "fst (snd v)" "fst (snd (snd v))" "fst (snd (snd (snd v)))" "snd (snd (snd (snd v)))"] that
    by (simp only: prod.collapse) (metis prod.collapse)
qed (use assms next_greater in simp_all)

lemma upcoming_over: "y > ly \<Longrightarrow> upcoming s ly (y, mo, d, h, mi) = {}"
  by (auto simp: upcoming_def less_eq_prod_def)

section \<open>What the walk collects\<close>

definition in_window :: "int \<Rightarrow> int option \<Rightarrow> int \<Rightarrow> bool" where
  "in_window after til u \<longleftrightarrow> u > after \<and> (case til of None \<Rightarrow> True | Some t \<Rightarrow> u \<le> t)"

definition picks :: "zone \<Rightarrow> int \<Rightarrow> int option \<Rightarrow> wall set \<Rightarrow> int set" where
  "picks z after til V = {u. in_window after til u \<and> (\<exists>v \<in> V. u \<in> set (instantsFor z v))}"

lemma picks_simps:
  "picks z after til {} = {}"
  "picks z after til (insert v V) = set (filter (in_window after til) (instantsFor z v)) \<union> picks z after til V"
  by (auto simp: picks_def)

lemma utc_mono: "valid v \<Longrightarrow> valid w \<Longrightarrow> v \<le> w \<Longrightarrow> utc v \<le> utc w"
  using minute_le_iff [of v w] by (simp add: utc_def second_def)

lemma walk_loop_unfold:
  assumes "valid (y, mo, d, h, mi)"
  obtains
    (over) "y > ly" "walk_loop s z after til n ly (y, mo, d, h, mi) stopAt out = out" "upcoming s ly (y, mo, d, h, mi) = {}"
  | (skip) w' where "y \<le> ly" "valid w'" "ahead ly w' < ahead ly (y, mo, d, h, mi)" "(y, mo, d, h, mi) < w'"
      "walk_loop s z after til n ly (y, mo, d, h, mi) stopAt out = walk_loop s z after til n ly w' stopAt out"
      "upcoming s ly (y, mo, d, h, mi) = upcoming s ly w'"
  | (match) "y \<le> ly" "matches s (y, mo, d, h, mi)"
proof (cases "y > ly")
  case True
  then show ?thesis by (intro over) (simp_all add: walk_loop.simps upcoming_over)
next
  case False
  note v = valid_next [OF assms] and g = next_greater [of y mo d h mi]
  show ?thesis
  proof (cases "matches s (y, mo, d, h, mi)")
    case True
    with False match show ?thesis by simp
  next
    case m: False
    consider (1) "\<not> sc_month s ! mo" | (2) "sc_month s ! mo" "\<not> matchesDay s y mo d"
      | (3) "sc_month s ! mo" "matchesDay s y mo d" "\<not> sc_hour s ! h"
      | (4) "sc_month s ! mo" "matchesDay s y mo d" "sc_hour s ! h" "\<not> sc_minute s ! mi"
      using m by (auto simp: matches_def)
    then show ?thesis
    proof cases
      case 1
      with False v g assms show ?thesis
        by (intro skip [of "nextMonth y mo"]) (simp_all add: walk_loop.simps [of s z after til n ly y] upcoming_month ahead_next del: ahead.simps)
    next
      case 2
      with False v g assms show ?thesis
        by (intro skip [of "nextDay y mo d"]) (simp_all add: walk_loop.simps [of s z after til n ly y] upcoming_day ahead_next del: ahead.simps)
    next
      case 3
      with False v g assms show ?thesis
        by (intro skip [of "nextHour y mo d h"]) (simp_all add: walk_loop.simps [of s z after til n ly y] upcoming_hour ahead_next del: ahead.simps)
    next
      case 4
      with False v g assms show ?thesis
        by (intro skip [of "nextMinute y mo d h mi"]) (simp_all add: walk_loop.simps [of s z after til n ly y] upcoming_minute ahead_next del: ahead.simps)
    qed
  qed
qed

lemma walk_loop_match:
  assumes "y \<le> ly" "matches s (y, mo, d, h, mi)"
  shows "walk_loop s z after til n ly (y, mo, d, h, mi) stopAt out =
    (let naive = utc (y, mo, d, h, mi) in
     if (case stopAt of None \<Rightarrow> False | Some t \<Rightarrow> naive > t) then out
     else let out' = out @ filter (in_window after til) (instantsFor z (y, mo, d, h, mi));
              stopAt' = (if n > 0 \<and> stopAt = None \<and> int (length out') \<ge> n then Some (naive + ambiguityMargin) else stopAt)
          in walk_loop s z after til n ly (nextMinute y mo d h mi) stopAt' out')"
proof -
  have e: "in_window after til = (\<lambda>u. u > after \<and> (case til of None \<Rightarrow> True | Some t \<Rightarrow> u \<le> t))"
    by (rule ext) (simp add: in_window_def)
  show ?thesis unfolding e using assms by (subst walk_loop.simps) (simp add: matches_def)
qed

lemma walk_loop_set:
  "valid w \<Longrightarrow> set (walk_loop s z after til n ly w (Some t) out) =
     set out \<union> picks z after til {v \<in> upcoming s ly w. utc v \<le> t}"
proof (induction "ahead ly w" arbitrary: w out rule: less_induct)
  case less
  obtain y mo d h mi where w: "w = (y, mo, d, h, mi)" by (cases w)
  have v: "valid (y, mo, d, h, mi)" using less.prems w by simp
  from v show ?case
  proof (cases rule: walk_loop_unfold [where ly = ly and s = s and z = z and after = after and til = til and n = n and stopAt = "Some t" and out = out])
    case over
    then show ?thesis by (simp add: w picks_simps)
  next
    case (skip w')
    then show ?thesis using less.hyps [of w'] by (simp add: w del: ahead.simps)
  next
    case match
    note up = upcoming_match [OF v match(2,1)]
    show ?thesis
    proof (cases "utc (y, mo, d, h, mi) > t")
      case True
      have "\<not> utc u \<le> t" if "u \<in> upcoming s ly (y, mo, d, h, mi)" for u
        using utc_mono [OF v, of u] True that by (auto simp: upcoming_def)
      then have "{v \<in> upcoming s ly (y, mo, d, h, mi). utc v \<le> t} = {}" by blast
      moreover have "walk_loop s z after til n ly (y, mo, d, h, mi) (Some t) out = out"
        using walk_loop_match [OF match, of z after til n "Some t" out] True by simp
      ultimately show ?thesis by (simp only: w picks_simps) simp
    next
      case False
      have "{v \<in> upcoming s ly (y, mo, d, h, mi). utc v \<le> t} =
          insert (y, mo, d, h, mi) {v \<in> upcoming s ly (nextMinute y mo d h mi). utc v \<le> t}"
        using False by (auto simp: up)
      moreover have "walk_loop s z after til n ly (y, mo, d, h, mi) (Some t) out =
          walk_loop s z after til n ly (nextMinute y mo d h mi) (Some t) (out @ filter (in_window after til) (instantsFor z (y, mo, d, h, mi)))"
        using walk_loop_match [OF match, of z after til n "Some t" out] False by (simp add: Let_def)
      moreover have "ahead ly (nextMinute y mo d h mi) < ahead ly w" using ahead_minute [OF match(1)] w by (simp del: ahead.simps)
      ultimately show ?thesis
        using less.hyps [of "nextMinute y mo d h mi"] valid_next(4) [OF v] by (simp only: w picks_simps set_append Un_assoc)
    qed
  qed
qed

section \<open>Instants and wall clocks\<close>

lemma collect_set:
  "set (foldl (\<lambda>out x. let u = f x in if P u \<and> u \<notin> set out then out @ [u] else out) acc xs) = set acc \<union> {u \<in> f ` set xs. P u}"
  by (induction xs arbitrary: acc) (auto simp: Let_def)

lemma collect_distinct:
  "distinct acc \<Longrightarrow> distinct (foldl (\<lambda>out x. let u = f x in if P u \<and> u \<notin> set out then out @ [u] else out) acc xs)"
  by (induction xs arbitrary: acc) (auto simp: Let_def)

lemma set_instantsFor:
  "set (instantsFor z w) = {u \<in> (\<lambda>off. utc w - off * second) ` set (probe_offsets z w). in_loc z u = w}"
  unfolding instantsFor_def set_sort by (simp add: collect_set)

lemma distinct_instantsFor [simp]: "distinct (instantsFor z w)"
  unfolding instantsFor_def by (simp add: collect_distinct)

lemma instants_in_loc: "u \<in> set (instantsFor z w) \<Longrightarrow> in_loc z u = w"
  by (simp add: set_instantsFor)

lemma probe_offsets_set:
  "set (probe_offsets z (y, mo, d, h, mi)) =
     (let p = minute (y, mo, d, 12, 0) * 60 in {z (p - 129600), z p, z (p + 129600)})"
proof -
  have "(utc w - 36 * hour) div second = minute w * 60 - 129600" "utc w div second = minute w * 60"
    "(utc w + 36 * hour) div second = minute w * 60 + 129600" for w
    by (simp_all add: utc_def hour_def second_def)
  then show ?thesis by (auto simp: probe_offsets_def Let_def)
qed

lemma near_noon:
  assumes "wall_of m = (y, mo, d, h, mi)"
  shows "minute (y, mo, d, 12, 0) - 720 \<le> m" "m < minute (y, mo, d, 12, 0) + 720"
proof -
  have v: "valid (y, mo, d, h, mi)" "minute (y, mo, d, h, mi) = m" using assms wall_of_correct [of m] by auto
  have "minute (y, mo, d, 12, 0) = days y mo d * 1440 + 720" by (simp add: minute_def)
  moreover have "m = days y mo d * 1440 + int h * 60 + int mi" using v(2) by (simp add: minute_def)
  moreover have "h < 24" "mi < 60" using v(1) by (simp_all add: valid_def)
  ultimately show "minute (y, mo, d, 12, 0) - 720 \<le> m" "m < minute (y, mo, d, 12, 0) + 720" by simp_all
qed

text \<open>
  What the engine relies on of the time zone database over a span \<open>T\<close> of Unix seconds: offsets are
  whole minutes and less than a day; within three days the wall clock never falls back by more than
  the ambiguity margin (the comment in the source measures two hours, Antarctica/Troll, over the
  thirteen years from 2026); and the offset in effect at an instant is one of those in effect a day
  and a half before, at, and a day and a half after noon of its local day, as with at most one
  transition in between.  Nothing is asked of the zone outside the span: the local mean times of
  the nineteenth century, with their odd seconds, do not matter to a schedule of today.
\<close>

definition zone_ok :: "zone \<Rightarrow> int set \<Rightarrow> bool" where
  "zone_ok z T \<longleftrightarrow> (\<forall>t \<in> T. 60 dvd z t \<and> \<bar>z t\<bar> < 86400 \<and> z t \<in> set (probe_offsets z (wall_of ((t + z t) div 60)))) \<and>
     (\<forall>a \<in> T. \<forall>b \<in> T. a \<le> b \<and> b \<le> a + 259200 \<longrightarrow> z a - z b \<le> 10800)"

lemma zone_ok_mono: "zone_ok z T \<Longrightarrow> S \<subseteq> T \<Longrightarrow> zone_ok z S"
  by (auto simp: zone_ok_def)

text \<open>The seconds within three days of an instant, which is as far as the probes for it reach.\<close>

definition around :: "int \<Rightarrow> int set" where
  "around u = {u div second - 259200..u div second + 259200}"

text \<open>The seconds a window's walk depends on: four days to either side.\<close>

definition window_span :: "int \<Rightarrow> int \<Rightarrow> int set" where
  "window_span from to = {from div second - 345600..to div second + 345600}"

definition span_from :: "int \<Rightarrow> int set" where
  "span_from from = {from div second - 345600..}"

text \<open>An occurrence: an instant at which a matching minute begins on the local wall clock.\<close>

definition occurs :: "schedule \<Rightarrow> zone \<Rightarrow> int \<Rightarrow> bool" where
  "occurs s z u \<longleftrightarrow> second dvd u \<and> 60 dvd local_second z u \<and> matches s (in_loc z u)"

lemma second_pos [simp]: "0 < second" "second \<noteq> 0"
  by (simp_all add: second_def)

lemma probe_offsets_sub: "off \<in> set (probe_offsets z w) \<Longrightarrow> \<exists>t. off = z t"
  by (auto simp: probe_offsets_def Let_def split: prod.splits if_splits)

lemma minute_in_loc [simp]: "minute (in_loc z u) = local_second z u div 60"
  by (simp add: in_loc_def)

lemma valid_in_loc [simp]: "valid (in_loc z u)"
  by (simp add: in_loc_def)

lemma probes_around:
  assumes "off \<in> set (probe_offsets z (in_loc z u))" "\<bar>z (u div second)\<bar> < 86400"
  shows "\<exists>t \<in> around u. off = z t"
proof -
  obtain y mo d h mi where w: "in_loc z u = (y, mo, d, h, mi)" by (cases "in_loc z u")
  define p where "p = minute (y, mo, d, 12, 0) * 60"
  have "wall_of (local_second z u div 60) = (y, mo, d, h, mi)" using w by (simp add: in_loc_def)
  from near_noon [OF this] have "p - 43200 \<le> local_second z u" "local_second z u < p + 43200" by (simp_all add: p_def)
  then have "p - 129600 \<in> around u" "p \<in> around u" "p + 129600 \<in> around u"
    using assms(2) by (auto simp: local_second_def around_def abs_less_iff)
  then show ?thesis using assms(1) by (auto simp: w probe_offsets_set p_def [symmetric] Let_def)
qed

lemma here_around: "u div second \<in> around u"
  by (simp add: around_def)

lemma instants_iff:
  assumes "zone_ok z T" "around u \<subseteq> T" "valid v"
  shows "u \<in> set (instantsFor z v) \<longleftrightarrow> second dvd u \<and> 60 dvd local_second z u \<and> in_loc z u = v"
proof
  have here: "60 dvd z (u div second)" "\<bar>z (u div second)\<bar> < 86400"
    using assms(1,2) here_around [of u] by (auto simp: zone_ok_def)
  assume u: "u \<in> set (instantsFor z v)"
  then obtain off where off: "off \<in> set (probe_offsets z v)" "u = utc v - off * second" and l: "in_loc z u = v"
    by (auto simp: set_instantsFor)
  have "60 dvd off" using probes_around [of off z u] off(1) l here(2) assms(1,2) by (auto simp: zone_ok_def)
  have e: "u = (minute v * 60 - off) * second" using off(2) by (simp add: utc_def algebra_simps)
  then have "u div second = minute v * 60 - off" by simp
  then have "local_second z u = minute v * 60 - off + z (u div second)" by (simp add: local_second_def)
  then have "60 dvd local_second z u" using \<open>60 dvd off\<close> here(1) by simp
  with e l show "second dvd u \<and> 60 dvd local_second z u \<and> in_loc z u = v" by simp
next
  assume a: "second dvd u \<and> 60 dvd local_second z u \<and> in_loc z u = v"
  define t where "t = u div second"
  have u: "u = t * second" using a by (simp add: t_def)
  have m: "minute v = (t + z t) div 60" and d: "60 dvd t + z t" using a minute_in_loc [of z u] by (auto simp: local_second_def t_def)
  then have "minute v * 60 = t + z t" by simp
  then have "utc v = (t + z t) * second" by (simp add: utc_def)
  then have "utc v - z t * second = u" using u by (simp add: distrib_right)
  moreover have "z t \<in> set (probe_offsets z v)"
  proof -
    have "wall_of ((t + z t) div 60) = v" using wall_of_eq [OF assms(3), of "(t + z t) div 60"] m by simp
    moreover have "t \<in> T" using assms(2) here_around [of u] by (auto simp: t_def)
    ultimately show ?thesis using assms(1) unfolding zone_ok_def by metis
  qed
  ultimately show "u \<in> set (instantsFor z v)" using a by (auto simp: set_instantsFor image_iff)
qed

lemma picks_occurs:
  assumes "zone_ok z T" "\<And>u. in_window after til u \<Longrightarrow> around u \<subseteq> T"
  shows "picks z after til {v \<in> upcoming s ly w. Q v} =
    {u. in_window after til u \<and> occurs s z u \<and> w \<le> in_loc z u \<and> fst (in_loc z u) \<le> ly \<and> Q (in_loc z u)}"
proof -
  have "(\<exists>v \<in> {v \<in> upcoming s ly w. Q v}. u \<in> set (instantsFor z v)) \<longleftrightarrow>
      occurs s z u \<and> w \<le> in_loc z u \<and> fst (in_loc z u) \<le> ly \<and> Q (in_loc z u)" (is "?L \<longleftrightarrow> ?R")
    if in_w: "in_window after til u" for u
  proof
    assume ?L
    then obtain v where "valid v" "w \<le> v" "fst v \<le> ly" "matches s v" "Q v" "u \<in> set (instantsFor z v)"
      unfolding upcoming_def by blast
    with instants_iff [OF assms(1) assms(2) [OF in_w], of v] show ?R by (simp add: occurs_def)
  next
    assume ?R
    then show ?L using instants_iff [OF assms(1) assms(2) [OF in_w] valid_in_loc] unfolding upcoming_def
      by (intro bexI [of _ "in_loc z u"]) (simp_all add: occurs_def)
  qed
  then show ?thesis unfolding picks_def by (intro Collect_cong) blast
qed

text \<open>The margins: an instant after \<open>after\<close> lies above the start of the cursor, one up to \<open>til\<close> below the stop.\<close>

lemma margin_div: "(t - ambiguityMargin) div second = t div second - 10800"
  by (simp add: ambiguityMargin_def hour_def second_def)

lemma fall_back_bound:
  assumes "zone_ok z T" "a \<in> T" "b \<in> T" "a \<le> b"
  shows "a + z a \<le> b + z b + 10800" and "a + 10800 \<le> b \<Longrightarrow> a + z a \<le> b + z b"
proof -
  have "z a - z b \<le> 10800 \<or> a + 259200 < b"
    using assms by (force simp: zone_ok_def)
  moreover have "\<bar>z a\<bar> < 86400" "\<bar>z b\<bar> < 86400" using assms(1-3) by (simp_all add: zone_ok_def)
  ultimately show "a + z a \<le> b + z b + 10800" "a + 10800 \<le> b \<Longrightarrow> a + z a \<le> b + z b"
    using assms(4) by linarith+
qed

lemma start_below:
  assumes "zone_ok z T" "after \<le> u" "(after - ambiguityMargin) div second \<in> T" "u div second \<in> T"
  shows "in_loc z (after - ambiguityMargin) \<le> in_loc z u"
proof -
  have "(after - ambiguityMargin) div second + 10800 \<le> u div second" using assms(2) by (simp add: margin_div zdiv_mono1)
  then have "local_second z (after - ambiguityMargin) \<le> local_second z u"
    using fall_back_bound(2) [OF assms(1,3,4)] by (simp add: local_second_def)
  then have "minute (in_loc z (after - ambiguityMargin)) \<le> minute (in_loc z u)" by (simp add: zdiv_mono1)
  then show ?thesis by (subst (asm) minute_le_iff) simp_all
qed

lemma stop_above:
  assumes "zone_ok z T" "u \<le> t" "60 dvd local_second z u" "u div second \<in> T" "t div second \<in> T"
  shows "utc (in_loc z u) \<le> utc (in_loc z t) + ambiguityMargin"
proof -
  have "u div second \<le> t div second" using assms(2) by (simp add: zdiv_mono1)
  then have "local_second z u - 10800 \<le> local_second z t"
    using fall_back_bound(1) [OF assms(1,4,5)] by (simp add: local_second_def)
  then have "(local_second z u - 10800) div 60 \<le> local_second z t div 60" by (simp add: zdiv_mono1)
  then have "local_second z u div 60 - 180 \<le> local_second z t div 60" by simp
  then have "minute (in_loc z u) \<le> minute (in_loc z t) + 180" by simp
  then have "minute (in_loc z u) * 60 * second \<le> (minute (in_loc z t) + 180) * 60 * second" by (simp add: second_def)
  then show ?thesis by (simp add: utc_def ambiguityMargin_def hour_def algebra_simps)
qed

section \<open>Occurrences in order\<close>

lemma sortUnique_set: "sortUnique xs = sorted_list_of_set (set xs)"
proof -
  have d: "distinct (remdups_adj ys)" if "sorted ys" for ys :: "int list"
    using that by (induction ys rule: remdups_adj.induct) (auto simp: order_le_less)
  have "sorted (sortUnique xs)" "distinct (sortUnique xs)" "set (sortUnique xs) = set xs"
    by (simp_all add: sortUnique_def sorted_remdups_adj d)
  then show ?thesis by (metis sorted_list_of_set.idem_if_sorted_distinct)
qed

text \<open>The occurrences after an instant within the search bound.\<close>

definition occurrences :: "schedule \<Rightarrow> zone \<Rightarrow> int \<Rightarrow> int set" where
  "occurrences s z after = {u. after < u \<and> occurs s z u \<and> fst (in_loc z u) \<le> fst (in_loc z after) + SearchYears}"

lemma walk_until:
  assumes "zone_ok z (window_span after t)" "n \<le> 0" "after \<le> t"
  shows "walk s z after (Some t) n = sorted_list_of_set {u \<in> occurrences s z after. u \<le> t}"
proof -
  let ?ly = "fst (in_loc z after) + SearchYears" and ?w = "in_loc z (after - ambiguityMargin)"
  let ?stop = "utc (in_loc z t) + ambiguityMargin" and ?T = "window_span after t"
  have le: "after div second \<le> t div second" using assms(3) by (simp add: zdiv_mono1)
  have inT: "around u \<subseteq> ?T" "u div second \<in> ?T" if "after \<le> u" "u \<le> t" for u
    using zdiv_mono1 [OF that(1), of second] zdiv_mono1 [OF that(2), of second] by (auto simp: around_def window_span_def)
  have ends: "(after - ambiguityMargin) div second \<in> ?T" "t div second \<in> ?T"
    using le by (simp_all add: window_span_def margin_div)
  have "set (walk_loop s z after (Some t) n ?ly ?w (Some ?stop) []) = picks z after (Some t) {v \<in> upcoming s ?ly ?w. utc v \<le> ?stop}"
    using walk_loop_set [of ?w s z after "Some t" n ?ly ?stop "[]"] by simp
  also have "\<dots> = {u. in_window after (Some t) u \<and> occurs s z u \<and> ?w \<le> in_loc z u \<and> fst (in_loc z u) \<le> ?ly \<and> utc (in_loc z u) \<le> ?stop}"
    by (rule picks_occurs [OF assms(1)]) (use inT(1) in \<open>simp add: in_window_def\<close>)
  also have "\<dots> = {u \<in> occurrences s z after. u \<le> t}"
  proof -
    have "?w \<le> in_loc z u" if "after < u" "u \<le> t" for u
      using start_below [OF assms(1) _ ends(1) inT(2) [of u]] that by simp
    moreover have "utc (in_loc z u) \<le> ?stop" if "after < u" "u \<le> t" "occurs s z u" for u
      using stop_above [OF assms(1) that(2) _ inT(2) [of u] ends(2)] that by (simp add: occurs_def)
    ultimately show ?thesis by (auto simp: in_window_def occurrences_def)
  qed
  finally show ?thesis using assms(2) by (simp add: walk_def Let_def sortUnique_set)
qed

lemma due_exact_list:
  assumes "compile tzdata expr tz = Inr (s, z)" "zone_ok z (window_span from to)" "zero_time < from" "from \<le> to"
  shows "Due tzdata expr tz from to = Inr (sorted_list_of_set {u \<in> occurrences s z from. u \<le> to})"
proof -
  have "bound to = Some to" using assms(3,4) by (simp add: bound_def)
  then show ?thesis using assms walk_until [OF assms(2) _ assms(4), of "-1" s] by (simp add: Due_def)
qed

text \<open>
  C17: the scheduler fires exactly the occurrences.  For a zone that is regular from four days
  before the window to four days after it (\<open>zone_ok\<close>: whole-minute offsets, fall-backs of at most
  three hours, transitions apart), \<^verbatim>\<open>Due\<close> returns, in ascending order and each once, every instant
  of the window at which a minute matching the schedule begins on the local wall clock, up to the
  search bound of twelve calendar years past the window's start: a wall clock skipped by a
  spring-forward never, one repeated by a fall-back twice.
\<close>

theorem due_exact:
  assumes "compile tzdata expr tz = Inr (s, z)" "zone_ok z (window_span from to)" "zero_time < from" "from \<le> to"
  shows "Due tzdata expr tz from to = Inr (sorted_list_of_set {u \<in> occurrences s z from. u \<le> to})"
  by (rule due_exact_list [OF assms])

text \<open>
  Berlin: local mean time, with its 28 odd seconds, until 1893, and the summer times of 2025 and
  2026.  From 1970 on it meets what the engine relies on.
\<close>

definition demo_zone :: zone where
  "demo_zone t = (if t < -2422054408 then 3208 else if t < 1743296400 then 3600 else if t < 1761440400 then 7200
     else if t < 1774746000 then 3600 else if t < 1792890000 then 7200 else 3600)"

lemma demo_zone_ok: "zone_ok demo_zone {0..}"
proof -
  have "demo_zone t \<in> set (probe_offsets demo_zone (wall_of ((t + demo_zone t) div 60)))" if "0 \<le> t" for t
  proof -
    obtain y mo d h mi where w: "wall_of ((t + demo_zone t) div 60) = (y, mo, d, h, mi)" by (cases "wall_of ((t + demo_zone t) div 60)")
    define p where "p = minute (y, mo, d, 12, 0) * 60"
    have "p - 43200 \<le> t + demo_zone t" "t + demo_zone t < p + 43200" using near_noon [OF w] by (simp_all add: p_def)
    then have "demo_zone t = demo_zone (p - 129600) \<or> demo_zone t = demo_zone (p + 129600)"
      using that by (simp add: demo_zone_def split: if_splits)
    then show ?thesis by (auto simp: w probe_offsets_set p_def [symmetric] Let_def)
  qed
  moreover have "60 dvd demo_zone t \<and> \<bar>demo_zone t\<bar> < 86400" if "0 \<le> t" for t
    using that by (simp add: demo_zone_def)
  moreover have "demo_zone a - demo_zone b \<le> 10800" if "0 \<le> a" "0 \<le> b" for a b
    using that by (simp add: demo_zone_def)
  ultimately show ?thesis by (simp add: zone_ok_def)
qed

lemma demo_masks: "set_range (Suc 0) 12 (Suc 0) empty_mask ! 10" "set_range 2 2 (Suc 0) empty_mask ! 2" "set_range 30 30 (Suc 0) empty_mask ! 30"
  by code_simp+

lemma demo_parse: "\<exists>s. compile (\<lambda>_. Some demo_zone) ''30 2 * * *'' ''Europe/Berlin'' = Inr (s, demo_zone) \<and> matches s (2025, 10, 26, 2, 30)"
  by (simp add: compile_def parse_def loadLocation_def go_simps byte_def space_rune_def cron_fields_def parseField_def parseElem_def
      parseValue_def atoi_def is_digit_def digit_val_def Let_def matches_def matchesDay_def demo_masks)

lemma demo_from: "in_loc demo_zone (1761393600 * second) = (2025, 10, 25, 14, 0)"
  by code_simp

text \<open>On the day the clocks go back, half past two comes twice, an hour apart.\<close>

lemma demo_twice: "in_loc demo_zone (1761438600 * second) = (2025, 10, 26, 2, 30)" "in_loc demo_zone (1761442200 * second) = (2025, 10, 26, 2, 30)"
  by code_simp+

theorem due_exact_witness:
  "\<exists>xs. Due (\<lambda>_. Some demo_zone) ''30 2 * * *'' ''Europe/Berlin'' (1761393600 * second) (1761480000 * second) = Inr xs \<and>
     sorted xs \<and> {1761438600 * second, 1761442200 * second} \<subseteq> set xs"
proof -
  let ?from = "1761393600 * second" and ?to = "1761480000 * second"
  obtain s where c: "compile (\<lambda>_. Some demo_zone) ''30 2 * * *'' ''Europe/Berlin'' = Inr (s, demo_zone)"
    and m: "matches s (2025, 10, 26, 2, 30)" using demo_parse by blast
  have z: "zone_ok demo_zone (window_span ?from ?to)"
    by (rule zone_ok_mono [OF demo_zone_ok]) (auto simp: window_span_def)
  have "zero_time < ?from" "?from \<le> ?to" by (simp_all add: zero_time_def second_def)
  note exact = due_exact [OF c z this]
  let ?X = "{u \<in> occurrences s demo_zone ?from. u \<le> ?to}"
  have "finite ?X" by (rule finite_subset [of _ "{?from<..?to}"]) (auto simp: occurrences_def)
  moreover have "{1761438600 * second, 1761442200 * second} \<subseteq> ?X"
    using m demo_twice demo_from by (simp add: occurrences_def occurs_def local_second_def demo_zone_def SearchYears_def)
  ultimately show ?thesis using exact by simp
qed

section \<open>The first occurrences\<close>

definition within :: "int option \<Rightarrow> wall \<Rightarrow> bool" where
  "within B v = (case B of None \<Rightarrow> True | Some t \<Rightarrow> utc v \<le> t)"

definition settled :: "zone \<Rightarrow> int \<Rightarrow> int option \<Rightarrow> int set \<Rightarrow> bool" where
  "settled z n B R = (case B of None \<Rightarrow> True
     | Some t \<Rightarrow> \<exists>A \<subseteq> R. n \<le> int (card A) \<and> (\<forall>u \<in> A. utc (in_loc z u) + ambiguityMargin \<le> t))"

lemma walk_loop_count:
  "valid w \<Longrightarrow> distinct out \<Longrightarrow> \<forall>u \<in> set out. in_loc z u < w \<Longrightarrow> 0 < n \<Longrightarrow>
   \<exists>B. set (walk_loop s z after til n ly w None out) = set out \<union> picks z after til {v \<in> upcoming s ly w. within B v} \<and>
     settled z n B (set (walk_loop s z after til n ly w None out)) \<and> (\<forall>v. valid v \<and> v \<le> w \<longrightarrow> within B v)"
proof (induction "ahead ly w" arbitrary: w out rule: less_induct)
  case less
  obtain y mo d h mi where w: "w = (y, mo, d, h, mi)" by (cases w)
  have v: "valid (y, mo, d, h, mi)" using less.prems w by simp
  from v show ?case
  proof (cases rule: walk_loop_unfold [where ly = ly and s = s and z = z and after = after and til = til and n = n and stopAt = None and out = out])
    case over
    then show ?thesis by (intro exI [of _ None]) (simp add: w picks_simps settled_def within_def)
  next
    case (skip w')
    have "\<forall>u \<in> set out. in_loc z u < w'" using less.prems(3) skip(4) unfolding w by (meson order.strict_trans)
    then obtain B where B: "set (walk_loop s z after til n ly w' None out) = set out \<union> picks z after til {v \<in> upcoming s ly w'. within B v}"
        "settled z n B (set (walk_loop s z after til n ly w' None out))" "\<forall>v. valid v \<and> v \<le> w' \<longrightarrow> within B v"
      using less.hyps [of w' out] less.prems skip(2,3) unfolding w by blast
    have "\<forall>v. valid v \<and> v \<le> w \<longrightarrow> within B v" using B(3) skip(4) unfolding w by (meson order.strict_implies_order order.trans)
    then show ?thesis unfolding w skip(5,6) using B(1,2) by (intro exI [of _ B] conjI)
  next
    case match
    let ?w' = "nextMinute y mo d h mi" and ?new = "filter (in_window after til) (instantsFor z w)"
    let ?out = "out @ ?new"
    note up = upcoming_match [OF v match(2,1), folded w] and v' = valid_next(4) [OF v]
    have lt: "w < ?w'" using next_greater(1) w by blast
    have ar: "ahead ly ?w' < ahead ly w" using ahead_minute [OF match(1)] w by (simp del: ahead.simps)
    have inew: "\<forall>u \<in> set ?new. in_loc z u = w" using instants_in_loc by simp
    have le: "\<forall>u \<in> set ?out. in_loc z u \<le> w" using less.prems(3) inew by (auto simp only: set_append Un_iff less_imp_le order.refl)
    then have lt': "\<forall>u \<in> set ?out. in_loc z u < ?w'" using lt by (meson le_less_trans)
    have dist: "distinct ?out" using less.prems(2,3) inew by (auto simp only: distinct_append distinct_filter distinct_instantsFor disjoint_iff order.irrefl)
    have pk: "picks z after til {x \<in> upcoming s ly w. within B x} =
        (if within B w then set ?new else {}) \<union> picks z after til {x \<in> upcoming s ly ?w'. within B x}" for B
    proof -
      have "{x \<in> upcoming s ly w. within B x} = (if within B w then insert w {x \<in> upcoming s ly ?w'. within B x} else {x \<in> upcoming s ly ?w'. within B x})"
        unfolding up by auto
      then show ?thesis by (simp add: picks_simps)
    qed
    show ?thesis
    proof (cases "int (length ?out) \<ge> n")
      case True
      let ?t = "utc w + ambiguityMargin"
      have e: "walk_loop s z after til n ly w None out = walk_loop s z after til n ly ?w' (Some ?t) ?out"
        using walk_loop_match [OF match, of z after til n None out] True less.prems(4) by (simp add: w Let_def)
      have m: "within (Some ?t) w" by (simp add: within_def ambiguityMargin_def hour_def second_def)
      have r: "set (walk_loop s z after til n ly w None out) = set out \<union> picks z after til {x \<in> upcoming s ly w. within (Some ?t) x}"
        unfolding e walk_loop_set [OF v'] pk using m by (simp add: within_def Un_assoc)
      moreover have "settled z n (Some ?t) (set (walk_loop s z after til n ly w None out))"
      proof -
        have "utc (in_loc z u) + ambiguityMargin \<le> ?t" if "u \<in> set ?out" for u
          using utc_mono [OF valid_in_loc less.prems(1)] le that by simp
        moreover have "set ?out \<subseteq> set (walk_loop s z after til n ly w None out)" unfolding e walk_loop_set [OF v'] by simp
        moreover have "n \<le> int (card (set ?out))" using True distinct_card [OF dist] by simp
        ultimately show ?thesis unfolding settled_def option.case by blast
      qed
      moreover have "\<forall>v. valid v \<and> v \<le> w \<longrightarrow> within (Some ?t) v"
      proof (intro allI impI, elim conjE)
        fix v assume "valid v" "v \<le> w"
        with utc_mono [OF _ less.prems(1)] m show "within (Some ?t) v" unfolding within_def option.case by (blast intro: order.trans)
      qed
      ultimately show ?thesis by blast
    next
      case False
      have e: "walk_loop s z after til n ly w None out = walk_loop s z after til n ly ?w' None ?out"
        using walk_loop_match [OF match, of z after til n None out] False by (simp add: w Let_def)
      obtain B where B: "set (walk_loop s z after til n ly ?w' None ?out) = set ?out \<union> picks z after til {x \<in> upcoming s ly ?w'. within B x}"
          "settled z n B (set (walk_loop s z after til n ly ?w' None ?out))" "\<forall>v. valid v \<and> v \<le> ?w' \<longrightarrow> within B v"
        using less.hyps [OF ar v' dist lt' less.prems(4)] by blast
      have b: "\<forall>v. valid v \<and> v \<le> w \<longrightarrow> within B v" using B(3) lt by (meson order.strict_implies_order order.trans)
      then have "within B w" using less.prems(1) by blast
      then have "set (walk_loop s z after til n ly w None out) = set out \<union> picks z after til {x \<in> upcoming s ly w. within B x}"
        unfolding e B(1) pk by (simp add: Un_assoc)
      then show ?thesis using b B(2) unfolding e by (intro exI [of _ B] conjI)
    qed
  qed
qed

lemma finite_occurrences:
  assumes "zone_ok z (span_from after)"
  shows "finite (occurrences s z after)"
proof -
  let ?ly = "fst (in_loc z after) + SearchYears"
  define m where "m = minute (?ly + 1, 1, 1, 0, 0)"
  have "u \<le> (60 * m + 86400) * second" if u: "u \<in> occurrences s z after" for u
  proof -
    have a: "after \<le> u" "second dvd u" "fst (in_loc z u) \<le> ?ly" using u by (auto simp: occurrences_def occurs_def)
    have "in_loc z u < (?ly + 1, 1, 1, 0, 0)" using a(3) by (cases "in_loc z u") (simp add: less_prod_def')
    moreover have "valid (?ly + 1, 1, 1, 0, 0)" by (simp add: valid_def daysIn_def)
    ultimately have "minute (in_loc z u) < m" unfolding m_def by (intro minute_mono valid_in_loc)
    then have l: "local_second z u < 60 * m" by simp
    have "u div second \<in> span_from after" using zdiv_mono1 [OF a(1), of second] by (simp add: span_from_def)
    then have "\<bar>z (u div second)\<bar> < 86400" using assms by (simp add: zone_ok_def)
    with l have "u div second \<le> 60 * m + 86400" by (simp add: local_second_def)
    then have "u div second * second \<le> (60 * m + 86400) * second" by (intro mult_right_mono) (simp_all add: less_imp_le)
    with a(2) show ?thesis by simp
  qed
  then have "occurrences s z after \<subseteq> {after<..(60 * m + 86400) * second}" by (auto simp: occurrences_def)
  then show ?thesis by (rule finite_subset) simp
qed

lemma sorted_list_split:
  fixes L R :: "int set"
  assumes "finite L" "finite R" "\<And>x y. x \<in> L \<Longrightarrow> y \<in> R \<Longrightarrow> x < y"
  shows "sorted_list_of_set (L \<union> R) = sorted_list_of_set L @ sorted_list_of_set R"
proof -
  let ?xs = "sorted_list_of_set L @ sorted_list_of_set R"
  have "sorted ?xs" "distinct ?xs" using assms by (fastforce simp: sorted_append)+
  moreover have "set ?xs = L \<union> R" using assms by simp
  ultimately show ?thesis by (metis sorted_list_of_set.idem_if_sorted_distinct)
qed

text \<open>Enough elements of a set below all that is missing from it settle the first ones of the whole.\<close>

lemma take_sorted_subset:
  fixes A S X :: "int set"
  assumes "finite X" "A \<subseteq> S" "S \<subseteq> X" "n \<le> card A" "\<And>a x. a \<in> A \<Longrightarrow> x \<in> X - S \<Longrightarrow> a < x"
  shows "take n (sorted_list_of_set S) = take n (sorted_list_of_set X)"
proof -
  define L where "L = {x \<in> X. \<forall>y \<in> X - S. x < y}"
  have f: "finite L" "finite S" using assms(1,3) by (auto simp: L_def intro: finite_subset)
  have LS: "L \<subseteq> S" by (auto simp: L_def)
  have AL: "A \<subseteq> L" using assms(2,3,5) by (auto simp: L_def)
  have n: "n \<le> length (sorted_list_of_set L)" using assms(4) card_mono [OF f(1) AL] by simp
  have above: "x < y" if x: "x \<in> L" and y: "y \<in> X - L" for x y
  proof -
    obtain w where w: "w \<in> X - S" "w \<le> y" using y by (force simp: L_def not_less)
    then have "x < w" using x by (auto simp: L_def)
    with w(2) show ?thesis by simp
  qed
  have "S = L \<union> (S - L)" "X = L \<union> (X - L)" using LS assms(3) by auto
  moreover have "sorted_list_of_set (L \<union> (S - L)) = sorted_list_of_set L @ sorted_list_of_set (S - L)"
    "sorted_list_of_set (L \<union> (X - L)) = sorted_list_of_set L @ sorted_list_of_set (X - L)"
    by (rule sorted_list_split; use f assms(1,3) above in auto)+
  ultimately show ?thesis using n by (metis append_take_drop_id take_append diff_is_0_eq' take_0)
qed

lemma walk_count:
  assumes "zone_ok z (span_from after)" "0 < n"
  shows "walk s z after None n = take (nat n) (sorted_list_of_set (occurrences s z after))"
proof -
  let ?ly = "fst (in_loc z after) + SearchYears" and ?w = "in_loc z (after - ambiguityMargin)"
  let ?out = "walk_loop s z after None n ?ly ?w None []"
  obtain B where B: "set ?out = picks z after None {v \<in> upcoming s ?ly ?w. within B v}" "settled z n B (set ?out)"
  proof -
    have "valid ?w" "distinct ([] :: int list)" "\<forall>u \<in> set []. in_loc z u < ?w" by simp_all
    from walk_loop_count [OF this assms(2), of s after None ?ly] show ?thesis
      using that unfolding list.set(1) Un_empty_left by blast
  qed
  have inT: "around u \<subseteq> span_from after" "u div second \<in> span_from after" if "after \<le> u" for u
    using zdiv_mono1 [OF that, of second] by (auto simp: around_def span_from_def)
  have "set ?out = {u. in_window after None u \<and> occurs s z u \<and> ?w \<le> in_loc z u \<and> fst (in_loc z u) \<le> ?ly \<and> within B (in_loc z u)}"
    unfolding B(1) by (rule picks_occurs [OF assms(1)]) (use inT(1) in \<open>simp add: in_window_def\<close>)
  moreover have "?w \<le> in_loc z u" if "after < u" for u
    using start_below [OF assms(1) _ _ inT(2) [of u]] that by (simp add: span_from_def margin_div)
  ultimately have S: "set ?out = {u \<in> occurrences s z after. within B (in_loc z u)}"
    by (auto simp: in_window_def occurrences_def)
  have "take (nat n) (sorted_list_of_set (set ?out)) = take (nat n) (sorted_list_of_set (occurrences s z after))"
  proof (cases B)
    case None
    then show ?thesis by (simp add: S within_def)
  next
    case (Some t)
    then obtain A where A: "A \<subseteq> set ?out" "n \<le> int (card A)" "\<forall>u \<in> A. utc (in_loc z u) + ambiguityMargin \<le> t"
      using B(2) by (auto simp: settled_def)
    show ?thesis
    proof (rule take_sorted_subset [OF finite_occurrences [OF assms(1)] A(1)])
      show "set ?out \<subseteq> occurrences s z after" by (simp add: S)
      show "nat n \<le> card A" using A(2) by simp
      show "a < x" if a: "a \<in> A" and x: "x \<in> occurrences s z after - set ?out" for a x
      proof (rule ccontr)
        assume "\<not> a < x"
        moreover have xo: "x \<in> occurrences s z after" and nw: "\<not> within B (in_loc z x)" using x unfolding S by blast+
        moreover have "60 dvd local_second z x" using xo by (simp add: occurrences_def occurs_def)
        moreover have "utc (in_loc z x) > t" using nw by (simp add: Some within_def)
        moreover have "utc (in_loc z a) + ambiguityMargin \<le> t" using A(3) a by blast
        moreover have "a div second \<in> span_from after" "x div second \<in> span_from after"
          using A(1) a S xo inT(2) by (auto simp: occurrences_def intro: less_imp_le)
        ultimately show False using stop_above [OF assms(1), of x a] by force
      qed
    qed
  qed
  moreover have "walk s z after None n = take (nat n) (sorted_list_of_set (set ?out))"
    using assms(2) by (auto simp: walk_def Let_def sortUnique_set)
  ultimately show ?thesis by simp
qed

text \<open>
  The runs shown to a user are the runs that fire.  \<^verbatim>\<open>Upcoming\<close> returns the first \<open>n\<close>
  occurrences after an instant within the search bound, in order; so whatever window the scheduler
  later asks \<^verbatim>\<open>Due\<close> for, the runs announced in it are the first ones that come due.
\<close>

theorem upcoming_first:
  assumes "compile tzdata expr tz = Inr (s, z)" "zone_ok z (span_from after)" "0 \<le> n"
  shows "Upcoming tzdata expr tz after n = Inr (take (nat n) (sorted_list_of_set (occurrences s z after))) \<and>
    (zero_time < after \<and> after \<le> to \<longrightarrow>
      (\<exists>due. Due tzdata expr tz after to = Inr due \<and>
         takeWhile (\<lambda>u. u \<le> to) (take (nat n) (sorted_list_of_set (occurrences s z after))) = take (nat n) due))"
proof -
  let ?X = "occurrences s z after"
  have u: "Upcoming tzdata expr tz after n = Inr (take (nat n) (sorted_list_of_set ?X))"
    using assms walk_count [OF assms(2), of n s] by (simp add: Upcoming_def)
  have "takeWhile (\<lambda>u. u \<le> to) (take k (sorted_list_of_set ?X)) = take k (sorted_list_of_set {u \<in> ?X. u \<le> to})" for k
  proof -
    have "?X = {u \<in> ?X. u \<le> to} \<union> {u \<in> ?X. \<not> u \<le> to}" by auto
    moreover have "sorted_list_of_set ({u \<in> ?X. u \<le> to} \<union> {u \<in> ?X. \<not> u \<le> to}) =
        sorted_list_of_set {u \<in> ?X. u \<le> to} @ sorted_list_of_set {u \<in> ?X. \<not> u \<le> to}"
      using finite_occurrences [OF assms(2), of s] by (intro sorted_list_split) auto
    ultimately have e: "sorted_list_of_set ?X = sorted_list_of_set {u \<in> ?X. u \<le> to} @ sorted_list_of_set {u \<in> ?X. \<not> u \<le> to}" by simp
    have f: "finite {u \<in> ?X. u \<le> to}" "finite {u \<in> ?X. \<not> u \<le> to}" using finite_occurrences [OF assms(2), of s] by auto
    have "takeWhile (\<lambda>u. u \<le> to) (take k (xs @ ys)) = take k xs"
      if "\<forall>u \<in> set xs. u \<le> to" "\<forall>u \<in> set ys. \<not> u \<le> to" for xs ys :: "int list"
    proof -
      have "takeWhile (\<lambda>u. u \<le> to) (take j ys) = []" for j
        using that(2) by (cases "take j ys") (auto dest: in_set_takeD [of _ j ys] simp: takeWhile_eq_Nil_iff, metis in_set_takeD list.set_intros(1))
      moreover have "takeWhile (\<lambda>u. u \<le> to) (take k xs @ zs) = take k xs @ takeWhile (\<lambda>u. u \<le> to) zs" for zs
        using that(1) by (intro takeWhile_append2) (auto dest: in_set_takeD)
      ultimately show ?thesis by simp
    qed
    then show ?thesis unfolding e using f by (metis (mono_tags, lifting) mem_Collect_eq set_sorted_list_of_set)
  qed
  moreover have zt: "zone_ok z (window_span after to)"
    by (rule zone_ok_mono [OF assms(2)]) (auto simp: window_span_def span_from_def)
  ultimately show ?thesis using u due_exact_list [OF assms(1) zt] by auto
qed

theorem upcoming_first_witness:
  "\<exists>s. compile (\<lambda>_. Some demo_zone) ''30 2 * * *'' ''Europe/Berlin'' = Inr (s, demo_zone) \<and>
     Upcoming (\<lambda>_. Some demo_zone) ''30 2 * * *'' ''Europe/Berlin'' (1761393600 * second) 3
       = Inr (take 3 (sorted_list_of_set (occurrences s demo_zone (1761393600 * second))))"
proof -
  obtain s where c: "compile (\<lambda>_. Some demo_zone) ''30 2 * * *'' ''Europe/Berlin'' = Inr (s, demo_zone)" using demo_parse by blast
  have "zone_ok demo_zone (span_from (1761393600 * second))"
    by (rule zone_ok_mono [OF demo_zone_ok]) (auto simp: span_from_def)
  from upcoming_first [OF c this, of 3] c show ?thesis by auto
qed

end
