(* ===== verification/Go_Net.thy ===== *)
theory Go_Net
  imports Go_Prelude "HOL-Library.Word"
begin

unbundle bit_operations_syntax

text \<open>
  What the modelled code uses of Go's \<^verbatim>\<open>net\<close> and \<^verbatim>\<open>net/netip\<close> packages: an address
  as a byte slice of length 4 or 16 (any other length is no address), its class predicates, the
  parser of address literals, and the splitting and joining of \<^verbatim>\<open>host:port\<close>.
\<close>

type_synonym byte8 = "8 word"
type_synonym ip = "8 word list"
  \<comment> \<open>net.IP; the empty list is nil\<close>

section \<open>Addresses\<close>

definition v4InV6Prefix :: ip where
  "v4InV6Prefix = [0, 0, 0, 0, 0, 0, 0, 0, 0, 0, 0xFF, 0xFF]"

definition To4 :: "ip \<Rightarrow> ip" where
  "To4 a = (if length a = 4 then a
     else if length a = 16 \<and> take 12 a = v4InV6Prefix then drop 12 a else [])"

definition To16 :: "ip \<Rightarrow> ip" where
  "To16 a = (if length a = 4 then v4InV6Prefix @ a else if length a = 16 then a else [])"

definition IPv4 :: "byte8 \<Rightarrow> byte8 \<Rightarrow> byte8 \<Rightarrow> byte8 \<Rightarrow> ip" where
  "IPv4 a b c d = v4InV6Prefix @ [a, b, c, d]"

definition IPv6loopback :: ip where
  "IPv6loopback = replicate 15 0 @ [1]"

definition IPv6unspecified :: ip where
  "IPv6unspecified = replicate 16 0"

definition ip_Equal :: "ip \<Rightarrow> ip \<Rightarrow> bool" where
  "ip_Equal a x \<longleftrightarrow>
     (if length a = length x then a = x
      else if length a = 4 \<and> length x = 16 then take 12 x = v4InV6Prefix \<and> a = drop 12 x
      else if length a = 16 \<and> length x = 4 then take 12 a = v4InV6Prefix \<and> drop 12 a = x
      else False)"

definition IsUnspecified :: "ip \<Rightarrow> bool" where
  "IsUnspecified a \<longleftrightarrow> ip_Equal a (IPv4 0 0 0 0) \<or> ip_Equal a IPv6unspecified"

definition IsLoopback :: "ip \<Rightarrow> bool" where
  "IsLoopback a = (let a4 = To4 a in if a4 \<noteq> [] then a4 ! 0 = 127 else ip_Equal a IPv6loopback)"

definition IsMulticast :: "ip \<Rightarrow> bool" where
  "IsMulticast a = (let a4 = To4 a in if a4 \<noteq> [] then a4 ! 0 AND 0xF0 = 0xE0 else length a = 16 \<and> a ! 0 = 0xFF)"

definition IsLinkLocalMulticast :: "ip \<Rightarrow> bool" where
  "IsLinkLocalMulticast a = (let a4 = To4 a in
     if a4 \<noteq> [] then a4 ! 0 = 224 \<and> a4 ! 1 = 0 \<and> a4 ! 2 = 0
     else length a = 16 \<and> a ! 0 = 0xFF \<and> a ! 1 AND 0x0F = 0x02)"

definition IsLinkLocalUnicast :: "ip \<Rightarrow> bool" where
  "IsLinkLocalUnicast a = (let a4 = To4 a in
     if a4 \<noteq> [] then a4 ! 0 = 169 \<and> a4 ! 1 = 254
     else length a = 16 \<and> a ! 0 = 0xFE \<and> a ! 1 AND 0xC0 = 0x80)"

section \<open>Parsing\<close>

text \<open>A dotted quad: four decimal octets, none over 255, none with a leading zero.\<close>

definition octet :: "string \<Rightarrow> byte8 option" where
  "octet s = (if s = [] \<or> (length s > 1 \<and> hd s = CHR ''0'') then None
     else case digits_val 0 s of None \<Rightarrow> None | Some v \<Rightarrow> if v \<le> 255 then Some (word_of_int v) else None)"

fun octets :: "string list \<Rightarrow> ip option" where
  "octets [] = Some []"
| "octets (s # ss) = (case octet s of None \<Rightarrow> None | Some b \<Rightarrow> (case octets ss of None \<Rightarrow> None | Some bs \<Rightarrow> Some (b # bs)))"

definition parseIPv4 :: "string \<Rightarrow> ip option" where
  "parseIPv4 s = (let parts = split_on (CHR ''.'') s in if length parts = 4 then octets parts else None)"

definition hex_val :: "char \<Rightarrow> nat option" where
  "hex_val c = (let n = byte c in
     if 48 \<le> n \<and> n \<le> 57 then Some (n - 48) else if 97 \<le> n \<and> n \<le> 102 then Some (n - 87)
     else if 65 \<le> n \<and> n \<le> 70 then Some (n - 55) else None)"

definition hex_run :: "string \<Rightarrow> string" where
  "hex_run = takeWhile (\<lambda>c. hex_val c \<noteq> None)"

definition hex_num :: "string \<Rightarrow> nat" where
  "hex_num s = foldl (\<lambda>acc c. 16 * acc + the (hex_val c)) 0 s"

text \<open>
  The loop of \<^verbatim>\<open>netip.parseIPv6\<close>: the bytes read so far, the position of the ellipsis, the
  rest of the text.  A group is one to four hexadecimal digits.
\<close>

function parse6_loop :: "ip \<Rightarrow> nat option \<Rightarrow> string \<Rightarrow> (ip \<times> nat option \<times> string) option" where
  "parse6_loop bs ell s =
     (if length bs \<ge> 16 then Some (bs, ell, s)
      else let g = hex_run s; rest = drop (length g) s; acc = hex_num g in
        if g = [] \<or> length g > 4 then None
        else if has_prefix rest ''.'' then
          (if (ell = None \<and> length bs \<noteq> 12) \<or> length bs + 4 > 16 then None
           else case parseIPv4 s of None \<Rightarrow> None | Some q \<Rightarrow> Some (bs @ q, ell, []))
        else let bs' = bs @ [of_nat (acc div 256), of_nat (acc mod 256)] in
          if rest = [] then Some (bs', ell, [])
          else if hd rest \<noteq> CHR '':'' \<or> length rest = 1 then None
          else if rest ! 1 = CHR '':'' then
            (if ell \<noteq> None then None
             else if drop 2 rest = [] then Some (bs', Some (length bs'), [])
             else parse6_loop bs' (Some (length bs')) (drop 2 rest))
          else parse6_loop bs' ell (drop 1 rest))"
  by pat_completeness auto
termination
  by (relation "measure (\<lambda>(bs, _, _). 16 - length bs)") auto

declare parse6_loop.simps [simp del]

definition expand :: "ip \<times> nat option \<times> string \<Rightarrow> ip option" where
  "expand r = (case r of (bs, ell, s) \<Rightarrow>
     if s \<noteq> [] then None
     else if length bs < 16 then (case ell of None \<Rightarrow> None
       | Some e \<Rightarrow> Some (take e bs @ replicate (16 - length bs) 0 @ drop e bs))
     else if ell \<noteq> None then None else Some bs)"

definition parseIPv6 :: "string \<Rightarrow> ip option" where
  "parseIPv6 s =
     (if s = ''::'' then Some IPv6unspecified
      else Option.bind (if has_prefix s ''::'' then parse6_loop [] (Some 0) (drop 2 s) else parse6_loop [] None s) expand)"

text \<open>
  \<^verbatim>\<open>net.ParseIP\<close>: the first dot or colon decides the form; a zone is refused; the result
  has sixteen bytes.
\<close>

definition ParseIP :: "string \<Rightarrow> ip" where
  "ParseIP s = (case find (\<lambda>c. c = CHR ''.'' \<or> c = CHR '':'' \<or> c = CHR ''%'') s of
     Some c \<Rightarrow> if c = CHR ''.'' then (case parseIPv4 s of None \<Rightarrow> [] | Some q \<Rightarrow> v4InV6Prefix @ q)
       else if c = CHR '':'' \<and> CHR ''%'' \<notin> set s then (case parseIPv6 s of None \<Rightarrow> [] | Some a \<Rightarrow> a)
       else []
   | None \<Rightarrow> [])"

section \<open>Host and port\<close>

definition SplitHostPort :: "string \<Rightarrow> (string \<times> string) option" where
  "SplitHostPort hp =
     (if CHR '':'' \<notin> set hp then None
      else let port = rev (takeWhile (\<lambda>c. c \<noteq> CHR '':'') (rev hp)); i = length hp - length port - 1 in
        if hd hp = CHR ''['' then
          let e = length (takeWhile (\<lambda>c. c \<noteq> CHR '']'') hp) in
          if e + 1 \<noteq> i \<or> e \<ge> length hp then None
          else if CHR ''['' \<in> set (drop 1 hp) \<or> CHR '']'' \<in> set (drop (e + 1) hp) then None
          else Some (drop 1 (take e hp), port)
        else
          let host = take i hp in
          if CHR '':'' \<in> set host then None
          else if CHR ''['' \<in> set hp \<or> CHR '']'' \<in> set hp then None
          else Some (host, port))"

definition JoinHostPort :: "string \<Rightarrow> string \<Rightarrow> string" where
  "JoinHostPort host port = (if CHR '':'' \<in> set host then ''['' @ host @ '']:'' @ port else host @ '':'' @ port)"

lemma split_join_host_port:
  assumes "set host \<inter> set ''[]'' = {}" "set port \<inter> set '':[]'' = {}"
  shows "SplitHostPort (JoinHostPort host port) = Some (host, port)"
proof -
  have p: "takeWhile (\<lambda>c. c \<noteq> CHR '':'') (rev port @ CHR '':'' # x) = rev port" for x
    using assms(2) by (subst takeWhile_append2) auto
  have e: "takeWhile (\<lambda>c. c \<noteq> CHR '']'') (host @ CHR '']'' # x) = host" for x
    using assms(1) by (subst takeWhile_append2) auto
  have p': "rev (takeWhile (\<lambda>c. c \<noteq> CHR '':'') (rev (x @ CHR '':'' # port))) = port" for x using p by simp
  show ?thesis
  proof (cases "CHR '':'' \<in> set host")
    case True
    have "rev (takeWhile (\<lambda>c. c \<noteq> CHR '':'') (rev (CHR ''['' # host @ CHR '']'' # CHR '':'' # port))) = port"
      using p' [of "CHR ''['' # host @ [CHR '']'']"] by simp
    then show ?thesis using True assms e by (auto simp: SplitHostPort_def JoinHostPort_def Let_def)
  next
    case False
    have "hd (host @ CHR '':'' # port) \<noteq> CHR ''[''" using assms(1) by (cases host) auto
    then show ?thesis using False assms p' [of host] by (auto simp: SplitHostPort_def JoinHostPort_def Let_def)
  qed
qed

end
