(* ===== verification/Host_Set.thy ===== *)
theory Host_Set
  imports Go_Net "HOL-Library.Multiset" "HOL-Library.Sublist"
begin

text \<open>
  \<^verbatim>\<open>internal/egress\<close>: the host matcher shared by the environment's networking policy and a
  credential's allowed hosts (\<^verbatim>\<open>hostset.go\<close>), the substitution of vault placeholders
  (\<^verbatim>\<open>engine.go\<close>), the admission of declared MCP servers (\<^verbatim>\<open>mcphost.go\<close>) and the
  curated package registries (\<^verbatim>\<open>registries.go\<close>).  The conversion of a Unicode name to its
  A-label (\<^verbatim>\<open>idna.Lookup.ToASCII\<close> of \<^verbatim>\<open>golang.org/x/net\<close>) is the parameter
  \<open>idna\<close>, \<open>None\<close> where it reports an error; SHA-256 is the parameter \<open>sha\<close>.
\<close>

type_synonym idna = "string \<Rightarrow> string option"

section \<open>\<^verbatim>\<open>strings.NewReplacer\<close>\<close>

text \<open>
  The pair that applies at a position: the first, in argument order, whose old string the rest of
  the input starts with; an empty old string not twice in a row.
\<close>

definition replacer_lookup :: "(string \<times> string) list \<Rightarrow> bool \<Rightarrow> string \<Rightarrow> (string \<times> string) option" where
  "replacer_lookup ps prev_empty s = find (\<lambda>(k, _). prefix k s \<and> (k \<noteq> [] \<or> \<not> prev_empty)) ps"

lemma replacer_lookup_Some:
  "replacer_lookup ps e s = Some (k, v) \<Longrightarrow> (k, v) \<in> set ps \<and> prefix k s \<and> (k \<noteq> [] \<or> \<not> e)"
  by (auto simp: replacer_lookup_def find_Some_iff in_set_conv_nth)

text \<open>One pass from left to right that never reads its own output again.\<close>

function replacer :: "(string \<times> string) list \<Rightarrow> bool \<Rightarrow> string \<Rightarrow> string" where
  "replacer ps prev_empty s = (case replacer_lookup ps prev_empty s of
     Some (k, v) \<Rightarrow> v @ (if k = [] then replacer ps True s else replacer ps False (drop (length k) s))
   | None \<Rightarrow> (case s of [] \<Rightarrow> [] | c # cs \<Rightarrow> c # replacer ps False cs))"
  by pat_completeness auto
termination
  by (relation "measures [\<lambda>(_, _, s). length s, \<lambda>(_, e, _). if e then 0 else 1]")
     (auto dest!: replacer_lookup_Some dest: prefix_length_le simp: neq_Nil_conv)

declare replacer.simps [simp del]

definition NewReplacer :: "(string \<times> string) list \<Rightarrow> string \<Rightarrow> string" where
  "NewReplacer ps s = replacer ps False s"

section \<open>Canonical hosts\<close>

definition is_upper :: "char \<Rightarrow> bool" where
  "is_upper c \<longleftrightarrow> 65 \<le> byte c \<and> byte c \<le> 90"

definition hasUpperASCII :: "string \<Rightarrow> bool" where
  "hasUpperASCII s \<longleftrightarrow> list_ex is_upper s"

definition isASCII :: "string \<Rightarrow> bool" where
  "isASCII s \<longleftrightarrow> list_all (\<lambda>c. byte c < 0x80) s"

definition foldASCII :: "string \<Rightarrow> string" where
  "foldASCII h = (if \<not> hasUpperASCII h then h
     else map (\<lambda>c. if is_upper c then char_of (byte c + 32) else c) h)"

definition maxCanonicalHost :: nat where
  "maxCanonicalHost = 1024"

definition canonicalName :: "idna \<Rightarrow> string \<Rightarrow> string" where
  "canonicalName idna h0 = (let h = foldASCII h0 in
     if h = [] \<or> length h > maxCanonicalHost then h
     else if isASCII h then h
     else case idna h of None \<Rightarrow> h | Some a \<Rightarrow> a)"

definition CanonicalHost :: "idna \<Rightarrow> string \<Rightarrow> string" where
  "CanonicalHost idna h = (case cut (CHR ''%'') h of
     (name, zone, True) \<Rightarrow> canonicalName idna name @ ''%'' @ zone
   | (_, _, False) \<Rightarrow> canonicalName idna h)"

definition canonicalDeRooted :: "idna \<Rightarrow> string \<Rightarrow> string" where
  "canonicalDeRooted idna h = (case cut (CHR ''%'') h of
     (name, zone, True) \<Rightarrow> trim_suffix (canonicalName idna name) ''.'' @ ''%'' @ zone
   | (_, _, False) \<Rightarrow> trim_suffix (canonicalName idna h) ''.'')"

definition CanonicalLookup :: "idna \<Rightarrow> string \<Rightarrow> string" where
  "CanonicalLookup idna h = canonicalDeRooted idna (trim_space h)"

text \<open>The three full stops UTS46 maps onto the dot: U+3002, U+FF0E, U+FF61.\<close>

definition idnaFullStops :: "(string \<times> string) list" where
  "idnaFullStops = [([CHR 0xE3, CHR 0x80, CHR 0x82], ''.''), ([CHR 0xEF, CHR 0xBC, CHR 0x8E], ''.''),
     ([CHR 0xEF, CHR 0xBD, CHR 0xA1], ''.'')]"

definition hasEmptyLabel :: "string \<Rightarrow> bool" where
  "hasEmptyLabel host0 = (let host = (if \<not> isASCII host0 then NewReplacer idnaFullStops host0 else host0)
     in list_ex (\<lambda>label. label = []) (split_on (CHR ''.'') host))"

section \<open>The host set\<close>

record host_set =
  hs_exact :: "string list"
  hs_suffixes :: "string list"

definition add_entry :: "idna \<Rightarrow> host_set \<Rightarrow> string \<Rightarrow> host_set" where
  "add_entry idna s e0 = (let e = trim_space e0 in
     if has_prefix e ''*.'' then
       let rest = canonicalDeRooted idna (drop 2 e)
       in if rest \<noteq> [] \<and> \<not> hasEmptyLabel rest then s\<lparr>hs_suffixes := hs_suffixes s @ [rest]\<rparr> else s
     else
       let k = canonicalDeRooted idna e
       in if k \<noteq> [] \<and> \<not> hasEmptyLabel k then s\<lparr>hs_exact := List.insert k (hs_exact s)\<rparr> else s)"

definition NewHostSet :: "idna \<Rightarrow> string list \<Rightarrow> host_set" where
  "NewHostSet idna entries = foldl (add_entry idna) \<lparr>hs_exact = [], hs_suffixes = []\<rparr> entries"

text \<open>A nil set matches nothing.\<close>

definition Match :: "idna \<Rightarrow> host_set option \<Rightarrow> string \<Rightarrow> bool" where
  "Match idna set0 host0 = (case set0 of None \<Rightarrow> False | Some s \<Rightarrow>
     if length host0 > maxCanonicalHost then False
     else let host = CanonicalLookup idna host0 in
       if host = [] \<or> hasEmptyLabel host then False
       else if List.member (hs_exact s) host then True
       else list_ex (\<lambda>suf. has_suffix host (''.'' @ suf)) (hs_suffixes s))"

definition CoversEntry :: "idna \<Rightarrow> host_set option \<Rightarrow> string \<Rightarrow> bool" where
  "CoversEntry idna set0 entry0 = (case set0 of None \<Rightarrow> False | Some s \<Rightarrow>
     let entry = trim_space entry0 in
     if has_prefix entry ''*.'' then
       let rest = canonicalDeRooted idna (drop 2 entry)
       in if rest = [] \<or> hasEmptyLabel rest then False
          else list_ex (\<lambda>suf. rest = suf \<or> has_suffix rest (''.'' @ suf)) (hs_suffixes s)
     else Match idna (Some s) entry)"

section \<open>The entry grammar\<close>

datatype entry_error = BadEntry | BadWildcard | WildcardIP | EntryTooLong | NotIDNA

definition is_lower :: "char \<Rightarrow> bool" where
  "is_lower c \<longleftrightarrow> 97 \<le> byte c \<and> byte c \<le> 122"

definition host_char :: "char \<Rightarrow> bool" where
  "host_char c \<longleftrightarrow> is_lower c \<or> is_upper c \<or> c = CHR ''-'' \<or> is_digit c"

fun labels_ok :: "bool \<Rightarrow> string list \<Rightarrow> entry_error + bool" where
  "labels_ok allNumeric [] = Inr allNumeric"
| "labels_ok allNumeric (l # ls) =
     (if l = [] \<or> has_prefix l ''-'' \<or> has_suffix l ''-'' then Inl BadEntry
      else if \<not> list_all host_char l then Inl BadEntry
      else labels_ok (allNumeric \<and> list_all is_digit l) ls)"

definition validateHostEntry :: "string \<Rightarrow> entry_error option" where
  "validateHostEntry h = (let wildcard = has_prefix h ''*.''; host = trim_prefix h ''*.'' in
     if host = [] \<or> CHR ''*'' \<in> set host then Some BadWildcard
     else if CHR '':'' \<in> set host then Some BadEntry
     else if ParseIP host \<noteq> [] then (if wildcard then Some WildcardIP else None)
     else case labels_ok True (split_on (CHR ''.'') host) of Inl e \<Rightarrow> Some e
       | Inr allNumeric \<Rightarrow> if allNumeric then Some BadEntry else None)"

definition ValidateHostEntry :: "string \<Rightarrow> entry_error option" where
  "ValidateHostEntry h = validateHostEntry h"

definition CanonicalEntry :: "idna \<Rightarrow> string \<Rightarrow> entry_error + string" where
  "CanonicalEntry idna h =
     (let converted =
        (if \<not> isASCII h then
           let wildcard = has_prefix h ''*.''; rest = trim_prefix h ''*.'' in
           if length rest > maxCanonicalHost then Inl EntryTooLong
           else case idna rest of None \<Rightarrow> Inl NotIDNA
             | Some a \<Rightarrow> Inr (if wildcard then ''*.'' @ a else a)
         else Inr h)
      in case converted of Inl e \<Rightarrow> Inl e
         | Inr e \<Rightarrow> (case validateHostEntry e of Some err \<Rightarrow> Inl err | None \<Rightarrow> Inr e))"

section \<open>Substitution\<close>

definition PlaceholderPrefix :: string where
  "PlaceholderPrefix = ''vltph_''"

text \<open>\<^verbatim>\<open>hex.EncodeToString\<close>.\<close>

definition hex_digit :: "nat \<Rightarrow> char" where
  "hex_digit n = ''0123456789abcdef'' ! n"

definition hex_of :: "string \<Rightarrow> string" where
  "hex_of bs = concat (map (\<lambda>c. [hex_digit (byte c div 16), hex_digit (byte c mod 16)]) bs)"

definition Placeholder :: "(string \<Rightarrow> string) \<Rightarrow> string \<Rightarrow> string \<Rightarrow> string" where
  "Placeholder sha sessionID secretName =
     PlaceholderPrefix @ hex_of (take 16 (sha (sessionID @ [CHR 0x00] @ secretName)))"

datatype location = LocationHeader | LocationBody

record credential =
  cr_placeholder :: string
  cr_secret :: string
  cr_hosts :: "host_set option"
  cr_unrestricted :: bool
  cr_header :: bool
  cr_body :: bool

definition cred_enabled :: "credential \<Rightarrow> location \<Rightarrow> bool" where
  "cred_enabled c loc = (case loc of LocationHeader \<Rightarrow> cr_header c | LocationBody \<Rightarrow> cr_body c)"

definition cred_reaches :: "idna \<Rightarrow> string \<Rightarrow> credential \<Rightarrow> bool" where
  "cred_reaches idna host c \<longleftrightarrow> cr_unrestricted c \<or> Match idna (cr_hosts c) host"

text \<open>The credentials a pass considers: enabled for the location and present in the text.\<close>

definition cred_present :: "location \<Rightarrow> string \<Rightarrow> credential \<Rightarrow> bool" where
  "cred_present loc s c \<longleftrightarrow> cred_enabled c loc \<and> contains_str s (cr_placeholder c)"

definition cred_pairs :: "idna \<Rightarrow> credential list \<Rightarrow> string \<Rightarrow> location \<Rightarrow> string \<Rightarrow> (string \<times> string) list" where
  "cred_pairs idna creds host loc s =
     map (\<lambda>c. (cr_placeholder c, cr_secret c)) (filter (\<lambda>c. cred_present loc s c \<and> cred_reaches idna host c) creds)"

definition Substitute :: "idna \<Rightarrow> credential list \<Rightarrow> string \<Rightarrow> location \<Rightarrow> string \<Rightarrow> string \<times> credential list" where
  "Substitute idna creds host loc s =
     (let pairs = cred_pairs idna creds host loc s;
          unreachable = filter (\<lambda>c. cred_present loc s c \<and> \<not> cred_reaches idna host c) creds
      in if pairs = [] then (s, unreachable) else (NewReplacer pairs s, unreachable))"

section \<open>MCP servers and package registries\<close>

record networking =
  nt_type :: string
  nt_allowed_hosts :: "string list"
  nt_allow_mcp :: bool
  nt_allow_packages :: bool

record env_config =
  ec_type :: string
  ec_networking :: networking

definition NetUnrestricted :: string where
  "NetUnrestricted = ''unrestricted''"

definition NetLimited :: string where
  "NetLimited = ''limited''"

definition MCPServerAdmitted :: "idna \<Rightarrow> env_config \<Rightarrow> string \<Rightarrow> bool" where
  "MCPServerAdmitted idna cfg host = (let net = ec_networking cfg in
     if ec_type cfg = ''self_hosted'' \<and> nt_type net = [] then True
     else if nt_type net = NetUnrestricted then True
     else if nt_type net = NetLimited then
       (if nt_allow_mcp net then True else Match idna (Some (NewHostSet idna (nt_allowed_hosts net))) host)
     else False)"

definition PackageRegistryHosts :: "string list" where
  "PackageRegistryHosts =
    [''pypi.org'', ''files.pythonhosted.org'', ''registry.npmjs.org'', ''registry.yarnpkg.com'',
     ''nodejs.org'', ''crates.io'', ''index.crates.io'', ''static.crates.io'', ''rubygems.org'',
     ''index.rubygems.org'', ''proxy.golang.org'', ''sum.golang.org'', ''archive.ubuntu.com'',
     ''security.ubuntu.com'', ''ppa.launchpad.net'', ''packagist.org'', ''repo.maven.apache.org'',
     ''repo1.maven.org'', ''plugins.gradle.org'', ''github.com'', ''api.github.com'',
     ''raw.githubusercontent.com'', ''codeload.github.com'', ''objects.githubusercontent.com'',
     ''gitlab.com'', ''bitbucket.org'', ''ghcr.io'', ''registry-1.docker.io'', ''auth.docker.io'',
     ''download.docker.com'']"

section \<open>Labels\<close>

text \<open>The labels of a host, and the host back from them.\<close>

abbreviation labels :: "string \<Rightarrow> string list" where
  "labels \<equiv> split_on (CHR ''.'')"

fun join_on :: "char \<Rightarrow> string list \<Rightarrow> string" where
  "join_on c [] = []"
| "join_on c [x] = x"
| "join_on c (x # y # ys) = x @ c # join_on c (y # ys)"

lemma split_on_append: "split_on c (a @ c # b) = split_on c a @ split_on c b"
  by (induction a) (auto split: list.split)

lemma join_on_Cons: "ys \<noteq> [] \<Longrightarrow> join_on c (x # ys) = x @ c # join_on c ys"
  by (cases ys) auto

lemma join_on_append: "xs \<noteq> [] \<Longrightarrow> ys \<noteq> [] \<Longrightarrow> join_on c (xs @ ys) = join_on c xs @ c # join_on c ys"
  by (induction xs rule: induct_list012) (auto simp: join_on_Cons)

lemma join_split_on [simp]: "join_on c (split_on c s) = s"
proof (induction s)
  case (Cons x s)
  then show ?case
    by (cases "split_on c s"; cases "tl (split_on c s)") (auto simp: join_on_Cons)
qed simp

lemma suffix_labels: "has_suffix h (''.'' @ d) \<longleftrightarrow> (\<exists>pre. pre \<noteq> [] \<and> labels h = pre @ labels d)"
proof
  assume "has_suffix h (''.'' @ d)"
  then obtain q where "h = q @ CHR ''.'' # d" by (auto simp: has_suffix_conv)
  then have "labels h = labels q @ labels d" by (simp add: split_on_append)
  then show "\<exists>pre. pre \<noteq> [] \<and> labels h = pre @ labels d" by force
next
  assume "\<exists>pre. pre \<noteq> [] \<and> labels h = pre @ labels d"
  then obtain pre where p: "pre \<noteq> []" "labels h = pre @ labels d" by blast
  have "h = join_on (CHR ''.'') (labels h)" by simp
  also have "\<dots> = join_on (CHR ''.'') pre @ CHR ''.'' # d" using p by (simp add: join_on_append)
  finally show "has_suffix h (''.'' @ d)" by (auto simp: has_suffix_conv)
qed

text \<open>A replacement whose old strings hold no separator works label by label.\<close>

lemma prefix_before_sep: "c \<notin> set k \<Longrightarrow> prefix k (a @ c # b) \<longleftrightarrow> prefix k a"
proof (induction k arbitrary: a)
  case (Cons x k)
  then show ?case by (cases a) auto
qed simp

lemma replacer_sep:
  assumes "\<forall>(k, v) \<in> set ps. c \<notin> set k \<and> k \<noteq> []"
  shows "replacer ps e (a @ c # b) = replacer ps e a @ c # replacer ps False b"
  using assms
proof (induction ps e a arbitrary: rule: replacer.induct)
  case (1 ps e s)
  have lk: "replacer_lookup ps e' (a @ c # b) = replacer_lookup ps e' a" for e' a
    unfolding replacer_lookup_def
    using "1.prems" by (intro find_cong) (auto simp: prefix_before_sep)
  show ?case
  proof (cases "replacer_lookup ps e s")
    case None
    with 1 lk [of e "[]"] lk [of e "hd s # tl s"] show ?thesis by (cases s) (auto simp: replacer.simps [of ps e])
  next
    case (Some kv)
    obtain k v where kv: "kv = (k, v)" by force
    with Some replacer_lookup_Some [of ps e s k v] "1.prems" have k: "k \<noteq> []" "prefix k s" by auto
    then have "length k \<le> length s" by (simp add: prefix_length_le)
    with k 1 Some kv lk show ?thesis by (auto simp: replacer.simps [of ps e])
  qed
qed

lemma replacer_Nil: "\<forall>(k, v) \<in> set ps. k \<noteq> [] \<Longrightarrow> replacer ps e [] = []"
proof -
  assume "\<forall>(k, v) \<in> set ps. k \<noteq> []"
  then have "replacer_lookup ps e [] = None" by (auto simp: replacer_lookup_def find_None_iff)
  then show ?thesis by (simp add: replacer.simps)
qed

lemma full_stops_sep: "\<forall>(k, v) \<in> set idnaFullStops. CHR ''.'' \<notin> set k \<and> k \<noteq> []"
  by (simp add: idnaFullStops_def)

text \<open>What \<^const>\<open>hasEmptyLabel\<close> reads: the labels after the full stops are mapped.\<close>

definition mapped :: "string \<Rightarrow> string" where
  "mapped h = (if isASCII h then h else NewReplacer idnaFullStops h)"

lemma hasEmptyLabel_mapped: "hasEmptyLabel h \<longleftrightarrow> [] \<in> set (labels (mapped h))"
  by (auto simp: hasEmptyLabel_def mapped_def list_ex_iff Let_def)

lemma replace_empty_label:
  "[] \<in> set (labels h) \<Longrightarrow> [] \<in> set (labels (replacer idnaFullStops False h))"
proof (induction "length h" arbitrary: h rule: less_induct)
  case less
  show ?case
  proof (cases "CHR ''.'' \<in> set h")
    case True
    then obtain a b where h: "h = a @ CHR ''.'' # b" by (meson split_list)
    then have "[] \<in> set (labels a) \<or> [] \<in> set (labels b)" using less.prems by (auto simp: split_on_append)
    then have "[] \<in> set (labels (replacer idnaFullStops False a)) \<or> [] \<in> set (labels (replacer idnaFullStops False b))"
      using less.hyps [of a] less.hyps [of b] h by auto
    then show ?thesis using h by (auto simp: replacer_sep [OF full_stops_sep] split_on_append)
  next
    case False
    then have "labels h = [h]" by (induction h) auto
    with less.prems have "h = []" by auto
    then show ?thesis by (simp add: replacer_Nil idnaFullStops_def)
  qed
qed

lemma empty_label_mapped: "[] \<in> set (labels h) \<Longrightarrow> hasEmptyLabel h"
  by (simp add: hasEmptyLabel_mapped mapped_def NewReplacer_def replace_empty_label)

lemma empty_label_suffix: "hasEmptyLabel d \<Longrightarrow> hasEmptyLabel (q @ CHR ''.'' # d)"
proof -
  assume e: "hasEmptyLabel d"
  show ?thesis
  proof (cases "isASCII d")
    case True
    then have "[] \<in> set (labels d)" using e by (simp add: hasEmptyLabel_mapped mapped_def)
    then show ?thesis by (intro empty_label_mapped) (simp add: split_on_append)
  next
    case False
    then show ?thesis using e
      by (auto simp: hasEmptyLabel_mapped mapped_def isASCII_def NewReplacer_def replacer_sep [OF full_stops_sep] split_on_append)
  qed
qed

section \<open>What a set matches\<close>

text \<open>
  An entry names a host, given by its canonical form: a plain entry the host it canonicalizes to,
  a wildcard every host with at least one further label in front of the labels of its domain.
\<close>

definition entry_names :: "idna \<Rightarrow> string \<Rightarrow> string \<Rightarrow> bool" where
  "entry_names idna e h = (let t = trim_space e in
     if has_prefix t ''*.'' then \<exists>pre. pre \<noteq> [] \<and> labels h = pre @ labels (canonicalDeRooted idna (drop 2 t))
     else h = canonicalDeRooted idna t)"

definition set_names :: "host_set \<Rightarrow> string \<Rightarrow> bool" where
  "set_names s h \<longleftrightarrow> h \<in> set (hs_exact s) \<or> (\<exists>suf \<in> set (hs_suffixes s). has_suffix h (''.'' @ suf))"

lemma add_entry_names:
  assumes "h \<noteq> []" "\<not> hasEmptyLabel h"
  shows "set_names (add_entry idna s e) h \<longleftrightarrow> set_names s h \<or> entry_names idna e h"
proof (cases "has_prefix (trim_space e) ''*.''")
  case True
  let ?d = "canonicalDeRooted idna (drop 2 (trim_space e))"
  have "?d \<noteq> [] \<and> \<not> hasEmptyLabel ?d" if n: "has_suffix h (''.'' @ ?d)"
  proof -
    obtain q where q: "h = q @ CHR ''.'' # ?d" using n by (auto simp: has_suffix_conv)
    have "hasEmptyLabel h" if "?d = []" using q that by (intro empty_label_mapped) (simp add: split_on_append)
    with q assms(2) empty_label_suffix [of ?d q] show ?thesis by auto
  qed
  then show ?thesis using True
    by (auto simp: set_names_def add_entry_def entry_names_def Let_def suffix_labels [symmetric])
next
  case False
  then show ?thesis using assms by (auto simp: set_names_def add_entry_def entry_names_def Let_def)
qed

lemma NewHostSet_names:
  assumes "h \<noteq> []" "\<not> hasEmptyLabel h"
  shows "set_names (NewHostSet idna entries) h \<longleftrightarrow> (\<exists>e \<in> set entries. entry_names idna e h)"
proof -
  have "set_names (foldl (add_entry idna) s es) h \<longleftrightarrow> set_names s h \<or> (\<exists>e \<in> set es. entry_names idna e h)" for s es
    by (induction es arbitrary: s) (auto simp: add_entry_names [OF assms])
  then show ?thesis by (simp add: NewHostSet_def set_names_def)
qed

lemma Match_names:
  "Match idna (Some s) host \<longleftrightarrow> length host \<le> maxCanonicalHost \<and> CanonicalLookup idna host \<noteq> [] \<and>
     \<not> hasEmptyLabel (CanonicalLookup idna host) \<and> set_names s (CanonicalLookup idna host)"
  by (auto simp: Match_def Let_def set_names_def list_ex_iff)

lemma Match_entries:
  "Match idna (Some (NewHostSet idna entries)) host \<longleftrightarrow>
     length host \<le> maxCanonicalHost \<and> CanonicalLookup idna host \<noteq> [] \<and> \<not> hasEmptyLabel (CanonicalLookup idna host) \<and>
     (\<exists>e \<in> set entries. entry_names idna e (CanonicalLookup idna host))"
  by (metis Match_names NewHostSet_names)

text \<open>
  C18: the host matcher works on DNS labels.  A set built from entries matches a host exactly when
  the host is within the length bound, its canonical form is not empty and has no empty label, and
  some entry names it: a plain entry by the same canonical form, a wildcard by having its domain's
  labels as a proper suffix of the host's labels.  So a wildcard never matches its apex, nor a host
  that merely ends with the same characters.
\<close>

theorem match_by_labels:
  "Match idna (Some (NewHostSet idna entries)) host \<longleftrightarrow>
     length host \<le> maxCanonicalHost \<and> CanonicalLookup idna host \<noteq> [] \<and> \<not> hasEmptyLabel (CanonicalLookup idna host) \<and>
     (\<exists>e \<in> set entries. entry_names idna e (CanonicalLookup idna host))"
  by (rule Match_entries)

lemma covers_entry_match:
  assumes c: "CoversEntry idna (Some s) e" and m: "Match idna (Some (NewHostSet idna [e])) host"
  shows "Match idna (Some s) host"
proof -
  let ?h = "CanonicalLookup idna host"
  have h: "length host \<le> maxCanonicalHost" "?h \<noteq> []" "\<not> hasEmptyLabel ?h" and "set_names (NewHostSet idna [e]) ?h"
    using m by (simp_all add: Match_names)
  then have n: "entry_names idna e ?h" by (simp add: NewHostSet_names)
  have "set_names s ?h"
  proof (cases "has_prefix (trim_space e) ''*.''")
    case True
    let ?d = "canonicalDeRooted idna (drop 2 (trim_space e))"
    obtain suf where suf: "suf \<in> set (hs_suffixes s)" "?d = suf \<or> has_suffix ?d (''.'' @ suf)"
      using c True by (auto simp: CoversEntry_def Let_def list_ex_iff split: if_splits)
    have "has_suffix ?h (''.'' @ ?d)" using n True unfolding suffix_labels by (simp add: entry_names_def)
    then have "has_suffix ?h (''.'' @ suf)" using suf(2) by (fastforce simp: has_suffix_conv)
    with suf(1) show ?thesis by (auto simp: set_names_def)
  next
    case False
    then have "Match idna (Some s) (trim_space e)" using c by (simp add: CoversEntry_def Let_def)
    then show ?thesis using False n by (simp add: Match_names entry_names_def CanonicalLookup_def)
  qed
  with h show ?thesis by (simp add: Match_names)
qed

text \<open>
  What the gate and the control plane rely on of a matcher built from entries: it matches what one
  of its entries matches, and a set that covers an entry matches whatever the entry names.
\<close>

locale entry_matcher =
  fixes build :: "string list \<Rightarrow> 's" and matches :: "'s \<Rightarrow> string \<Rightarrow> bool" and covers :: "'s \<Rightarrow> string \<Rightarrow> bool"
  assumes build_nil: "\<not> matches (build []) h"
    and build_append: "matches (build (xs @ ys)) h \<longleftrightarrow> matches (build xs) h \<or> matches (build ys) h"
    and covers_sound: "covers s e \<Longrightarrow> matches (build [e]) h \<Longrightarrow> matches s h"
begin

lemma build_member: "matches (build es) h \<longleftrightarrow> (\<exists>e \<in> set es. matches (build [e]) h)"
proof (induction es)
  case (Cons e es)
  then show ?case using build_append [of "[e]" es h] by simp
qed (simp add: build_nil)

lemma covers_all: "\<forall>e \<in> set es. covers s e \<Longrightarrow> matches (build es) h \<Longrightarrow> matches s h"
  using build_member covers_sound by blast

end

interpretation hosts: entry_matcher "NewHostSet idna" "\<lambda>s. Match idna (Some s)" "\<lambda>s. CoversEntry idna (Some s)"
  for idna
proof
  show "Match idna (Some (NewHostSet idna (xs @ ys))) h \<longleftrightarrow>
      Match idna (Some (NewHostSet idna xs)) h \<or> Match idna (Some (NewHostSet idna ys)) h" for xs ys h
    by (auto simp: Match_entries)
qed (auto simp: Match_entries intro: covers_entry_match)

section \<open>Substitution confines secrets\<close>

lemma contains_str_append: "contains_str (a @ k @ b) k"
  by (induction a) (cases k; auto simp: has_prefix_conv; cases b; auto)+

text \<open>Credentials that agree on everything but secrets the host may not receive.\<close>

definition low_equal :: "idna \<Rightarrow> string \<Rightarrow> credential \<Rightarrow> credential \<Rightarrow> bool" where
  "low_equal idna host c d \<longleftrightarrow> c\<lparr>cr_secret := cr_secret d\<rparr> = d \<and> (cred_reaches idna host c \<longrightarrow> cr_secret c = cr_secret d)"

lemma low_equal_same:
  assumes "low_equal idna host c d"
  shows "cred_present loc s c = cred_present loc s d" "cred_reaches idna host c = cred_reaches idna host d"
    "cr_placeholder c = cr_placeholder d" "cred_reaches idna host c \<Longrightarrow> cr_secret c = cr_secret d"
proof -
  have d: "d = c\<lparr>cr_secret := cr_secret d\<rparr>" using assms by (simp add: low_equal_def)
  show "cred_present loc s c = cred_present loc s d"
    by (subst d) (simp add: cred_present_def cred_enabled_def split: location.split)
  show "cred_reaches idna host c = cred_reaches idna host d" by (subst d) (simp add: cred_reaches_def)
  show "cr_placeholder c = cr_placeholder d" by (subst d) simp
  show "cred_reaches idna host c \<Longrightarrow> cr_secret c = cr_secret d" using assms by (simp add: low_equal_def)
qed

lemma cred_pairs_low:
  assumes "list_all2 (low_equal idna host) cs ds"
  shows "cred_pairs idna cs host loc s = cred_pairs idna ds host loc s"
  using assms
proof (induction rule: list_all2_induct)
  case (Cons c cs d ds)
  then show ?case using low_equal_same [OF Cons.hyps(1)] by (auto simp: cred_pairs_def)
qed (simp add: cred_pairs_def)

text \<open>
  Placeholders of one length: at most one matches at a position, so the order of the pairs does
  not matter.
\<close>

lemma find_at_most_one:
  assumes "mset xs = mset ys" "\<forall>x \<in> set xs. \<forall>y \<in> set xs. P x \<longrightarrow> P y \<longrightarrow> x = y"
  shows "find P xs = find P ys"
proof -
  have s: "set xs = set ys" using assms(1) by (metis set_mset_mset)
  show ?thesis
  proof (cases "find P xs")
    case None
    then show ?thesis using s by (metis find_None_iff)
  next
    case (Some x)
    then have x: "x \<in> set xs" "P x" by (auto simp: find_Some_iff)
    then obtain y where y: "find P ys = Some y" using s by (metis find_None_iff not_Some_eq)
    then have "y \<in> set ys" "P y" by (auto simp: find_Some_iff)
    then show ?thesis using x y Some s assms(2) by force
  qed
qed

lemma replacer_lookup_cong:
  "(\<And>e s. replacer_lookup ps e s = replacer_lookup qs e s) \<Longrightarrow> replacer ps e s = replacer qs e s"
proof (induction ps e s rule: replacer.induct)
  case (1 ps e s)
  have IH: "replacer ps False (drop (length k) s) = replacer qs False (drop (length k) s)"
    if "replacer_lookup ps e s = Some (k, v)" "k \<noteq> []" for k v using "1.IH"(3) [OF that(1) refl that(2)] "1.prems" by blast
  have IH': "replacer ps True s = replacer qs True s"
    if "replacer_lookup ps e s = Some (k, v)" "k = []" for k v using "1.IH"(2) [OF that(1) refl that(2)] "1.prems" by blast
  have "replacer ps False cs = replacer qs False cs" if "replacer_lookup ps e s = None" "s = c # cs" for c cs
    using "1.IH"(1) [OF that] "1.prems" by blast
  then show ?case using IH IH' "1.prems"
    by (auto simp: replacer.simps [of ps e s] replacer.simps [of qs e s] split: option.split list.split)
qed

lemma replacer_order:
  assumes "mset ps = mset qs" "distinct (map fst ps)" "\<forall>p \<in> set ps. length (fst p) = n"
  shows "replacer ps e s = replacer qs e s"
proof (rule replacer_lookup_cong)
  fix e' s'
  show "replacer_lookup ps e' s' = replacer_lookup qs e' s'"
    unfolding replacer_lookup_def
  proof (rule find_at_most_one [OF assms(1)], intro ballI impI)
    fix x y assume x: "x \<in> set ps" and y: "y \<in> set ps"
      and p: "case x of (k, _) \<Rightarrow> prefix k s' \<and> (k \<noteq> [] \<or> \<not> e')" "case y of (k, _) \<Rightarrow> prefix k s' \<and> (k \<noteq> [] \<or> \<not> e')"
    then have "length (fst x) = length (fst y)" using assms(3) by metis
    moreover have "prefix (fst x) s'" "prefix (fst y) s'" using p by auto
    ultimately have "fst x = fst y" by (metis prefix_order.eq_iff prefix_length_prefix order_refl)
    then show "x = y" using x y assms(2) by (metis distinct_map inj_onD)
  qed
qed

text \<open>
  A pass cuts its input into literal characters and old strings; a character stays literal only
  where no old string starts.
\<close>

definition seg_in :: "(char + string \<times> string) list \<Rightarrow> string" where
  "seg_in segs = concat (map (case_sum (\<lambda>c. [c]) fst) segs)"

definition seg_out :: "(char + string \<times> string) list \<Rightarrow> string" where
  "seg_out segs = concat (map (case_sum (\<lambda>c. [c]) snd) segs)"

fun leftmost :: "(string \<times> string) list \<Rightarrow> (char + string \<times> string) list \<Rightarrow> bool" where
  "leftmost ps [] \<longleftrightarrow> True"
| "leftmost ps (Inl c # segs) \<longleftrightarrow> (\<forall>p \<in> set ps. \<not> prefix (fst p) (seg_in (Inl c # segs))) \<and> leftmost ps segs"
| "leftmost ps (Inr p # segs) \<longleftrightarrow> p \<in> set ps \<and> leftmost ps segs"

lemma replacer_segments:
  assumes "\<forall>p \<in> set ps. fst p \<noteq> []"
  shows "\<exists>segs. s = seg_in segs \<and> replacer ps e s = seg_out segs \<and> leftmost ps segs"
  using assms
proof (induction ps e s rule: replacer.induct)
  case (1 ps e s)
  show ?case
  proof (cases "replacer_lookup ps e s")
    case None
    show ?thesis
    proof (cases s)
      case Nil
      then show ?thesis using None by (intro exI [of _ "[]"]) (simp add: seg_in_def seg_out_def replacer.simps)
    next
      case (Cons c cs)
      then obtain segs where g: "cs = seg_in segs" "replacer ps False cs = seg_out segs" "leftmost ps segs"
        using "1.IH"(1) [OF None Cons] "1.prems" by blast
      have "\<not> prefix (fst p) s" if "p \<in> set ps" for p
        using None that "1.prems" by (cases p) (force simp: replacer_lookup_def find_None_iff)
      then show ?thesis using g None Cons
        by (intro exI [of _ "Inl c # segs"]) (simp add: seg_in_def seg_out_def replacer.simps [of ps e])
    qed
  next
    case (Some p)
    obtain k v where p: "p = (k, v)" by force
    note kv = replacer_lookup_Some [OF Some [unfolded p]]
    then have k: "k \<noteq> []" "(k, v) \<in> set ps" "prefix k s" using "1.prems" by force+
    then obtain segs where g: "drop (length k) s = seg_in segs" "replacer ps False (drop (length k) s) = seg_out segs" "leftmost ps segs"
      using "1.IH"(3) [OF Some p [symmetric] k(1)] "1.prems" by blast
    have "s = k @ drop (length k) s" using k(3) by (auto simp: prefix_def)
    then show ?thesis using g k Some p
      by (intro exI [of _ "Inr (k, v) # segs"]) (simp add: seg_in_def seg_out_def replacer.simps [of ps e])
  qed
qed

definition cut_in :: "(char + credential) list \<Rightarrow> string" where
  "cut_in segs = concat (map (case_sum (\<lambda>c. [c]) cr_placeholder) segs)"

definition cut_out :: "(char + credential) list \<Rightarrow> string" where
  "cut_out segs = concat (map (case_sum (\<lambda>c. [c]) cr_secret) segs)"

text \<open>The credentials whose secret may enter a location of a request to a host.\<close>

definition usable :: "idna \<Rightarrow> string \<Rightarrow> location \<Rightarrow> credential \<Rightarrow> bool" where
  "usable idna host loc c \<longleftrightarrow> cred_enabled c loc \<and> cred_reaches idna host c"

fun cut_exact :: "(credential \<Rightarrow> bool) \<Rightarrow> credential list \<Rightarrow> (char + credential) list \<Rightarrow> bool" where
  "cut_exact ok creds [] \<longleftrightarrow> True"
| "cut_exact ok creds (Inl ch # segs) \<longleftrightarrow>
     (\<forall>c \<in> set creds. ok c \<longrightarrow> \<not> prefix (cr_placeholder c) (cut_in (Inl ch # segs))) \<and> cut_exact ok creds segs"
| "cut_exact ok creds (Inr c # segs) \<longleftrightarrow> c \<in> set creds \<and> ok c \<and> cut_exact ok creds segs"

lemma contains_prefix: "prefix k (drop n s) \<Longrightarrow> contains_str s k"
proof -
  assume "prefix k (drop n s)"
  then obtain b where "drop n s = k @ b" by (auto simp: prefix_def)
  then have "s = take n s @ k @ b" by (metis append_take_drop_id)
  then show ?thesis by (metis contains_str_append)
qed

lemma cut_of_segments:
  assumes "leftmost (cred_pairs idna creds host loc s) segs" "drop n s = seg_in segs" "\<forall>c \<in> set creds. cr_placeholder c \<noteq> []"
  shows "\<exists>cuts. cut_in cuts = seg_in segs \<and> cut_out cuts = seg_out segs \<and> cut_exact (usable idna host loc) creds cuts"
  using assms
proof (induction segs arbitrary: n)
  case Nil
  show ?case by (intro exI [of _ "[]"]) (simp add: cut_in_def cut_out_def seg_in_def seg_out_def)
next
  case (Cons x segs)
  show ?case
  proof (cases x)
    case (Inl ch)
    then have "drop (Suc n) s = seg_in segs" using Cons.prems(2) by (simp add: seg_in_def) (metis drop_Suc tl_drop list.sel(3))
    then obtain cuts where c: "cut_in cuts = seg_in segs" "cut_out cuts = seg_out segs" "cut_exact (usable idna host loc) creds cuts"
      using Cons.IH [of "Suc n"] Cons.prems Inl by auto
    have "\<not> prefix (cr_placeholder d) (cut_in (Inl ch # cuts))" if d: "d \<in> set creds" "usable idna host loc d" for d
    proof
      have e: "cut_in (Inl ch # cuts) = seg_in (x # segs)" using c(1) Inl by (simp add: cut_in_def seg_in_def)
      assume p: "prefix (cr_placeholder d) (cut_in (Inl ch # cuts))"
      then have "contains_str s (cr_placeholder d)" using contains_prefix Cons.prems(2) e by metis
      then have "(cr_placeholder d, cr_secret d) \<in> set (cred_pairs idna creds host loc s)"
        using d by (force simp: cred_pairs_def cred_present_def usable_def)
      then show False using p e Cons.prems(1) Inl by auto
    qed
    then show ?thesis using c Inl by (intro exI [of _ "Inl ch # cuts"]) (simp add: cut_in_def cut_out_def seg_in_def seg_out_def)
  next
    case (Inr p)
    then obtain d where d: "p = (cr_placeholder d, cr_secret d)" "d \<in> set creds" "usable idna host loc d"
      using Cons.prems(1) by (auto simp: cred_pairs_def cred_present_def usable_def)
    have "drop (length (cr_placeholder d) + n) s = seg_in segs" using Cons.prems(2) Inr d(1)
      by (simp add: seg_in_def flip: drop_drop)
    then obtain cuts where c: "cut_in cuts = seg_in segs" "cut_out cuts = seg_out segs" "cut_exact (usable idna host loc) creds cuts"
      using Cons.IH [of "length (cr_placeholder d) + n"] Cons.prems Inr by auto
    then show ?thesis using d Inr by (intro exI [of _ "Inr d # cuts"]) (simp add: cut_in_def cut_out_def seg_in_def seg_out_def)
  qed
qed

text \<open>
  C19: substitution rewrites exactly the usable placeholders.  The text is cut, left to right, into
  literal characters and placeholders of credentials enabled for the location and admitted for the
  host, a character staying literal only where no such placeholder starts; the result is the same
  sequence with each of those placeholders replaced by its own credential's secret, which is never
  read again, and every other placeholder left as it is.
\<close>

theorem substitute_exact:
  assumes "\<forall>c \<in> set creds. cr_placeholder c \<noteq> []"
  shows "\<exists>cuts. s = cut_in cuts \<and> fst (Substitute idna creds host loc s) = cut_out cuts \<and>
    cut_exact (usable idna host loc) creds cuts"
proof -
  let ?ps = "cred_pairs idna creds host loc s"
  have "\<forall>p \<in> set ?ps. fst p \<noteq> []" using assms by (auto simp: cred_pairs_def)
  then obtain segs where g: "s = seg_in segs" "replacer ?ps False s = seg_out segs" "leftmost ?ps segs"
    using replacer_segments by blast
  have "fst (Substitute idna creds host loc s) = replacer ?ps False s"
  proof (cases "?ps = []")
    case True
    have "replacer [] False t = t" for t
      by (induction t) (simp_all add: replacer.simps [of "[]"] replacer_lookup_def)
    then show ?thesis using True by (simp add: Substitute_def Let_def)
  qed (simp add: Substitute_def Let_def NewReplacer_def)
  moreover obtain cuts where "cut_in cuts = seg_in segs" "cut_out cuts = seg_out segs" "cut_exact (usable idna host loc) creds cuts"
    using cut_of_segments [OF g(3), of 0] g(1) assms by auto
  ultimately show ?thesis using g by metis
qed

text \<open>The equations that evaluate a match of an ASCII host.\<close>

lemmas host_eval = Match_def NewHostSet_def add_entry_def CanonicalLookup_def canonicalDeRooted_def canonicalName_def
  trim_space_def foldASCII_def hasUpperASCII_def is_upper_def byte_def isASCII_def hasEmptyLabel_def maxCanonicalHost_def
  has_suffix_def trim_suffix_def has_prefix_def space_rune_def Let_def

definition demo_cred :: credential where
  "demo_cred = \<lparr>cr_placeholder = ''vltph_a'', cr_secret = ''k3y'',
     cr_hosts = Some (NewHostSet (\<lambda>_. None) [''*.example.com'']), cr_unrestricted = False, cr_header = True, cr_body = False\<rparr>"

theorem substitute_exact_witness:
  "fst (Substitute (\<lambda>_. None) [demo_cred] ''api.example.com'' LocationHeader ''Bearer vltph_a'') = ''Bearer k3y'' \<and>
   (\<exists>cuts. ''Bearer vltph_a'' = cut_in cuts \<and>
     fst (Substitute (\<lambda>_. None) [demo_cred] ''api.example.com'' LocationHeader ''Bearer vltph_a'') = cut_out cuts \<and>
     cut_exact (usable (\<lambda>_. None) ''api.example.com'' LocationHeader) [demo_cred] cuts)"
proof
  show "fst (Substitute (\<lambda>_. None) [demo_cred] ''api.example.com'' LocationHeader ''Bearer vltph_a'') = ''Bearer k3y''"
    by (simp add: Substitute_def cred_pairs_def cred_present_def cred_enabled_def cred_reaches_def demo_cred_def
        NewReplacer_def replacer.simps replacer_lookup_def host_eval)
  show "\<exists>cuts. ''Bearer vltph_a'' = cut_in cuts \<and>
     fst (Substitute (\<lambda>_. None) [demo_cred] ''api.example.com'' LocationHeader ''Bearer vltph_a'') = cut_out cuts \<and>
     cut_exact (usable (\<lambda>_. None) ''api.example.com'' LocationHeader) [demo_cred] cuts"
    by (rule substitute_exact) (simp add: demo_cred_def)
qed

text \<open>
  No secret reaches a host it is not for.  Two engines that differ only in secrets of
  credentials the host may not receive send the same text and report the same placeholders
  unreachable; and with placeholders of one length, all distinct, the order of the credentials does
  not change the text.
\<close>

lemma substitute_confined:
  assumes "list_all2 (low_equal idna host) creds creds'"
  shows "fst (Substitute idna creds host loc s) = fst (Substitute idna creds' host loc s) \<and>
    map cr_placeholder (snd (Substitute idna creds host loc s)) = map cr_placeholder (snd (Substitute idna creds' host loc s)) \<and>
    (distinct (map cr_placeholder creds) \<and> (\<forall>c \<in> set creds. length (cr_placeholder c) = n) \<and> mset perm = mset creds \<longrightarrow>
      fst (Substitute idna perm host loc s) = fst (Substitute idna creds' host loc s))"
proof (intro conjI impI)
  have p: "cred_pairs idna creds host loc s = cred_pairs idna creds' host loc s"
    by (rule cred_pairs_low [OF assms])
  then show e: "fst (Substitute idna creds host loc s) = fst (Substitute idna creds' host loc s)"
    by (simp add: Substitute_def Let_def)
  have "map cr_placeholder (filter (\<lambda>c. cred_present loc s c \<and> \<not> cred_reaches idna host c) creds) =
      map cr_placeholder (filter (\<lambda>c. cred_present loc s c \<and> \<not> cred_reaches idna host c) creds')"
    using assms by (induction rule: list_all2_induct) (auto dest: low_equal_same)
  then show "map cr_placeholder (snd (Substitute idna creds host loc s)) = map cr_placeholder (snd (Substitute idna creds' host loc s))"
    by (simp add: Substitute_def Let_def)
  assume a: "distinct (map cr_placeholder creds) \<and> (\<forall>c \<in> set creds. length (cr_placeholder c) = n) \<and> mset perm = mset creds"
  let ?p = "cred_pairs idna perm host loc s" and ?c = "cred_pairs idna creds host loc s"
  have "mset ?c = mset ?p" using a by (simp add: cred_pairs_def)
  moreover have "distinct (map fst ?c)" using a by (simp add: cred_pairs_def comp_def distinct_map_filter)
  moreover have "\<forall>x \<in> set ?c. length (fst x) = n" using a by (auto simp: cred_pairs_def)
  ultimately have "replacer ?c False s = replacer ?p False s" "?c = [] \<longleftrightarrow> ?p = []"
    by (auto intro: replacer_order)
  then show "fst (Substitute idna perm host loc s) = fst (Substitute idna creds' host loc s)"
    by (simp only: e [symmetric]) (simp add: Substitute_def Let_def NewReplacer_def)
qed

end
