(* ===== verification/Dial_Guard.thy ===== *)
theory Dial_Guard
  imports Go_Net "HOL-Library.Multiset"
begin

text \<open>
  \<^verbatim>\<open>internal/dialguard\<close>: the address floor (\<^verbatim>\<open>dialguard.go\<close>) and the dialer that
  resolves a name once, judges every address before a connect and uses only those
  (\<^verbatim>\<open>resolvedial.go\<close>).  The resolver, the connects and the readings of the context are
  parameters; the race of two address families is a step relation over the order in which their
  outcomes arrive.
\<close>

section \<open>The floor\<close>

definition v4 :: "byte8 \<Rightarrow> byte8 \<Rightarrow> byte8 \<Rightarrow> byte8 \<Rightarrow> ip" where
  "v4 a b c d = To4 (IPv4 a b c d)"

definition isZero :: "ip \<Rightarrow> bool" where
  "isZero b \<longleftrightarrow> list_all (\<lambda>v. v = 0) b"

definition embeddedIPv4 :: "ip \<Rightarrow> ip list" where
  "embeddedIPv4 a = (let b = To16 a in
     if b = [] \<or> To4 a \<noteq> [] then []
     else
       (if b ! 0 = 0x20 \<and> b ! 1 = 0x02 then [v4 (b ! 2) (b ! 3) (b ! 4) (b ! 5)]
        else if b ! 0 = 0x20 \<and> b ! 1 = 0x01 \<and> b ! 2 = 0x00 \<and> b ! 3 = 0x00 then
          [v4 (NOT (b ! 12)) (NOT (b ! 13)) (NOT (b ! 14)) (NOT (b ! 15))]
        else if b ! 0 = 0x00 \<and> b ! 1 = 0x64 \<and> b ! 2 = 0xFF \<and> b ! 3 = 0x9B then
          [v4 (b ! 4) (b ! 5) (b ! 6) (b ! 7),
           v4 (b ! 5) (b ! 6) (b ! 7) (b ! 9),
           v4 (b ! 6) (b ! 7) (b ! 9) (b ! 10),
           v4 (b ! 7) (b ! 9) (b ! 10) (b ! 11),
           v4 (b ! 9) (b ! 10) (b ! 11) (b ! 12),
           v4 (b ! 12) (b ! 13) (b ! 14) (b ! 15)]
        else if isZero (take 8 b) \<and> b ! 8 = 0xFF \<and> b ! 9 = 0xFF \<and> b ! 10 = 0x00 \<and> b ! 11 = 0x00 then
          [v4 (b ! 12) (b ! 13) (b ! 14) (b ! 15)]
        else if isZero (take 12 b) then [v4 (b ! 12) (b ! 13) (b ! 14) (b ! 15)]
        else []) @
       (if b ! 8 AND 0xFD = 0 \<and> b ! 9 = 0x00 \<and> b ! 10 = 0x5E \<and> b ! 11 = 0xFE then
          [v4 (b ! 12) (b ! 13) (b ! 14) (b ! 15)]
        else []))"

definition refused :: "ip \<Rightarrow> bool" where
  "refused a \<longleftrightarrow> IsLoopback a \<or> IsLinkLocalUnicast a \<or> IsLinkLocalMulticast a \<or> IsUnspecified a \<or> IsMulticast a"

datatype guard_error = NotUsable | Disallowed ip

definition IPAllowed :: "ip \<Rightarrow> guard_error option" where
  "IPAllowed a =
     (if To16 a = [] then Some NotUsable
      else if refused a then Some (Disallowed a)
      else if list_ex (\<lambda>target. \<not> IsUnspecified target \<and> refused target) (embeddedIPv4 a) then Some (Disallowed a)
      else None)"

text \<open>
  The transition forms by their specifications, as encodings of an IPv4 address: 6to4, Teredo
  (inverted), the six NAT64 layouts around the reserved octet, IPv4-translated, IPv4-compatible,
  ISATAP.
\<close>

definition nat64 :: ip where
  "nat64 = [0x00, 0x64, 0xFF, 0x9B]"

inductive carries :: "ip \<Rightarrow> ip \<Rightarrow> bool" where
  SixToFour: "length t = 4 \<Longrightarrow> length r = 10 \<Longrightarrow> carries ([0x20, 0x02] @ t @ r) t"
| Teredo: "length t = 4 \<Longrightarrow> length r = 8 \<Longrightarrow> carries ([0x20, 0x01, 0, 0] @ r @ map (\<lambda>x. NOT x) t) t"
| NAT64: "length t = 4 \<Longrightarrow> length p \<le> 4 \<Longrightarrow> length p + length s = 7 \<Longrightarrow> q = nat64 @ p @ t @ s \<Longrightarrow>
    carries (take 8 q @ [u] @ drop 8 q) t"
| NAT64_96: "length t = 4 \<Longrightarrow> length p = 8 \<Longrightarrow> carries (nat64 @ p @ t) t"
| Translated: "length t = 4 \<Longrightarrow> carries (replicate 8 0 @ [0xFF, 0xFF, 0, 0] @ t) t"
| Compatible: "length t = 4 \<Longrightarrow> carries (replicate 12 0 @ t) t"
| ISATAP: "length t = 4 \<Longrightarrow> length p = 8 \<Longrightarrow> u AND 0xFD = 0 \<Longrightarrow> carries (p @ [u, 0x00, 0x5E, 0xFE] @ t) t"

lemma v4_list [simp]: "v4 a b c d = [a, b, c, d]"
  by (simp add: v4_def To4_def IPv4_def v4InV6Prefix_def)

lemma length_4: "length t = 4 \<longleftrightarrow> (\<exists>a b c d. t = [a, b, c, d])"
  by (auto simp: numeral_eq_Suc length_Suc_conv)

lemma length_16: "length b = 16 \<longleftrightarrow> (\<exists>a0 a1 a2 a3 a4 a5 a6 a7 a8 a9 a10 a11 a12 a13 a14 a15.
   b = [a0, a1, a2, a3, a4, a5, a6, a7, a8, a9, a10, a11, a12, a13, a14, a15])"
  by (auto simp: numeral_eq_Suc length_Suc_conv)

lemma carries_16: "carries b t \<Longrightarrow> length b = 16 \<and> length t = 4"
  by (induction rule: carries.induct) (auto simp: nat64_def)

lemma embedded_carried:
  assumes "carries b t" "To4 b = []"
  shows "t \<in> set (embeddedIPv4 b)"
proof -
  obtain x y z w where t: "t = [x, y, z, w]" using carries_16 [OF assms(1)] length_4 by metis
  have b: "To16 b = b" "b \<noteq> []" using carries_16 [OF assms(1)] by (auto simp: To16_def)
  show ?thesis using assms(1)
  proof cases
    case (SixToFour r)
    then show ?thesis using b assms(2) t by (simp add: embeddedIPv4_def Let_def)
  next
    case (Teredo r)
    then obtain r1 r2 r3 r4 r5 r6 r7 r8 where "r = [r1, r2, r3, r4, r5, r6, r7, r8]"
      by (auto simp: numeral_eq_Suc length_Suc_conv)
    then show ?thesis using Teredo b assms(2) t by (simp add: embeddedIPv4_def Let_def)
  next
    case (NAT64 p s q u)
    consider "length p = 0" "length s = 7" | "length p = 1" "length s = 6" | "length p = 2" "length s = 5"
      | "length p = 3" "length s = 4" | "length p = 4" "length s = 3" using NAT64 by linarith
    then show ?thesis
    proof cases
      case 1
      then obtain s0 s1 s2 s3 s4 s5 s6 where "p = []" "s = [s0, s1, s2, s3, s4, s5, s6]"
        using NAT64 by (auto simp: numeral_eq_Suc length_Suc_conv)
      then show ?thesis using NAT64 b assms(2) t by (simp add: embeddedIPv4_def Let_def nat64_def)
    next
      case 2
      then obtain p0 s0 s1 s2 s3 s4 s5 where "p = [p0]" "s = [s0, s1, s2, s3, s4, s5]"
        using NAT64 by (auto simp: numeral_eq_Suc length_Suc_conv)
      then show ?thesis using NAT64 b assms(2) t by (simp add: embeddedIPv4_def Let_def nat64_def)
    next
      case 3
      then obtain p0 p1 s0 s1 s2 s3 s4 where "p = [p0, p1]" "s = [s0, s1, s2, s3, s4]"
        using NAT64 by (auto simp: numeral_eq_Suc length_Suc_conv)
      then show ?thesis using NAT64 b assms(2) t by (simp add: embeddedIPv4_def Let_def nat64_def)
    next
      case 4
      then obtain p0 p1 p2 s0 s1 s2 s3 where "p = [p0, p1, p2]" "s = [s0, s1, s2, s3]"
        using NAT64 by (auto simp: numeral_eq_Suc length_Suc_conv)
      then show ?thesis using NAT64 b assms(2) t by (simp add: embeddedIPv4_def Let_def nat64_def)
    next
      case 5
      then obtain p0 p1 p2 p3 s0 s1 s2 where "p = [p0, p1, p2, p3]" "s = [s0, s1, s2]"
        using NAT64 by (auto simp: numeral_eq_Suc length_Suc_conv)
      then show ?thesis using NAT64 b assms(2) t by (simp add: embeddedIPv4_def Let_def nat64_def)
    qed
  next
    case (NAT64_96 p)
    then obtain r1 r2 r3 r4 r5 r6 r7 r8 where "p = [r1, r2, r3, r4, r5, r6, r7, r8]"
      by (auto simp: numeral_eq_Suc length_Suc_conv)
    then show ?thesis using NAT64_96 b assms(2) t by (simp add: embeddedIPv4_def Let_def nat64_def)
  next
    case Translated
    then show ?thesis using b assms(2) t by (simp add: embeddedIPv4_def Let_def isZero_def nth_append numeral_eq_Suc)
  next
    case Compatible
    then show ?thesis using b assms(2) t by (simp add: embeddedIPv4_def Let_def isZero_def nth_append numeral_eq_Suc)
  next
    case (ISATAP p u)
    then obtain r1 r2 r3 r4 r5 r6 r7 r8 where "p = [r1, r2, r3, r4, r5, r6, r7, r8]"
      by (auto simp: numeral_eq_Suc length_Suc_conv)
    then show ?thesis using ISATAP b assms(2) t by (simp add: embeddedIPv4_def Let_def nth_append)
  qed
qed

text \<open>The forms again, on sixteen bytes.\<close>

lemma six_to_four_bytes: "carries [0x20, 0x02, a2, a3, a4, a5, a6, a7, a8, a9, a10, a11, a12, a13, a14, a15] [a2, a3, a4, a5]"
  using SixToFour [of "[a2, a3, a4, a5]" "[a6, a7, a8, a9, a10, a11, a12, a13, a14, a15]"] by simp

lemma teredo_bytes: "carries [0x20, 0x01, 0, 0, a4, a5, a6, a7, a8, a9, a10, a11, a12, a13, a14, a15] [NOT a12, NOT a13, NOT a14, NOT a15]"
  using Teredo [of "[NOT a12, NOT a13, NOT a14, NOT a15]" "[a4, a5, a6, a7, a8, a9, a10, a11]"] by simp

lemma nat64_32_bytes: "carries [0, 0x64, 0xFF, 0x9B, a4, a5, a6, a7, a8, a9, a10, a11, a12, a13, a14, a15] [a4, a5, a6, a7]"
  using NAT64 [of "[a4, a5, a6, a7]" "[]" "[a9, a10, a11, a12, a13, a14, a15]", OF _ _ _ refl, of a8] by (simp add: nat64_def)

lemma nat64_40_bytes: "carries [0, 0x64, 0xFF, 0x9B, a4, a5, a6, a7, a8, a9, a10, a11, a12, a13, a14, a15] [a5, a6, a7, a9]"
  using NAT64 [of "[a5, a6, a7, a9]" "[a4]" "[a10, a11, a12, a13, a14, a15]", OF _ _ _ refl, of a8] by (simp add: nat64_def)

lemma nat64_48_bytes: "carries [0, 0x64, 0xFF, 0x9B, a4, a5, a6, a7, a8, a9, a10, a11, a12, a13, a14, a15] [a6, a7, a9, a10]"
  using NAT64 [of "[a6, a7, a9, a10]" "[a4, a5]" "[a11, a12, a13, a14, a15]", OF _ _ _ refl, of a8] by (simp add: nat64_def)

lemma nat64_56_bytes: "carries [0, 0x64, 0xFF, 0x9B, a4, a5, a6, a7, a8, a9, a10, a11, a12, a13, a14, a15] [a7, a9, a10, a11]"
  using NAT64 [of "[a7, a9, a10, a11]" "[a4, a5, a6]" "[a12, a13, a14, a15]", OF _ _ _ refl, of a8] by (simp add: nat64_def)

lemma nat64_64_bytes: "carries [0, 0x64, 0xFF, 0x9B, a4, a5, a6, a7, a8, a9, a10, a11, a12, a13, a14, a15] [a9, a10, a11, a12]"
  using NAT64 [of "[a9, a10, a11, a12]" "[a4, a5, a6, a7]" "[a13, a14, a15]", OF _ _ _ refl, of a8] by (simp add: nat64_def)

lemma nat64_96_bytes: "carries [0, 0x64, 0xFF, 0x9B, a4, a5, a6, a7, a8, a9, a10, a11, a12, a13, a14, a15] [a12, a13, a14, a15]"
  using NAT64_96 [of "[a12, a13, a14, a15]" "[a4, a5, a6, a7, a8, a9, a10, a11]"] by (simp add: nat64_def)

lemma translated_bytes: "carries [0, 0, 0, 0, 0, 0, 0, 0, 0xFF, 0xFF, 0, 0, a12, a13, a14, a15] [a12, a13, a14, a15]"
  using Translated [of "[a12, a13, a14, a15]"] by (simp add: numeral_eq_Suc)

lemma compatible_bytes: "carries [0, 0, 0, 0, 0, 0, 0, 0, 0, 0, 0, 0, a12, a13, a14, a15] [a12, a13, a14, a15]"
  using Compatible [of "[a12, a13, a14, a15]"] by (simp add: numeral_eq_Suc)

lemma isatap_bytes: "a8 AND 0xFD = 0 \<Longrightarrow> carries [a0, a1, a2, a3, a4, a5, a6, a7, a8, 0x00, 0x5E, 0xFE, a12, a13, a14, a15] [a12, a13, a14, a15]"
  using ISATAP [of "[a12, a13, a14, a15]" "[a0, a1, a2, a3, a4, a5, a6, a7]" a8] by simp

lemmas carries_bytes = six_to_four_bytes teredo_bytes nat64_32_bytes nat64_40_bytes nat64_48_bytes nat64_56_bytes
  nat64_64_bytes nat64_96_bytes translated_bytes compatible_bytes isatap_bytes

lemma carried_embedded:
  assumes "t \<in> set (embeddedIPv4 b)" "length b = 16"
  shows "carries b t"
proof -
  obtain a0 a1 a2 a3 a4 a5 a6 a7 a8 a9 a10 a11 a12 a13 a14 a15 where b: "b = [a0, a1, a2, a3, a4, a5, a6, a7, a8, a9, a10, a11, a12, a13, a14, a15]"
    using assms(2) unfolding length_16 by metis
  have "To16 b = b" "b \<noteq> []" using assms(2) by (auto simp: To16_def)
  then show ?thesis using assms(1) unfolding embeddedIPv4_def Let_def b
    by (auto simp: isZero_def simp del: One_nat_def split: if_split_asm intro: carries_bytes)
qed

text \<open>
  C20: the floor sees through every transition form it decodes.  An address is admitted exactly
  when it is an address, is in none of the refused classes, and no IPv4 address that one of the
  specified encodings places in it is refused, the unspecified one (padding) apart; whatever the
  rest of the address holds.  In particular no prefix, suffix or reserved octet an attacker chooses
  carries a loopback or link-local target past it.
\<close>

theorem floor_exact:
  "IPAllowed a = None \<longleftrightarrow> (length a = 4 \<or> length a = 16) \<and> \<not> refused a \<and>
     \<not> (\<exists>t. To4 a = [] \<and> carries a t \<and> \<not> IsUnspecified t \<and> refused t)"
proof -
  have n: "To16 a = [] \<longleftrightarrow> \<not> (length a = 4 \<or> length a = 16)" by (auto simp: To16_def)
  have e: "t \<in> set (embeddedIPv4 a) \<longleftrightarrow> To4 a = [] \<and> carries a t" if l: "length a = 4 \<or> length a = 16" for t
  proof (cases "To4 a = []")
    case True
    then have "length a = 16" using l by (auto simp: To4_def)
    then show ?thesis using True embedded_carried carried_embedded by blast
  qed (simp add: embeddedIPv4_def Let_def)
  show ?thesis using e by (auto simp: IPAllowed_def n list_ex_iff)
qed

section \<open>The dialer\<close>

text \<open>\<^verbatim>\<open>netip.Addr\<close>: an IPv4 address, or an IPv6 address with a zone.\<close>

datatype addr = A4 ip | A6 ip string

definition AddrFromSlice :: "ip \<Rightarrow> addr option" where
  "AddrFromSlice b = (if length b = 4 then Some (A4 b) else if length b = 16 then Some (A6 b []) else None)"

definition Unmap :: "addr \<Rightarrow> addr" where
  "Unmap a = (case a of A4 b \<Rightarrow> A4 b
     | A6 b z \<Rightarrow> if take 12 b = v4InV6Prefix then A4 (drop 12 b) else A6 b z)"

definition WithZone :: "addr \<Rightarrow> string \<Rightarrow> addr" where
  "WithZone a zone = (case a of A4 b \<Rightarrow> A4 b | A6 b _ \<Rightarrow> A6 b zone)"

definition AsSlice :: "addr \<Rightarrow> ip" where
  "AsSlice a = (case a of A4 b \<Rightarrow> b | A6 b _ \<Rightarrow> b)"

definition is4 :: "addr \<Rightarrow> bool" where
  "is4 a = (case a of A4 _ \<Rightarrow> True | A6 b _ \<Rightarrow> take 12 b = v4InV6Prefix)"

datatype dial_error = NoPortNetwork | Guard guard_error | FloorRefused guard_error | LookupFailed string
  | NoSuitableAddress | NoAddressToDial | ConnectFailed string | ContextDone

text \<open>
  The fields of a dialer that decide what it does: its judgement of an address (\<^verbatim>\<open>allow\<close>
  with its default resolved), its resolver, and whether its fallback delay is negative.
\<close>

record dialer =
  d_allow :: "ip \<Rightarrow> dial_error option"
  d_lookup :: "string \<Rightarrow> dial_error + (ip \<times> string) list"
  d_no_fallback :: bool

definition portCarrying :: "string \<Rightarrow> bool" where
  "portCarrying network \<longleftrightarrow> network \<in> {''tcp'', ''tcp4'', ''tcp6'', ''udp'', ''udp4'', ''udp6''}"

definition wantedFamilies :: "string \<Rightarrow> bool \<times> bool" where
  "wantedFamilies network = (if network = ''tcp4'' \<or> network = ''udp4'' then (True, False)
     else if network = ''tcp6'' \<or> network = ''udp6'' then (False, True) else (True, True))"

definition addr_of :: "string \<Rightarrow> ip \<times> string \<Rightarrow> addr option" where
  "addr_of network r = (case (wantedFamilies network, r) of ((want4, want6), (b, zone)) \<Rightarrow>
     (case AddrFromSlice b of None \<Rightarrow> None
      | Some a0 \<Rightarrow> let a = Unmap a0; is_v4 = (case a of A4 _ \<Rightarrow> True | _ \<Rightarrow> False) in
          if (is_v4 \<and> \<not> want4) \<or> (\<not> is_v4 \<and> \<not> want6) then None else Some (WithZone a zone)))"

definition addrsOf :: "(ip \<times> string) list \<Rightarrow> string \<Rightarrow> dial_error + addr list" where
  "addrsOf ips network = (let out = List.map_filter (addr_of network) ips in
     if out = [] then Inl NoSuitableAddress else Inr out)"

fun admitted :: "(ip \<Rightarrow> dial_error option) \<Rightarrow> addr list \<Rightarrow> addr list \<times> dial_error option" where
  "admitted allow [] = ([], None)"
| "admitted allow (a # as) = (case allow (AsSlice a) of
     Some e \<Rightarrow> (fst (admitted allow as), Some e)
   | None \<Rightarrow> (a # fst (admitted allow as), snd (admitted allow as)))"

definition partition_addrs :: "bool \<Rightarrow> addr list \<Rightarrow> addr list \<times> addr list" where
  "partition_addrs primaryIs4 addrs = (filter (\<lambda>a. is4 a = primaryIs4) addrs, filter (\<lambda>a. is4 a \<noteq> primaryIs4) addrs)"

text \<open>
  What a call connects to: the authority as written, the admitted addresses in turn, or two
  families in a race.
\<close>

datatype dial_plan = Direct string | Serial "addr list" string | Race "addr list" "addr list" string

definition dialAll :: "dialer \<Rightarrow> string \<Rightarrow> bool \<Rightarrow> addr list \<Rightarrow> string \<Rightarrow> dial_plan" where
  "dialAll d network primaryIs4 addrs port =
     (if network \<noteq> ''tcp'' \<or> d_no_fallback d then Serial addrs port
      else case partition_addrs primaryIs4 addrs of (primary, fallback) \<Rightarrow>
        if primary = [] \<or> fallback = [] then Serial addrs port else Race primary fallback port)"

definition DialContext :: "dialer \<Rightarrow> string \<Rightarrow> string \<Rightarrow> dial_error + dial_plan" where
  "DialContext d network addr =
     (if \<not> portCarrying network then Inl NoPortNetwork
      else case SplitHostPort addr of
        None \<Rightarrow> (case d_allow d [] of Some e \<Rightarrow> Inl e | None \<Rightarrow> Inr (Direct addr))
      | Some (host, port) \<Rightarrow>
          if ParseIP host \<noteq> [] then (case d_allow d (ParseIP host) of Some e \<Rightarrow> Inl e | None \<Rightarrow> Inr (Direct addr))
          else if host = [] \<or> CHR '':'' \<in> set host \<or> CHR ''%'' \<in> set host then
            (case d_allow d [] of Some e \<Rightarrow> Inl e | None \<Rightarrow> Inr (Direct addr))
          else case d_lookup d host of Inl e \<Rightarrow> Inl e
            | Inr ips \<Rightarrow> (case addrsOf ips network of Inl e \<Rightarrow> Inl e
              | Inr all \<Rightarrow> (case admitted (d_allow d) all of (ok, refusal) \<Rightarrow>
                  if ok = [] then Inl (the refusal) else Inr (dialAll d network (is4 (hd all)) ok port))))"

text \<open>
  The addresses of one family in turn: before each the context is read (\<open>ctx\<close>), the first
  error is kept, the first connection ends the loop.  The result comes with the attempts made.
\<close>

fun dialSerial :: "(nat \<Rightarrow> dial_error option) \<Rightarrow> (addr \<Rightarrow> dial_error + 'c) \<Rightarrow> nat \<Rightarrow> dial_error option \<Rightarrow> addr list
    \<Rightarrow> addr list \<times> (dial_error + 'c)" where
  "dialSerial ctx conn i first [] = ([], Inl (case first of None \<Rightarrow> NoAddressToDial | Some e \<Rightarrow> e))"
| "dialSerial ctx conn i first (a # as) = (case ctx i of Some e \<Rightarrow> ([], Inl e)
     | None \<Rightarrow> (case conn a of Inr c \<Rightarrow> ([a], Inr c)
       | Inl e \<Rightarrow> (case dialSerial ctx conn (i + 1) (case first of None \<Rightarrow> Some e | Some f \<Rightarrow> Some f) as of
           (tried, r) \<Rightarrow> (a # tried, r))))"

text \<open>The share of the remaining time one attempt gets, in nanoseconds; \<open>None\<close> without a limit.\<close>

definition minPartialTimeout :: int where
  "minPartialTimeout = 2000000000"

definition partialDeadline :: "int option \<Rightarrow> int \<Rightarrow> int option" where
  "partialDeadline left0 remaining = (case left0 of None \<Rightarrow> None | Some left \<Rightarrow>
     if remaining \<le> 1 then None
     else if left \<le> 0 then None
     else let share = left div remaining in
       Some (if share < minPartialTimeout then (if left < minPartialTimeout then left else minPartialTimeout) else share))"

lemma partialDeadline_bounds:
  assumes "partialDeadline (Some left) remaining = Some share"
  shows "0 < share" "share \<le> left" "min left minPartialTimeout \<le> share"
proof -
  have "left div remaining \<le> left" if "1 < remaining" "0 < left"
    using that int_div_less_self [of left remaining] by simp
  then show "0 < share" "share \<le> left" "min left minPartialTimeout \<le> share"
    using assms by (auto simp: partialDeadline_def Let_def minPartialTimeout_def split: if_splits)
qed

section \<open>The race of two families\<close>

datatype side = Primary | Fallback

text \<open>
  The state of \<^verbatim>\<open>dialRace\<close>: the sides whose outcome is pending, whether the fallback was
  started and the timer fired, the primary's error, what was returned, the connections the drain
  closed, and, as history, the outcomes that arrived.
\<close>

record 'c race =
  rc_running :: "side list"
  rc_fallback :: bool
  rc_fired :: bool
  rc_primary_err :: "dial_error option"
  rc_result :: "(dial_error + 'c) option"
  rc_closed :: "'c list"
  rc_arrived :: "(side \<times> (dial_error + 'c)) list"

definition race_start :: "'c race" where
  "race_start = \<lparr>rc_running = [Primary], rc_fallback = False, rc_fired = False, rc_primary_err = None,
     rc_result = None, rc_closed = [], rc_arrived = []\<rparr>"

definition startFallback :: "'c race \<Rightarrow> 'c race" where
  "startFallback s = (if rc_fallback s then s else s\<lparr>rc_fallback := True, rc_running := rc_running s @ [Fallback]\<rparr>)"

definition fire :: "'c race \<Rightarrow> 'c race" where
  "fire s = startFallback (s\<lparr>rc_fired := True\<rparr>)"

definition arrive :: "side \<Rightarrow> dial_error + 'c \<Rightarrow> 'c race \<Rightarrow> 'c race" where
  "arrive side r s0 = (let s = s0\<lparr>rc_running := remove1 side (rc_running s0), rc_arrived := rc_arrived s0 @ [(side, r)]\<rparr> in
     case rc_result s of
       Some _ \<Rightarrow> (case r of Inr c \<Rightarrow> s\<lparr>rc_closed := rc_closed s @ [c]\<rparr> | Inl _ \<Rightarrow> s)
     | None \<Rightarrow> (case r of
         Inr c \<Rightarrow> s\<lparr>rc_result := Some (Inr c)\<rparr>
       | Inl e \<Rightarrow>
           let s1 = (if side = Primary then s\<lparr>rc_primary_err := Some e\<rparr> else s); s2 = startFallback s1 in
           if rc_running s2 = [] then
             s2\<lparr>rc_result := Some (Inl (case rc_primary_err s2 of Some pe \<Rightarrow> pe | None \<Rightarrow> e))\<rparr>
           else s2))"

inductive race_step :: "'c race \<Rightarrow> 'c race \<Rightarrow> bool" where
  timer: "rc_result s = None \<Longrightarrow> \<not> rc_fired s \<Longrightarrow> race_step s (fire s)"
| arrival: "side \<in> set (rc_running s) \<Longrightarrow> race_step s (arrive side r s)"

inductive_cases race_stepE: "race_step s s'"

inductive race_reach :: "'c race \<Rightarrow> bool" where
  start: "race_reach race_start"
| step: "race_reach s \<Longrightarrow> race_step s s' \<Longrightarrow> race_reach s'"

text \<open>The connections that arrived, in order.\<close>

definition arrived_conns :: "'c race \<Rightarrow> 'c list" where
  "arrived_conns s = List.map_filter (\<lambda>(_, r). case r of Inr c \<Rightarrow> Some c | Inl _ \<Rightarrow> None) (rc_arrived s)"

definition returned :: "'c race \<Rightarrow> 'c list" where
  "returned s = (case rc_result s of Some (Inr c) \<Rightarrow> [c] | _ \<Rightarrow> [])"

definition failures :: "'c race \<Rightarrow> bool" where
  "failures s \<longleftrightarrow> (\<forall>(sd, r) \<in> set (rc_arrived s). \<exists>e. r = Inl e)"

definition primary_outcome :: "'c race \<Rightarrow> (dial_error + 'c) option" where
  "primary_outcome s = map_of (rc_arrived s) Primary"

text \<open>The reachable states, by which outcomes have arrived and in which order.\<close>

abbreviation (input) mk_race where
  "mk_race run fb fi pe res cl ar \<equiv> \<lparr>rc_running = run, rc_fallback = fb, rc_fired = fi, rc_primary_err = pe,
     rc_result = res, rc_closed = cl, rc_arrived = ar\<rparr>"

inductive race_shape :: "'c race \<Rightarrow> bool" where
  "race_shape (mk_race [Primary] False False None None [] [])"
| "race_shape (mk_race [Primary, Fallback] True fi None None [] [])"
| "race_shape (mk_race [Fallback] True fi (Some e) None [] [(Primary, Inl e)])"
| "race_shape (mk_race [Primary] True fi None None [] [(Fallback, Inl e)])"
| "race_shape (mk_race [] False fi None (Some (Inr c)) [] [(Primary, Inr c)])"
| "race_shape (mk_race [Fallback] True fi None (Some (Inr c)) [] [(Primary, Inr c)])"
| "race_shape (mk_race [Primary] True fi None (Some (Inr c)) [] [(Fallback, Inr c)])"
| "race_shape (mk_race [] True fi None (Some (Inr c)) [] [(Primary, Inr c), (Fallback, Inl e)])"
| "race_shape (mk_race [] True fi None (Some (Inr c)) [d] [(Primary, Inr c), (Fallback, Inr d)])"
| "race_shape (mk_race [] True fi None (Some (Inr c)) [] [(Fallback, Inr c), (Primary, Inl e)])"
| "race_shape (mk_race [] True fi None (Some (Inr c)) [d] [(Fallback, Inr c), (Primary, Inr d)])"
| "race_shape (mk_race [] True fi (Some e) (Some (Inr c)) [] [(Primary, Inl e), (Fallback, Inr c)])"
| "race_shape (mk_race [] True fi (Some e) (Some (Inl e)) [] [(Primary, Inl e), (Fallback, Inl e')])"
| "race_shape (mk_race [] True fi None (Some (Inr c)) [] [(Fallback, Inl e), (Primary, Inr c)])"
| "race_shape (mk_race [] True fi (Some e) (Some (Inl e)) [] [(Fallback, Inl e'), (Primary, Inl e)])"

lemma race_shape_fire: "race_shape s \<Longrightarrow> rc_result s = None \<Longrightarrow> race_shape (fire s)"
  by (induction rule: race_shape.induct) (simp_all add: fire_def startFallback_def race_shape.intros)

lemma race_shape_arrive: "race_shape s \<Longrightarrow> side \<in> set (rc_running s) \<Longrightarrow> race_shape (arrive side r s)"
  by (induction rule: race_shape.induct)
     (cases r; auto simp: arrive_def startFallback_def Let_def intro: race_shape.intros)+

lemma race_shape_reach: "race_reach s \<Longrightarrow> race_shape s"
proof (induction rule: race_reach.induct)
  case start
  show ?case by (simp add: race_start_def race_shape.intros)
next
  case (step s s')
  from step.hyps(2) step.IH show ?case by (cases rule: race_stepE) (auto intro: race_shape_fire race_shape_arrive)
qed

text \<open>Each step uses up an outcome or the timer.\<close>

definition race_weight :: "'c race \<Rightarrow> nat" where
  "race_weight s = (2 - length (rc_arrived s)) + (if rc_fired s then 0 else 1)"

lemma race_arrived_bound: "race_shape s \<Longrightarrow> rc_running s \<noteq> [] \<Longrightarrow> length (rc_arrived s) < 2"
  by (induction rule: race_shape.induct) auto

lemma race_weight_step:
  assumes "race_reach s" "race_step s s'"
  shows "race_weight s' < race_weight s"
  using assms(2)
proof cases
  case timer
  then show ?thesis by (simp add: race_weight_def fire_def startFallback_def)
next
  case (arrival side r)
  then have "rc_running s \<noteq> []" by auto
  then have "length (rc_arrived s) < 2" using race_shape_reach [OF assms(1)] race_arrived_bound by blast
  moreover have "rc_arrived s' = rc_arrived s @ [(side, r)]" "rc_fired s' = rc_fired s"
    using arrival by (auto simp: arrive_def startFallback_def Let_def split: option.split sum.split)
  ultimately show ?thesis by (simp add: race_weight_def)
qed

text \<open>
  C21: the race of two address families settles, leaks nothing and prefers the primary's error.
  In every state any interleaving of the timer and the outcomes reaches: a connection that arrived
  is the one returned or has been closed; the call waits only while an outcome is pending; a
  family that connects makes the call succeed; and an error is returned only when both families
  failed, and is then the primary's.  Every run is at most three steps long.
\<close>

theorem race_settles:
  assumes "race_reach s"
  shows "mset (arrived_conns s) = mset (returned s @ rc_closed s) \<and>
    (rc_result s = None \<longrightarrow> rc_running s \<noteq> []) \<and>
    (arrived_conns s \<noteq> [] \<longrightarrow> returned s \<noteq> []) \<and>
    (\<forall>e. rc_result s = Some (Inl e) \<longrightarrow>
       failures s \<and> fst ` set (rc_arrived s) = {Primary, Fallback} \<and> primary_outcome s = Some (Inl e)) \<and>
    race_weight s \<le> 3 \<and> (\<forall>s'. race_step s s' \<longrightarrow> race_weight s' < race_weight s)"
proof -
  have "race_shape s" using assms by (rule race_shape_reach)
  then have "mset (arrived_conns s) = mset (returned s @ rc_closed s) \<and>
    (rc_result s = None \<longrightarrow> rc_running s \<noteq> []) \<and> (arrived_conns s \<noteq> [] \<longrightarrow> returned s \<noteq> []) \<and>
    (\<forall>e. rc_result s = Some (Inl e) \<longrightarrow>
       failures s \<and> fst ` set (rc_arrived s) = {Primary, Fallback} \<and> primary_outcome s = Some (Inl e))"
    by (induction rule: race_shape.induct)
       (auto simp: arrived_conns_def returned_def failures_def primary_outcome_def map_filter_def)
  moreover have "race_weight s \<le> 3" by (auto simp: race_weight_def intro: order_trans [OF diff_le_self])
  ultimately show ?thesis using race_weight_step [OF assms] by blast
qed

theorem race_settles_witness:
  "\<exists>s :: nat race. rc_result s = Some (Inr 7) \<and> rc_closed s = [8] \<and> mset (arrived_conns s) = mset (returned s @ rc_closed s)"
proof -
  let ?s = "arrive Primary (Inr 8) (arrive Fallback (Inr 7) (fire (race_start :: nat race)))"
  have "race_reach (fire (race_start :: nat race))"
    by (rule race_reach.step [OF race_reach.start race_step.timer]) (simp_all add: race_start_def)
  then have "race_reach (arrive Fallback (Inr 7) (fire (race_start :: nat race)))"
    by (rule race_reach.step [OF _ race_step.arrival]) (simp add: race_start_def fire_def startFallback_def)
  then have "race_reach ?s"
    by (rule race_reach.step [OF _ race_step.arrival]) (simp add: race_start_def fire_def startFallback_def arrive_def)
  note r = race_settles [OF this]
  have "rc_result ?s = Some (Inr 7)" "rc_closed ?s = [8]"
    by (simp_all add: race_start_def fire_def startFallback_def arrive_def)
  with r show ?thesis by blast
qed

section \<open>What a dial connects to\<close>

fun plan_addrs :: "dial_plan \<Rightarrow> addr list" where
  "plan_addrs (Direct _) = []"
| "plan_addrs (Serial as _) = as"
| "plan_addrs (Race p f _) = p @ f"

lemma admitted_allowed: "x \<in> set (fst (admitted allow as)) \<Longrightarrow> x \<in> set as \<and> allow (AsSlice x) = None"
  by (induction as) (auto split: option.splits)

lemma dialAll_addrs: "set (plan_addrs (dialAll d network p as port)) = set as"
  by (auto simp: dialAll_def partition_addrs_def)

lemma dialSerial_tried: "set (fst (dialSerial ctx conn i first as)) \<subseteq> set as"
  by (induction ctx conn i first as rule: dialSerial.induct) (auto split: option.splits sum.splits prod.splits)

lemma dialSerial_result:
  "snd (dialSerial ctx conn i first as) = Inr c \<Longrightarrow> fst (dialSerial ctx conn i first as) \<noteq> [] \<and>
     last (fst (dialSerial ctx conn i first as)) \<in> set as \<and> conn (last (fst (dialSerial ctx conn i first as))) = Inr c"
  by (induction ctx conn i first as rule: dialSerial.induct) (auto split: option.splits sum.splits prod.splits)

text \<open>
  A plan holds only judged addresses: those the resolver returned, each allowed, or the authority
  as written once its literal address (or, for one that names none, the nil address) is allowed.
\<close>

definition judged :: "(ip \<Rightarrow> dial_error option) \<Rightarrow> string \<Rightarrow> dial_plan \<Rightarrow> bool" where
  "judged allow addr plan \<longleftrightarrow> list_all (\<lambda>a. allow (AsSlice a) = None) (plan_addrs plan) \<and>
     (\<forall>x. plan = Direct x \<longrightarrow> x = addr \<and> (allow [] = None \<or> (\<exists>host port. SplitHostPort addr = Some (host, port) \<and>
        ParseIP host \<noteq> [] \<and> allow (ParseIP host) = None)))"

lemma DialContext_plan:
  assumes "DialContext d network addr = Inr plan"
  shows "plan = Direct addr \<and> (d_allow d [] = None \<or>
      (\<exists>host port. SplitHostPort addr = Some (host, port) \<and> ParseIP host \<noteq> [] \<and> d_allow d (ParseIP host) = None)) \<or>
    (\<exists>p all port. plan = dialAll d network p (fst (admitted (d_allow d) all)) port)"
proof (cases "SplitHostPort addr")
  case None
  then show ?thesis using assms by (auto simp: DialContext_def split: if_splits option.splits)
next
  case (Some hp)
  obtain host port where hp: "hp = (host, port)" by force
  show ?thesis
  proof (cases "d_lookup d host")
    case (Inr ips)
    have "\<exists>p. dialAll d network q (fst x) port' = dialAll d network p (fst x) port'" for q x port' by blast
    then show ?thesis using assms Some hp Inr
      by (auto simp: DialContext_def split: if_splits option.splits sum.splits prod.splits) (metis fst_conv)+
  qed (use assms Some hp in \<open>auto simp: DialContext_def split: if_splits option.splits\<close>)
qed

lemma DialContext_judged:
  assumes "DialContext d network addr = Inr plan"
  shows "judged (d_allow d) addr plan"
  using DialContext_plan [OF assms]
proof (elim disjE exE)
  fix p all port
  assume pl: "plan = dialAll d network p (fst (admitted (d_allow d) all)) port"
  then have "list_all (\<lambda>a. d_allow d (AsSlice a) = None) (plan_addrs plan)"
    using admitted_allowed by (auto simp: list_all_iff dialAll_addrs)
  moreover have "plan \<noteq> Direct x" for x using pl by (auto simp: dialAll_def split: prod.splits)
  ultimately show ?thesis by (simp add: judged_def)
qed (auto simp: judged_def)

end
