(* ===== verification/Gate.thy ===== *)
theory Gate
  imports Host_Set Dial_Guard
begin

text \<open>
  \<^verbatim>\<open>internal/gate\<close>: the session's egress proxy.  The networking policy and its classes of
  admission (\<^verbatim>\<open>policy.go\<close>), what the two handlers do with a request up to the connect or the
  forwarded request, and the dialer they share (\<^verbatim>\<open>gate.go\<close>); and the part of the control
  plane that must agree with them, \<^verbatim>\<open>internal/api/gateconfig.go\<close>: the endpoints it hands the
  gate and the credentials it reports as unreachable.  Reading a body, the round trip and the tunnel
  are I/O; a parsed URL is given by its scheme, host and port.
\<close>

section \<open>The policy\<close>

datatype admission = AdmitNone | AdmitUnrestricted | AdmitOperator | AdmitMCP | AdmitRegistry

definition floored :: "admission \<Rightarrow> bool" where
  "floored a \<longleftrightarrow> a \<noteq> AdmitOperator"

definition rooted :: "admission \<Rightarrow> bool" where
  "rooted a \<longleftrightarrow> a = AdmitRegistry"

record policy =
  po_admit_all :: bool
  po_allowed :: "host_set option"
  po_mcp :: "string list"
  po_packages :: "host_set option"

definition closed_policy :: policy where
  "closed_policy = \<lparr>po_admit_all = False, po_allowed = None, po_mcp = [], po_packages = None\<rparr>"

definition packageRegistries :: "idna \<Rightarrow> host_set" where
  "packageRegistries idna = NewHostSet idna PackageRegistryHosts"

definition endpointKey :: "idna \<Rightarrow> string \<Rightarrow> string \<Rightarrow> string" where
  "endpointKey idna host port = CanonicalLookup idna host @ '':'' @ dropWhile (\<lambda>c. c = CHR ''0'') port"

definition endpoint_keys :: "idna \<Rightarrow> string list \<Rightarrow> string list" where
  "endpoint_keys idna es = List.map_filter (\<lambda>e. case cut (CHR '':'') (trim_space e) of
     (host, port, True) \<Rightarrow> Some (endpointKey idna host port) | (_, _, False) \<Rightarrow> None) es"

definition newPolicy :: "idna \<Rightarrow> networking \<Rightarrow> string list \<Rightarrow> policy" where
  "newPolicy idna net mcpEndpoints =
     (if nt_type net = NetUnrestricted then closed_policy\<lparr>po_admit_all := True\<rparr>
      else if nt_type net = NetLimited then
        closed_policy\<lparr>po_allowed := Some (NewHostSet idna (nt_allowed_hosts net)),
          po_mcp := (if nt_allow_mcp net then endpoint_keys idna mcpEndpoints else []),
          po_packages := (if nt_allow_packages net then Some (packageRegistries idna) else None)\<rparr>
      else closed_policy)"

definition admit :: "idna \<Rightarrow> policy \<Rightarrow> string \<Rightarrow> string \<Rightarrow> admission" where
  "admit idna p host port =
     (if host = [] then AdmitNone
      else if po_admit_all p then AdmitUnrestricted
      else if Match idna (po_allowed p) host then AdmitOperator
      else if Match idna (po_packages p) host then AdmitRegistry
      else if endpointKey idna host port \<in> set (po_mcp p) then AdmitMCP
      else AdmitNone)"

section \<open>Headers\<close>

text \<open>
  \<^verbatim>\<open>http.Header\<close>: the values by key.  \<^verbatim>\<open>CanonicalMIMEHeaderKey\<close> raises the first
  letter and each letter after a hyphen and lowers the rest, and leaves alone a key that is no token.
\<close>

type_synonym header = "(string \<times> string list) list"

definition lower_char :: "char \<Rightarrow> char" where
  "lower_char c = (if is_upper c then char_of (byte c + 32) else c)"

definition upper_char :: "char \<Rightarrow> char" where
  "upper_char c = (if is_lower c then char_of (byte c - 32) else c)"

definition token_char :: "char \<Rightarrow> bool" where
  "token_char c \<longleftrightarrow> is_lower c \<or> is_upper c \<or> is_digit c \<or> c \<in> set ''!#$%&*+-.^_`|~'' \<or> byte c = 39"

fun canon_key :: "bool \<Rightarrow> string \<Rightarrow> string" where
  "canon_key up [] = []"
| "canon_key up (c # cs) = (if up then upper_char c else lower_char c) # canon_key (c = CHR ''-'') cs"

definition CanonicalMIMEHeaderKey :: "string \<Rightarrow> string" where
  "CanonicalMIMEHeaderKey s = (if list_all token_char s then canon_key True s else s)"

definition header_del :: "string \<Rightarrow> header \<Rightarrow> header" where
  "header_del k h = filter (\<lambda>(k', _). k' \<noteq> CanonicalMIMEHeaderKey k) h"

definition header_set :: "string \<Rightarrow> string \<Rightarrow> header \<Rightarrow> header" where
  "header_set k v h = header_del k h @ [(CanonicalMIMEHeaderKey k, [v])]"

definition header_values :: "string \<Rightarrow> header \<Rightarrow> string list" where
  "header_values k h = (case map_of h (CanonicalMIMEHeaderKey k) of None \<Rightarrow> [] | Some vs \<Rightarrow> vs)"

definition hopByHop :: "string list" where
  "hopByHop = [''connection'', ''proxy-connection'', ''keep-alive'', ''proxy-authenticate'', ''proxy-authorization'',
     ''te'', ''trailer'', ''transfer-encoding'', ''upgrade'']"

text \<open>A key reaching the gate is a token, so \<^verbatim>\<open>strings.ToLower\<close> is the ASCII one.\<close>

definition isHopByHop :: "string \<Rightarrow> bool" where
  "isHopByHop k \<longleftrightarrow> map lower_char k \<in> set hopByHop"

definition connection_names :: "header \<Rightarrow> string list" where
  "connection_names h = filter (\<lambda>n. n \<noteq> [])
     (map trim_space (concat (map (split_on (CHR '','')) (header_values ''Connection'' h))))"

definition removeHopByHop :: "header \<Rightarrow> header" where
  "removeHopByHop h = (let h1 = fold header_del (connection_names h) h
     in fold header_del (filter isHopByHop (map fst h1)) h1)"

section \<open>Addresses\<close>

definition hostOnly :: "string \<Rightarrow> string" where
  "hostOnly hostport = (case SplitHostPort hostport of Some (h, _) \<Rightarrow> h | None \<Rightarrow> hostport)"

definition addrWithPort :: "string \<Rightarrow> string \<Rightarrow> string" where
  "addrWithPort hostport defaultPort = (case SplitHostPort hostport of Some _ \<Rightarrow> hostport
     | None \<Rightarrow> JoinHostPort hostport defaultPort)"

definition portOnly :: "string \<Rightarrow> string" where
  "portOnly hostport = (case SplitHostPort hostport of Some (_, p) \<Rightarrow> p | None \<Rightarrow> [])"

definition defaultPort :: "string \<Rightarrow> string" where
  "defaultPort scheme = (if map lower_char scheme = ''https'' then ''443'' else ''80'')"

definition rootedName :: "string \<Rightarrow> string" where
  "rootedName addr = (case SplitHostPort addr of None \<Rightarrow> addr
     | Some (host, port) \<Rightarrow>
         if has_suffix host ''.'' \<or> CHR '':'' \<in> set host then addr
         else if CHR ''.'' \<notin> set host \<or> ParseIP host \<noteq> [] then addr
         else JoinHostPort (host @ ''.'') port)"

section \<open>The gate\<close>

record gate =
  g_policy :: policy
  g_creds :: "credential list"
  g_max_body :: int
  g_ip_allowed :: "ip \<Rightarrow> guard_error option"
  g_lookup :: "string \<Rightarrow> dial_error + (ip \<times> string) list"

definition defaultMaxBodyBytes :: int where
  "defaultMaxBodyBytes = 10 * 1024 * 1024"

record gate_config =
  gc_networking :: networking
  gc_endpoints :: "string list"
  gc_ip_allowed :: "(ip \<Rightarrow> guard_error option) option"
  gc_creds :: "credential list"
  gc_max_body :: int

definition New :: "idna \<Rightarrow> (string \<Rightarrow> dial_error + (ip \<times> string) list) \<Rightarrow> gate_config \<Rightarrow> gate" where
  "New idna lookup cfg =
     \<lparr>g_policy = newPolicy idna (gc_networking cfg) (gc_endpoints cfg), g_creds = gc_creds cfg,
      g_max_body = (if gc_max_body cfg \<le> 0 then defaultMaxBodyBytes else gc_max_body cfg),
      g_ip_allowed = (case gc_ip_allowed cfg of None \<Rightarrow> IPAllowed | Some f \<Rightarrow> f), g_lookup = lookup\<rparr>"

text \<open>The gate's judgement of an address, by the class the request was admitted under.\<close>

definition gate_allow :: "gate \<Rightarrow> admission \<Rightarrow> ip \<Rightarrow> dial_error option" where
  "gate_allow g how a = (if \<not> floored how then None
     else case g_ip_allowed g a of None \<Rightarrow> None
       | Some e \<Rightarrow> if a \<noteq> [] then Some (FloorRefused e) else Some (Guard e))"

definition newDialer :: "gate \<Rightarrow> admission \<Rightarrow> dialer" where
  "newDialer g how = \<lparr>d_allow = gate_allow g how, d_lookup = g_lookup g, d_no_fallback = False\<rparr>"

definition rootedDial :: "gate \<Rightarrow> admission \<Rightarrow> string \<Rightarrow> string \<Rightarrow> dial_error + dial_plan" where
  "rootedDial g how network addr = DialContext (newDialer g how) network (if rooted how then rootedName addr else addr)"

text \<open>What a handler answers before any byte of a response: a status, a tunnel or a forwarded request.\<close>

record request =
  rq_abs :: bool
  rq_scheme :: string
  rq_host :: string
  rq_header :: header
  rq_body :: "(string option) option"
    \<comment> \<open>no body; a body whose reading fails; a body\<close>

datatype verdict = Forbidden | BadRequest | BadGateway | TooLarge
  | Tunnel admission string
  | Forward admission string header "string option" "string list"

definition handleConnect :: "idna \<Rightarrow> gate \<Rightarrow> request \<Rightarrow> verdict" where
  "handleConnect idna g r =
     (let target = addrWithPort (rq_host r) ''443''; host = hostOnly target; port = portOnly target;
          how = admit idna (g_policy g) host port in
      if how = AdmitNone then Forbidden
      else let canonical = CanonicalHost idna host in
        Tunnel how (if port \<noteq> [] \<and> canonical \<noteq> [] then JoinHostPort canonical port else target))"

definition substituteHeaders :: "idna \<Rightarrow> gate \<Rightarrow> string \<Rightarrow> header \<Rightarrow> header \<times> string list" where
  "substituteHeaders idna g host h =
     (map (\<lambda>(k, vs). (k, map (\<lambda>v. fst (Substitute idna (g_creds g) host LocationHeader v)) vs)) h,
      concat (map (\<lambda>(k, vs). concat (map (\<lambda>v. map cr_placeholder (snd (Substitute idna (g_creds g) host LocationHeader v))) vs)) h))"

text \<open>\<^verbatim>\<open>strconv.Itoa\<close> of a length.\<close>

fun itoa :: "nat \<Rightarrow> string" where
  "itoa n = (if n < 10 then [char_of (48 + n)] else itoa (n div 10) @ [char_of (48 + n mod 10)])"

declare itoa.simps [simp del]

datatype body_error = BodyUnreadable | BodyTooLarge

definition substituteBody :: "idna \<Rightarrow> gate \<Rightarrow> string \<Rightarrow> header \<Rightarrow> (string option) option
    \<Rightarrow> body_error + header \<times> string option \<times> string list" where
  "substituteBody idna g host h body = (case body of None \<Rightarrow> Inr (h, None, [])
     | Some None \<Rightarrow> Inl BodyUnreadable
     | Some (Some b) \<Rightarrow>
         if int (length b) > g_max_body g then Inl BodyTooLarge
         else case Substitute idna (g_creds g) host LocationBody b of (out, unr) \<Rightarrow>
           Inr (header_set ''Content-Length'' (itoa (length out)) h, Some out, map cr_placeholder unr))"

definition handlePlain :: "idna \<Rightarrow> gate \<Rightarrow> request \<Rightarrow> verdict" where
  "handlePlain idna g r =
     (if \<not> rq_abs r then BadRequest
      else let target = addrWithPort (rq_host r) (defaultPort (rq_scheme r)); host = hostOnly target; port = portOnly target;
               how = admit idna (g_policy g) host port in
        if how = AdmitNone then Forbidden
        else case substituteHeaders idna g host (rq_header r) of (h1, unr1) \<Rightarrow>
          (case substituteBody idna g host h1 (rq_body r) of
             Inl BodyTooLarge \<Rightarrow> TooLarge
           | Inl BodyUnreadable \<Rightarrow> BadGateway
           | Inr (h2, body, unr2) \<Rightarrow> Forward how target (removeHopByHop h2) body (remdups (unr1 @ unr2))))"

section \<open>The gate's configuration\<close>

text \<open>A declared server's URL after \<^verbatim>\<open>url.Parse\<close>: scheme, \<^verbatim>\<open>Hostname()\<close>, \<^verbatim>\<open>Port()\<close>.\<close>

record url =
  u_scheme :: string
  u_host :: string
  u_port :: string

text \<open>\<^verbatim>\<open>strconv.ParseUint(s, 10, 16)\<close>.\<close>

definition parse_uint16 :: "string \<Rightarrow> nat option" where
  "parse_uint16 s = (if s = [] then None else case digits_val 0 s of None \<Rightarrow> None
     | Some v \<Rightarrow> if v \<le> 65535 then Some (nat v) else None)"

definition endpointPort :: "url \<Rightarrow> string option" where
  "endpointPort u =
     (if u_port u = [] then Some (if u_scheme u = ''https'' then ''443'' else ''80'')
      else case parse_uint16 (u_port u) of None \<Rightarrow> None | Some n \<Rightarrow> if n = 0 then None else Some (itoa n))"

definition mcpEndpoint :: "idna \<Rightarrow> url option \<Rightarrow> string option" where
  "mcpEndpoint idna parsed = (case parsed of None \<Rightarrow> None | Some u \<Rightarrow>
     if u_scheme u \<noteq> ''http'' \<and> u_scheme u \<noteq> ''https'' then None
     else if CHR ''*'' \<in> set (u_host u) then None
     else if ValidateHostEntry (u_host u) \<noteq> None then None
     else if ParseIP (u_host u) \<noteq> [] \<and> IPAllowed (ParseIP (u_host u)) \<noteq> None then None
     else case endpointPort u of None \<Rightarrow> None
       | Some port \<Rightarrow> Some (CanonicalLookup idna (u_host u) @ '':'' @ port))"

text \<open>The declared servers, \<open>None\<close> where the stored list does not decode.\<close>

definition mcpGateEndpoints :: "idna \<Rightarrow> networking \<Rightarrow> (url option) list option \<Rightarrow> string list \<times> nat" where
  "mcpGateEndpoints idna net declared =
     (if nt_type net \<noteq> NetLimited \<or> \<not> nt_allow_mcp net then ([], 0)
      else case declared of None \<Rightarrow> ([], 0)
        | Some servers \<Rightarrow> let es = List.map_filter (mcpEndpoint idna) servers in (es, length servers - length es))"

definition hostsOf :: "string list \<Rightarrow> string list" where
  "hostsOf endpoints = map (\<lambda>e. fst (cut (CHR '':'') e)) endpoints"

record probe =
  pb_credential :: string
  pb_unrestricted :: bool
  pb_allowed_hosts :: "string list"

definition probe_set :: "idna \<Rightarrow> networking \<Rightarrow> string list \<Rightarrow> host_set" where
  "probe_set idna net mcpHosts =
     NewHostSet idna (nt_allowed_hosts net @ mcpHosts @ (if nt_allow_packages net then PackageRegistryHosts else []))"

text \<open>
  The credentials reported, with the entries the policy does not cover: each at most once in the
  session's log (\<open>reported\<close> holds the credentials the log already names).
\<close>

fun emit_loop :: "idna \<Rightarrow> host_set \<Rightarrow> string list \<Rightarrow> probe list \<Rightarrow> (string \<times> string list) list" where
  "emit_loop idna pol reported [] = []"
| "emit_loop idna pol reported (c # cs) =
     (if pb_unrestricted c then emit_loop idna pol reported cs
      else let blocked = filter (\<lambda>e. \<not> CoversEntry idna (Some pol) e) (pb_allowed_hosts c) in
        if blocked = [] then emit_loop idna pol reported cs
        else if pb_credential c \<in> set reported then emit_loop idna pol reported cs
        else (pb_credential c, blocked) # emit_loop idna pol (pb_credential c # reported) cs)"

definition emitUnreachableCredentials :: "idna \<Rightarrow> networking \<Rightarrow> string list \<Rightarrow> string list \<Rightarrow> probe list \<Rightarrow> (string \<times> string list) list" where
  "emitUnreachableCredentials idna net mcpHosts reported creds =
     (if nt_type net \<noteq> NetLimited then [] else emit_loop idna (probe_set idna net mcpHosts) reported creds)"

section \<open>Declared endpoints\<close>

lemma labels_ok_chars: "labels_ok n ls = Inr m \<Longrightarrow> list_all (list_all host_char) ls"
  by (induction n ls arbitrary: m rule: labels_ok.induct) (auto split: if_splits)

lemma octets_chars: "octets ss = Some q \<Longrightarrow> list_all (list_all is_digit) ss"
proof (induction ss arbitrary: q)
  case (Cons s ss)
  have "digits_val acc t = Some v \<Longrightarrow> list_all is_digit t" for acc t v
    by (induction t arbitrary: acc) (auto split: if_splits)
  with Cons show ?case by (auto simp: octet_def split: if_splits option.splits)
qed simp

lemma chars_of_labels: "list_all (list_all P) (split_on c h) \<Longrightarrow> x \<in> set h \<Longrightarrow> P x \<or> x = c"
  by (induction h) (auto split: if_splits list.splits)

lemma valid_entry_chars:
  assumes "ValidateHostEntry h = None" "CHR ''*'' \<notin> set h" "x \<in> set h"
  shows "host_char x \<or> x = CHR ''.''"
proof -
  have t: "trim_prefix h ''*.'' = h" using assms(2) by (auto simp: trim_prefix_def has_prefix_conv)
  show ?thesis
  proof (cases "ParseIP h = []")
    case True
    then have "list_all (list_all host_char) (labels h)"
      using assms(1) t by (auto simp: ValidateHostEntry_def validateHostEntry_def Let_def labels_ok_chars split: if_splits sum.splits)
    then show ?thesis using assms(3) by (rule chars_of_labels)
  next
    case False
    moreover have "CHR '':'' \<notin> set h" using assms(1) t by (auto simp: ValidateHostEntry_def validateHostEntry_def Let_def split: if_splits)
    then have "find (\<lambda>c. c = CHR ''.'' \<or> c = CHR '':'' \<or> c = CHR ''%'') h \<noteq> Some (CHR '':'')"
      by (auto simp: find_Some_iff in_set_conv_nth)
    ultimately obtain q where "parseIPv4 h = Some q"
      by (auto simp: ParseIP_def split: option.splits if_splits)
    then have "list_all (list_all is_digit) (labels h)"
      by (auto simp: parseIPv4_def Let_def octets_chars split: if_splits)
    then have "is_digit x \<or> x = CHR ''.''" using assms(3) by (rule chars_of_labels)
    then show ?thesis by (auto simp: host_char_def)
  qed
qed

lemma valid_entry_no_root:
  assumes "ValidateHostEntry h = None" "CHR ''*'' \<notin> set h"
  shows "h \<noteq> [] \<and> \<not> has_suffix h ''.'' \<and> [] \<notin> set (labels h)"
proof -
  have t: "trim_prefix h ''*.'' = h" using assms(2) by (auto simp: trim_prefix_def has_prefix_conv)
  have ok: "labels_ok n ls = Inr m \<Longrightarrow> [] \<notin> set ls" for n m ls
    by (induction n ls arbitrary: m rule: labels_ok.induct) (auto split: if_splits)
  have oc: "octets ls = Some q \<Longrightarrow> [] \<notin> set ls" for q ls
    by (induction ls arbitrary: q) (auto simp: octet_def split: option.splits)
  have "[] \<notin> set (labels h)" (is ?lab)
  proof (cases "ParseIP h = []")
    case True
    then show ?thesis using assms(1) t ok
      by (auto simp: ValidateHostEntry_def validateHostEntry_def Let_def split: if_splits sum.splits)
  next
    case False
    moreover have "CHR '':'' \<notin> set h" using assms(1) t by (auto simp: ValidateHostEntry_def validateHostEntry_def Let_def split: if_splits)
    then have "find (\<lambda>c. c = CHR ''.'' \<or> c = CHR '':'' \<or> c = CHR ''%'') h \<noteq> Some (CHR '':'')"
      by (auto simp: find_Some_iff in_set_conv_nth)
    ultimately obtain q where "parseIPv4 h = Some q" by (auto simp: ParseIP_def split: option.splits if_splits)
    then show ?thesis using oc by (auto simp: parseIPv4_def Let_def split: if_splits)
  qed
  moreover have "[] \<in> set (labels h)" if r: "has_suffix h ''.''"
  proof -
    obtain q where "h = q @ [CHR ''.'']" using r by (auto simp: has_suffix_conv)
    then show ?thesis by (simp add: split_on_append)
  qed
  ultimately show ?thesis by (cases h) auto
qed

definition plain_char :: "char \<Rightarrow> bool" where
  "plain_char c \<longleftrightarrow> host_char c \<or> c = CHR ''.'' \<or> c = CHR '':''"

lemma plain_char_ascii: "plain_char c \<Longrightarrow> byte c < 0x80 \<and> \<not> space_rune (Some (byte c))"
  by (auto simp: plain_char_def host_char_def is_lower_def is_upper_def is_digit_def space_rune_def byte_def)

lemma trim_space_plain: "\<forall>c \<in> set s. plain_char c \<Longrightarrow> trim_space s = s"
proof -
  assume p: "\<forall>c \<in> set s. plain_char c"
  then have r: "runes s = map (\<lambda>c. (Some (byte c), [c])) s"
    using plain_char_ascii by (induction s) auto
  have dw: "dropWhile (space_rune \<circ> fst) xs = xs" if "\<forall>x \<in> set xs. \<not> space_rune (fst x)" for xs :: "(nat option \<times> string) list"
    using that by (cases xs) auto
  have "\<forall>x \<in> set (runes s). \<not> space_rune (fst x)" using p plain_char_ascii by (auto simp: r)
  then show ?thesis using dw [of "runes s"] dw [of "rev (runes s)"] by (simp add: trim_space_def)
qed

lemma upper_fold: "is_upper c \<Longrightarrow> is_lower (char_of (byte c + 32))"
  by (simp add: is_upper_def is_lower_def byte_def)

lemma lower_facts: "is_lower c \<Longrightarrow> \<not> is_upper c \<and> c \<noteq> CHR ''.'' \<and> host_char c"
  by (auto simp: is_upper_def is_lower_def byte_def host_char_def)

lemma fold_chars: "\<forall>c \<in> set h. host_char c \<or> c = CHR ''.'' \<Longrightarrow> x \<in> set (foldASCII h) \<Longrightarrow> host_char x \<or> x = CHR ''.''"
  using upper_fold lower_facts by (auto simp: foldASCII_def split: if_splits)

lemma fold_idem [simp]: "foldASCII (foldASCII h) = foldASCII h"
proof -
  have "\<not> hasUpperASCII (foldASCII h)"
    using upper_fold lower_facts by (auto simp: foldASCII_def hasUpperASCII_def list_ex_iff)
  then show ?thesis by (simp add: foldASCII_def [of "foldASCII h"])
qed

lemma map_suffix: "(\<And>c. f c = x \<longleftrightarrow> c = x) \<Longrightarrow> has_suffix (map f h) [x] \<longleftrightarrow> has_suffix h [x]"
  by (cases h rule: rev_cases) (auto simp: has_suffix_conv)

lemma fold_dot: "(if is_upper c then char_of (byte c + 32) else c) = CHR ''.'' \<longleftrightarrow> c = CHR ''.''"
proof (cases "is_upper c")
  case True
  then have "char_of (byte c + 32) \<noteq> CHR ''.''" using upper_fold lower_facts by blast
  moreover have "c \<noteq> CHR ''.''" using True by (auto simp only: is_upper_def byte_def) simp
  ultimately show ?thesis by (simp only: True if_True)
qed (simp only: if_False)

lemma fold_last: "has_suffix (foldASCII h) ''.'' \<longleftrightarrow> has_suffix h ''.''"
proof -
  let ?f = "\<lambda>c. if is_upper c then char_of (byte c + 32) else c"
  have "has_suffix (map ?f h) ''.'' \<longleftrightarrow> has_suffix h ''.''" by (rule map_suffix) (rule fold_dot)
  then show ?thesis by (simp add: foldASCII_def)
qed

lemma cut_none: "c \<notin> set s \<Longrightarrow> cut c s = (s, [], False)"
  by (induction s) auto

lemma cut_at: "c \<notin> set a \<Longrightarrow> cut c (a @ c # b) = (a, b, True)"
  by (induction a) auto

lemma lookup_of_chars:
  assumes "\<forall>c \<in> set h. host_char c \<or> c = CHR ''.''"
  shows "CanonicalLookup idna h = trim_suffix (foldASCII h) ''.''"
proof -
  have "trim_space h = h" using assms by (intro trim_space_plain) (auto simp: plain_char_def)
  moreover have "CHR ''%'' \<notin> set h" using assms by (auto simp: host_char_def is_lower_def is_upper_def is_digit_def byte_def)
  moreover have "isASCII (foldASCII h)"
    using fold_chars [OF assms] plain_char_ascii by (auto simp: isASCII_def list_all_iff plain_char_def)
  ultimately show ?thesis by (simp add: CanonicalLookup_def canonicalDeRooted_def cut_none canonicalName_def Let_def)
qed

text \<open>A host a declaration may name is its own canonical form, folded.\<close>

lemma valid_lookup:
  assumes "ValidateHostEntry h = None" "CHR ''*'' \<notin> set h"
  shows "CanonicalLookup idna h = foldASCII h" "CanonicalLookup idna (foldASCII h) = foldASCII h"
    "\<forall>c \<in> set (foldASCII h). host_char c \<or> c = CHR ''.''" "foldASCII h \<noteq> []"
proof -
  have c: "\<forall>c \<in> set h. host_char c \<or> c = CHR ''.''" using valid_entry_chars [OF assms] by blast
  have r: "trim_suffix (foldASCII h) ''.'' = foldASCII h" using valid_entry_no_root [OF assms] by (simp add: trim_suffix_def fold_last)
  show "CanonicalLookup idna h = foldASCII h" using lookup_of_chars [OF c] r by simp
  show d: "\<forall>c \<in> set (foldASCII h). host_char c \<or> c = CHR ''.''" using fold_chars [OF c] by blast
  show "CanonicalLookup idna (foldASCII h) = foldASCII h" using lookup_of_chars [OF d] r by simp
  show "foldASCII h \<noteq> []" using valid_entry_no_root [OF assms] by (simp add: foldASCII_def)
qed

lemma itoa_digits: "list_all is_digit (itoa n) \<and> itoa n \<noteq> [] \<and> (0 < n \<longrightarrow> hd (itoa n) \<noteq> CHR ''0'')"
proof (induction n rule: itoa.induct)
  case (1 n)
  have d: "is_digit (char_of (48 + k))" if "k < 10" for k :: nat using that by (simp add: is_digit_def)
  have z: "char_of (48 + k) \<noteq> CHR ''0''" if "0 < k" "k < 10" for k :: nat
  proof
    assume "char_of (48 + k) = CHR ''0''"
    then have "(of_char (char_of (48 + k)) :: nat) = of_char (CHR ''0'')" by simp
    then show False using that by simp
  qed
  show ?case
  proof (cases "n < 10")
    case True
    then show ?thesis using d z by (simp add: itoa.simps)
  next
    case False
    then show ?thesis using 1 d [of "n mod 10"] by (subst (1 2 3) itoa.simps) auto
  qed
qed

lemma endpointPort_digits:
  assumes "endpointPort u = Some p"
  shows "list_all is_digit p \<and> p \<noteq> [] \<and> hd p \<noteq> CHR ''0''"
proof (cases "u_port u = []")
  case True
  then show ?thesis using assms by (auto simp: endpointPort_def is_digit_def split: if_splits)
next
  case False
  then obtain n where "n \<noteq> 0" "p = itoa n" using assms by (auto simp: endpointPort_def split: option.splits if_splits)
  then show ?thesis using itoa_digits [of n] by simp
qed

lemma digit_plain: "is_digit c \<Longrightarrow> plain_char c \<and> c \<noteq> CHR '':''"
  by (auto simp: plain_char_def host_char_def is_digit_def)

lemma host_no_colon: "host_char c \<or> c = CHR ''.'' \<Longrightarrow> c \<noteq> CHR '':'' \<and> c \<noteq> CHR ''*''"
  by (auto simp: host_char_def is_lower_def is_upper_def is_digit_def byte_def)

lemma mcpEndpoint_Some:
  assumes "mcpEndpoint idna parsed = Some e"
  obtains u port where "parsed = Some u" "endpointPort u = Some port" "ValidateHostEntry (u_host u) = None"
    "CHR ''*'' \<notin> set (u_host u)" "e = foldASCII (u_host u) @ CHR '':'' # port"
  using assms valid_lookup(1)
  by (auto simp: mcpEndpoint_def split: option.splits if_splits)

lemma endpoint_key_self:
  assumes "mcpEndpoint idna parsed = Some e"
  shows "(case cut (CHR '':'') (trim_space e) of (host, port, True) \<Rightarrow> Some (endpointKey idna host port) | (_, _, False) \<Rightarrow> None) = Some e"
proof -
  obtain u port where u: "endpointPort u = Some port" "ValidateHostEntry (u_host u) = None" "CHR ''*'' \<notin> set (u_host u)"
    "e = foldASCII (u_host u) @ CHR '':'' # port" using mcpEndpoint_Some [OF assms] by metis
  note v = valid_lookup [OF u(2,3)] and p = endpointPort_digits [OF u(1)]
  have "trim_space e = e" using v(3) p digit_plain
    by (intro trim_space_plain) (auto simp: u(4) list_all_iff plain_char_def)
  moreover have "CHR '':'' \<notin> set (foldASCII (u_host u))" using v(3) host_no_colon by blast
  moreover have "dropWhile (\<lambda>c. c = CHR ''0'') port = port" using p by (cases port) auto
  ultimately show ?thesis using u(4) v(2) by (simp add: cut_at endpointKey_def)
qed

lemma endpoint_keys_self: "endpoint_keys idna (List.map_filter (mcpEndpoint idna) urls) = List.map_filter (mcpEndpoint idna) urls"
proof (induction urls)
  case (Cons x xs)
  show ?case
  proof (cases "mcpEndpoint idna x")
    case (Some e)
    then show ?thesis using endpoint_key_self [OF Some] Cons by (simp add: endpoint_keys_def map_filter_simps)
  qed (use Cons in \<open>simp add: map_filter_simps\<close>)
qed (simp add: endpoint_keys_def map_filter_simps)

lemma last_sep:
  assumes "c \<notin> set p" "c \<notin> set q"
  shows "a @ c # p = b @ c # q \<longleftrightarrow> a = b \<and> p = q"
proof
  assume e: "a @ c # p = b @ c # q"
  have t: "takeWhile (\<lambda>x. x \<noteq> c) (rev (y @ c # r)) = rev r" if "c \<notin> set r" for y r
    using that by (simp add: takeWhile_append)
  from e have "rev p = rev q" using t [OF assms(1), of a] t [OF assms(2), of b] by metis
  then show "a = b \<and> p = q" using e by simp
qed simp

text \<open>The declared server an endpoint key stands for.\<close>

definition same_endpoint :: "idna \<Rightarrow> string \<Rightarrow> string \<Rightarrow> url option \<Rightarrow> bool" where
  "same_endpoint idna host port parsed \<longleftrightarrow> (\<exists>u eport. parsed = Some u \<and> mcpEndpoint idna parsed \<noteq> None \<and>
     endpointPort u = Some eport \<and> CanonicalLookup idna host = CanonicalLookup idna (u_host u) \<and>
     dropWhile (\<lambda>c. c = CHR ''0'') port = eport)"

lemma endpoint_key_matches:
  assumes "CHR '':'' \<notin> set port"
  shows "endpointKey idna host port \<in> set (List.map_filter (mcpEndpoint idna) urls) \<longleftrightarrow> (\<exists>x \<in> set urls. same_endpoint idna host port x)"
proof -
  have "mcpEndpoint idna x = Some (endpointKey idna host port) \<longleftrightarrow> same_endpoint idna host port x" for x
  proof (cases "mcpEndpoint idna x")
    case (Some e)
    obtain u eport where u: "x = Some u" "endpointPort u = Some eport" "ValidateHostEntry (u_host u) = None" "CHR ''*'' \<notin> set (u_host u)"
      "e = foldASCII (u_host u) @ CHR '':'' # eport" using mcpEndpoint_Some [OF Some] by metis
    have "CHR '':'' \<notin> set eport" using endpointPort_digits [OF u(2)] digit_plain by (auto simp: list_all_iff)
    moreover have "CHR '':'' \<notin> set (dropWhile (\<lambda>c. c = CHR ''0'') port)" using assms by (meson set_dropWhileD)
    ultimately have "e = endpointKey idna host port \<longleftrightarrow> CanonicalLookup idna host = foldASCII (u_host u) \<and> dropWhile (\<lambda>c. c = CHR ''0'') port = eport"
      unfolding endpointKey_def u(5) by (simp add: last_sep) metis
    then show ?thesis using u Some valid_lookup(1) [OF u(3,4)] by (auto simp: same_endpoint_def)
  qed (auto simp: same_endpoint_def)
  then have "endpointKey idna host port \<in> set (List.map_filter (mcpEndpoint idna) urls) \<longleftrightarrow>
      (\<exists>x \<in> set urls. mcpEndpoint idna x = Some (endpointKey idna host port))" by (force simp: map_filter_def)
  with \<open>\<And>x. (mcpEndpoint idna x = Some (endpointKey idna host port)) = same_endpoint idna host port x\<close> show ?thesis by simp
qed

section \<open>Admission\<close>

lemma mcpGateEndpoints_keys:
  "endpoint_keys idna (fst (mcpGateEndpoints idna net (Some urls))) = fst (mcpGateEndpoints idna net (Some urls))"
  by (simp add: mcpGateEndpoints_def Let_def endpoint_keys_self) (simp add: endpoint_keys_def map_filter_simps)

lemma po_mcp_matches:
  assumes "CHR '':'' \<notin> set port" "nt_type net = NetLimited"
  shows "endpointKey idna host port \<in> set (po_mcp (newPolicy idna net (fst (mcpGateEndpoints idna net (Some urls))))) \<longleftrightarrow>
    nt_allow_mcp net \<and> (\<exists>x \<in> set urls. same_endpoint idna host port x)"
proof (cases "nt_allow_mcp net")
  case True
  then have "fst (mcpGateEndpoints idna net (Some urls)) = List.map_filter (mcpEndpoint idna) urls"
    using assms(2) by (simp add: mcpGateEndpoints_def Let_def)
  then have "po_mcp (newPolicy idna net (fst (mcpGateEndpoints idna net (Some urls)))) = List.map_filter (mcpEndpoint idna) urls"
    using True assms(2) by (simp add: newPolicy_def endpoint_keys_self NetLimited_def NetUnrestricted_def)
  then show ?thesis using True endpoint_key_matches [OF assms(1)] by simp
next
  case False
  then show ?thesis using assms(2) by (simp add: newPolicy_def NetLimited_def NetUnrestricted_def)
qed

lemma limited_policy:
  assumes "nt_type net = NetLimited"
  shows "po_admit_all (newPolicy idna net es) = False" "po_allowed (newPolicy idna net es) = Some (NewHostSet idna (nt_allowed_hosts net))"
    "po_packages (newPolicy idna net es) = (if nt_allow_packages net then Some (packageRegistries idna) else None)"
  using assms by (simp_all add: newPolicy_def closed_policy_def NetLimited_def NetUnrestricted_def)

text \<open>The operator's list, the registry grant, and the declared endpoints, as the policy reads them.\<close>

definition operator_host :: "idna \<Rightarrow> networking \<Rightarrow> string \<Rightarrow> bool" where
  "operator_host idna net host \<longleftrightarrow> Match idna (Some (NewHostSet idna (nt_allowed_hosts net))) host"

definition registry_host :: "idna \<Rightarrow> networking \<Rightarrow> string \<Rightarrow> bool" where
  "registry_host idna net host \<longleftrightarrow> nt_allow_packages net \<and> Match idna (Some (packageRegistries idna)) host"

definition declared_host :: "idna \<Rightarrow> networking \<Rightarrow> (url option) list \<Rightarrow> string \<Rightarrow> string \<Rightarrow> bool" where
  "declared_host idna net urls host port \<longleftrightarrow> nt_allow_mcp net \<and> (\<exists>x \<in> set urls. same_endpoint idna host port x)"

lemma admit_limited:
  assumes "nt_type net = NetLimited" "CHR '':'' \<notin> set port" "host \<noteq> []"
  shows "admit idna (newPolicy idna net (fst (mcpGateEndpoints idna net (Some urls)))) host port =
    (if operator_host idna net host then AdmitOperator
     else if registry_host idna net host then AdmitRegistry
     else if declared_host idna net urls host port then AdmitMCP else AdmitNone)"
  using assms limited_policy [OF assms(1)] po_mcp_matches [OF assms(2,1)]
  by (simp add: admit_def operator_host_def registry_host_def declared_host_def Match_def)

lemma admit_policy_other:
  "nt_type net = NetUnrestricted \<Longrightarrow> host \<noteq> [] \<Longrightarrow> admit idna (newPolicy idna net es) host port = AdmitUnrestricted"
  "nt_type net \<noteq> NetUnrestricted \<Longrightarrow> nt_type net \<noteq> NetLimited \<Longrightarrow> admit idna (newPolicy idna net es) host port = AdmitNone"
  "admit idna p [] port = AdmitNone"
  by (simp_all add: newPolicy_def admit_def closed_policy_def Match_def)

text \<open>
  C22: what leaves a sandbox.  With the endpoints the control plane derives from the declared
  servers, a request is admitted exactly when its host is named and the policy is unrestricted, or
  the policy is limited and the operator's list names the host, or the registry flag is set and the
  host is a curated registry, or the MCP flag is set and a declared server has that canonical host
  and that port; any other type of policy admits nothing.  Only the operator's list lifts the address
  floor, and a registry host keeps its rooted lookup whatever an agent declares.
\<close>

theorem gate_admission:
  assumes "CHR '':'' \<notin> set port" "how = admit idna (newPolicy idna net (fst (mcpGateEndpoints idna net (Some urls)))) host port"
  shows "(how \<noteq> AdmitNone \<longleftrightarrow> host \<noteq> [] \<and> (nt_type net = NetUnrestricted \<or> nt_type net = NetLimited \<and>
      (operator_host idna net host \<or> registry_host idna net host \<or> declared_host idna net urls host port))) \<and>
    (\<not> floored how \<longleftrightarrow> host \<noteq> [] \<and> nt_type net = NetLimited \<and> operator_host idna net host) \<and>
    (rooted how \<longleftrightarrow> host \<noteq> [] \<and> nt_type net = NetLimited \<and> registry_host idna net host \<and> \<not> operator_host idna net host)"
proof -
  have d: "NetUnrestricted \<noteq> NetLimited" by (simp add: NetUnrestricted_def NetLimited_def)
  show ?thesis
  proof (cases "host = []")
    case True
    then show ?thesis using assms(2) admit_policy_other(3) by (simp add: floored_def rooted_def)
  next
    case False
    consider "nt_type net = NetUnrestricted" | "nt_type net = NetLimited" | "nt_type net \<noteq> NetUnrestricted" "nt_type net \<noteq> NetLimited" by blast
    then show ?thesis
    proof cases
      case 1
      then show ?thesis using assms(2) False d admit_policy_other(1) by (simp add: floored_def rooted_def)
    next
      case 2
      then show ?thesis using assms False d admit_limited [OF 2 assms(1) False] by (simp add: floored_def rooted_def)
    next
      case 3
      then show ?thesis using assms(2) admit_policy_other(2) by (simp add: floored_def rooted_def)
    qed
  qed
qed

definition demo_net :: networking where
  "demo_net = \<lparr>nt_type = ''limited'', nt_allowed_hosts = [''*.example.com''], nt_allow_mcp = True, nt_allow_packages = False\<rparr>"

definition demo_url :: url where
  "demo_url = \<lparr>u_scheme = ''https'', u_host = ''mcp.test.io'', u_port = []\<rparr>"

lemma demo_declared: "mcpEndpoint (\<lambda>_. None) (Some demo_url) = Some ''mcp.test.io:443''"
  by (simp add: mcpEndpoint_def demo_url_def ValidateHostEntry_def validateHostEntry_def endpointPort_def ParseIP_def
      parseIPv4_def host_char_def is_lower_def trim_prefix_def is_digit_def host_eval)

theorem gate_admission_witness:
  "floored (admit (\<lambda>_. None) (newPolicy (\<lambda>_. None) demo_net
     (fst (mcpGateEndpoints (\<lambda>_. None) demo_net (Some [Some demo_url])))) ''MCP.test.io'' ''0443'') \<and>
   admit (\<lambda>_. None) (newPolicy (\<lambda>_. None) demo_net
     (fst (mcpGateEndpoints (\<lambda>_. None) demo_net (Some [Some demo_url])))) ''MCP.test.io'' ''0443'' \<noteq> AdmitNone"
proof -
  have o: "\<not> operator_host (\<lambda>_. None) demo_net ''MCP.test.io''"
    by (simp add: operator_host_def demo_net_def host_eval)
  have "same_endpoint (\<lambda>_. None) ''MCP.test.io'' ''0443'' (Some demo_url)"
    using demo_declared by (simp add: same_endpoint_def endpointPort_def demo_url_def host_eval char_of_def bit_0)
  then have d: "declared_host (\<lambda>_. None) demo_net [Some demo_url] ''MCP.test.io'' ''0443''"
    by (simp add: declared_host_def demo_net_def)
  show ?thesis
    using gate_admission [of "''0443''" _ "\<lambda>_. None" demo_net "[Some demo_url]" "''MCP.test.io''", OF _ refl] o d
    by (simp add: demo_net_def NetLimited_def)
qed

text \<open>
  Session create and the executor ask \<^const>\<open>MCPServerAdmitted\<close> about a declared server, the sandbox's
  requests to it meet the gate: what the first admits the second does, and what the gate admits the
  first does too, a curated registry opened by the package flag apart.
\<close>

lemma mcp_admission_agrees:
  assumes e: "mcpEndpoint idna (Some u) = Some e" "Some u \<in> set urls" "endpointPort u = Some port"
    and net: "net = ec_networking cfg" "nt_type net \<noteq> []"
  defines "how \<equiv> admit idna (newPolicy idna net (fst (mcpGateEndpoints idna net (Some urls)))) (u_host u) port"
  shows "MCPServerAdmitted idna cfg (u_host u) \<Longrightarrow> how \<noteq> AdmitNone"
    "how \<noteq> AdmitNone \<Longrightarrow> MCPServerAdmitted idna cfg (u_host u) \<or> registry_host idna net (u_host u)"
proof -
  obtain u' p' where u: "Some u = Some u'" "ValidateHostEntry (u_host u') = None" "CHR ''*'' \<notin> set (u_host u')"
    using mcpEndpoint_Some [OF e(1)] by metis
  have h: "u_host u \<noteq> []" using valid_entry_no_root u by blast
  have p: "CHR '':'' \<notin> set port" "dropWhile (\<lambda>c. c = CHR ''0'') port = port"
    using endpointPort_digits [OF e(3)] digit_plain by (auto simp: list_all_iff) (cases port; auto)
  have s: "same_endpoint idna (u_host u) port (Some u)" using e p by (simp add: same_endpoint_def)
  have d: "NetUnrestricted \<noteq> NetLimited" by (simp add: NetUnrestricted_def NetLimited_def)
  have how: "how = (if nt_type net = NetUnrestricted then AdmitUnrestricted
      else if nt_type net = NetLimited then
        (if operator_host idna net (u_host u) then AdmitOperator
         else if registry_host idna net (u_host u) then AdmitRegistry
         else if nt_allow_mcp net then AdmitMCP else AdmitNone)
      else AdmitNone)"
    using admit_policy_other(1,2) [of net] admit_limited [of net port "u_host u"] h p(1) s e(2) d
    by (auto simp: how_def declared_host_def)
  show "MCPServerAdmitted idna cfg (u_host u) \<Longrightarrow> how \<noteq> AdmitNone"
    "how \<noteq> AdmitNone \<Longrightarrow> MCPServerAdmitted idna cfg (u_host u) \<or> registry_host idna net (u_host u)"
    using net d by (auto simp: how MCPServerAdmitted_def Let_def operator_host_def split: if_splits)
qed

section \<open>Unreachable credentials\<close>

lemma labels_map: "(\<And>c. f c = x \<longleftrightarrow> c = x) \<Longrightarrow> split_on x (map f h) = map (map f) (split_on x h)"
  by (induction h) (auto split: list.split)

lemma valid_no_empty_label:
  assumes "ValidateHostEntry h = None" "CHR ''*'' \<notin> set h"
  shows "\<not> hasEmptyLabel (foldASCII h)"
proof -
  let ?f = "\<lambda>c. if is_upper c then char_of (byte c + 32) else c"
  have "isASCII (foldASCII h)"
    using valid_lookup(3) [OF assms] plain_char_ascii by (auto simp: isASCII_def list_all_iff plain_char_def)
  moreover have "labels (map ?f h) = map (map ?f) (labels h)" by (rule labels_map) (rule fold_dot)
  then have "[] \<notin> set (labels (foldASCII h))" using valid_entry_no_root [OF assms] by (auto simp: foldASCII_def)
  ultimately show ?thesis by (simp add: hasEmptyLabel_mapped mapped_def)
qed

text \<open>The hosts of the declared endpoints match as the endpoints themselves do, on some port.\<close>

lemma hostsOf_match:
  assumes "length host \<le> maxCanonicalHost"
  shows "Match idna (Some (NewHostSet idna (hostsOf (List.map_filter (mcpEndpoint idna) urls)))) host \<longleftrightarrow>
    (\<exists>port. CHR '':'' \<notin> set port \<and> (\<exists>x \<in> set urls. same_endpoint idna host port x))"
proof -
  let ?h = "CanonicalLookup idna host"
  have e: "?h \<noteq> [] \<and> \<not> hasEmptyLabel ?h \<and> entry_names idna (fst (cut (CHR '':'') e)) ?h \<longleftrightarrow>
      (\<exists>port. CHR '':'' \<notin> set port \<and> same_endpoint idna host port x)" if x: "mcpEndpoint idna x = Some e" for x e
  proof -
    obtain u p where u: "x = Some u" "endpointPort u = Some p" "ValidateHostEntry (u_host u) = None" "CHR ''*'' \<notin> set (u_host u)"
      "e = foldASCII (u_host u) @ CHR '':'' # p" using mcpEndpoint_Some [OF x] by metis
    note v = valid_lookup [OF u(3,4)]
    have c: "fst (cut (CHR '':'') e) = foldASCII (u_host u)" using v(3) host_no_colon by (subst u(5), subst cut_at) auto
    have w: "\<not> has_prefix (foldASCII (u_host u)) ''*.''" using v(3) host_no_colon by (force simp: has_prefix_conv)
    have t: "trim_space (foldASCII (u_host u)) = foldASCII (u_host u)"
      using v(3) by (intro trim_space_plain) (auto simp: plain_char_def)
    have "entry_names idna (fst (cut (CHR '':'') e)) ?h \<longleftrightarrow> ?h = foldASCII (u_host u)"
      using v(2) w t by (simp add: c entry_names_def CanonicalLookup_def)
    moreover have "CHR '':'' \<notin> set p" "dropWhile (\<lambda>c. c = CHR ''0'') p = p"
      using endpointPort_digits [OF u(2)] digit_plain by (auto simp: list_all_iff) (cases p; auto)
    ultimately show ?thesis using u x v(1,4) valid_no_empty_label [OF u(3,4)] by (auto simp: same_endpoint_def)
  qed
  have n: "\<not> same_endpoint idna host port x" if "mcpEndpoint idna x = None" for x port using that by (simp add: same_endpoint_def)
  have "(\<exists>e \<in> set (List.map_filter (mcpEndpoint idna) urls). P e) \<longleftrightarrow> (\<exists>x \<in> set urls. \<exists>e. mcpEndpoint idna x = Some e \<and> P e)" for P
    by (force simp: map_filter_def)
  then have "Match idna (Some (NewHostSet idna (hostsOf (List.map_filter (mcpEndpoint idna) urls)))) host \<longleftrightarrow>
      (\<exists>x \<in> set urls. \<exists>e. mcpEndpoint idna x = Some e \<and> ?h \<noteq> [] \<and> \<not> hasEmptyLabel ?h \<and> entry_names idna (fst (cut (CHR '':'') e)) ?h)"
    using assms by (auto simp: Match_entries hostsOf_def)
  also have "\<dots> \<longleftrightarrow> (\<exists>x \<in> set urls. \<exists>port. CHR '':'' \<notin> set port \<and> same_endpoint idna host port x)"
    using e n by (metis not_Some_eq)
  finally show ?thesis by blast
qed

lemma probe_match:
  assumes "nt_type net = NetLimited" "length host \<le> maxCanonicalHost"
  shows "Match idna (Some (probe_set idna net (hostsOf (fst (mcpGateEndpoints idna net (Some urls)))))) host \<longleftrightarrow>
    (\<exists>port. CHR '':'' \<notin> set port \<and>
      admit idna (newPolicy idna net (fst (mcpGateEndpoints idna net (Some urls)))) host port \<noteq> AdmitNone)"
proof (cases "host = []")
  case True
  then show ?thesis by (simp add: admit_def Match_def CanonicalLookup_def canonicalDeRooted_def canonicalName_def trim_space_def foldASCII_def
        hasUpperASCII_def trim_suffix_def has_suffix_def)
next
  case False
  let ?urls = "if nt_allow_mcp net then urls else []"
  have "fst (mcpGateEndpoints idna net (Some urls)) = List.map_filter (mcpEndpoint idna) ?urls"
    using assms(1) by (simp add: mcpGateEndpoints_def Let_def map_filter_simps)
  then have "Match idna (Some (NewHostSet idna (hostsOf (fst (mcpGateEndpoints idna net (Some urls)))))) host \<longleftrightarrow>
      (\<exists>port. CHR '':'' \<notin> set port \<and> declared_host idna net urls host port)"
    using hostsOf_match [OF assms(2), of idna ?urls] by (auto simp: declared_host_def)
  moreover have "Match idna (Some (NewHostSet idna (if nt_allow_packages net then PackageRegistryHosts else []))) host \<longleftrightarrow> registry_host idna net host"
    by (auto simp: registry_host_def packageRegistries_def Match_entries)
  ultimately have "Match idna (Some (probe_set idna net (hostsOf (fst (mcpGateEndpoints idna net (Some urls)))))) host \<longleftrightarrow>
      operator_host idna net host \<or> (\<exists>port. CHR '':'' \<notin> set port \<and> declared_host idna net urls host port) \<or> registry_host idna net host"
    by (simp add: probe_set_def hosts.build_append operator_host_def)
  moreover have "\<exists>port. CHR '':'' \<notin> set port" by (rule exI [of _ "[]"]) simp
  moreover have "admit idna (newPolicy idna net (fst (mcpGateEndpoints idna net (Some urls)))) host port \<noteq> AdmitNone \<longleftrightarrow>
      operator_host idna net host \<or> registry_host idna net host \<or> declared_host idna net urls host port"
    if "CHR '':'' \<notin> set port" for port using admit_limited [OF assms(1) that False] by simp
  ultimately show ?thesis by blast
qed

abbreviation blocked_entries :: "idna \<Rightarrow> host_set \<Rightarrow> probe \<Rightarrow> string list" where
  "blocked_entries idna pol c \<equiv> filter (\<lambda>e. \<not> CoversEntry idna (Some pol) e) (pb_allowed_hosts c)"

lemma emit_skip:
  "pb_unrestricted c \<or> blocked_entries idna pol c = [] \<or> pb_credential c \<in> set reported \<Longrightarrow>
     emit_loop idna pol reported (c # cs) = emit_loop idna pol reported cs"
  by (simp only: emit_loop.simps Let_def split: if_split) blast

lemma emit_add:
  "\<not> (pb_unrestricted c \<or> blocked_entries idna pol c = [] \<or> pb_credential c \<in> set reported) \<Longrightarrow>
     emit_loop idna pol reported (c # cs) = (pb_credential c, blocked_entries idna pol c) # emit_loop idna pol (pb_credential c # reported) cs"
  by (simp only: emit_loop.simps Let_def split: if_split) blast

lemma emit_loop_reports:
  "(cid, b) \<in> set (emit_loop idna pol reported cs) \<Longrightarrow>
     cid \<notin> set reported \<and> b \<noteq> [] \<and> (\<forall>e \<in> set b. \<not> CoversEntry idna (Some pol) e)"
proof (induction cs arbitrary: reported)
  case (Cons c cs)
  show ?case
  proof (cases "pb_unrestricted c \<or> blocked_entries idna pol c = [] \<or> pb_credential c \<in> set reported")
    case True
    then show ?thesis using Cons emit_skip [OF True] by metis
  next
    case False
    then have "(cid, b) = (pb_credential c, blocked_entries idna pol c) \<or> (cid, b) \<in> set (emit_loop idna pol (pb_credential c # reported) cs)"
      using Cons.prems emit_add [OF False, of cs] by simp
    then show ?thesis using Cons.IH [of "pb_credential c # reported"] False by auto
  qed
qed simp

lemma emit_loop_once: "distinct (map fst (emit_loop idna pol reported cs))"
proof (induction cs arbitrary: reported)
  case (Cons c cs)
  show ?case
  proof (cases "pb_unrestricted c \<or> blocked_entries idna pol c = [] \<or> pb_credential c \<in> set reported")
    case True
    then show ?thesis using Cons emit_skip [OF True] by metis
  next
    case False
    have "pb_credential c \<notin> fst ` set (emit_loop idna pol (pb_credential c # reported) cs)"
      using emit_loop_reports by fastforce
    then show ?thesis using Cons emit_add [OF False, of cs] by simp
  qed
qed simp

lemma emit_loop_complete:
  assumes "c \<in> set cs" "\<not> pb_unrestricted c" "pb_credential c \<notin> set reported"
    "pb_credential c \<notin> fst ` set (emit_loop idna pol reported cs)" "e \<in> set (pb_allowed_hosts c)"
  shows "CoversEntry idna (Some pol) e"
  using assms
proof (induction cs arbitrary: reported)
  case (Cons d cs)
  show ?case
  proof (cases "pb_unrestricted d \<or> blocked_entries idna pol d = [] \<or> pb_credential d \<in> set reported")
    case True
    note s = emit_skip [OF True, of cs]
    show ?thesis
    proof (cases "c = d")
      case same: True
      then have "blocked_entries idna pol c = []" using True Cons.prems by blast
      then show ?thesis using Cons.prems(5) by (meson filter_empty_conv)
    qed (use Cons s in auto)
  next
    case False
    note s = emit_add [OF False, of cs]
    then have "c \<noteq> d" using Cons.prems(4) by auto
    then show ?thesis using Cons.IH [of "pb_credential d # reported"] Cons.prems s by auto
  qed
qed simp

text \<open>
  The credentials reported as unreachable are the ones the gate will not let through.  On a
  limited policy: a credential is reported at most once; a plain entry of a report is a host the
  gate admits on no port; and for a credential never reported, every host one of its entries names
  is admitted by the gate on some port.
\<close>

theorem unreachable_reports:
  assumes "nt_type net = NetLimited" "es = fst (mcpGateEndpoints idna net (Some urls))"
    "reports = emitUnreachableCredentials idna net (hostsOf es) reported creds"
  shows "distinct (map fst reports) \<and>
    (\<forall>(cid, blocked) \<in> set reports. cid \<notin> set reported \<and> blocked \<noteq> [] \<and>
       (\<forall>e \<in> set blocked. \<not> has_prefix (trim_space e) ''*.'' \<and> length (trim_space e) \<le> maxCanonicalHost \<longrightarrow>
          (\<forall>port. CHR '':'' \<notin> set port \<longrightarrow> admit idna (newPolicy idna net es) (trim_space e) port = AdmitNone))) \<and>
    (\<forall>c \<in> set creds. \<not> pb_unrestricted c \<and> pb_credential c \<notin> set reported \<union> fst ` set reports \<longrightarrow>
       (\<forall>e \<in> set (pb_allowed_hosts c). \<forall>host. Match idna (Some (NewHostSet idna [e])) host \<longrightarrow>
          (\<exists>port. admit idna (newPolicy idna net es) host port \<noteq> AdmitNone)))"
proof (intro conjI ballI impI allI, goal_cases)
  let ?pol = "probe_set idna net (hostsOf es)"
  have r: "reports = emit_loop idna ?pol reported creds" using assms by (simp add: emitUnreachableCredentials_def)
  {
    case 1
    show ?case unfolding r by (rule emit_loop_once)
  next
    case (2 x)
    obtain cid blocked where x: "x = (cid, blocked)" by force
    then have e: "cid \<notin> set reported" "blocked \<noteq> []" "\<forall>e \<in> set blocked. \<not> CoversEntry idna (Some ?pol) e"
      using emit_loop_reports 2 r by metis+
    have "admit idna (newPolicy idna net es) (trim_space e) port = AdmitNone"
      if p: "e \<in> set blocked" "\<not> has_prefix (trim_space e) ''*.''" "length (trim_space e) \<le> maxCanonicalHost" "CHR '':'' \<notin> set port" for e port
    proof -
      have "\<not> Match idna (Some ?pol) (trim_space e)" using e(3) p by (auto simp: CoversEntry_def Let_def)
      then show ?thesis using probe_match [OF assms(1) p(3)] assms(2) p(4) by metis
    qed
    then show ?case using x e(1,2) by auto
  next
    case (3 c e host)
    then have "CoversEntry idna (Some ?pol) e" using emit_loop_complete r by blast
    moreover have "length host \<le> maxCanonicalHost" using 3 by (simp add: Match_entries)
    ultimately show ?case using hosts.covers_sound 3 probe_match [OF assms(1)] assms(2) by metis
  }
qed

theorem unreachable_reports_witness:
  "list_all (\<lambda>(cid, blocked). blocked \<noteq> []) (emitUnreachableCredentials (\<lambda>_. None) demo_net
      (hostsOf (fst (mcpGateEndpoints (\<lambda>_. None) demo_net (Some [Some demo_url])))) []
      [\<lparr>pb_credential = ''vcrd_1'', pb_unrestricted = False, pb_allowed_hosts = [''api.example.com'', ''other.org'']\<rparr>])"
proof -
  have l: "nt_type demo_net = NetLimited" by (simp add: demo_net_def NetLimited_def)
  show ?thesis unfolding list_all_iff
    using unreachable_reports [OF l refl refl, of "\<lambda>_. None" "[Some demo_url]" "[]"
        "[\<lparr>pb_credential = ''vcrd_1'', pb_unrestricted = False, pb_allowed_hosts = [''api.example.com'', ''other.org'']\<rparr>]"]
    by fast
qed

section \<open>The floor under a request\<close>

lemma floored_dial:
  assumes "g_ip_allowed g = IPAllowed" "how \<noteq> AdmitOperator" "rootedDial g how network addr = Inr plan"
  shows "list_all (\<lambda>a. IPAllowed (AsSlice a) = None) (plan_addrs plan) \<and>
    (\<forall>x. plan = Direct x \<longrightarrow> (\<exists>host port. SplitHostPort x = Some (host, port) \<and> ParseIP host \<noteq> [] \<and> IPAllowed (ParseIP host) = None))"
proof -
  have a: "gate_allow g how x = None \<longleftrightarrow> IPAllowed x = None" for x
    using assms(1,2) by (auto simp: gate_allow_def floored_def split: option.split)
  have n: "IPAllowed [] \<noteq> None" by (simp add: IPAllowed_def To16_def)
  have "judged (gate_allow g how) (if rooted how then rootedName addr else addr) plan"
    using DialContext_judged [OF assms(3) [unfolded rootedDial_def]] by (simp add: newDialer_def)
  then show ?thesis using n by (auto simp: judged_def a)
qed

text \<open>
  C23: no tunnel to an address under the floor.  Through a gate that keeps the platform's floor, a
  \<^verbatim>\<open>CONNECT\<close> is answered with a tunnel only for an admitted host; unless the operator's own
  list names that host, whatever the resolver answers, every address the dial may connect to passes
  the floor, and an authority is dialled as written only when it is an address literal that passes.
\<close>

theorem tunnel_floor:
  assumes "g = New idna lookup cfg" "gc_ip_allowed cfg = None" "handleConnect idna g r = Tunnel how addr"
    "host = hostOnly (addrWithPort (rq_host r) ''443'')" "\<not> operator_host idna (gc_networking cfg) host"
    "rootedDial g how ''tcp'' addr = Inr plan"
  shows "list_all (\<lambda>a. IPAllowed (AsSlice a) = None) (plan_addrs plan) \<and>
    (\<forall>x. plan = Direct x \<longrightarrow> (\<exists>h p. SplitHostPort x = Some (h, p) \<and> ParseIP h \<noteq> [] \<and> IPAllowed (ParseIP h) = None)) \<and>
    host \<noteq> [] \<and> (nt_type (gc_networking cfg) = NetUnrestricted \<or> nt_type (gc_networking cfg) = NetLimited)"
proof -
  let ?net = "gc_networking cfg"
  have how: "how = admit idna (newPolicy idna ?net (gc_endpoints cfg)) host (portOnly (addrWithPort (rq_host r) ''443''))" "how \<noteq> AdmitNone"
    using assms(1,3,4) by (auto simp: handleConnect_def New_def Let_def split: if_splits)
  have h: "host \<noteq> []" using how admit_policy_other(3) by metis
  have t: "nt_type ?net = NetUnrestricted \<or> nt_type ?net = NetLimited" using how admit_policy_other(2) by metis
  have "how \<noteq> AdmitOperator"
  proof
    assume o: "how = AdmitOperator"
    then have "nt_type ?net = NetLimited" using t how(1) h admit_policy_other(1) by (metis admission.distinct(9))
    then show False using limited_policy(2) [of ?net] assms(5) how(1) o
      by (auto simp: admit_def operator_host_def split: if_splits)
  qed
  then show ?thesis using floored_dial [OF _ _ assms(6)] assms(1,2) h t by (simp add: New_def)
qed

definition demo_config :: gate_config where
  "demo_config = \<lparr>gc_networking = demo_net\<lparr>nt_type := ''unrestricted'', nt_allowed_hosts := []\<rparr>, gc_endpoints = [], gc_ip_allowed = None,
     gc_creds = [], gc_max_body = 0\<rparr>"

definition demo_gate :: gate where
  "demo_gate = New (\<lambda>_. None) (\<lambda>_. Inr [([127, 0, 0, 1], []), ([8, 8, 8, 8], [])]) demo_config"

lemma replicate_4: "replicate 4 x = [x, x, x, x]"
  by (simp add: numeral_eq_Suc)

lemma demo_allow: "IPAllowed [8, 8, 8, 8] = None" "IPAllowed [127, 0, 0, 1] \<noteq> None"
  by (simp_all add: IPAllowed_def To16_def To4_def refused_def IsLoopback_def IsLinkLocalUnicast_def IsLinkLocalMulticast_def
      IsUnspecified_def IsMulticast_def ip_Equal_def IPv4_def IPv6unspecified_def v4InV6Prefix_def embeddedIPv4_def replicate_4)

lemma demo_dial: "rootedDial demo_gate AdmitUnrestricted ''tcp'' ''example.com:443'' = Inr (Serial [A4 [8, 8, 8, 8]] ''443'')"
  using demo_allow
  by (auto simp: rootedDial_def rooted_def DialContext_def portCarrying_def SplitHostPort_def ParseIP_def parseIPv4_def demo_gate_def
      newDialer_def New_def demo_config_def addrsOf_def addr_of_def wantedFamilies_def AddrFromSlice_def Unmap_def WithZone_def
      gate_allow_def floored_def AsSlice_def map_filter_simps is4_def dialAll_def partition_addrs_def Let_def split: option.split)

theorem tunnel_floor_witness:
  "\<exists>plan. rootedDial demo_gate AdmitUnrestricted ''tcp'' ''example.com:443'' = Inr plan \<and>
     list_all (\<lambda>a. IPAllowed (AsSlice a) = None) (plan_addrs plan) \<and> plan_addrs plan \<noteq> []"
proof -
  let ?r = "\<lparr>rq_abs = False, rq_scheme = [], rq_host = ''example.com:443'', rq_header = [], rq_body = None\<rparr>"
  have t: "handleConnect (\<lambda>_. None) demo_gate ?r = Tunnel AdmitUnrestricted ''example.com:443''"
    by (simp add: handleConnect_def addrWithPort_def hostOnly_def portOnly_def SplitHostPort_def JoinHostPort_def demo_gate_def New_def
        demo_config_def newPolicy_def NetUnrestricted_def admit_def closed_policy_def CanonicalHost_def canonicalName_def
        foldASCII_def hasUpperASCII_def is_upper_def byte_def isASCII_def maxCanonicalHost_def Let_def)
  have o: "\<not> operator_host (\<lambda>_. None) (gc_networking demo_config) ''example.com''"
    by (simp add: operator_host_def demo_config_def Match_entries)
  have "hostOnly (addrWithPort (rq_host ?r) ''443'') = ''example.com''"
    by (simp add: hostOnly_def addrWithPort_def SplitHostPort_def Let_def)
  with tunnel_floor [OF demo_gate_def _ t refl _ demo_dial] o demo_dial show ?thesis by (simp add: demo_config_def)
qed

section \<open>Forwarded requests\<close>

lemma fold_header_del: "fold header_del ks h = filter (\<lambda>(k, _). k \<notin> CanonicalMIMEHeaderKey ` set ks) h"
  by (induction ks arbitrary: h) (auto simp: header_del_def intro!: filter_cong)

lemma removeHopByHop_filter:
  assumes "\<forall>(k, vs) \<in> set h. CanonicalMIMEHeaderKey k = k"
  shows "removeHopByHop h = filter (\<lambda>(k, _). \<not> isHopByHop k \<and> k \<notin> CanonicalMIMEHeaderKey ` set (connection_names h)) h"
proof -
  let ?h1 = "filter (\<lambda>(k, _). k \<notin> CanonicalMIMEHeaderKey ` set (connection_names h)) h"
  have "CanonicalMIMEHeaderKey ` set (filter isHopByHop (map fst ?h1)) = set (filter isHopByHop (map fst ?h1))"
    using assms by (force simp: image_def)
  then have "removeHopByHop h = filter (\<lambda>(k, _). k \<notin> set (filter isHopByHop (map fst ?h1))) ?h1"
    by (simp only: removeHopByHop_def fold_header_del Let_def)
  also have "\<dots> = filter (\<lambda>(k, _). \<not> isHopByHop k \<and> k \<notin> CanonicalMIMEHeaderKey ` set (connection_names h)) h"
    unfolding filter_filter by (rule filter_cong) (auto, force)
  finally show ?thesis .
qed

lemma map_of_reset: "k \<noteq> c \<Longrightarrow> map_of (filter (\<lambda>(k', _). k' \<noteq> c) h) k = map_of h k"
  by (induction h) auto

lemma Substitute_low:
  assumes "list_all2 (low_equal idna host) cs ds"
  shows "fst (Substitute idna cs host loc s) = fst (Substitute idna ds host loc s)"
    "map cr_placeholder (snd (Substitute idna cs host loc s)) = map cr_placeholder (snd (Substitute idna ds host loc s))"
  using substitute_confined [OF assms] by blast+

text \<open>
  C24: a request leaves with no secret its host may not have.  Two gates that differ only in the
  secrets of credentials the request's host may not receive answer a plain request with the same
  verdict: the same status, or the same forwarded headers, body and reported placeholders.  A
  forwarded request carries no hop-by-hop header, neither one of the fixed list nor one that its
  Connection header names.
\<close>

theorem forward_confined:
  assumes "host = hostOnly (addrWithPort (rq_host r) (defaultPort (rq_scheme r)))"
    "list_all2 (low_equal idna host) (g_creds g) creds'"
    "list_all (\<lambda>(k, vs). CanonicalMIMEHeaderKey k = k) (rq_header r)"
  shows "handlePlain idna g r = handlePlain idna (g\<lparr>g_creds := creds'\<rparr>) r \<and>
    (\<forall>how target h body unr. handlePlain idna g r = Forward how target h body unr \<longrightarrow> list_all (\<lambda>(k, vs). \<not> isHopByHop k
       \<and> k \<notin> CanonicalMIMEHeaderKey ` set (connection_names (fst (substituteHeaders idna g host (rq_header r))))) h)"
proof
  note low = Substitute_low [OF assms(2)]
  have h: "substituteHeaders idna g host hd = substituteHeaders idna (g\<lparr>g_creds := creds'\<rparr>) host hd" for hd
    using low by (simp add: substituteHeaders_def)
  have b: "substituteBody idna g host hd body = substituteBody idna (g\<lparr>g_creds := creds'\<rparr>) host hd body" for hd body
    using low by (simp add: substituteBody_def split_beta split: option.split)
  have p: "g_policy (g\<lparr>g_creds := creds'\<rparr>) = g_policy g" by simp
  show "handlePlain idna g r = handlePlain idna (g\<lparr>g_creds := creds'\<rparr>) r"
    unfolding handlePlain_def Let_def assms(1) [symmetric] h b p by (rule refl)
  have c: "CanonicalMIMEHeaderKey ''Content-Length'' = ''Content-Length''"
    by (simp add: CanonicalMIMEHeaderKey_def token_char_def is_lower_def is_upper_def byte_def upper_char_def lower_char_def)
  have n: "CanonicalMIMEHeaderKey ''Connection'' = ''Connection''"
    by (simp add: CanonicalMIMEHeaderKey_def token_char_def is_lower_def is_upper_def byte_def upper_char_def lower_char_def)
  show "\<forall>how target h body unr. handlePlain idna g r = Forward how target h body unr \<longrightarrow> list_all (\<lambda>(k, vs). \<not> isHopByHop k
       \<and> k \<notin> CanonicalMIMEHeaderKey ` set (connection_names (fst (substituteHeaders idna g host (rq_header r))))) h"
  proof (intro allI impI)
    fix how target h body unr
    assume f: "handlePlain idna g r = Forward how target h body unr"
    obtain h1 where h1: "h1 = fst (substituteHeaders idna g host (rq_header r))" by blast
    obtain h2 bd u2 where s: "substituteBody idna g host h1 (rq_body r) = Inr (h2, bd, u2)" "h = removeHopByHop h2"
      using f unfolding handlePlain_def Let_def assms(1) [symmetric] h1
      by (auto split: if_splits sum.splits body_error.splits prod.splits)
    have "\<forall>x \<in> set h1. CanonicalMIMEHeaderKey (fst x) = fst x"
      using assms(3) by (auto simp: h1 substituteHeaders_def list_all_iff)
    then have "\<forall>x \<in> set h2. CanonicalMIMEHeaderKey (fst x) = fst x"
      using s(1) c by (auto simp: substituteBody_def header_set_def header_del_def split_beta split: option.splits if_splits)
    then have "\<forall>(k, vs) \<in> set h2. CanonicalMIMEHeaderKey k = k" by auto
    moreover have "header_values ''Connection'' h2 = header_values ''Connection'' h1"
      using s(1) c n by (auto simp: substituteBody_def header_set_def header_del_def header_values_def map_of_reset split_beta split: option.splits if_splits)
    then have "connection_names h2 = connection_names h1" by (simp add: connection_names_def)
    ultimately show "list_all (\<lambda>(k, vs). \<not> isHopByHop k
       \<and> k \<notin> CanonicalMIMEHeaderKey ` set (connection_names (fst (substituteHeaders idna g host (rq_header r))))) h"
      using s(2) h1 by (auto simp: removeHopByHop_filter list_all_iff)
  qed
qed

theorem forward_confined_witness:
  "handlePlain (\<lambda>_. None) (demo_gate\<lparr>g_creds := [demo_cred]\<rparr>)
     \<lparr>rq_abs = True, rq_scheme = ''http'', rq_host = ''example.com:80'', rq_header = [(''Cookie'', [''vltph_a''])], rq_body = None\<rparr> =
   handlePlain (\<lambda>_. None) (demo_gate\<lparr>g_creds := [demo_cred\<lparr>cr_secret := ''other''\<rparr>]\<rparr>)
     \<lparr>rq_abs = True, rq_scheme = ''http'', rq_host = ''example.com:80'', rq_header = [(''Cookie'', [''vltph_a''])], rq_body = None\<rparr>"
proof -
  let ?r = "\<lparr>rq_abs = True, rq_scheme = ''http'', rq_host = ''example.com:80'', rq_header = [(''Cookie'', [''vltph_a''])], rq_body = None\<rparr>"
  have h: "''example.com'' = hostOnly (addrWithPort (rq_host ?r) (defaultPort (rq_scheme ?r)))"
    by (simp add: hostOnly_def addrWithPort_def SplitHostPort_def Let_def)
  have "\<not> cred_reaches (\<lambda>_. None) ''example.com'' demo_cred" by (simp add: cred_reaches_def demo_cred_def host_eval)
  then have l: "list_all2 (low_equal (\<lambda>_. None) ''example.com'') (g_creds (demo_gate\<lparr>g_creds := [demo_cred]\<rparr>)) [demo_cred\<lparr>cr_secret := ''other''\<rparr>]"
    by (simp add: low_equal_def)
  have k: "list_all (\<lambda>(k, vs). CanonicalMIMEHeaderKey k = k) (rq_header ?r)"
    by (simp add: CanonicalMIMEHeaderKey_def token_char_def is_lower_def is_upper_def byte_def upper_char_def lower_char_def)
  from forward_confined [OF h l k] show ?thesis by simp
qed

end
