(* ===== verification/Go_Json.thy ===== *)
theory Go_Json
  imports Events_Domain
begin

text \<open>
  \<^verbatim>\<open>encoding/json\<close> over the payloads of \<open>Events_Domain\<close>: decoding an object into a struct
  whose fields are strings, raw messages, integers, optional booleans, nested structs or lists
  of structs, and \<^verbatim>\<open>json.Marshal\<close>'s compact, HTML-escaped text.
\<close>

section \<open>Decoding\<close>

datatype field = FString | FRaw | FInt | FBool | FStruct "(string \<times> field) list" | FList field

definition field_for :: "(string \<times> field) list \<Rightarrow> string \<Rightarrow> field option" where
  "field_for fs k = (case find (\<lambda>(k', _). fold_name k' = fold_name k) fs of None \<Rightarrow> None | Some (_, f) \<Rightarrow> Some f)"

text \<open>
  Whether decoding a value into a field reports no error.  A null never does, a key no field
  folds to is skipped, and an integer has to be a literal \<^verbatim>\<open>strconv.ParseInt\<close> accepts.
\<close>

fun decodes :: "field \<Rightarrow> json \<Rightarrow> bool" where
  "decodes f JNull = True"
| "decodes FRaw v = True"
| "decodes FString (JStr s) = True"
| "decodes FInt (JNum n) = (atoi n \<noteq> None)"
| "decodes FBool (JBool b) = True"
| "decodes (FStruct fs) (JObj kvs) =
     list_all (\<lambda>(k, v). case field_for fs k of None \<Rightarrow> True | Some f \<Rightarrow> decodes f v) kvs"
| "decodes (FList f) (JArr vs) = list_all (decodes f) vs"
| "decodes f v = False"

lemma decodes_raw [simp]: "decodes FRaw v"
  by (cases v) simp_all

definition field_vals :: "json \<Rightarrow> string \<Rightarrow> json list" where
  "field_vals j k = (case j of JObj kvs \<Rightarrow> map snd (filter (\<lambda>(k', _). fold_name k' = fold_name k) kvs) | _ \<Rightarrow> [])"

text \<open>
  What a field holds afterwards: the values of its keys are stored in turn.  A raw message keeps
  a null as the text \<^verbatim>\<open>null\<close>, a null empties a pointer or a slice and leaves any other field.
  A slice takes its last value; payloads come out of \<^verbatim>\<open>jsonb\<close>, which holds a key once.
\<close>

definition raw_field :: "json \<Rightarrow> string \<Rightarrow> json option" where
  "raw_field j k = (case rev (field_vals j k) of [] \<Rightarrow> None | v # _ \<Rightarrow> Some v)"

definition str_field :: "json \<Rightarrow> string \<Rightarrow> string" where
  "str_field j k = foldl (\<lambda>acc v. case v of JStr s \<Rightarrow> s | _ \<Rightarrow> acc) [] (field_vals j k)"

definition int_field :: "json \<Rightarrow> string \<Rightarrow> int" where
  "int_field j k = foldl (\<lambda>acc v. case v of JNum n \<Rightarrow> (case atoi n of Some i \<Rightarrow> i | None \<Rightarrow> acc) | _ \<Rightarrow> acc) 0 (field_vals j k)"

definition bool_field :: "json \<Rightarrow> string \<Rightarrow> bool option" where
  "bool_field j k = foldl (\<lambda>acc v. case v of JBool b \<Rightarrow> Some b | JNull \<Rightarrow> None | _ \<Rightarrow> acc) None (field_vals j k)"

definition obj_field :: "json \<Rightarrow> string \<Rightarrow> json" where
  "obj_field j k = JObj (concat (map (\<lambda>v. case v of JObj kvs \<Rightarrow> kvs | _ \<Rightarrow> []) (field_vals j k)))"

definition list_field :: "json \<Rightarrow> string \<Rightarrow> json list" where
  "list_field j k = foldl (\<lambda>acc v. case v of JArr vs \<Rightarrow> vs | JNull \<Rightarrow> [] | _ \<Rightarrow> acc) [] (field_vals j k)"

section \<open>Encoding\<close>

definition hex_digit :: "nat \<Rightarrow> char" where
  "hex_digit n = char_of (if n < 10 then 48 + n else 87 + n)"

definition u_escape :: "nat \<Rightarrow> string" where
  "u_escape n = [CHR 0x5C, CHR ''u'', hex_digit (n div 4096 mod 16), hex_digit (n div 256 mod 16),
     hex_digit (n div 16 mod 16), hex_digit (n mod 16)]"

text \<open>One rune of a string: an invalid byte becomes U+FFFD; HTML characters and U+2028/9 are escaped.\<close>

definition marshal_rune :: "nat option \<times> string \<Rightarrow> string" where
  "marshal_rune rb = (case rb of (None, _) \<Rightarrow> u_escape 0xFFFD
   | (Some n, b) \<Rightarrow>
       if n = 0x22 \<or> n = 0x5C then CHR 0x5C # b
       else if n = 8 then [CHR 0x5C, CHR ''b''] else if n = 12 then [CHR 0x5C, CHR ''f'']
       else if n = 10 then [CHR 0x5C, CHR ''n''] else if n = 13 then [CHR 0x5C, CHR ''r'']
       else if n = 9 then [CHR 0x5C, CHR ''t'']
       else if n < 32 \<or> n = 0x3C \<or> n = 0x3E \<or> n = 0x26 \<or> n = 0x2028 \<or> n = 0x2029 then u_escape n
       else b)"

definition marshal_string :: "string \<Rightarrow> string" where
  "marshal_string s = [CHR 0x22] @ concat (map marshal_rune (runes s)) @ [CHR 0x22]"

fun marshal :: "json \<Rightarrow> string" where
  "marshal JNull = ''null''"
| "marshal (JBool b) = (if b then ''true'' else ''false'')"
| "marshal (JNum n) = n"
| "marshal (JStr s) = marshal_string s"
| "marshal (JArr js) = ''['' @ intersperse_concat '','' (map marshal js) @ '']''"
| "marshal (JObj kvs) =
     ''{'' @ intersperse_concat '','' (map (\<lambda>(k, v). marshal_string k @ '':'' @ marshal v) kvs) @ ''}''"

definition text_block :: "string \<Rightarrow> json" where
  "text_block s = JObj [(''text'', JStr s), (''type'', JStr ''text'')]"
  \<comment> \<open>a Go map marshals with its keys sorted\<close>

end
