(* ===== verification/Thread_Messages.thy ===== *)
theory Thread_Messages
  imports Ordered_Tools Go_Json
begin

text \<open>
  \<^verbatim>\<open>internal/events/threadmsg.go\<close> and the notices of \<^verbatim>\<open>internal/brain/grader.go\<close>: messages
  between the threads of a session.  A message is a pair of rows, one on each log; a delivery may
  wake its target, and the ending of a child wakes a coordinator that has nothing else left to
  wake it.  The lemmas say who is woken: the thread nothing else will move, and the coordinator
  whose last busy child ended.
\<close>

section \<open>The two rows of a message\<close>

abbreviation para :: string where
  "para \<equiv> [CHR 0x0A, CHR 0x0A]"

abbreviation em_dash :: string where
  "em_dash \<equiv> [CHR 0xE2, CHR 0x80, CHR 0x94]"

record thread_peer =
  tp_thread :: id
  tp_agent :: string

definition peer_wire :: "id \<Rightarrow> thread_peer \<Rightarrow> id" where
  "peer_wire sid p = (if tp_thread p = [] then primary_thread_id sid else tp_thread p)"

definition text_content :: "string \<Rightarrow> json" where
  "text_content text = JArr [text_block text]"

definition sent_row :: "id \<Rightarrow> thread_peer \<Rightarrow> thread_peer \<Rightarrow> string \<Rightarrow> new_event" where
  "sent_row sid from to text =
     (mk_event EventAgentThreadMessageSent (JObj ([(''content'', text_content text)]
        @ (if tp_thread to \<noteq> [] then [(''to_agent_name'', JStr (tp_agent to))] else [])
        @ [(''to_session_thread_id'', JStr (peer_wire sid to))])))\<lparr>ne_thread := tp_thread from\<rparr>"

definition received_row :: "id \<Rightarrow> thread_peer \<Rightarrow> thread_peer \<Rightarrow> string \<Rightarrow> new_event" where
  "received_row sid from to text =
     (mk_event EventAgentThreadMessageReceived (JObj [(''content'', text_content text),
        (''from_agent_name'', JStr (tp_agent from)), (''from_session_thread_id'', JStr (peer_wire sid from))]))
       \<lparr>ne_thread := tp_thread to\<rparr>"

definition ThreadMessage :: "id \<Rightarrow> thread_peer \<Rightarrow> thread_peer \<Rightarrow> string \<Rightarrow> new_event \<times> new_event" where
  "ThreadMessage sid from to text = (sent_row sid from to text, received_row sid from to text)"

definition primary_peer :: thread_peer where
  "primary_peer = \<lparr>tp_thread = [], tp_agent = []\<rparr>"

definition ThreadEnded :: "id \<Rightarrow> id \<Rightarrow> string \<Rightarrow> string \<Rightarrow> new_event" where
  "ThreadEnded sid child agentName text =
     snd (ThreadMessage sid \<lparr>tp_thread = child, tp_agent = agentName\<rparr> primary_peer text)"

section \<open>Waking\<close>

datatype message_error =
    ThreadNotFound id id
  | WakeFailed status_error

definition to_running :: "id \<Rightarrow> thread_transition" where
  "to_running thr = \<lparr>tt_thread = thr, tt_status = SessionRunning, tt_stop = None, tt_reemit = False, tt_force = False\<rparr>"

definition to_idle :: "id \<Rightarrow> stop_reason_type \<Rightarrow> thread_transition" where
  "to_idle thr why = \<lparr>tt_thread = thr, tt_status = SessionIdle, tt_stop = Some \<lparr>stop_type = why, stop_event_ids = []\<rparr>,
     tt_reemit = False, tt_force = False\<rparr>"

definition stop_is :: "thread_row \<Rightarrow> stop_reason_type \<Rightarrow> bool" where
  "stop_is r why \<longleftrightarrow> (case t_stop r of None \<Rightarrow> False | Some s \<Rightarrow> stop_type s = why)"

definition row_key :: "session_db \<Rightarrow> id \<Rightarrow> id" where
  "row_key db thr = (if thr = [] then primary_thread_id (s_id db) else thr)"

definition wakeThread :: "session_db \<Rightarrow> id \<Rightarrow> message_error + session_db \<times> new_event list \<times> session_status option" where
  "wakeThread db thr =
     (case find (\<lambda>r. t_id r = row_key db thr) (s_threads db) of
        None \<Rightarrow> Inl (ThreadNotFound (row_key db thr) (s_id db))
      | Some r \<Rightarrow>
          if t_status r \<noteq> SessionIdle then Inr (db, [], None)
          else if t_stop r \<noteq> None \<and> \<not> stop_is r StopEndTurn then Inr (db, [], None)
          else if HasUnansweredThreadToolUse (s_log db) thr [] then Inr (db, [], None)
          else case TransitionThread db (to_running thr) of Inl e \<Rightarrow> Inl (WakeFailed e) | Inr res \<Rightarrow> Inr res)"

record delivery =
  dl_received :: new_event
  dl_wake :: "new_event list"
  dl_moved :: "session_status option"

definition Woke :: "delivery \<Rightarrow> bool" where
  "Woke d \<longleftrightarrow> dl_wake d \<noteq> []"

definition delivery_events :: "delivery \<Rightarrow> new_event list" where
  "delivery_events d = dl_wake d @ [dl_received d]"

definition DeliverAndWake :: "session_db \<Rightarrow> new_event \<Rightarrow> message_error + session_db \<times> delivery" where
  "DeliverAndWake db received =
     (case wakeThread db (ne_thread received) of Inl e \<Rightarrow> Inl e
      | Inr (db', pair, moved) \<Rightarrow> Inr (db', \<lparr>dl_received = received, dl_wake = pair, dl_moved = moved\<rparr>))"

definition busyChild :: "thread_row \<Rightarrow> bool" where
  "busyChild r \<longleftrightarrow> t_parent r \<noteq> None \<and> \<not> t_archived r
     \<and> (t_status r = SessionRunning \<or> t_status r = SessionIdle \<and> stop_is r StopRequiresAction)"

definition BusyChild :: "session_db \<Rightarrow> id \<Rightarrow> bool" where
  "BusyChild db except \<longleftrightarrow> list_ex (\<lambda>r. busyChild r \<and> t_id r \<noteq> except) (s_threads db)"

definition wakeOnThreadEnded :: "session_db \<Rightarrow> id \<Rightarrow> message_error + session_db \<times> new_event list \<times> session_status option" where
  "wakeOnThreadEnded db child =
     (let wasBusy = list_ex (\<lambda>r. busyChild r \<and> t_id r = child) (s_threads db);
          othersBusy = list_ex (\<lambda>r. busyChild r \<and> t_id r \<noteq> child) (s_threads db)
      in if \<not> wasBusy \<or> othersBusy then Inr (db, [], None) else wakeThread db [])"

definition DeliverThreadEnded :: "session_db \<Rightarrow> id \<Rightarrow> new_event \<Rightarrow> message_error + session_db \<times> delivery" where
  "DeliverThreadEnded db child notice =
     (case wakeOnThreadEnded db child of Inl e \<Rightarrow> Inl e
      | Inr (db', pair, moved) \<Rightarrow> Inr (db', \<lparr>dl_received = notice, dl_wake = pair, dl_moved = moved\<rparr>))"

text \<open>The notice a child owes its coordinator: none for the primary and for an id no row has.\<close>

definition childEndedNotice :: "session_db \<Rightarrow> id \<Rightarrow> (string \<Rightarrow> string) \<Rightarrow> new_event option" where
  "childEndedNotice db thr text =
     (if thr = [] then None
      else case find (\<lambda>r. t_id r = thr) (s_threads db) of
             None \<Rightarrow> None
           | Some r \<Rightarrow> if t_parent r = None then None
               else Some (ThreadEnded (s_id db) thr (t_agent_name r) (text (t_agent_name r))))"

definition threadEndedWithoutReport :: "session_db \<Rightarrow> id \<Rightarrow> new_event option" where
  "threadEndedWithoutReport db thr = childEndedNotice db thr (\<lambda>agentName.
     ''[agent '' @ agentName @ '' ended its turn without reporting]'' @ para
     @ ''Nothing was reported on this turn; anything it reported earlier stands. It is idle ''
     @ ''until you message it '' @ em_dash @ '' send it what is missing, or archive it to free the slot.'')"

section \<open>What a wake changes\<close>

definition row_of :: "session_db \<Rightarrow> id \<Rightarrow> thread_row option" where
  "row_of db thr = find (\<lambda>r. t_id r = row_key db thr) (s_threads db)"

text \<open>A thread nothing will move by itself: idle with its turn ended, every call answered.\<close>

definition resting :: "session_db \<Rightarrow> id \<Rightarrow> bool" where
  "resting db thr \<longleftrightarrow> (case row_of db thr of None \<Rightarrow> False
     | Some r \<Rightarrow> t_status r = SessionIdle \<and> (t_stop r = None \<or> stop_is r StopEndTurn))
     \<and> \<not> HasUnansweredThreadToolUse (s_log db) thr []"

definition running :: "session_db \<Rightarrow> id \<Rightarrow> bool" where
  "running db thr \<longleftrightarrow> (case row_of db thr of None \<Rightarrow> False | Some r \<Rightarrow> t_status r = SessionRunning)"

lemma moving_row_key: "moving_id db t = row_key db (tt_thread t)"
  by (simp add: moving_id_def row_key_def)

lemma transition_effect:
  assumes "TransitionThread db t = Inr (db', evs, moved)"
  shows "s_threads db' = map (move_row (row_key db (tt_thread t)) (tt_status t) (stored_stop t)) (s_threads db)"
    and "s_id db' = s_id db" and "s_log db' = s_log db" and "s_archived db' = s_archived db"
    and "s_env_kind db' = s_env_kind db" and "s_status db' = (case moved of None \<Rightarrow> s_status db | Some s \<Rightarrow> s)"
  using assms by (auto simp: TransitionThread_def Let_def move_thread_def moving_row_key split: option.splits if_splits)

lemma transition_emits:
  "TransitionThread db t = Inr (db', evs, moved) \<Longrightarrow> tt_status t = SessionRunning \<or> tt_status t = SessionIdle \<Longrightarrow> evs \<noteq> []"
  by (auto simp: TransitionThread_def Let_def thread_event_def order_pair_def List.map_filter_def split: option.splits if_splits)

lemma transition_row:
  assumes "TransitionThread db t = Inr (db', evs, moved)"
  shows "row_of db' thr = map_option (move_row (row_key db (tt_thread t)) (tt_status t) (stored_stop t)) (row_of db thr)"
  using transition_effect(1,2) [OF assms] by (simp add: row_of_def row_key_def find_move)

lemma row_of_id: "row_of db thr = Some r \<Longrightarrow> t_id r = row_key db thr"
  by (auto simp: row_of_def find_Some_iff)

lemma transition_running:
  assumes "TransitionThread db t = Inr (db', evs, moved)" "row_of db (tt_thread t) \<noteq> None"
  shows "running db' (tt_thread t) \<longleftrightarrow> tt_status t = SessionRunning"
  using assms row_of_id by (auto simp: running_def transition_row move_row_def)

lemma transition_running_other:
  assumes "TransitionThread db t = Inr (db', evs, moved)" "row_key db thr \<noteq> row_key db (tt_thread t)"
  shows "running db' thr \<longleftrightarrow> running db thr"
  using assms(2) row_of_id [of db thr] by (cases "row_of db thr") (auto simp: running_def transition_row [OF assms(1)] move_row_def)

lemma wakeThread_woke:
  assumes "wakeThread db thr = Inr (db', pair, moved)" "resting db thr"
  shows "TransitionThread db (to_running thr) = Inr (db', pair, moved)" "pair \<noteq> []" "running db' thr"
proof -
  show t: "TransitionThread db (to_running thr) = Inr (db', pair, moved)"
    using assms by (auto simp: wakeThread_def resting_def row_of_def split: option.splits if_splits sum.splits)
  show "pair \<noteq> []" by (rule transition_emits [OF t]) (simp add: to_running_def)
  have "row_of db thr \<noteq> None" using assms(2) by (auto simp: resting_def split: option.splits)
  with transition_running [OF t] show "running db' thr" by (simp add: to_running_def)
qed

lemma wakeThread_asleep:
  assumes "wakeThread db thr = Inr (db', pair, moved)" "\<not> resting db thr"
  shows "db' = db" "pair = []" "moved = None"
  using assms by (auto simp: wakeThread_def resting_def row_of_def split: option.splits if_splits sum.splits)

lemma wakeThread_Inr:
  assumes "wakeThread db thr = Inr (db', pair, moved)"
  obtains (woken) "resting db thr" "TransitionThread db (to_running thr) = Inr (db', pair, moved)" "pair \<noteq> []"
  | (asleep) "\<not> resting db thr" "db' = db" "pair = []" "moved = None"
  using wakeThread_woke [OF assms] wakeThread_asleep [OF assms] by blast

end
