(* ===== verification/Transcript.thy ===== *)
theory Transcript
  imports Go_Json Consumption_Order
begin

text \<open>
  \<^verbatim>\<open>internal/transcript/transcript.go\<close>: the text of an event's content and the role-labelled
  transcript the outcome grader reads, under its two budgets.
\<close>

abbreviation nl :: string where
  "nl \<equiv> [CHR 0x0A]"

section \<open>Flattening content\<close>

definition flat_fields :: field where
  "flat_fields = FList (FStruct [(''type'', FString), (''text'', FString), (''title'', FString), (''source'', FString), (''content'', FRaw)])"

definition add_line :: "string \<Rightarrow> string \<Rightarrow> string" where
  "add_line sb text = (if text = [] then sb else if sb \<noteq> [] then sb @ nl @ text else text)"

lemma field_vals_size: "v \<in> set (field_vals j k) \<Longrightarrow> size v < size j"
proof (cases j)
  case (JObj kvs)
  assume "v \<in> set (field_vals j k)"
  with JObj obtain k' where "(k', v) \<in> set kvs" by (auto simp: field_vals_def)
  then have "size_prod (\<lambda>_. 0) size (k', v) \<le> size_list (size_prod (\<lambda>_. 0) size) kvs" by (rule size_list_estimation') simp
  with JObj show ?thesis by simp
qed (auto simp: field_vals_def)

lemma raw_field_size: "raw_field j k = Some v \<Longrightarrow> size v < size j"
  by (rule field_vals_size [of _ _ k]) (auto simp: raw_field_def split: list.splits intro: in_set_conv_decomp [THEN iffD2])

function FlattenBlocks :: "json \<Rightarrow> string option" where
  "FlattenBlocks raw =
     (if \<not> decodes flat_fields raw then None
      else case raw of
        JArr bs \<Rightarrow> Some (foldl add_line [] (map (\<lambda>b.
          if str_field b ''type'' = ''search_result''
          then intersperse_concat nl (filter (\<lambda>p. p \<noteq> [])
                 [str_field b ''title'', str_field b ''source'',
                  case raw_field b ''content'' of None \<Rightarrow> []
                  | Some c \<Rightarrow> (case FlattenBlocks c of None \<Rightarrow> [] | Some t \<Rightarrow> t)])
          else str_field b ''text'') bs))
      | _ \<Rightarrow> Some [])"
  by pat_completeness auto
termination
proof (relation "measure size", goal_cases)
  case (2 raw bs b c)
  then show ?case using raw_field_size [of b "''content''" c] size_list_estimation' [of b bs "size b" size] by auto
qed simp

declare FlattenBlocks.simps [simp del]

definition ContentText :: "json \<Rightarrow> string" where
  "ContentText body =
     (if \<not> decodes (FStruct [(''content'', FRaw)]) body then []
      else case raw_field body ''content'' of
        None \<Rightarrow> []
      | Some c \<Rightarrow> (case c of JStr s \<Rightarrow> s | JNull \<Rightarrow> []
          | _ \<Rightarrow> (case FlattenBlocks c of Some t \<Rightarrow> t | None \<Rightarrow> jsonb_text c)))"
  \<comment> \<open>a body is the text jsonb renders, and a raw message a part of it\<close>

section \<open>The grader's transcript\<close>

definition GraderTranscriptBudget :: nat where
  "GraderTranscriptBudget = 200000"

definition GraderItemBudget :: nat where
  "GraderItemBudget = 4000"

definition add_item :: "string \<Rightarrow> string \<Rightarrow> string \<Rightarrow> string" where
  "add_item sb role text =
     (if GraderTranscriptBudget \<le> length sb then sb
      else let text = (if GraderItemBudget < length text then take GraderItemBudget text @ nl @ ''[truncated]'' else text)
           in sb @ ''## '' @ role @ nl @ text @ nl @ nl)"

definition render_event :: "event \<Rightarrow> (string \<times> string) option" where
  "render_event ev = (let p = ev_payload ev in
     if ev_type ev = EventUserMessage then Some (''user'', ContentText p)
     else if ev_type ev = EventSystemMessage then Some (''system'', ContentText p)
     else if ev_type ev = EventAgentMessage then Some (''agent'', ContentText p)
     else if ev_type ev \<in> {EventAgentToolUse, EventAgentMCPToolUse, EventAgentCustomToolUse} then
       (if decodes (FStruct [(''name'', FString), (''input'', FRaw)]) p
        then Some (''agent tool call'', str_field p ''name'' @ '' '' @
               (case raw_field p ''input'' of None \<Rightarrow> [] | Some i \<Rightarrow> jsonb_text i))
        else None)
     else if ev_type ev \<in> {EventUserToolResult, EventUserCustomToolRes, EventAgentToolResult, EventAgentMCPToolResult}
     then Some (''tool result'', ContentText p)
     else None)"

definition render_all :: "string \<Rightarrow> event list \<Rightarrow> string" where
  "render_all sb evs = foldl (\<lambda>sb ev. case render_event ev of None \<Rightarrow> sb | Some (role, text) \<Rightarrow> add_item sb role text) sb evs"

text \<open>The rows are streamed through the orderer: what each push emits is rendered before the next.\<close>

fun render_stream :: "orderer \<Rightarrow> string \<Rightarrow> event list \<Rightarrow> string" where
  "render_stream q sb [] = render_all sb (snd (Flush q))"
| "render_stream q sb (ev # evs) = (let (q', out) = Push q ev in render_stream q' (render_all sb out) evs)"

definition cut_transcript :: "string \<Rightarrow> string" where
  "cut_transcript out = (if GraderTranscriptBudget < length out
     then take GraderTranscriptBudget out @ nl @ ''[transcript truncated]'' else out)"

definition Render :: "event list \<Rightarrow> string" where
  "Render history = cut_transcript (render_stream new_orderer [] history)"

section \<open>Streaming is rendering the consumption order\<close>

lemma render_all_append: "render_all sb (xs @ ys) = render_all (render_all sb xs) ys"
  by (simp add: render_all_def)

lemma render_stream_finish: "render_stream q sb evs = render_all sb (finish q evs)"
proof (induction evs arbitrary: q sb)
  case Nil
  then show ?case by (simp add: finish_def)
next
  case (Cons ev evs)
  obtain q1 a where p: "Push q ev = (q1, a)" by (meson surj_pair)
  with finish_append [of q "[ev]" evs] show ?case by (simp add: Cons.IH render_all_append)
qed

lemma Render_order: "Render history = cut_transcript (render_all [] (ConsumptionOrder [] history))"
  by (simp add: Render_def render_stream_finish ConsumptionOrder_finish)

section \<open>What the budgets leave out\<close>

definition item_text :: "event \<Rightarrow> string" where
  "item_text ev = (case render_event ev of None \<Rightarrow> []
     | Some (role, text) \<Rightarrow> ''## '' @ role @ nl @
         (if GraderItemBudget < length text then take GraderItemBudget text @ nl @ ''[truncated]'' else text) @ nl @ nl)"

definition whole_transcript :: "event list \<Rightarrow> string" where
  "whole_transcript evs = concat (map item_text evs)"

lemma render_step:
  "(case render_event ev of None \<Rightarrow> sb | Some (role, text) \<Rightarrow> add_item sb role text)
   = (if GraderTranscriptBudget \<le> length sb then sb else sb @ item_text ev)"
  by (simp add: add_item_def item_text_def Let_def split: option.split prod.split)

lemma render_all_full: "GraderTranscriptBudget \<le> length sb \<Longrightarrow> render_all sb evs = sb"
  unfolding render_all_def render_step by (induction evs) simp_all

lemma render_all_Cons:
  "render_all sb (ev # evs) = (if GraderTranscriptBudget \<le> length sb then sb else render_all (sb @ item_text ev) evs)"
  using render_all_full [of sb evs] by (simp add: render_all_def render_step)

text \<open>The rendering stops at the first item boundary at or past the budget.\<close>

lemma whole_append [simp]: "whole_transcript (xs @ ys) = whole_transcript xs @ whole_transcript ys"
  by (simp add: whole_transcript_def)

lemma whole_Nil [simp]: "whole_transcript [] = []"
  by (simp add: whole_transcript_def)

lemma whole_Cons [simp]: "whole_transcript (ev # evs) = item_text ev @ whole_transcript evs"
  by (simp add: whole_transcript_def)

lemma render_all_cut:
  "length sb < GraderTranscriptBudget \<Longrightarrow>
   (\<exists>xs ys. evs = xs @ ys \<and> render_all sb evs = sb @ whole_transcript xs
      \<and> (ys = [] \<or> GraderTranscriptBudget \<le> length (sb @ whole_transcript xs))
      \<and> (\<forall>n < length xs. length (sb @ whole_transcript (take n xs)) < GraderTranscriptBudget))"
proof (induction evs arbitrary: sb)
  case Nil
  then show ?case by (simp add: render_all_def)
next
  case (Cons ev evs)
  show ?case
  proof (cases "GraderTranscriptBudget \<le> length (sb @ item_text ev)")
    case True
    then have "render_all sb (ev # evs) = sb @ whole_transcript [ev]"
      using Cons.prems by (simp add: render_all_Cons render_all_full)
    then show ?thesis using True Cons.prems by (intro exI [of _ "[ev]"] exI [of _ evs]) simp
  next
    case False
    then obtain xs ys where r: "evs = xs @ ys" "render_all (sb @ item_text ev) evs = sb @ item_text ev @ whole_transcript xs"
      "ys = [] \<or> GraderTranscriptBudget \<le> length (sb @ item_text ev @ whole_transcript xs)"
      "\<forall>n < length xs. length (sb @ item_text ev @ whole_transcript (take n xs)) < GraderTranscriptBudget"
      using Cons.IH [of "sb @ item_text ev"] by auto
    have "length (sb @ whole_transcript (take n (ev # xs))) < GraderTranscriptBudget" if "n < Suc (length xs)" for n
      using that r(4) Cons.prems by (cases n) auto
    then show ?thesis using r Cons.prems
      by (intro exI [of _ "ev # xs"] exI [of _ ys]) (simp add: render_all_Cons)
  qed
qed

lemma cut_at_boundary:
  assumes "evs = xs @ ys" "B \<le> length (whole_transcript xs)"
    and "\<forall>n < length xs. length (whole_transcript (take n xs)) < B"
  shows "(\<exists>n. length (whole_transcript (take n evs)) = B) \<longleftrightarrow> length (whole_transcript xs) = B"
proof
  assume "\<exists>n. length (whole_transcript (take n evs)) = B"
  then obtain n where n: "length (whole_transcript (take n evs)) = B" ..
  have "length xs \<le> n"
  proof (rule ccontr)
    assume "\<not> length xs \<le> n"
    with assms(3) have "length (whole_transcript (take n xs)) < B" by simp
    with n assms(1) \<open>\<not> length xs \<le> n\<close> show False by simp
  qed
  with n assms(1,2) show "length (whole_transcript xs) = B" by simp
next
  assume "length (whole_transcript xs) = B"
  then show "\<exists>n. length (whole_transcript (take n evs)) = B" by (intro exI [of _ "length xs"]) (simp add: assms(1))
qed

lemma render_cases:
  "(length (whole_transcript (ConsumptionOrder [] history)) \<le> GraderTranscriptBudget
      \<longrightarrow> Render history = whole_transcript (ConsumptionOrder [] history))
   \<and> (GraderTranscriptBudget < length (whole_transcript (ConsumptionOrder [] history))
      \<longrightarrow> Render history = take GraderTranscriptBudget (whole_transcript (ConsumptionOrder [] history))
            @ (if \<exists>n. length (whole_transcript (take n (ConsumptionOrder [] history))) = GraderTranscriptBudget
               then [] else nl @ ''[transcript truncated]''))
   \<and> length (Render history) \<le> GraderTranscriptBudget + 23"
proof -
  let ?evs = "ConsumptionOrder [] history" and ?B = GraderTranscriptBudget
  have "length ([] :: string) < ?B" by (simp add: GraderTranscriptBudget_def)
  from render_all_cut [OF this, of ?evs]
  obtain xs ys where r: "?evs = xs @ ys" "render_all [] ?evs = whole_transcript xs"
    "ys = [] \<or> ?B \<le> length (whole_transcript xs)" "\<forall>n < length xs. length (whole_transcript (take n xs)) < ?B"
    unfolding append_Nil by blast
  have cut: "Render history = cut_transcript (whole_transcript xs)" by (simp add: Render_order r(2))
  have "Render history = whole_transcript ?evs" if fits: "length (whole_transcript ?evs) \<le> ?B"
  proof -
    have "length (whole_transcript xs) + length (whole_transcript ys) \<le> ?B" using fits by (simp add: r(1))
    with r(3) have "ys = [] \<or> length (whole_transcript ys) \<le> 0" by linarith
    then have "whole_transcript ys = []" by auto
    with fits r(1) show ?thesis by (simp add: cut cut_transcript_def)
  qed
  moreover have "Render history = take ?B (whole_transcript ?evs)
      @ (if \<exists>n. length (whole_transcript (take n ?evs)) = ?B then [] else nl @ ''[transcript truncated]'')"
    if over: "?B < length (whole_transcript ?evs)"
  proof -
    have le: "?B \<le> length (whole_transcript xs)" using over r(1,3) by auto
    show ?thesis using le unfolding cut_at_boundary [OF r(1) le r(4)] by (auto simp: cut cut_transcript_def r(1))
  qed
  ultimately show ?thesis by (simp add: cut cut_transcript_def)
qed

text \<open>
  C33: the transcript the grader reads is the beginning of the whole one, item by item in
  consumption order with each item cut at its own budget: all of it when it fits, and otherwise
  its first 200,000 bytes with the truncation note that marks the cut.  The one exception is a
  transcript in which an item ends exactly at the budget (\<open>exact_budget_unmarked\<close> below).
\<close>

theorem render_is_prefix:
  assumes "\<nexists>n. length (whole_transcript (take n (ConsumptionOrder [] history))) = GraderTranscriptBudget"
  defines "all \<equiv> whole_transcript (ConsumptionOrder [] history)"
  shows "Render history = (if length all \<le> GraderTranscriptBudget then all
      else take GraderTranscriptBudget all @ nl @ ''[transcript truncated]'')"
  using render_cases [of history] assms(1) by (simp add: all_def)

text \<open>
  When an item ends exactly at the budget, every later item is dropped and nothing marks the cut.
\<close>

theorem exact_budget_unmarked:
  assumes "length (whole_transcript (take n (ConsumptionOrder [] history))) = GraderTranscriptBudget"
    and "GraderTranscriptBudget < length (whole_transcript (ConsumptionOrder [] history))"
  shows "Render history = take GraderTranscriptBudget (whole_transcript (ConsumptionOrder [] history))"
  using render_cases [of history] assms by auto

definition demo_talk :: "event list" where
  "demo_talk = [demo_span ''m1'' 1 EventUserMessage (JObj [(''content'', JStr ''hi'')]),
     demo_span ''a1'' 2 EventAgentMessage (JObj [(''content'', JArr [JObj [(''type'', JStr ''text''), (''text'', JStr ''ok'')]])])]"

lemma demo_talk_order: "ConsumptionOrder [] demo_talk = demo_talk"
  by (simp add: ConsumptionOrder_def demo_talk_def demo_span_def Push_def Let_def windowOf_def held_of_def new_orderer_def
      ConsumedInput_def consumed_inputs_def Flush_def)

lemma demo_talk_items:
  "map item_text demo_talk = [''## user'' @ nl @ ''hi'' @ nl @ nl, ''## agent'' @ nl @ ''ok'' @ nl @ nl]"
  by (simp add: demo_talk_def demo_span_def item_text_def render_event_def ContentText_def raw_field_def field_vals_def
      field_for_def fold_name_def fold_rune_def byte_def FlattenBlocks.simps flat_fields_def str_field_def add_line_def
      GraderItemBudget_def Let_def)

theorem render_is_prefix_witness:
  "Render demo_talk = ''## user'' @ nl @ ''hi'' @ nl @ nl @ ''## agent'' @ nl @ ''ok'' @ nl @ nl"
proof -
  have w: "whole_transcript demo_talk = ''## user'' @ nl @ ''hi'' @ nl @ nl @ ''## agent'' @ nl @ ''ok'' @ nl @ nl"
    by (simp add: whole_transcript_def demo_talk_items)
  have "length (whole_transcript (take n demo_talk)) \<le> length (whole_transcript demo_talk)" for n
    by (metis append_take_drop_id whole_append length_append le_add1)
  then have "length (whole_transcript (take n demo_talk)) \<le> 30" for n
    by (rule order_trans) (simp add: w)
  then have "length (whole_transcript (take n demo_talk)) < GraderTranscriptBudget" for n
    by (rule le_less_trans) (simp add: GraderTranscriptBudget_def)
  then have "\<nexists>n. length (whole_transcript (take n (ConsumptionOrder [] demo_talk))) = GraderTranscriptBudget"
    by (simp add: demo_talk_order less_imp_neq)
  from render_is_prefix [OF this] show ?thesis by (simp add: demo_talk_order w GraderTranscriptBudget_def)
qed

end
