(* ===== verification/Replay.thy ===== *)
theory Replay
  imports Transcript Tool_Flow
begin

text \<open>
  \<^verbatim>\<open>internal/brain/replay.go\<close>: one thread's log replayed into a model request.  The loop is a
  state machine over the rows in consumption order; the open turn's blocks, results and prompts
  are its state and \<open>flush\<close> closes the turn into a message.  A block is a JSON value; a decoded
  body is one too, so marshalling a block cannot fail and the error values are the decoding ones.
\<close>

section \<open>Content\<close>

datatype replay_error = BadBody id | BadContent id

definition contentBlocks :: "json option \<Rightarrow> json list option" where
  "contentBlocks raw = (case raw of Some (JStr s) \<Rightarrow> Some [text_block s] | Some JNull \<Rightarrow> Some [text_block []]
     | Some (JArr items) \<Rightarrow> Some items | _ \<Rightarrow> None)"
  \<comment> \<open>a null decodes into a string and leaves it empty\<close>

record ack_block =
  ak_at :: nat
  ak_verdict :: string
  ak_answered :: bool

record tool_answer =
  ta_id :: id
  ta_block :: json

record replay_message =
  rm_role :: string
  rm_blocks :: "json list"
  rm_thinking :: "(nat \<times> thinking_block) list"

text \<open>
  The position map of an assistant turn is the list of its call ids: a later duplicate
  overwrites, and the map's size is the number of distinct ids.
\<close>

definition callPosition :: "id list \<Rightarrow> id \<Rightarrow> nat" where
  "callPosition uses i = (case map_of (rev (zip uses [0..<length uses])) i of Some n \<Rightarrow> n | None \<Rightarrow> length (remdups uses))"

definition toolResultBlock :: "event \<Rightarrow> tool_answer option" where
  "toolResultBlock ev = (let p = ev_payload ev in
     if \<not> decodes (FStruct [(''tool_use_id'', FString), (''custom_tool_use_id'', FString), (''mcp_tool_use_id'', FString),
                            (''content'', FRaw), (''is_error'', FBool)]) p then None
     else let i = str_field p ''tool_use_id'';
              i = (if i = [] then str_field p ''custom_tool_use_id'' else i);
              i = (if i = [] then str_field p ''mcp_tool_use_id'' else i)
          in Some \<lparr>ta_id = i, ta_block = JObj (
               (case raw_field p ''content'' of None \<Rightarrow> [] | Some JNull \<Rightarrow> [] | Some c \<Rightarrow> [(''content'', c)])
             @ (case bool_field p ''is_error'' of None \<Rightarrow> [] | Some b \<Rightarrow> [(''is_error'', JBool b)])
             @ [(''tool_use_id'', JStr i), (''type'', JStr ''tool_result'')])\<rparr>)"

definition lastOutcomeCycle :: "int \<Rightarrow> int \<Rightarrow> bool" where
  "lastOutcomeCycle iteration maxIterations \<longleftrightarrow> wrap64 (iteration + 1) \<ge> maxIterations"

section \<open>The renderings of single rows\<close>

abbreviation nl2 :: string where
  "nl2 \<equiv> [CHR 0x0A, CHR 0x0A]"

definition outcome_fields :: field where
  "outcome_fields = FStruct [(''description'', FString), (''rubric'', FStruct [(''type'', FString), (''content'', FString)]),
     (''max_iterations'', FInt), (''outcome_id'', FString)]"

definition outcome_text :: "json \<Rightarrow> string" where
  "outcome_text p = ''Work toward this outcome: '' @ str_field p ''description''
     @ (if str_field (obj_field p ''rubric'') ''type'' = ''text''
        then nl2 @ ''Your work will be evaluated against this rubric:'' @ nl @ str_field (obj_field p ''rubric'') ''content'' else [])
     @ nl2 @ ''Write your deliverable files under /mnt/session/outputs/ '' @ [CHR 0xE2, CHR 0x80, CHR 0x94]
     @ '' files anywhere else are not collected.''"

definition verdict_fields :: field where
  "verdict_fields = FStruct [(''outcome_id'', FString), (''iteration'', FInt), (''result'', FString), (''explanation'', FString)]"

text \<open>The verdict's text and its stop instruction; both empty when nothing is rendered.\<close>

definition verdict_text :: "int option \<Rightarrow> json \<Rightarrow> string \<times> string" where
  "verdict_text budget p =
     (let lastCycle = (case budget of None \<Rightarrow> False | Some b \<Rightarrow> lastOutcomeCycle (int_field p ''iteration'') b);
          result = str_field p ''result''; explanation = str_field p ''explanation''
      in if result = ''needs_revision'' then
           (''The outcome grader reviewed your work and found it does not yet satisfy the rubric:'' @ nl2 @ explanation @ nl2
              @ ''Revise your work to address these findings.'', [])
         else if result = ''max_iterations_reached'' then
           (''The outcome's evaluation budget is exhausted and the rubric is still unmet:'' @ nl2 @ explanation,
            nl2 @ ''Do not continue working. Briefly acknowledge what was completed and what remains.'')
         else if result = ''satisfied'' \<and> lastCycle then
           (''The outcome grader reviewed your work and found it satisfies the rubric:'' @ nl2 @ explanation,
            nl2 @ ''Do not continue working. Briefly acknowledge the outcome.'')
         else if result = ''failed'' \<and> lastCycle then
           (''The outcome grader found that the rubric cannot be applied to your work:'' @ nl2 @ explanation,
            nl2 @ ''Do not continue working. Briefly acknowledge the outcome.'')
         else ([], []))"

definition sender_text :: "id \<Rightarrow> json \<Rightarrow> string" where
  "sender_text sid p = ''[message from '' @
     (if str_field p ''from_session_thread_id'' = primary_thread_id sid then ''your coordinator'' else str_field p ''from_agent_name'')
     @ '']'' @ nl2 @ ContentText p"

definition tool_use_block :: "event \<Rightarrow> json" where
  "tool_use_block ev = (let p = ev_payload ev;
      name = (if ev_type ev = EventAgentMCPToolUse
              then MCPModelName (str_field p ''mcp_server_name'') (str_field p ''name'') else str_field p ''name'')
    in JObj [(''id'', JStr (ev_id ev)),
             (''input'', case raw_field p ''input'' of None \<Rightarrow> JObj [] | Some JNull \<Rightarrow> JObj [] | Some i \<Rightarrow> i),
             (''name'', JStr name), (''type'', JStr ''tool_use'')])"

section \<open>The loop\<close>

record replay_state =
  rs_role :: string
  rs_results :: "tool_answer list"
  rs_blocks :: "json list"
  rs_kept :: "(nat \<times> thinking_block) list"
  rs_msgs :: "replay_message list"
  rs_uses :: "id list"
  rs_answering :: "id list"
  rs_tail :: string
  rs_budgets :: "string \<Rightarrow> int option"
  rs_acks :: "ack_block list"
  rs_watermark :: nat

definition init_replay :: replay_state where
  "init_replay = \<lparr>rs_role = [], rs_results = [], rs_blocks = [], rs_kept = [], rs_msgs = [], rs_uses = [], rs_answering = [],
     rs_tail = [], rs_budgets = Map.empty, rs_acks = [], rs_watermark = 0\<rparr>"

text \<open>A prompt that client input followed in its turn loses its stop instruction.\<close>

definition settle_acks :: "ack_block list \<Rightarrow> json list \<Rightarrow> json list" where
  "settle_acks acks blocks = foldl (\<lambda>bs a. if ak_answered a then bs[ak_at a := text_block (ak_verdict a)] else bs) blocks acks"

definition flush :: "replay_state \<Rightarrow> replay_state" where
  "flush st =
     (if rs_role st = [] then st
      else st\<lparr>rs_role := [], rs_results := [], rs_blocks := [], rs_kept := [], rs_uses := [], rs_acks := [],
              rs_msgs := rs_msgs st @ [\<lparr>rm_role = rs_role st,
                rm_blocks = map ta_block (sort_key (\<lambda>a. callPosition (rs_answering st) (ta_id a)) (rs_results st))
                            @ settle_acks (rs_acks st) (rs_blocks st),
                rm_thinking = rs_kept st\<rparr>],
              rs_answering := (if rs_role st = ''assistant'' then rs_uses st else rs_answering st)\<rparr>)"

definition turn :: "string \<Rightarrow> replay_state \<Rightarrow> replay_state" where
  "turn r st = (if rs_role st \<noteq> r then (flush st)\<lparr>rs_role := r\<rparr> else st)"

definition clientInput :: "replay_state \<Rightarrow> replay_state" where
  "clientInput st = st\<lparr>rs_acks := map (\<lambda>a. a\<lparr>ak_answered := True\<rparr>) (rs_acks st)\<rparr>"

definition add_blocks :: "json list \<Rightarrow> replay_state \<Rightarrow> replay_state" where
  "add_blocks items st = st\<lparr>rs_blocks := rs_blocks st @ items\<rparr>"

definition add_system :: "string \<Rightarrow> string \<Rightarrow> string \<Rightarrow> string" where
  "add_system system tail text = (if tail \<noteq> [] \<or> system \<noteq> [] then tail @ nl2 else tail) @ text"

text \<open>What the loop reads besides the rows: the system prompt so far, the session, the kept thinking, the nested skills.\<close>

record replay_env =
  re_system :: string
  re_sid :: id
  re_kept :: "(id \<times> thinking_block) list"
  re_nested :: "id \<Rightarrow> string option"

definition replay_event :: "replay_env \<Rightarrow> replay_state \<Rightarrow> event \<Rightarrow> replay_error + replay_state" where
  "replay_event K st0 ev =
     (let st = st0\<lparr>rs_watermark := max (rs_watermark st0) (ev_seq ev)\<rparr>; p = ev_payload ev in
      case ev_type ev of
        EventUserMessage \<Rightarrow>
          if \<not> decodes (FStruct [(''content'', FRaw)]) p then Inl (BadBody (ev_id ev))
          else (case contentBlocks (raw_field p ''content'') of
                  None \<Rightarrow> Inl (BadContent (ev_id ev))
                | Some items \<Rightarrow> Inr (clientInput (add_blocks items (turn ''user'' st))))
      | EventUserDefineOutcome \<Rightarrow>
          if \<not> decodes outcome_fields p then Inl (BadBody (ev_id ev))
          else Inr (clientInput (add_blocks [text_block (outcome_text p)]
                 (turn ''user'' (st\<lparr>rs_budgets := (rs_budgets st)(str_field p ''outcome_id'' \<mapsto> int_field p ''max_iterations'')\<rparr>))))
      | EventSpanOutcomeEvalEnd \<Rightarrow>
          if \<not> decodes verdict_fields p then Inl (BadBody (ev_id ev))
          else (let (text, stop) = verdict_text (rs_budgets st (str_field p ''outcome_id'')) p in
                if text = [] then Inr st
                else let st = turn ''user'' st;
                         st = (if stop \<noteq> [] then st\<lparr>rs_acks := rs_acks st @ [\<lparr>ak_at = length (rs_blocks st), ak_verdict = text, ak_answered = False\<rparr>]\<rparr> else st)
                     in Inr (add_blocks [text_block (text @ stop)] st))
      | EventAgentThreadMessageReceived \<Rightarrow>
          if \<not> decodes (FStruct [(''from_session_thread_id'', FString), (''from_agent_name'', FString)]) p then Inl (BadBody (ev_id ev))
          else Inr (add_blocks [text_block (sender_text (re_sid K) p)] (turn ''user'' st))
      | EventSystemMessage \<Rightarrow>
          if \<not> decodes (FStruct [(''content'', FList (FStruct [(''type'', FString), (''text'', FString)]))]) p then Inl (BadBody (ev_id ev))
          else Inr (st\<lparr>rs_tail := foldl (add_system (re_system K)) (rs_tail st) (map (\<lambda>b. str_field b ''text'') (list_field p ''content''))\<rparr>)
      | EventAgentThinking \<Rightarrow>
          (case map_of (re_kept K) (ev_id ev) of
             None \<Rightarrow> Inr st
           | Some tb \<Rightarrow> let st = turn ''assistant'' st
                        in Inr (add_blocks [tb_block tb] (st\<lparr>rs_kept := rs_kept st @ [(length (rs_blocks st), tb)]\<rparr>)))
      | EventAgentMessage \<Rightarrow>
          if \<not> decodes (FStruct [(''content'', FRaw)]) p then Inl (BadBody (ev_id ev))
          else (case contentBlocks (raw_field p ''content'') of
                  None \<Rightarrow> Inl (BadContent (ev_id ev))
                | Some items \<Rightarrow> Inr (add_blocks items (turn ''assistant'' st)))
      | t \<Rightarrow>
          if t \<in> {EventAgentToolUse, EventAgentMCPToolUse, EventAgentCustomToolUse} then
            if \<not> decodes (FStruct [(''name'', FString), (''mcp_server_name'', FString), (''input'', FRaw)]) p then Inl (BadBody (ev_id ev))
            else let st = add_blocks [tool_use_block ev] (turn ''assistant'' st) in Inr (st\<lparr>rs_uses := rs_uses st @ [ev_id ev]\<rparr>)
          else if t \<in> {EventUserToolResult, EventUserCustomToolRes, EventAgentToolResult, EventAgentMCPToolResult} then
            (case toolResultBlock ev of
               None \<Rightarrow> Inl (BadBody (ev_id ev))
             | Some answer \<Rightarrow>
                 let st = turn ''user'' st; st = st\<lparr>rs_results := rs_results st @ [answer]\<rparr>
                 in Inr (case re_nested K (ev_id ev) of None \<Rightarrow> st | Some text \<Rightarrow> add_blocks [text_block text] st))
          else Inr st)"

fun replay_loop :: "replay_env \<Rightarrow> replay_state \<Rightarrow> event list \<Rightarrow> replay_error + replay_state" where
  "replay_loop K st [] = Inr st"
| "replay_loop K st (ev # evs) = (case replay_event K st ev of Inl e \<Rightarrow> Inl e | Inr st' \<Rightarrow> replay_loop K st' evs)"

section \<open>Kept thinking and its prefix (\<^verbatim>\<open>thinking.go\<close>)\<close>

text \<open>
  A chain is the bytes hashed so far.  \<open>sha\<close> stands for the hex text of their SHA-256, a parameter
  of everything that sums a chain.
\<close>

definition be64 :: "nat \<Rightarrow> string" where
  "be64 n = map (\<lambda>i. char_of (n div 256 ^ (7 - i) mod 256)) [0..<8]"
  \<comment> \<open>binary.BigEndian.PutUint64\<close>

definition chain_write :: "string \<Rightarrow> string \<Rightarrow> string \<Rightarrow> string" where
  "chain_write c tag b = c @ be64 (length tag) @ tag @ be64 (length b) @ b"

definition chain_add :: "string \<Rightarrow> string \<Rightarrow> json \<Rightarrow> string" where
  "chain_add c role block = chain_write c role (marshal block)"

definition newPrefixChain :: "string \<Rightarrow> string \<Rightarrow> json list \<Rightarrow> string" where
  "newPrefixChain route system tools =
     foldl (\<lambda>c t. chain_add c ''tool'' t) (chain_write (chain_write [] ''route'' route) ''system'' system) tools"

definition anyPrefixDigest :: "(string \<Rightarrow> string) \<Rightarrow> string \<Rightarrow> string" where
  "anyPrefixDigest sha route = ''any:'' @ sha (chain_write [] ''route'' route)"

record replay_thinking =
  rt_model :: string
  rt_route :: string
  rt_blocks :: "(id \<times> thinking_block) list"

record message =
  ms_role :: string
  ms_content :: json

record request =
  rq_system :: string
  rq_tools :: "json list"
  rq_messages :: "message list"

text \<open>The chain over a whole request; None when a message's content is neither a string nor a list.\<close>

fun chain_messages :: "string \<Rightarrow> message list \<Rightarrow> string option" where
  "chain_messages c [] = Some c"
| "chain_messages c (m # ms) = (case contentBlocks (Some (ms_content m)) of
     None \<Rightarrow> None | Some bs \<Rightarrow> chain_messages (foldl (\<lambda>c b. chain_add c (ms_role m) b) c bs) ms)"

definition requestChain :: "string \<Rightarrow> request \<Rightarrow> string option" where
  "requestChain route req = chain_messages (newPrefixChain route (rq_system req) (rq_tools req)) (rq_messages req)"

definition thinking_refused :: "(string \<Rightarrow> string) \<Rightarrow> replay_thinking \<Rightarrow> string \<Rightarrow> thinking_block \<Rightarrow> bool" where
  "thinking_refused sha t c tb \<longleftrightarrow> tb_model tb \<noteq> rt_model t
     \<or> (tb_digest tb \<noteq> sha c \<and> tb_digest tb \<noteq> anyPrefixDigest sha (rt_route t))"

fun admit_blocks :: "(string \<Rightarrow> string) \<Rightarrow> replay_thinking \<Rightarrow> replay_message \<Rightarrow> nat \<Rightarrow> string \<Rightarrow> json list \<Rightarrow> string \<times> json list" where
  "admit_blocks sha t m i c [] = (c, [])"
| "admit_blocks sha t m i c (b # bs) =
     (if (case map_of (rm_thinking m) i of None \<Rightarrow> False | Some tb \<Rightarrow> thinking_refused sha t c tb)
      then admit_blocks sha t m (Suc i) c bs
      else let (c', kept) = admit_blocks sha t m (Suc i) (chain_add c (rm_role m) b) bs in (c', b # kept))"

fun admit_messages :: "(string \<Rightarrow> string) \<Rightarrow> replay_thinking \<Rightarrow> string \<Rightarrow> replay_message list \<Rightarrow> string \<times> replay_message list" where
  "admit_messages sha t c [] = (c, [])"
| "admit_messages sha t c (m # ms) =
     (let (c1, bs) = (if rm_thinking m = [] then (foldl (\<lambda>c b. chain_add c (rm_role m) b) c (rm_blocks m), rm_blocks m)
                      else admit_blocks sha t m 0 c (rm_blocks m));
          (c2, ms') = admit_messages sha t c1 ms
      in (c2, m\<lparr>rm_blocks := bs\<rparr> # ms'))"

definition admitThinking :: "(string \<Rightarrow> string) \<Rightarrow> replay_thinking \<Rightarrow> string \<Rightarrow> json list \<Rightarrow> replay_message list \<Rightarrow> replay_message list" where
  "admitThinking sha t system tools msgs =
     (if list_all (\<lambda>m. rm_thinking m = []) msgs then msgs
      else snd (admit_messages sha t (newPrefixChain (rt_route t) system tools) msgs))"

fun hasURLSource :: "json \<Rightarrow> bool" where
  "hasURLSource (JObj kvs) =
     ((json_get (JObj kvs) ''type'' \<in> {Some (JStr ''image''), Some (JStr ''document'')}
       \<and> (case json_get (JObj kvs) ''source'' of Some (JObj src) \<Rightarrow> json_get (JObj src) ''type'' = Some (JStr ''url'') | _ \<Rightarrow> False))
      \<or> list_ex (\<lambda>(k, v). hasURLSource v) kvs)"
| "hasURLSource (JArr vs) = list_ex hasURLSource vs"
| "hasURLSource v = False"

definition urlMedia :: "request \<Rightarrow> bool" where
  "urlMedia req = list_ex (\<lambda>m. hasURLSource (ms_content m)) (rq_messages req)"

section \<open>The request\<close>

definition startup_system :: "string \<Rightarrow> string list \<Rightarrow> string" where
  "startup_system system blocks = foldl (\<lambda>s b. if b = [] then s else (if s \<noteq> [] then s @ nl2 else s) @ b) system blocks"

definition message_of :: "replay_message \<Rightarrow> message" where
  "message_of m = \<lparr>ms_role = rm_role m, ms_content = JArr (rm_blocks m)\<rparr>"

definition buildRequest :: "(string \<Rightarrow> string) \<Rightarrow> id \<Rightarrow> string \<Rightarrow> json list \<Rightarrow> event list \<Rightarrow> string \<Rightarrow> string \<Rightarrow> string \<Rightarrow> string
    \<Rightarrow> (id \<Rightarrow> string option) \<Rightarrow> replay_thinking \<Rightarrow> replay_error + request \<times> nat" where
  "buildRequest sha sid system tools history skillsBlock filesBlock reposBlock memoryBlock nested thinking =
     (let sys = startup_system system [skillsBlock, filesBlock, reposBlock, memoryBlock];
          K = \<lparr>re_system = sys, re_sid = sid, re_kept = rt_blocks thinking, re_nested = nested\<rparr>
      in case replay_loop K init_replay (ConsumptionOrder [] history) of
           Inl e \<Rightarrow> Inl e
         | Inr st \<Rightarrow>
             let st = flush st; full = sys @ rs_tail st
             in Inr (\<lparr>rq_system = full, rq_tools = tools,
                      rq_messages = map message_of (admitThinking sha thinking full tools (rs_msgs st))\<rparr>, rs_watermark st))"

end
