(* ===== verification/Replay_Turns.thy ===== *)
theory Replay_Turns
  imports Replay
begin

text \<open>
  A reference reading of the replay loop: every row contributes pieces under a role, or
  nothing; the contributions are grouped into maximal runs of one role; each run is rendered as
  one message.  The one-pass loop of \<open>Replay\<close> computes exactly this, errors included, and the
  shape of a request is read off the reference.
\<close>

section \<open>Contributions\<close>

datatype piece = Block json | Prompt string string | Input | Result tool_answer | Kept thinking_block | Call id json

definition budget_in :: "event list \<Rightarrow> string \<Rightarrow> int option" where
  "budget_in pre oc = (case find (\<lambda>e. ev_type e = EventUserDefineOutcome \<and> str_field (ev_payload e) ''outcome_id'' = oc) (rev pre) of
     None \<Rightarrow> None | Some e \<Rightarrow> Some (int_field (ev_payload e) ''max_iterations''))"

definition row_fields :: "event_type \<Rightarrow> field" where
  "row_fields t = (case t of
     EventUserMessage \<Rightarrow> FStruct [(''content'', FRaw)]
   | EventAgentMessage \<Rightarrow> FStruct [(''content'', FRaw)]
   | EventUserDefineOutcome \<Rightarrow> outcome_fields
   | EventSpanOutcomeEvalEnd \<Rightarrow> verdict_fields
   | EventAgentThreadMessageReceived \<Rightarrow> FStruct [(''from_session_thread_id'', FString), (''from_agent_name'', FString)]
   | EventSystemMessage \<Rightarrow> FStruct [(''content'', FList (FStruct [(''type'', FString), (''text'', FString)]))]
   | _ \<Rightarrow> if t \<in> {EventAgentToolUse, EventAgentMCPToolUse, EventAgentCustomToolUse}
         then FStruct [(''name'', FString), (''mcp_server_name'', FString), (''input'', FRaw)]
         else if t \<in> {EventUserToolResult, EventUserCustomToolRes, EventAgentToolResult, EventAgentMCPToolResult}
         then FStruct [(''tool_use_id'', FString), (''custom_tool_use_id'', FString), (''mcp_tool_use_id'', FString),
                       (''content'', FRaw), (''is_error'', FBool)]
         else FRaw)"

definition contribution :: "replay_env \<Rightarrow> event list \<Rightarrow> event \<Rightarrow> (string \<times> piece list) option" where
  "contribution K pre ev = (let p = ev_payload ev; items = (case contentBlocks (raw_field p ''content'') of None \<Rightarrow> [] | Some bs \<Rightarrow> bs) in
     case ev_type ev of
       EventUserMessage \<Rightarrow> Some (''user'', map Block items @ [Input])
     | EventUserDefineOutcome \<Rightarrow> Some (''user'', [Block (text_block (outcome_text p)), Input])
     | EventSpanOutcomeEvalEnd \<Rightarrow>
         (let (text, stop) = verdict_text (budget_in pre (str_field p ''outcome_id'')) p in
          if text = [] then None else Some (''user'', [if stop = [] then Block (text_block text) else Prompt text stop]))
     | EventAgentThreadMessageReceived \<Rightarrow> Some (''user'', [Block (text_block (sender_text (re_sid K) p))])
     | EventAgentThinking \<Rightarrow> (case map_of (re_kept K) (ev_id ev) of None \<Rightarrow> None | Some tb \<Rightarrow> Some (''assistant'', [Kept tb]))
     | EventAgentMessage \<Rightarrow> Some (''assistant'', map Block items)
     | t \<Rightarrow>
         if t \<in> {EventAgentToolUse, EventAgentMCPToolUse, EventAgentCustomToolUse}
         then Some (''assistant'', [Call (ev_id ev) (tool_use_block ev)])
         else if t \<in> {EventUserToolResult, EventUserCustomToolRes, EventAgentToolResult, EventAgentMCPToolResult}
         then (case toolResultBlock ev of None \<Rightarrow> None
               | Some a \<Rightarrow> Some (''user'', Result a # (case re_nested K (ev_id ev) of None \<Rightarrow> [] | Some text \<Rightarrow> [Block (text_block text)])))
         else None)"

text \<open>The one reason a row cannot be replayed: its body or its content does not decode.\<close>

definition row_error :: "event \<Rightarrow> replay_error option" where
  "row_error ev =
     (if \<not> decodes (row_fields (ev_type ev)) (ev_payload ev) then Some (BadBody (ev_id ev))
      else if ev_type ev \<in> {EventUserMessage, EventAgentMessage} \<and> contentBlocks (raw_field (ev_payload ev) ''content'') = None
      then Some (BadContent (ev_id ev)) else None)"

fun contributions :: "replay_env \<Rightarrow> event list \<Rightarrow> event list \<Rightarrow> (string \<times> piece list) list" where
  "contributions K pre [] = []"
| "contributions K pre (ev # evs) =
     (case contribution K pre ev of None \<Rightarrow> [] | Some c \<Rightarrow> [c]) @ contributions K (pre @ [ev]) evs"

definition system_texts :: "event \<Rightarrow> string list" where
  "system_texts ev = (if ev_type ev = EventSystemMessage
     then map (\<lambda>b. str_field b ''text'') (list_field (ev_payload ev) ''content'') else [])"

section \<open>Turns and their messages\<close>

definition add_turn :: "(string \<times> piece list) list \<Rightarrow> string \<times> piece list \<Rightarrow> (string \<times> piece list) list" where
  "add_turn ts c = (if ts \<noteq> [] \<and> fst (last ts) = fst c then butlast ts @ [(fst c, snd (last ts) @ snd c)] else ts @ [c])"

definition turns :: "(string \<times> piece list) list \<Rightarrow> (string \<times> piece list) list" where
  "turns cs = foldl add_turn [] cs"

text \<open>The blocks of a turn: a prompt keeps its stop instruction unless client input follows it.\<close>

fun turn_blocks :: "piece list \<Rightarrow> json list" where
  "turn_blocks [] = []"
| "turn_blocks (Block b # ps) = b # turn_blocks ps"
| "turn_blocks (Prompt text stop # ps) = text_block (if Input \<in> set ps then text else text @ stop) # turn_blocks ps"
| "turn_blocks (Kept tb # ps) = tb_block tb # turn_blocks ps"
| "turn_blocks (Call i b # ps) = b # turn_blocks ps"
| "turn_blocks (Input # ps) = turn_blocks ps"
| "turn_blocks (Result a # ps) = turn_blocks ps"

fun turn_results :: "piece list \<Rightarrow> tool_answer list" where
  "turn_results [] = []"
| "turn_results (Result a # ps) = a # turn_results ps"
| "turn_results (_ # ps) = turn_results ps"

fun turn_calls :: "piece list \<Rightarrow> id list" where
  "turn_calls [] = []"
| "turn_calls (Call i b # ps) = i # turn_calls ps"
| "turn_calls (_ # ps) = turn_calls ps"

definition piece_width :: "piece \<Rightarrow> nat" where
  "piece_width p = (case p of Input \<Rightarrow> 0 | Result _ \<Rightarrow> 0 | _ \<Rightarrow> 1)"

fun turn_kept :: "nat \<Rightarrow> piece list \<Rightarrow> (nat \<times> thinking_block) list" where
  "turn_kept n [] = []"
| "turn_kept n (p # ps) = (case p of Kept tb \<Rightarrow> [(n, tb)] | _ \<Rightarrow> []) @ turn_kept (n + piece_width p) ps"

definition turn_message :: "id list \<Rightarrow> string \<times> piece list \<Rightarrow> replay_message" where
  "turn_message answering t = \<lparr>rm_role = fst t,
     rm_blocks = map ta_block (sort_key (\<lambda>a. callPosition answering (ta_id a)) (turn_results (snd t))) @ turn_blocks (snd t),
     rm_thinking = turn_kept 0 (snd t)\<rparr>"

definition next_answering :: "id list \<Rightarrow> string \<times> piece list \<Rightarrow> id list" where
  "next_answering answering t = (if fst t = ''assistant'' then turn_calls (snd t) else answering)"

fun turn_messages :: "id list \<Rightarrow> (string \<times> piece list) list \<Rightarrow> replay_message list" where
  "turn_messages answering [] = []"
| "turn_messages answering (t # ts) = turn_message answering t # turn_messages (next_answering answering t) ts"

section \<open>The open turn of the loop\<close>

fun open_blocks :: "piece list \<Rightarrow> json list" where
  "open_blocks [] = []"
| "open_blocks (Prompt text stop # ps) = text_block (text @ stop) # open_blocks ps"
| "open_blocks (Block b # ps) = b # open_blocks ps"
| "open_blocks (Kept tb # ps) = tb_block tb # open_blocks ps"
| "open_blocks (Call i b # ps) = b # open_blocks ps"
| "open_blocks (_ # ps) = open_blocks ps"

fun open_acks :: "nat \<Rightarrow> piece list \<Rightarrow> ack_block list" where
  "open_acks n [] = []"
| "open_acks n (p # ps) =
     (case p of Prompt text stop \<Rightarrow> [\<lparr>ak_at = n, ak_verdict = text, ak_answered = (Input \<in> set ps)\<rparr>] | _ \<Rightarrow> [])
     @ open_acks (n + piece_width p) ps"

lemma open_blocks_append [simp]: "open_blocks (ps @ qs) = open_blocks ps @ open_blocks qs"
  by (induction ps rule: open_blocks.induct) simp_all

lemma turn_results_append [simp]: "turn_results (ps @ qs) = turn_results ps @ turn_results qs"
  by (induction ps rule: turn_results.induct) simp_all

lemma turn_calls_append [simp]: "turn_calls (ps @ qs) = turn_calls ps @ turn_calls qs"
  by (induction ps rule: turn_calls.induct) simp_all

lemma length_open_Cons: "length (open_blocks (p # ps)) = piece_width p + length (open_blocks ps)"
  by (cases p) (simp_all add: piece_width_def)

lemma turn_kept_append [simp]: "turn_kept n (ps @ qs) = turn_kept n ps @ turn_kept (n + length (open_blocks ps)) qs"
  by (induction ps arbitrary: n) (simp_all add: length_open_Cons ac_simps)

lemma open_acks_append [simp]:
  "open_acks n (ps @ qs) = map (\<lambda>a. a\<lparr>ak_answered := ak_answered a \<or> Input \<in> set qs\<rparr>) (open_acks n ps)
     @ open_acks (n + length (open_blocks ps)) qs"
  by (induction ps arbitrary: n) (auto simp: length_open_Cons ac_simps split: piece.split)

lemma settle_open: "length pre = n \<Longrightarrow> settle_acks (open_acks n ps) (pre @ open_blocks ps) = pre @ turn_blocks ps"
proof (induction ps arbitrary: n pre)
  case Nil
  then show ?case by (simp add: settle_acks_def)
next
  case (Cons p ps)
  have step: "settle_acks (open_acks (Suc n) ps) (pre @ b # open_blocks ps) = pre @ b # turn_blocks ps" for b
    using Cons.IH [of "pre @ [b]" "Suc n"] Cons.prems by simp
  from Cons.prems Cons.IH step show ?case
    by (cases p) (auto simp: piece_width_def settle_acks_def)
qed

section \<open>The loop adds contributions\<close>

definition mark_acks :: "bool \<Rightarrow> ack_block list \<Rightarrow> ack_block list" where
  "mark_acks b as = map (\<lambda>a. a\<lparr>ak_answered := ak_answered a \<or> b\<rparr>) as"

lemma mark_acks_False [simp]: "mark_acks False as = as"
  by (simp add: mark_acks_def)

definition put :: "string \<Rightarrow> piece list \<Rightarrow> replay_state \<Rightarrow> replay_state" where
  "put r qs st0 = (let st = turn r st0 in st\<lparr>rs_results := rs_results st @ turn_results qs, rs_blocks := rs_blocks st @ open_blocks qs,
     rs_kept := rs_kept st @ turn_kept (length (rs_blocks st)) qs, rs_uses := rs_uses st @ turn_calls qs,
     rs_acks := mark_acks (Input \<in> set qs) (rs_acks st) @ open_acks (length (rs_blocks st)) qs\<rparr>)"

lemma pieces_of_blocks [simp]:
  "open_blocks (map Block bs) = bs" "turn_results (map Block bs) = []" "turn_calls (map Block bs) = []"
  "turn_kept n (map Block bs) = []" "open_acks n (map Block bs) = []"
  by (induction bs arbitrary: n) (simp_all add: piece_width_def)

lemma put_blocks: "put r (map Block bs) st = add_blocks bs (turn r st)"
  by (cases "turn r st") (auto simp: put_def add_blocks_def Let_def image_iff)

lemma put_input: "put r (map Block bs @ [Input]) st = clientInput (add_blocks bs (turn r st))"
  by (cases "turn r st") (simp add: put_def add_blocks_def clientInput_def mark_acks_def Let_def)

lemma put_prompt: "put r [Prompt text stop] st = (let st = turn r st in
    add_blocks [text_block (text @ stop)] (st\<lparr>rs_acks := rs_acks st @ [\<lparr>ak_at = length (rs_blocks st), ak_verdict = text, ak_answered = False\<rparr>]\<rparr>))"
  by (cases "turn r st") (simp add: put_def add_blocks_def Let_def)

lemma put_kept: "put r [Kept tb] st = (let st = turn r st in add_blocks [tb_block tb] (st\<lparr>rs_kept := rs_kept st @ [(length (rs_blocks st), tb)]\<rparr>))"
  by (cases "turn r st") (simp add: put_def add_blocks_def Let_def)

lemma put_call: "put r [Call i b] st = (let st = add_blocks [b] (turn r st) in st\<lparr>rs_uses := rs_uses st @ [i]\<rparr>)"
  by (cases "turn r st") (simp add: put_def add_blocks_def Let_def)

lemma put_result: "put r (Result a # map Block bs) st = (let st = turn r st in add_blocks bs (st\<lparr>rs_results := rs_results st @ [a]\<rparr>))"
  by (cases "turn r st") (auto simp: put_def add_blocks_def Let_def image_iff piece_width_def)

lemmas put_simps = put_blocks [of _ "[_]", simplified] put_input [of _ "[_]", simplified] put_input put_blocks put_prompt put_kept put_call
  put_result [of _ _ "[_]", simplified] put_result [of _ _ "[]", simplified]

lemma add_no_blocks [simp]: "add_blocks [] st = st"
  by (simp add: add_blocks_def)

text \<open>What a row changes outside the turn: the watermark, the system text and the outcome budgets.\<close>

definition note_row :: "replay_env \<Rightarrow> event \<Rightarrow> replay_state \<Rightarrow> replay_state" where
  "note_row K ev st = st\<lparr>rs_watermark := max (rs_watermark st) (ev_seq ev),
     rs_tail := foldl (add_system (re_system K)) (rs_tail st) (system_texts ev),
     rs_budgets := (if ev_type ev = EventUserDefineOutcome
       then (rs_budgets st)(str_field (ev_payload ev) ''outcome_id'' \<mapsto> int_field (ev_payload ev) ''max_iterations'') else rs_budgets st)\<rparr>"

definition put_row :: "(string \<times> piece list) option \<Rightarrow> replay_state \<Rightarrow> replay_state" where
  "put_row c st = (case c of None \<Rightarrow> st | Some (r, qs) \<Rightarrow> put r qs st)"

lemma toolResultBlock_decodes: "(toolResultBlock ev = None) = (\<not> decodes (FStruct [(''tool_use_id'', FString), (''custom_tool_use_id'', FString),
    (''mcp_tool_use_id'', FString), (''content'', FRaw), (''is_error'', FBool)]) (ev_payload ev))"
  by (simp add: toolResultBlock_def Let_def)

lemma replay_event_error: "row_error ev = Some e \<Longrightarrow> replay_event K st ev = Inl e"
  using toolResultBlock_decodes [of ev]
  by (cases "ev_type ev") (auto simp: row_error_def row_fields_def replay_event_def Let_def split: if_splits)

lemma replay_event_row:
  assumes "row_error ev = None" "budget_in pre = rs_budgets st"
  shows "replay_event K st ev = Inr (put_row (contribution K pre ev) (note_row K ev st))"
  using assms toolResultBlock_decodes [of ev]
  by (cases "ev_type ev")
     (auto simp: row_error_def row_fields_def replay_event_def contribution_def put_row_def note_row_def system_texts_def put_simps Let_def
        split: if_splits option.splits prod.splits)

section \<open>The loop's state holds the turns\<close>

lemma turn_keeps [simp]:
  "rs_budgets (turn r st) = rs_budgets st" "rs_tail (turn r st) = rs_tail st" "rs_watermark (turn r st) = rs_watermark st"
  by (simp_all add: turn_def flush_def)

lemma flush_keeps [simp]: "rs_tail (flush st) = rs_tail st" "rs_watermark (flush st) = rs_watermark st"
  by (simp_all add: flush_def)

lemma put_row_keeps [simp]:
  "rs_budgets (put_row c st) = rs_budgets st" "rs_tail (put_row c st) = rs_tail st" "rs_watermark (put_row c st) = rs_watermark st"
  by (simp_all add: put_row_def put_def Let_def split: option.split prod.split)

lemma note_row_budgets: "budget_in pre = rs_budgets st \<Longrightarrow> budget_in (pre @ [ev]) = rs_budgets (note_row K ev st)"
  by (rule ext) (auto simp: note_row_def budget_in_def fun_eq_iff)

lemma turn_messages_append: "turn_messages a (ts @ us) = turn_messages a ts @ turn_messages (foldl next_answering a ts) us"
  by (induction ts arbitrary: a) simp_all

definition holds_turn :: "string \<times> piece list \<Rightarrow> replay_state \<Rightarrow> bool" where
  "holds_turn t st \<longleftrightarrow> rs_role st = fst t \<and> rs_results st = turn_results (snd t) \<and> rs_blocks st = open_blocks (snd t)
     \<and> rs_kept st = turn_kept 0 (snd t) \<and> rs_uses st = turn_calls (snd t) \<and> rs_acks st = open_acks 0 (snd t)"

definition holds_turns :: "(string \<times> piece list) list \<Rightarrow> replay_state \<Rightarrow> bool" where
  "holds_turns ts st \<longleftrightarrow> (\<forall>t \<in> set ts. fst t \<noteq> [])
     \<and> rs_msgs st = turn_messages [] (butlast ts) \<and> rs_answering st = foldl next_answering [] (butlast ts)
     \<and> holds_turn (if ts = [] then ([], []) else last ts) st"

lemma flush_turn:
  assumes "holds_turns (ts @ [t]) st"
  shows "rs_msgs (flush st) = turn_messages [] (ts @ [t]) \<and> rs_answering (flush st) = foldl next_answering [] (ts @ [t])
    \<and> holds_turn ([], []) (flush st)"
  using assms settle_open [of "[]" 0 "snd t"]
  by (auto simp: holds_turns_def holds_turn_def flush_def turn_messages_append turn_message_def next_answering_def)

lemma flush_holds:
  assumes "holds_turns ts st"
  shows "rs_msgs (flush st) = turn_messages [] ts"
proof (cases ts rule: rev_cases)
  case Nil
  with assms show ?thesis by (simp add: holds_turns_def holds_turn_def flush_def)
next
  case (snoc us t)
  with flush_turn assms show ?thesis by simp
qed

lemma put_new_turn:
  "r \<noteq> [] \<Longrightarrow> holds_turn ([], []) st \<Longrightarrow> turn r st0 = st\<lparr>rs_role := r\<rparr> \<Longrightarrow> holds_turn (r, qs) (put r qs st0)"
  by (simp add: holds_turn_def put_def Let_def mark_acks_def)

lemma put_holds:
  assumes "holds_turns ts st" "r \<noteq> []"
  shows "holds_turns (add_turn ts (r, qs)) (put r qs st)"
proof (cases ts rule: rev_cases)
  case Nil
  with assms have e: "holds_turn ([], []) st" "turn r st = st\<lparr>rs_role := r\<rparr>"
    by (auto simp: holds_turns_def holds_turn_def turn_def flush_def)
  from put_new_turn [OF assms(2) e] Nil assms show ?thesis
    by (simp add: holds_turns_def add_turn_def) (simp add: put_def e Let_def)
next
  case (snoc us t)
  show ?thesis
  proof (cases "fst t = r")
    case True
    with assms snoc have "turn r st = st" by (simp add: turn_def holds_turns_def holds_turn_def)
    with True snoc assms show ?thesis
      by (auto simp: holds_turns_def holds_turn_def add_turn_def put_def mark_acks_def)
  next
    case False
    with assms snoc have t: "turn r st = (flush st)\<lparr>rs_role := r\<rparr>" by (simp add: turn_def holds_turns_def holds_turn_def)
    have f: "rs_msgs (flush st) = turn_messages [] ts" "rs_answering (flush st) = foldl next_answering [] ts" "holds_turn ([], []) (flush st)"
      using flush_turn [of us t st] assms(1) snoc by simp_all
    have "add_turn ts (r, qs) = ts @ [(r, qs)]" using False snoc by (simp add: add_turn_def)
    moreover have "rs_msgs (put r qs st) = turn_messages [] ts" "rs_answering (put r qs st) = foldl next_answering [] ts"
      by (simp_all add: put_def Let_def t f)
    ultimately show ?thesis using put_new_turn [OF assms(2) f(3) t] assms by (simp add: holds_turns_def)
  qed
qed

lemma note_row_holds: "holds_turns ts st \<Longrightarrow> holds_turns ts (note_row K ev st)"
  by (simp add: holds_turns_def holds_turn_def note_row_def)

lemma contribution_role: "contribution K pre ev = Some (r, qs) \<Longrightarrow> r = ''user'' \<or> r = ''assistant''"
  by (cases "ev_type ev") (auto simp: contribution_def Let_def split: option.splits prod.splits if_splits)

section \<open>The loop computes the reference\<close>

definition first_error :: "event list \<Rightarrow> replay_error option" where
  "first_error evs = (case find (\<lambda>ev. row_error ev \<noteq> None) evs of None \<Rightarrow> None | Some ev \<Rightarrow> row_error ev)"

lemma first_error_Cons: "first_error (ev # evs) = (case row_error ev of None \<Rightarrow> first_error evs | Some e \<Rightarrow> Some e)"
  by (auto simp: first_error_def split: option.splits)

lemma replay_loop_error: "first_error evs = Some e \<Longrightarrow> budget_in pre = rs_budgets st \<Longrightarrow> replay_loop K st evs = Inl e"
proof (induction evs arbitrary: pre st)
  case (Cons ev evs)
  show ?case
  proof (cases "row_error ev")
    case None
    note row = replay_event_row [OF None Cons.prems(2), of K]
    from Cons.prems None have "first_error evs = Some e" by (simp add: first_error_Cons)
    from Cons.IH [OF this, of "pre @ [ev]"] note_row_budgets [OF Cons.prems(2), of ev K] row show ?thesis by simp
  next
    case (Some e')
    with Cons.prems(1) have "e' = e" by (simp add: first_error_Cons)
    with replay_event_error [OF Some] show ?thesis by simp
  qed
qed (simp add: first_error_def)

lemma replay_loop_turns:
  assumes "first_error evs = None" "budget_in pre = rs_budgets st" "holds_turns ts st"
  shows "\<exists>st'. replay_loop K st evs = Inr st' \<and> holds_turns (foldl add_turn ts (contributions K pre evs)) st'
    \<and> rs_tail st' = foldl (add_system (re_system K)) (rs_tail st) (concat (map system_texts evs))
    \<and> rs_watermark st' = foldl max (rs_watermark st) (map ev_seq evs)"
  using assms
proof (induction evs arbitrary: pre st ts)
  case (Cons ev evs)
  let ?c = "contribution K pre ev"
  from Cons.prems(1) have e: "row_error ev = None" "first_error evs = None" by (auto simp: first_error_Cons split: option.splits)
  note row = replay_event_row [OF e(1) Cons.prems(2), of K]
  have "holds_turns (foldl add_turn ts (case ?c of None \<Rightarrow> [] | Some c \<Rightarrow> [c])) (put_row ?c (note_row K ev st))"
    using note_row_holds [OF Cons.prems(3)] put_holds contribution_role [of K pre ev]
    by (auto simp: put_row_def split: option.split)
  from Cons.IH [OF e(2) _ this, of "pre @ [ev]"] note_row_budgets [OF Cons.prems(2), of ev K]
  show ?case by (auto simp: row note_row_def)
qed simp

lemma set_order: "set (ConsumptionOrder [] history) = set history"
proof -
  have "mset (ConsumptionOrder [] history) = mset history"
    using finish_mset [of new_orderer history] by (simp add: ConsumptionOrder_finish new_orderer_def)
  then show ?thesis by (rule mset_eq_setD)
qed

lemma foldl_max: "foldl max (n :: nat) xs = Max (insert n (set xs))"
proof (induction xs arbitrary: n)
  case (Cons x xs)
  have "foldl max n (x # xs) = Max (insert (max n x) (set xs))" by (simp add: Cons.IH)
  also have "\<dots> = Max (insert n (set (x # xs)))" by (cases "set xs = {}") (simp_all add: max.assoc)
  finally show ?case .
qed simp

lemma buildRequest_turns:
  "buildRequest sha sid system tools history skillsBlock filesBlock reposBlock memoryBlock nested thinking =
   (let sys = startup_system system [skillsBlock, filesBlock, reposBlock, memoryBlock];
        K = \<lparr>re_system = sys, re_sid = sid, re_kept = rt_blocks thinking, re_nested = nested\<rparr>;
        rows = ConsumptionOrder [] history;
        full = sys @ foldl (add_system sys) [] (concat (map system_texts rows))
    in case first_error rows of
         Some e \<Rightarrow> Inl e
       | None \<Rightarrow> Inr (\<lparr>rq_system = full, rq_tools = tools,
           rq_messages = map message_of (admitThinking sha thinking full tools (turn_messages [] (turns (contributions K [] rows))))\<rparr>,
           Max (insert 0 (ev_seq ` set history))))"
proof -
  let ?sys = "startup_system system [skillsBlock, filesBlock, reposBlock, memoryBlock]"
  let ?K = "\<lparr>re_system = ?sys, re_sid = sid, re_kept = rt_blocks thinking, re_nested = nested\<rparr>"
  let ?rows = "ConsumptionOrder [] history"
  have b: "budget_in [] = rs_budgets init_replay" by (simp add: fun_eq_iff budget_in_def init_replay_def)
  have h: "holds_turns [] init_replay" by (simp add: holds_turns_def holds_turn_def init_replay_def)
  have w: "foldl max 0 (map ev_seq ?rows) = Max (insert 0 (ev_seq ` set history))" by (simp add: foldl_max set_order)
  show ?thesis
  proof (cases "first_error ?rows")
    case None
    from replay_loop_turns [OF None b h, of ?K] obtain st where st: "replay_loop ?K init_replay ?rows = Inr st"
      "holds_turns (turns (contributions ?K [] ?rows)) st" "rs_tail st = foldl (add_system ?sys) [] (concat (map system_texts ?rows))"
      "rs_watermark st = foldl max 0 (map ev_seq ?rows)"
      by (auto simp: turns_def init_replay_def)
    then show ?thesis using None w flush_holds [OF st(2)] by (simp add: buildRequest_def Let_def)
  next
    case (Some e)
    with replay_loop_error [OF Some b, of ?K] show ?thesis by (simp add: buildRequest_def Let_def)
  qed
qed

text \<open>
  C25: the one-pass replay of a log is its reference reading.  It fails exactly when a row's body or
  content does not decode, with the error of the first such row in consumption order; otherwise
  the messages are the maximal runs of same-role contributions, each with its results first in
  the order of the calls of the assistant turn before it, its prompts without their stop
  instruction exactly when client input follows them in the turn, and the watermark is the
  highest sequence number of the log.
\<close>

theorem replay_computes_turns:
  "buildRequest sha sid system tools history skillsBlock filesBlock reposBlock memoryBlock nested thinking =
   (let sys = startup_system system [skillsBlock, filesBlock, reposBlock, memoryBlock];
        K = \<lparr>re_system = sys, re_sid = sid, re_kept = rt_blocks thinking, re_nested = nested\<rparr>;
        rows = ConsumptionOrder [] history;
        full = sys @ foldl (add_system sys) [] (concat (map system_texts rows))
    in case first_error rows of
         Some e \<Rightarrow> Inl e
       | None \<Rightarrow> Inr (\<lparr>rq_system = full, rq_tools = tools,
           rq_messages = map message_of (admitThinking sha thinking full tools (turn_messages [] (turns (contributions K [] rows))))\<rparr>,
           Max (insert 0 (ev_seq ` set history))))"
  by (rule buildRequest_turns)

section \<open>The shape of a request\<close>

lemma foldl_add_turn_adj: "distinct_adj (map fst ts) \<Longrightarrow> distinct_adj (map fst (foldl add_turn ts cs))"
proof (induction cs arbitrary: ts)
  case (Cons c cs)
  have "distinct_adj (map fst (add_turn ts c))"
  proof (cases ts rule: rev_cases)
    case Nil
    then show ?thesis by (simp add: add_turn_def)
  next
    case (snoc us t)
    with Cons.prems show ?thesis by (auto simp: add_turn_def distinct_adj_append_iff)
  qed
  then show ?case by (simp add: Cons.IH)
qed simp

lemma turns_adj: "distinct_adj (map fst (turns cs))"
  by (simp add: turns_def foldl_add_turn_adj)

text \<open>A property of contributions that joining two of one role keeps holds of every turn.\<close>

lemma turns_all:
  assumes "\<And>r ps qs. P (r, ps) \<Longrightarrow> P (r, qs) \<Longrightarrow> P (r, ps @ qs)" "\<forall>c \<in> set cs. P c"
  shows "\<forall>t \<in> set (turns cs). P t"
proof -
  have "\<forall>t \<in> set (foldl add_turn ts cs). P t" if "\<forall>t \<in> set ts. P t" for ts
    using that assms(2)
  proof (induction cs arbitrary: ts)
    case (Cons c cs)
    have "\<forall>t \<in> set (add_turn ts c). P t"
    proof (cases ts rule: rev_cases)
      case Nil
      with Cons.prems show ?thesis by (simp add: add_turn_def)
    next
      case (snoc us t)
      with Cons.prems assms(1) [of "fst c" "snd t" "snd c"] show ?thesis
        by (cases t; cases c) (auto simp: add_turn_def)
    qed
    from Cons.IH [OF this] Cons.prems(2) show ?case by simp
  qed simp
  from this [of "[]"] show ?thesis by (simp add: turns_def)
qed

definition user_plain :: "string \<times> piece list \<Rightarrow> bool" where
  "user_plain c \<longleftrightarrow> (fst c = ''user'' \<and> (\<forall>n. turn_kept n (snd c) = [])) \<or> (fst c = ''assistant'' \<and> turn_results (snd c) = [])"

lemma contribution_plain: "contribution K pre ev = Some c \<Longrightarrow> user_plain c"
  by (cases "ev_type ev")
     (auto simp: contribution_def user_plain_def Let_def split: option.splits prod.splits if_splits)

lemma contributions_plain: "\<forall>c \<in> set (contributions K pre evs). user_plain c"
  by (induction evs arbitrary: pre) (auto split: option.splits dest: contribution_plain [OF sym])

lemma turns_plain: "\<forall>t \<in> set (turns (contributions K pre evs)). user_plain t"
  by (rule turns_all) (auto simp: user_plain_def contributions_plain [unfolded user_plain_def])

lemma turn_messages_roles [simp]: "map rm_role (turn_messages a ts) = map fst ts"
  by (induction ts arbitrary: a) (simp_all add: turn_message_def)

lemma length_turn_messages [simp]: "length (turn_messages a ts) = length ts"
  by (induction ts arbitrary: a) simp_all

lemma turn_messages_nth: "i < length ts \<Longrightarrow> turn_messages a ts ! i = turn_message (foldl next_answering a (take i ts)) (ts ! i)"
proof (induction ts arbitrary: a i)
  case (Cons t ts)
  then show ?case by (cases i) simp_all
qed simp

lemma admit_messages_keeps:
  "length (snd (admit_messages sha t c ms)) = length ms
   \<and> map rm_role (snd (admit_messages sha t c ms)) = map rm_role ms
   \<and> (\<forall>i < length ms. rm_thinking (ms ! i) = [] \<longrightarrow> snd (admit_messages sha t c ms) ! i = ms ! i)"
proof (induction ms arbitrary: c)
  case (Cons m ms)
  define r where "r = (if rm_thinking m = [] then (foldl (\<lambda>c b. chain_add c (rm_role m) b) c (rm_blocks m), rm_blocks m)
    else admit_blocks sha t m 0 c (rm_blocks m))"
  have s: "snd (admit_messages sha t c (m # ms)) = m\<lparr>rm_blocks := snd r\<rparr> # snd (admit_messages sha t (fst r) ms)"
    by (simp add: r_def Let_def split: prod.split)
  have "rm_thinking m = [] \<Longrightarrow> snd r = rm_blocks m" by (simp add: r_def)
  then show ?case unfolding s using Cons.IH [of "fst r"] by (auto simp: nth_Cons split: nat.split)
qed simp

lemma admitThinking_keeps:
  shows length_admitThinking [simp]: "length (admitThinking sha t system tools ms) = length ms"
    and roles_admitThinking [simp]: "map rm_role (admitThinking sha t system tools ms) = map rm_role ms"
    and plain_admitThinking: "i < length ms \<Longrightarrow> rm_thinking (ms ! i) = [] \<Longrightarrow> admitThinking sha t system tools ms ! i = ms ! i"
  using admit_messages_keeps [of sha t _ ms] by (simp_all add: admitThinking_def)

lemma callPosition_nth: "distinct calls \<Longrightarrow> k < length calls \<Longrightarrow> callPosition calls (calls ! k) = k"
  unfolding callPosition_def
  by (subst map_of_inject_set [THEN iffD2, of _ "zip calls [0..<length calls]"]) (simp_all add: rev_map [symmetric] map_of_zip_nth distinct_rev)

lemma sort_by_call:
  assumes "distinct calls" "mset (map ta_id rs) = mset calls"
  shows "map ta_id (sort_key (\<lambda>a. callPosition calls (ta_id a)) rs) = calls"
proof -
  let ?s = "map ta_id (sort_key (\<lambda>a. callPosition calls (ta_id a)) rs)"
  have m: "mset ?s = mset calls" using assms(2) by (metis mset_map mset_sort)
  have pos: "map (callPosition calls) calls = [0..<length calls]"
    by (rule nth_equalityI) (simp_all add: callPosition_nth assms(1))
  have "sorted (map (callPosition calls) ?s)" by (simp add: comp_def)
  moreover have "mset (map (callPosition calls) ?s) = mset (map (callPosition calls) calls)" using m by (metis mset_map)
  ultimately have e: "map (callPosition calls) ?s = map (callPosition calls) calls"
    unfolding pos by (metis properties_for_sort sort_upt sorted_sort_id sorted_upt)
  have "inj_on (callPosition calls) (set calls)"
    by (metis pos distinct_map distinct_upt)
  moreover have "set ?s = set calls" using m by (rule mset_eq_setD)
  ultimately show ?thesis using e by (metis inj_on_map_eq_map Un_absorb)
qed

text \<open>
  C26: the shape of a request.  Its messages alternate between the user and the assistant.  The
  message after an assistant's carries every tool result of its turn before any other block, and
  when they answer the assistant's calls once each, they stand in the order of the calls,
  whatever order the log holds them in.
\<close>

theorem request_shape:
  assumes "buildRequest sha sid system tools history skillsBlock filesBlock reposBlock memoryBlock nested thinking = Inr (req, w)"
    and "ts = turns (contributions \<lparr>re_system = startup_system system [skillsBlock, filesBlock, reposBlock, memoryBlock], re_sid = sid,
                re_kept = rt_blocks thinking, re_nested = nested\<rparr> [] (ConsumptionOrder [] history))"
  shows "map ms_role (rq_messages req) = map fst ts \<and> distinct_adj (map ms_role (rq_messages req))
    \<and> set (map ms_role (rq_messages req)) \<subseteq> {''user'', ''assistant''}
    \<and> (\<forall>i ps qs. Suc i < length ts \<and> ts ! i = (''assistant'', ps) \<and> ts ! Suc i = (''user'', qs) \<longrightarrow>
         (\<exists>rs. ms_content (rq_messages req ! Suc i) = JArr (map ta_block rs @ turn_blocks qs) \<and> mset rs = mset (turn_results qs)
            \<and> (distinct (turn_calls ps) \<and> mset (map ta_id rs) = mset (turn_calls ps) \<longrightarrow> map ta_id rs = turn_calls ps)))"
proof -
  obtain full where req: "rq_messages req = map message_of (admitThinking sha thinking full tools (turn_messages [] ts))"
    using assms unfolding buildRequest_turns by (auto simp: Let_def split: option.splits)
  have roles: "map ms_role (rq_messages req) = map fst ts"
    using roles_admitThinking [of sha thinking full tools "turn_messages [] ts"] by (simp add: req message_of_def comp_def)
  have "\<forall>t \<in> set ts. user_plain t" using assms(2) turns_plain by simp
  then have "set (map fst ts) \<subseteq> {''user'', ''assistant''}" by (auto simp: user_plain_def)
  moreover have "distinct_adj (map fst ts)" using assms(2) turns_adj by simp
  moreover have "\<exists>rs. ms_content (rq_messages req ! Suc i) = JArr (map ta_block rs @ turn_blocks qs) \<and> mset rs = mset (turn_results qs)
      \<and> (distinct (turn_calls ps) \<and> mset (map ta_id rs) = mset (turn_calls ps) \<longrightarrow> map ta_id rs = turn_calls ps)"
    if i: "Suc i < length ts" "ts ! i = (''assistant'', ps)" "ts ! Suc i = (''user'', qs)" for i ps qs
  proof -
    have "turn_kept 0 qs = []" using \<open>\<forall>t \<in> set ts. user_plain t\<close> i(1,3) nth_mem [of "Suc i" ts] by (force simp: user_plain_def)
    moreover have "foldl next_answering [] (take (Suc i) ts) = turn_calls ps"
      using i by (simp add: take_Suc_conv_app_nth next_answering_def)
    ultimately have "admitThinking sha thinking full tools (turn_messages [] ts) ! Suc i = turn_message (turn_calls ps) (''user'', qs)"
      using i by (subst plain_admitThinking) (simp_all add: turn_messages_nth turn_message_def)
    then have c: "ms_content (rq_messages req ! Suc i)
        = JArr (map ta_block (sort_key (\<lambda>a. callPosition (turn_calls ps) (ta_id a)) (turn_results qs)) @ turn_blocks qs)"
      using i(1) by (simp add: req message_of_def turn_message_def)
    show ?thesis
      by (rule exI [of _ "sort_key (\<lambda>a. callPosition (turn_calls ps) (ta_id a)) (turn_results qs)"])
         (use sort_by_call [of "turn_calls ps" "turn_results qs"] in \<open>simp add: c\<close>)
  qed
  ultimately show ?thesis using roles by simp
qed

lemmas replay_eval = replay_event_def contentBlocks_def toolResultBlock_def tool_use_block_def turn_def flush_def clientInput_def add_blocks_def
  settle_acks_def init_replay_def startup_system_def raw_field_def field_vals_def field_for_def str_field_def bool_field_def fold_name_def fold_rune_def
  byte_def

definition demo_calls :: "event list" where
  "demo_calls = [demo_span ''m1'' 1 EventUserMessage (JObj [(''content'', JStr ''go'')]),
     demo_span ''c1'' 2 EventAgentToolUse (JObj [(''name'', JStr ''read''), (''input'', JObj [])]),
     demo_span ''c2'' 3 EventAgentToolUse (JObj [(''name'', JStr ''bash''), (''input'', JObj [])]),
     demo_span ''r2'' 4 EventAgentToolResult (JObj [(''tool_use_id'', JStr ''c2'')]),
     demo_span ''r1'' 5 EventAgentToolResult (JObj [(''tool_use_id'', JStr ''c1'')])]"

definition demo_env :: replay_env where
  "demo_env = \<lparr>re_system = startup_system [] [[], [], [], []], re_sid = ''sesn_1'', re_kept = [], re_nested = Map.empty\<rparr>"

definition demo_answer :: "id \<Rightarrow> tool_answer" where
  "demo_answer i = \<lparr>ta_id = i, ta_block = JObj [(''tool_use_id'', JStr i), (''type'', JStr ''tool_result'')]\<rparr>"

lemma demo_calls_order: "ConsumptionOrder [] demo_calls = demo_calls"
  by (simp add: ConsumptionOrder_def demo_calls_def demo_span_def Push_def Let_def windowOf_def held_of_def new_orderer_def
      ConsumedInput_def consumed_inputs_def Flush_def)

lemma demo_turns: "turns (contributions demo_env [] demo_calls) =
   [(''user'', [Block (text_block ''go''), Input]),
    (''assistant'', [Call ''c1'' (tool_use_block (demo_calls ! 1)), Call ''c2'' (tool_use_block (demo_calls ! 2))]),
    (''user'', [Result (demo_answer ''c2''), Result (demo_answer ''c1'')])]"
  by (simp add: demo_calls_def demo_env_def demo_answer_def demo_span_def turns_def add_turn_def contribution_def replay_eval Let_def)

theorem request_shape_witness:
  "\<exists>req. buildRequest (\<lambda>s. s) ''sesn_1'' [] [] demo_calls [] [] [] [] Map.empty \<lparr>rt_model = [], rt_route = [], rt_blocks = []\<rparr> = Inr (req, 5)
     \<and> ms_content (rq_messages req ! 2) = JArr (map ta_block [demo_answer ''c1'', demo_answer ''c2''])"
proof -
  let ?build = "buildRequest (\<lambda>s. s) ''sesn_1'' [] [] demo_calls [] [] [] [] Map.empty \<lparr>rt_model = [], rt_route = [], rt_blocks = []\<rparr>"
  have w: "Max (insert 0 (ev_seq ` set demo_calls)) = 5" by (simp add: demo_calls_def demo_span_def)
  have e: "first_error demo_calls = None"
    by (simp add: demo_calls_def demo_span_def first_error_def row_error_def row_fields_def replay_eval)
  have "\<exists>req. ?build = Inr (req, 5)"
    unfolding buildRequest_turns demo_calls_order by (simp add: e w Let_def)
  then obtain req where b: "?build = Inr (req, 5)" ..
  have ts: "turns (contributions demo_env [] demo_calls) = turns (contributions
      \<lparr>re_system = startup_system [] [[], [], [], []], re_sid = ''sesn_1'', re_kept = rt_blocks \<lparr>rt_model = [], rt_route = [], rt_blocks = []\<rparr>,
        re_nested = Map.empty\<rparr> [] (ConsumptionOrder [] demo_calls))"
    by (simp add: demo_env_def demo_calls_order)
  let ?qs = "[Result (demo_answer ''c2''), Result (demo_answer ''c1'')]"
  let ?ps = "[Call ''c1'' (tool_use_block (demo_calls ! 1)), Call ''c2'' (tool_use_block (demo_calls ! 2))]"
  note shape = request_shape [OF b ts, unfolded demo_turns, THEN conjunct2, THEN conjunct2, THEN conjunct2]
  have "\<exists>rs. ms_content (rq_messages req ! Suc 1) = JArr (map ta_block rs @ turn_blocks ?qs) \<and> mset rs = mset (turn_results ?qs)
      \<and> (distinct (turn_calls ?ps) \<and> mset (map ta_id rs) = mset (turn_calls ?ps) \<longrightarrow> map ta_id rs = turn_calls ?ps)"
    by (rule shape [THEN spec, THEN spec, THEN spec, THEN mp]) simp
  then obtain rs where rs: "ms_content (rq_messages req ! Suc 1) = JArr (map ta_block rs @ turn_blocks ?qs)" "mset rs = mset (turn_results ?qs)"
    and ids: "distinct (turn_calls ?ps) \<and> mset (map ta_id rs) = mset (turn_calls ?ps) \<longrightarrow> map ta_id rs = turn_calls ?ps"
    by (elim exE conjE)
  have "mset (map ta_id rs) = image_mset ta_id (mset rs)" by simp
  then have "mset (map ta_id rs) = mset (turn_calls ?ps)" unfolding rs(2) by (simp add: demo_answer_def)
  with ids have i: "map ta_id rs = [''c1'', ''c2'']" by simp
  have s: "set rs = {demo_answer ''c2'', demo_answer ''c1''}" using mset_eq_setD [OF rs(2)] by simp
  have d: "ta_id (demo_answer j) = j" for j by (simp add: demo_answer_def)
  have a: "demo_answer (ta_id a) = a" if "a \<in> set rs" for a
    using that unfolding s by (elim insertE) (simp_all only: d, simp_all)
  then have "map (\<lambda>i. demo_answer i) (map ta_id rs) = rs" by (simp add: map_idI)
  then have "rs = [demo_answer ''c1'', demo_answer ''c2'']" by (simp add: i)
  with b rs(1) show ?thesis by (intro exI [of _ req]) (simp add: numeral_2_eq_2)
qed

end
