(* ===== verification/Thinking.thy ===== *)
theory Thinking
  imports Replay_Turns "HOL-Library.Sublist"
begin

text \<open>
  Kept thinking across turns: \<^verbatim>\<open>digestThinking\<close> (\<^verbatim>\<open>internal/brain/stream.go\<close>) stores a
  response's blocks under the prefix they were produced under, \<^verbatim>\<open>admitThinking\<close> sends a block
  back only there.  The prefix of a block is the request up to it, so the two sides meet in the
  chain over a request's blocks.
\<close>

section \<open>Digests of a response\<close>

fun digest_blocks :: "(string \<Rightarrow> string) \<Rightarrow> string \<Rightarrow> thinking_block list \<Rightarrow> thinking_block list" where
  "digest_blocks sha c [] = []"
| "digest_blocks sha c (tb # tbs) = tb\<lparr>tb_digest := sha c\<rparr> # digest_blocks sha (chain_add c ''assistant'' (tb_block tb)) tbs"

definition digestThinking :: "(string \<Rightarrow> string) \<Rightarrow> thinking_block list \<Rightarrow> request \<Rightarrow> string \<Rightarrow> bool \<Rightarrow> thinking_block list option" where
  "digestThinking sha tbs req route anyPrefix =
     (if tbs = [] then Some []
      else if anyPrefix then Some (map (\<lambda>tb. tb\<lparr>tb_digest := anyPrefixDigest sha route\<rparr>) tbs)
      else if urlMedia req then Some []
      else case requestChain route req of None \<Rightarrow> None | Some c \<Rightarrow> Some (digest_blocks sha c tbs))"

section \<open>The framing is injective\<close>

lemma length_be64 [simp]: "length (be64 n) = 8"
  by (simp add: be64_def)

lemma bytes_mod_eq: "(\<And>i. i < k \<Longrightarrow> (a :: nat) div 256 ^ i mod 256 = b div 256 ^ i mod 256) \<Longrightarrow> a mod 256 ^ k = b mod 256 ^ k"
proof (induction k)
  case (Suc k)
  have "n mod 256 ^ Suc k = 256 ^ k * (n div 256 ^ k mod 256) + n mod 256 ^ k" for n :: nat
    using mod_mult2_eq [of n "256 ^ k" 256] by (simp add: mult.commute)
  with Suc show ?case by simp
qed simp

lemma be64_inj:
  assumes "be64 a = be64 b" "a < 2 ^ 64" "b < 2 ^ 64"
  shows "a = b"
proof -
  have "a div 256 ^ i mod 256 = b div 256 ^ i mod 256" if i: "i < 8" for i
  proof -
    have "be64 x ! (7 - i) = char_of (x div 256 ^ i mod 256)" for x
    proof -
      have "7 - i < length [0..<8]" using i by simp
      moreover have "7 - [0..<8] ! (7 - i) = i" using i by (subst nth_upt) simp_all
      ultimately show ?thesis unfolding be64_def by (simp only: nth_map)
    qed
    with assms(1) have "char_of (a div 256 ^ i mod 256) = (char_of (b div 256 ^ i mod 256) :: char)" by metis
    then have "of_char (char_of (a div 256 ^ i mod 256) :: char) = (of_char (char_of (b div 256 ^ i mod 256) :: char) :: nat)" by (rule arg_cong)
    then show ?thesis unfolding of_char_of by simp
  qed
  then have "a mod 256 ^ 8 = b mod 256 ^ 8" by (rule bytes_mod_eq)
  moreover have "(2 :: nat) ^ 64 = 256 ^ 8" by simp
  ultimately show ?thesis using assms(2,3) by (metis mod_less)
qed

definition frames :: "(string \<times> string) list \<Rightarrow> string" where
  "frames items = foldl (\<lambda>c (tag, b). chain_write c tag b) [] items"

lemma foldl_write: "foldl (\<lambda>c (tag, b). chain_write c tag b) c items = c @ frames items"
proof (induction items arbitrary: c)
  case (Cons it items)
  have "frames (it # items) = chain_write [] (fst it) (snd it) @ frames items"
    using Cons.IH [of "chain_write [] (fst it) (snd it)"] by (cases it) (simp add: frames_def)
  with Cons.IH show ?case by (cases it) (simp add: chain_write_def)
qed (simp add: frames_def)

lemma frames_Nil [simp]: "frames [] = []"
  by (simp add: frames_def)

lemma frames_Cons [simp]: "frames ((tag, b) # items) = be64 (length tag) @ tag @ be64 (length b) @ b @ frames items"
  using foldl_write [of "chain_write [] tag b" items] by (simp add: frames_def chain_write_def)

lemma be64_ne [simp]: "be64 n \<noteq> []"
  using length_be64 [of n] by (metis list.size(3) zero_neq_numeral)

lemma frames_inj:
  assumes "frames xs = frames ys" "\<forall>(tag, b) \<in> set (xs @ ys). length tag < 2 ^ 64 \<and> length b < 2 ^ 64"
  shows "xs = ys"
  using assms
proof (induction xs arbitrary: ys)
  case Nil
  then show ?case by (cases ys) auto
next
  case (Cons x xs)
  obtain t b where x: "x = (t, b)" by (cases x)
  from Cons.prems x obtain u d zs where y: "ys = (u, d) # zs" by (cases ys) auto
  have e: "be64 (length t) = be64 (length u)" "t @ be64 (length b) @ b @ frames xs = u @ be64 (length d) @ d @ frames zs"
    using Cons.prems(1) x y by simp_all
  have t: "t = u" "be64 (length b) = be64 (length d)" "b @ frames xs = d @ frames zs"
    using be64_inj [OF e(1)] e(2) Cons.prems(2) x y by auto
  have "b = d" "frames xs = frames zs" using be64_inj [OF t(2)] t(3) Cons.prems(2) x y by auto
  with t(1) x y Cons.IH [of zs] Cons.prems(2) show ?case by simp
qed

section \<open>The chain over a request\<close>

definition chain_items :: "string \<Rightarrow> (string \<times> json) list \<Rightarrow> string" where
  "chain_items c items = foldl (\<lambda>c (r, b). chain_add c r b) c items"

lemma chain_items_append [simp]: "chain_items c (xs @ ys) = chain_items (chain_items c xs) ys"
  by (simp add: chain_items_def)

lemma chain_items_Nil [simp]: "chain_items c [] = c"
  by (simp add: chain_items_def)

lemma chain_items_Cons [simp]: "chain_items c ((r, b) # xs) = chain_items (chain_add c r b) xs"
  by (simp add: chain_items_def)

lemma chain_items_role: "chain_items c (map (\<lambda>b. (r, b)) bs) = foldl (\<lambda>c b. chain_add c r b) c bs"
  by (induction bs arbitrary: c) simp_all

definition flat_msgs :: "replay_message list \<Rightarrow> (string \<times> json) list" where
  "flat_msgs ms = concat (map (\<lambda>m. map (\<lambda>b. (rm_role m, b)) (rm_blocks m)) ms)"

lemma flat_msgs_simps [simp]:
  "flat_msgs [] = []" "flat_msgs (m # ms) = map (\<lambda>b. (rm_role m, b)) (rm_blocks m) @ flat_msgs ms"
  "flat_msgs (ms @ ns) = flat_msgs ms @ flat_msgs ns"
  by (simp_all add: flat_msgs_def)

lemma chain_messages_flat: "chain_messages c (map message_of ms) = Some (chain_items c (flat_msgs ms))"
  by (induction ms arbitrary: c) (simp_all add: message_of_def contentBlocks_def chain_items_role)

lemma admit_blocks_chain: "admit_blocks sha t m i c bs = (c', ks) \<Longrightarrow> c' = chain_items c (map (\<lambda>b. (rm_role m, b)) ks)"
  by (induction sha t m i c bs arbitrary: c' ks rule: admit_blocks.induct) (auto split: if_splits prod.splits)

lemma admit_messages_chain: "admit_messages sha t c ms = (c', out) \<Longrightarrow> c' = chain_items c (flat_msgs out)"
proof (induction ms arbitrary: c c' out)
  case (Cons m ms)
  obtain c1 bs where b: "(if rm_thinking m = [] then (foldl (\<lambda>c b. chain_add c (rm_role m) b) c (rm_blocks m), rm_blocks m)
      else admit_blocks sha t m 0 c (rm_blocks m)) = (c1, bs)" by (meson surj_pair)
  obtain out' where o: "admit_messages sha t c1 ms = (c', out')" "out = m\<lparr>rm_blocks := bs\<rparr> # out'"
    using Cons.prems by (auto simp: b split: prod.splits)
  have "c1 = chain_items c (map (\<lambda>b. (rm_role m, b)) bs)"
    using b admit_blocks_chain [of sha t m 0 c "rm_blocks m" c1 bs] by (auto simp: chain_items_role split: if_splits)
  with Cons.IH [OF o(1)] o(2) show ?case by simp
qed simp

lemma admit_messages_append:
  "admit_messages sha t c (ms @ ns) = (let (c1, out1) = admit_messages sha t c ms; (c2, out2) = admit_messages sha t c1 ns in (c2, out1 @ out2))"
proof (induction ms arbitrary: c)
  case (Cons m ms)
  show ?case by (simp add: Cons.IH Let_def split: prod.splits)
qed (simp add: split: prod.splits)

lemma admit_messages_none: "list_all (\<lambda>m. rm_thinking m = []) ms \<Longrightarrow> snd (admit_messages sha t c ms) = ms"
  by (induction ms arbitrary: c) (auto split: prod.splits, metis snd_conv)

text \<open>Hashing nothing when there is nothing to admit is no shortcut: the result is the same.\<close>

lemma admitThinking_walk: "admitThinking sha t system tools ms = snd (admit_messages sha t (newPrefixChain (rt_route t) system tools) ms)"
  by (simp add: admitThinking_def admit_messages_none)

section \<open>A digest determines the prefix\<close>

definition chain_list :: "string \<Rightarrow> string \<Rightarrow> json list \<Rightarrow> (string \<times> json) list \<Rightarrow> (string \<times> string) list" where
  "chain_list route system tools items =
     (''route'', route) # (''system'', system) # map (\<lambda>t. (''tool'', marshal t)) tools @ map (\<lambda>(r, b). (r, marshal b)) items"

lemma chain_items_frames: "chain_items c items = c @ frames (map (\<lambda>(r, b). (r, marshal b)) items)"
  by (induction items arbitrary: c) (auto simp: chain_add_def chain_write_def)

lemma chain_tools: "foldl (\<lambda>c t. chain_add c ''tool'' t) c tools = chain_items c (map (\<lambda>t. (''tool'', t)) tools)"
  by (induction tools arbitrary: c) simp_all

lemma frames_append: "frames (xs @ ys) = frames xs @ frames ys"
  by (induction xs) auto

lemma prefix_frames: "chain_items (newPrefixChain route system tools) items = frames (chain_list route system tools items)"
  by (simp add: newPrefixChain_def chain_tools chain_items_frames chain_list_def frames_append chain_write_def comp_def)

definition req_items :: "request \<Rightarrow> (string \<times> json) list" where
  "req_items req = concat (map (\<lambda>m. map (\<lambda>b. (ms_role m, b)) (case contentBlocks (Some (ms_content m)) of None \<Rightarrow> [] | Some bs \<Rightarrow> bs)) (rq_messages req))"

lemma chain_messages_items:
  "chain_messages c ms = Some d \<Longrightarrow> d = chain_items c (concat (map (\<lambda>m. map (\<lambda>b. (ms_role m, b)) (case contentBlocks (Some (ms_content m)) of None \<Rightarrow> [] | Some bs \<Rightarrow> bs)) ms))"
  by (induction ms arbitrary: c) (auto simp: chain_items_role split: option.splits)

lemma requestChain_frames: "requestChain route req = Some c \<Longrightarrow> c = frames (chain_list route (rq_system req) (rq_tools req) (req_items req))"
  using chain_messages_items [of "newPrefixChain route (rq_system req) (rq_tools req)" "rq_messages req" c]
  by (simp add: requestChain_def req_items_def prefix_frames)

lemma tagged_split:
  "map (\<lambda>t. (''tool'', f t)) xs @ ys = map (\<lambda>t. (''tool'', f t)) xs' @ ys' \<Longrightarrow> ''tool'' \<notin> fst ` set ys \<Longrightarrow> ''tool'' \<notin> fst ` set ys'
   \<Longrightarrow> map f xs = map f xs' \<and> ys = ys'"
proof (induction xs arbitrary: xs')
  case Nil
  then show ?case by (cases xs') auto
next
  case (Cons x xs)
  show ?case
  proof (cases xs')
    case Nil
    with Cons.prems have "ys' = (''tool'', f x) # map (\<lambda>t. (''tool'', f t)) xs @ ys" by simp
    then have "''tool'' \<in> fst ` set ys'" by simp
    with Cons.prems(3) show ?thesis by contradiction
  next
    case (Cons x' xs'')
    with Cons.IH [of xs''] Cons.prems show ?thesis by simp
  qed
qed

text \<open>
  C29: a chain's bytes determine what they were written from.  Two requests with one chain go
  over the same route with the same system prompt, the same tool definitions and the same
  content blocks under the same roles, in their canonical form, however the blocks are grouped
  into messages.  So a digest that matches names one prefix, up to a collision of the hash.
\<close>

theorem chain_determines_request:
  assumes "requestChain route req = Some c" "requestChain route' req' = Some c"
    and "list_all (\<lambda>(tag, b). length tag < 2 ^ 64 \<and> length b < 2 ^ 64)
           (chain_list route (rq_system req) (rq_tools req) (req_items req) @ chain_list route' (rq_system req') (rq_tools req') (req_items req'))"
    and "list_all (\<lambda>m. ms_role m \<noteq> ''tool'') (rq_messages req @ rq_messages req')"
  shows "route = route' \<and> rq_system req = rq_system req' \<and> map marshal (rq_tools req) = map marshal (rq_tools req')
    \<and> map (\<lambda>(r, b). (r, marshal b)) (req_items req) = map (\<lambda>(r, b). (r, marshal b)) (req_items req')"
proof -
  have "chain_list route (rq_system req) (rq_tools req) (req_items req) = chain_list route' (rq_system req') (rq_tools req') (req_items req')"
    using requestChain_frames [OF assms(1)] requestChain_frames [OF assms(2)] assms(3)
    by (intro frames_inj) (auto simp: list_all_iff)
  moreover have "''tool'' \<notin> fst ` set (map (\<lambda>(r, b). (r, marshal b)) (req_items q))" if "q = req \<or> q = req'" for q
    using that assms(4) by (auto simp: req_items_def list_all_iff)
  ultimately show ?thesis
    using tagged_split [of marshal "rq_tools req" "map (\<lambda>(r, b). (r, marshal b)) (req_items req)" "rq_tools req'"
        "map (\<lambda>(r, b). (r, marshal b)) (req_items req')"]
    by (simp add: chain_list_def)
qed

definition demo_request :: request where
  "demo_request = \<lparr>rq_system = ''s'', rq_tools = [], rq_messages = [\<lparr>ms_role = ''user'', ms_content = JArr [JNull, JBool True]\<rparr>]\<rparr>"

definition demo_split :: request where
  "demo_split = \<lparr>rq_system = ''s'', rq_tools = [], rq_messages = [\<lparr>ms_role = ''user'', ms_content = JArr [JNull]\<rparr>,
     \<lparr>ms_role = ''user'', ms_content = JArr [JBool True]\<rparr>]\<rparr>"

theorem chain_determines_request_witness:
  "map (\<lambda>(r, b). (r, marshal b)) (req_items demo_request) = map (\<lambda>(r, b). (r, marshal b)) (req_items demo_split)
   \<and> requestChain ''r'' demo_request = requestChain ''r'' demo_split"
proof -
  obtain c where c: "requestChain ''r'' demo_request = Some c" "requestChain ''r'' demo_split = Some c"
    by (simp add: requestChain_def demo_request_def demo_split_def contentBlocks_def)
  show ?thesis using chain_determines_request [OF c] c
    by (simp add: demo_request_def demo_split_def req_items_def contentBlocks_def chain_list_def)
qed

section \<open>What is sent back\<close>

definition noted :: "replay_message \<Rightarrow> (string \<times> json \<times> thinking_block option) list" where
  "noted m = map (\<lambda>(i, b). (rm_role m, b, map_of (rm_thinking m) i)) (enumerate 0 (rm_blocks m))"

abbreviation sent :: "(string \<times> json \<times> thinking_block option) list \<Rightarrow> (string \<times> json) list" where
  "sent ks \<equiv> map (\<lambda>(r, b, _). (r, b)) ks"

definition ordinary :: "string \<times> json \<times> thinking_block option \<Rightarrow> bool" where
  "ordinary k \<longleftrightarrow> snd (snd k) = None"

text \<open>A selection of items that sends every thinking block under the prefix its digest names.\<close>

definition selects :: "(string \<Rightarrow> string) \<Rightarrow> replay_thinking \<Rightarrow> string \<Rightarrow> (string \<times> json \<times> thinking_block option) list
    \<Rightarrow> (string \<times> json \<times> thinking_block option) list \<Rightarrow> bool" where
  "selects sha t c items ks \<longleftrightarrow> subseq ks items \<and> filter ordinary ks = filter ordinary items
     \<and> (\<forall>xs r b tb ys. ks = xs @ (r, b, Some tb) # ys \<longrightarrow> \<not> thinking_refused sha t (chain_items c (sent xs)) tb)"

lemma selects_Nil: "selects sha t c [] []"
  by (simp add: selects_def)

lemma selects_skip: "selects sha t c items ks \<Longrightarrow> selects sha t c ((r, b, Some tb) # items) ks"
  by (auto simp: selects_def ordinary_def)

lemma selects_keep:
  "selects sha t (chain_add c r b) items ks \<Longrightarrow> (\<And>tb. mk = Some tb \<Longrightarrow> \<not> thinking_refused sha t c tb) \<Longrightarrow>
   selects sha t c ((r, b, mk) # items) ((r, b, mk) # ks)"
  by (auto simp: selects_def Cons_eq_append_conv)

lemma selects_append:
  assumes "selects sha t c items ks" "selects sha t (chain_items c (sent ks)) items' ks'"
  shows "selects sha t c (items @ items') (ks @ ks')"
  unfolding selects_def
proof (intro conjI allI impI)
  show "subseq (ks @ ks') (items @ items')" using assms by (simp add: selects_def list_emb_append_mono)
  show "filter ordinary (ks @ ks') = filter ordinary (items @ items')" using assms by (simp add: selects_def)
  fix xs r b tb ys
  assume e: "ks @ ks' = xs @ (r, b, Some tb) # ys"
  from e consider us where "ks = xs @ (r, b, Some tb) # us" | us where "xs = ks @ us" "ks' = us @ (r, b, Some tb) # ys"
    by (auto simp: append_eq_append_conv2 append_eq_Cons_conv)
  then show "\<not> thinking_refused sha t (chain_items c (sent xs)) tb"
    using assms by cases (auto simp: selects_def)
qed

lemma admit_blocks_selects:
  "admit_blocks sha t m i c bs = (c', kept) \<Longrightarrow>
   \<exists>ks. selects sha t c (map (\<lambda>(i, b). (rm_role m, b, map_of (rm_thinking m) i)) (enumerate i bs)) ks \<and> sent ks = map (\<lambda>b. (rm_role m, b)) kept"
proof (induction bs arbitrary: i c c' kept)
  case Nil
  then show ?case by (intro exI [of _ "[]"]) (simp add: selects_Nil)
next
  case (Cons b bs)
  let ?n = "map_of (rm_thinking m) i" and ?rest = "map (\<lambda>(i, b). (rm_role m, b, map_of (rm_thinking m) i)) (enumerate (Suc i) bs)"
  show ?case
  proof (cases "case ?n of None \<Rightarrow> False | Some tb \<Rightarrow> thinking_refused sha t c tb")
    case True
    then obtain tb where "?n = Some tb" by (auto split: option.splits)
    moreover from True Cons.prems have "admit_blocks sha t m (Suc i) c bs = (c', kept)" by simp
    ultimately show ?thesis using Cons.IH selects_skip by fastforce
  next
    case False
    with Cons.prems obtain kept' where k: "admit_blocks sha t m (Suc i) (chain_add c (rm_role m) b) bs = (c', kept')" "kept = b # kept'"
      by (auto split: prod.splits)
    from Cons.IH [OF k(1)] obtain ks where "selects sha t (chain_add c (rm_role m) b) ?rest ks" "sent ks = map (\<lambda>b. (rm_role m, b)) kept'" by blast
    then show ?thesis using selects_keep [of sha t c "rm_role m" b ?rest ks ?n] False k(2)
      by (intro exI [of _ "(rm_role m, b, ?n) # ks"]) (auto split: option.splits)
  qed
qed

lemma noted_plain: "rm_thinking m = [] \<Longrightarrow> selects sha t c (noted m) (noted m)"
  by (auto simp: selects_def noted_def enumerate_eq_zip map_eq_append_conv)

lemma sent_noted: "sent (noted m) = map (\<lambda>b. (rm_role m, b)) (rm_blocks m)"
  by (rule nth_equalityI) (simp_all add: noted_def nth_enumerate_eq)

lemma admit_messages_selects:
  "admit_messages sha t c ms = (c', out) \<Longrightarrow> \<exists>ks. selects sha t c (concat (map noted ms)) ks \<and> sent ks = flat_msgs out"
proof (induction ms arbitrary: c c' out)
  case Nil
  then show ?case by (intro exI [of _ "[]"]) (simp add: selects_Nil)
next
  case (Cons m ms)
  obtain c1 bs where b: "(if rm_thinking m = [] then (foldl (\<lambda>c b. chain_add c (rm_role m) b) c (rm_blocks m), rm_blocks m)
      else admit_blocks sha t m 0 c (rm_blocks m)) = (c1, bs)" by (meson surj_pair)
  obtain out' where o: "admit_messages sha t c1 ms = (c', out')" "out = m\<lparr>rm_blocks := bs\<rparr> # out'"
    using Cons.prems by (auto simp: b split: prod.splits)
  have "c1 = chain_items c (map (\<lambda>b. (rm_role m, b)) bs)"
    using b admit_blocks_chain [of sha t m 0 c "rm_blocks m" c1 bs] by (auto simp: chain_items_role split: if_splits)
  moreover have "\<exists>ks. selects sha t c (noted m) ks \<and> sent ks = map (\<lambda>b. (rm_role m, b)) bs"
  proof (cases "rm_thinking m = []")
    case True
    with b show ?thesis using noted_plain [OF True] sent_noted [of m] by auto
  next
    case False
    with b admit_blocks_selects [of sha t m 0 c "rm_blocks m" c1 bs] show ?thesis by (simp add: noted_def)
  qed
  moreover obtain ks' where "selects sha t c1 (concat (map noted ms)) ks'" "sent ks' = flat_msgs out'" using Cons.IH [OF o(1)] by blast
  ultimately show ?case using selects_append o(2) by fastforce
qed

text \<open>
  C28: thinking goes back only where it was produced.  The blocks of an admitted request are those
  of the replayed one in order, with nothing but thinking blocks missing, and every thinking
  block sent was produced by the model the request goes to and is stored under the digest of
  exactly what the request carries ahead of it, or under its route's any-prefix digest.
\<close>

theorem thinking_sent_under_prefix:
  "\<exists>ks. subseq ks (concat (map noted msgs)) \<and> filter ordinary ks = filter ordinary (concat (map noted msgs))
     \<and> sent ks = flat_msgs (admitThinking sha t system tools msgs)
     \<and> (\<forall>xs r b tb ys. ks = xs @ (r, b, Some tb) # ys \<longrightarrow> tb_model tb = rt_model t
          \<and> tb_digest tb \<in> {sha (chain_items (newPrefixChain (rt_route t) system tools) (sent xs)), anyPrefixDigest sha (rt_route t)})"
proof -
  let ?c = "newPrefixChain (rt_route t) system tools"
  obtain c' out where o: "admit_messages sha t ?c msgs = (c', out)" by (meson surj_pair)
  obtain ks where "selects sha t ?c (concat (map noted msgs)) ks" "sent ks = flat_msgs out" using admit_messages_selects [OF o] by blast
  with o show ?thesis by (intro exI [of _ ks]) (auto simp: admitThinking_walk selects_def thinking_refused_def)
qed

definition stale_reply :: replay_message where
  "stale_reply = \<lparr>rm_role = ''assistant'', rm_blocks = [JStr ''thought'', text_block ''ok''],
     rm_thinking = [(0, \<lparr>tb_event = ''sevt_t'', tb_model = ''old'', tb_digest = [], tb_block = JStr ''thought''\<rparr>)]\<rparr>"

definition new_route :: replay_thinking where
  "new_route = \<lparr>rt_model = ''new'', rt_route = ''r'', rt_blocks = []\<rparr>"

theorem thinking_sent_under_prefix_witness:
  "flat_msgs (admitThinking (\<lambda>s. s) new_route [] [] [stale_reply]) = [(''assistant'', text_block ''ok'')]"
proof -
  let ?tb = "\<lparr>tb_event = ''sevt_t'', tb_model = ''old'', tb_digest = [], tb_block = JStr ''thought''\<rparr>"
  let ?x = "(''assistant'', JStr ''thought'', Some ?tb)" and ?y = "(''assistant'', text_block ''ok'', None)"
  have n: "concat (map noted [stale_reply]) = [?x, ?y]" by (simp add: noted_def stale_reply_def)
  from thinking_sent_under_prefix [of "[stale_reply]" "\<lambda>s. s" new_route "[]" "[]"]
  obtain ks where ks: "subseq ks [?x, ?y]" "filter ordinary ks = filter ordinary [?x, ?y]"
    "sent ks = flat_msgs (admitThinking (\<lambda>s. s) new_route [] [] [stale_reply])"
    and out: "\<forall>xs r b tb ys. ks = xs @ (r, b, Some tb) # ys \<longrightarrow> tb_model tb = rt_model new_route
      \<and> tb_digest tb \<in> {chain_items (newPrefixChain (rt_route new_route) [] []) (sent xs), anyPrefixDigest (\<lambda>s. s) (rt_route new_route)}"
    unfolding n by (elim exE conjE)
  have "?x \<notin> set ks"
  proof
    assume "?x \<in> set ks"
    then obtain xs ys where "ks = xs @ ?x # ys" by (auto simp: in_set_conv_decomp)
    with out have "tb_model ?tb = rt_model new_route" by blast
    then show False by (simp add: new_route_def)
  qed
  moreover have "ks \<in> set (subseqs [?x, ?y])" using ks(1) by (simp only: set_subseqs_eq mem_Collect_eq)
  ultimately have "ks = [?y]" using ks(2) by (auto simp: ordinary_def)
  with ks(3) show ?thesis by simp
qed

section \<open>The next request carries it back\<close>

lemma contributions_append: "contributions K pre (xs @ ys) = contributions K pre xs @ contributions K (pre @ xs) ys"
  by (induction xs arbitrary: pre) (simp_all split: option.split)

lemma contribution_env:
  "ev_type ev = EventAgentThinking \<longrightarrow> map_of kept (ev_id ev) = map_of (re_kept K) (ev_id ev) \<Longrightarrow>
   contribution (K\<lparr>re_kept := kept\<rparr>) pre ev = contribution K pre ev"
  by (cases "ev_type ev") (simp_all add: contribution_def split: option.split)

lemma contributions_env:
  "\<forall>ev \<in> set evs. map_of kept (ev_id ev) = map_of (re_kept K) (ev_id ev) \<Longrightarrow>
   contributions (K\<lparr>re_kept := kept\<rparr>) pre evs = contributions K pre evs"
  by (induction evs arbitrary: pre) (simp_all add: contribution_env)

lemma contributions_kept:
  "\<lbrakk>map ev_id ths = map tb_event kept; list_all (\<lambda>e. ev_type e = EventAgentThinking) ths;
    \<forall>tb \<in> set kept. map_of (re_kept K) (tb_event tb) = Some tb\<rbrakk> \<Longrightarrow>
   contributions K pre ths = map (\<lambda>tb. (''assistant'', [Kept tb])) kept"
proof (induction ths arbitrary: pre kept)
  case (Cons th ths)
  from Cons.prems(1) obtain tb kept' where k: "kept = tb # kept'" "ev_id th = tb_event tb" "map ev_id ths = map tb_event kept'" by (cases kept) auto
  with Cons.prems have "contribution K pre th = Some (''assistant'', [Kept tb])" by (simp add: contribution_def)
  with Cons.IH [OF k(3)] Cons.prems k show ?case by simp
qed simp

lemma foldl_add_turn_tail: "ts \<noteq> [] \<Longrightarrow> foldl add_turn (us @ ts) cs = us @ foldl add_turn ts cs"
proof (induction cs arbitrary: ts)
  case (Cons c cs)
  have "add_turn (us @ ts) c = us @ add_turn ts c" "add_turn ts c \<noteq> []" using Cons.prems by (auto simp: add_turn_def butlast_append)
  with Cons.IH show ?case by simp
qed simp

lemma foldl_add_turn_head: "\<exists>qs us. foldl add_turn [(r, ps)] cs = (r, ps @ qs) # us"
proof (induction cs arbitrary: ps)
  case (Cons c cs)
  show ?case
  proof (cases "fst c = r")
    case True
    then show ?thesis using Cons.IH [of "ps @ snd c"] by (auto simp: add_turn_def)
  next
    case False
    then have "add_turn [(r, ps)] c = [(r, ps)] @ [c]" by (simp add: add_turn_def)
    then show ?thesis using foldl_add_turn_tail [of "[c]" "[(r, ps)]" cs] by simp
  qed
qed simp

lemma foldl_add_turn_kept:
  "foldl add_turn [(r, ps)] (map (\<lambda>tb. (r, [Kept tb])) kept @ cs) = foldl add_turn [(r, ps @ map Kept kept)] cs"
  by (induction kept arbitrary: ps) (simp_all add: add_turn_def)

lemma turns_kept:
  assumes "turns cs \<noteq> []" "fst (last (turns cs)) \<noteq> ''assistant''" "kept \<noteq> []"
  shows "\<exists>qs us. turns (cs @ map (\<lambda>tb. (''assistant'', [Kept tb])) kept @ ds) = turns cs @ (''assistant'', map Kept kept @ qs) # us"
proof -
  obtain tb kept' where k: "kept = tb # kept'" using assms(3) by (cases kept) auto
  have "turns (cs @ map (\<lambda>tb. (''assistant'', [Kept tb])) kept @ ds)
      = foldl add_turn (turns cs @ [(''assistant'', [Kept tb])]) (map (\<lambda>tb. (''assistant'', [Kept tb])) kept' @ ds)"
    using assms(2) by (simp add: turns_def k add_turn_def)
  also have "\<dots> = turns cs @ foldl add_turn [(''assistant'', map Kept kept)] ds"
    using foldl_add_turn_kept [of "''assistant''" "[Kept tb]" kept' ds]
    by (simp only: foldl_add_turn_tail list.distinct not_False_eq_True k list.map append_Cons append_Nil)
  finally show ?thesis using foldl_add_turn_head [of "''assistant''" "map Kept kept" ds] by auto
qed

lemma turn_kept_enumerate: "turn_kept n (map Kept kept) = enumerate n kept"
  by (induction kept arbitrary: n) (simp_all add: piece_width_def)

lemma pieces_of_kept [simp]: "turn_blocks (map Kept kept @ qs) = map tb_block kept @ turn_blocks qs" "turn_results (map Kept kept @ qs) = turn_results qs"
  "length (open_blocks (map Kept kept)) = length kept" "turn_results (map Kept kept) = []"
  by (induction kept) simp_all

fun fits :: "(string \<Rightarrow> string) \<Rightarrow> replay_thinking \<Rightarrow> string \<Rightarrow> thinking_block list \<Rightarrow> bool" where
  "fits sha t c [] = True"
| "fits sha t c (tb # tbs) = (\<not> thinking_refused sha t c tb \<and> fits sha t (chain_add c ''assistant'' (tb_block tb)) tbs)"

lemma digest_blocks_fit:
  "list_all (\<lambda>tb. tb_model tb = rt_model t) tbs \<Longrightarrow> fits sha t c (digest_blocks sha c tbs)"
  by (induction tbs arbitrary: c) (simp_all add: thinking_refused_def)

lemma any_prefix_fit:
  "list_all (\<lambda>tb. tb_model tb = rt_model t) tbs \<Longrightarrow> fits sha t c (map (\<lambda>tb. tb\<lparr>tb_digest := anyPrefixDigest sha (rt_route t)\<rparr>) tbs)"
  by (induction tbs arbitrary: c) (simp_all add: thinking_refused_def)

lemma digestThinking_fit:
  assumes "digestThinking sha tbs req (rt_route t) anyPrefix = Some kept" "list_all (\<lambda>tb. tb_model tb = rt_model t) tbs"
    and "requestChain (rt_route t) req = Some c"
  shows "fits sha t c kept"
  using assms by (auto simp: digestThinking_def digest_blocks_fit any_prefix_fit split: if_splits)

lemma admit_blocks_fit:
  "\<lbrakk>rm_role m = ''assistant''; \<forall>j < length kept. map_of (rm_thinking m) (i + j) = Some (kept ! j); fits sha t c kept\<rbrakk> \<Longrightarrow>
   \<exists>bs'. snd (admit_blocks sha t m i c (map tb_block kept @ bs)) = map tb_block kept @ bs'"
proof (induction kept arbitrary: i c)
  case (Cons tb kept)
  have "\<forall>j < length kept. map_of (rm_thinking m) (Suc i + j) = Some (kept ! j)" using Cons.prems(2) by fastforce
  from Cons.IH [OF Cons.prems(1) this] Cons.prems(3) Cons.prems(1)
  obtain bs' where "snd (admit_blocks sha t m (Suc i) (chain_add c ''assistant'' (tb_block tb)) (map tb_block kept @ bs)) = map tb_block kept @ bs'"
    by auto
  moreover have "map_of (rm_thinking m) i = Some tb" using Cons.prems(2) by force
  ultimately show ?case using Cons.prems by (auto split: prod.splits)
qed simp

lemma thinking_refused_route [simp]: "thinking_refused sha (t\<lparr>rt_blocks := x\<rparr>) = thinking_refused sha t"
  by (simp add: thinking_refused_def fun_eq_iff)

lemma admit_blocks_route: "admit_blocks sha (t\<lparr>rt_blocks := x\<rparr>) m i c bs = admit_blocks sha t m i c bs"
  by (induction bs arbitrary: i c) (simp_all split: option.split)

lemma admit_messages_route: "admit_messages sha (t\<lparr>rt_blocks := x\<rparr>) c ms = admit_messages sha t c ms"
  by (induction ms arbitrary: c) (simp_all add: admit_blocks_route)

lemma map_of_events: "map_of (map (\<lambda>tb. (tb_event tb, tb)) kept) i = None \<longleftrightarrow> i \<notin> tb_event ` set kept"
  by (induction kept) auto

lemma next_turns:
  fixes K kept old
  defines "K' \<equiv> K\<lparr>re_kept := map (\<lambda>tb. (tb_event tb, tb)) kept @ old\<rparr>"
  assumes "turns (contributions K [] evs) \<noteq> []" "fst (last (turns (contributions K [] evs))) \<noteq> ''assistant''" "kept \<noteq> []" "re_kept K = old"
    and "distinct (map tb_event kept)" "tb_event ` set kept \<inter> ev_id ` set evs = {}"
    and "map ev_id ths = map tb_event kept" "list_all (\<lambda>e. ev_type e = EventAgentThinking) ths"
  shows "\<exists>qs us. turns (contributions K' [] (evs @ ths @ rest)) = turns (contributions K [] evs) @ (''assistant'', map Kept kept @ qs) # us
    \<and> turn_results qs = []"
proof -
  have new: "map_of (map (\<lambda>tb. (tb_event tb, tb)) kept) (tb_event tb) = Some tb" if "tb \<in> set kept" for tb
    using that assms(6) by (intro map_of_is_SomeI) (simp_all add: comp_def)
  have "contributions K' [] evs = contributions K [] evs"
    unfolding K'_def
  proof (rule contributions_env, rule ballI)
    fix ev assume "ev \<in> set evs"
    with assms(7) have "map_of (map (\<lambda>tb. (tb_event tb, tb)) kept) (ev_id ev) = None" unfolding map_of_events by blast
    then show "map_of (map (\<lambda>tb. (tb_event tb, tb)) kept @ old) (ev_id ev) = map_of (re_kept K) (ev_id ev)"
      by (simp add: map_add_def assms(5))
  qed
  moreover have "contributions K' evs ths = map (\<lambda>tb. (''assistant'', [Kept tb])) kept"
    by (rule contributions_kept [OF assms(8,9)]) (simp add: K'_def new map_add_Some_iff)
  ultimately have cs: "contributions K' [] (evs @ ths @ rest)
      = contributions K [] evs @ map (\<lambda>tb. (''assistant'', [Kept tb])) kept @ contributions K' (evs @ ths) rest"
    by (simp add: contributions_append)
  from turns_kept [OF assms(2-4), of "contributions K' (evs @ ths) rest", folded cs] obtain qs us where
    ts: "turns (contributions K' [] (evs @ ths @ rest)) = turns (contributions K [] evs) @ (''assistant'', map Kept kept @ qs) # us" by blast
  moreover have "turn_results qs = []" using turns_plain [of K' "[]" "evs @ ths @ rest"] unfolding ts by (simp add: user_plain_def)
  ultimately show ?thesis by blast
qed

lemma map_of_enumerate: "j < length kept \<Longrightarrow> map_of (enumerate 0 kept) j = Some (kept ! j)"
  using map_of_zip_nth [of "[0..<length kept]" kept j] by (simp add: enumerate_eq_zip)

lemma message_of_update: "message_of (m\<lparr>rm_blocks := bs\<rparr>) = \<lparr>ms_role = rm_role m, ms_content = JArr bs\<rparr>"
  by (simp add: message_of_def)

lemma admitThinking_extends:
  assumes "rm_role m = ''assistant''" "rm_blocks m = map tb_block kept @ bs" "rm_thinking m = enumerate 0 kept @ ts" "kept \<noteq> []"
    and "fits sha t (chain_items (newPrefixChain (rt_route t) system tools) (flat_msgs (admitThinking sha t system tools ms))) kept"
  shows "\<exists>bs' out. admitThinking sha (t\<lparr>rt_blocks := x\<rparr>) system tools (ms @ m # ns)
    = admitThinking sha t system tools ms @ m\<lparr>rm_blocks := map tb_block kept @ bs'\<rparr> # out"
proof -
  let ?c = "newPrefixChain (rt_route t) system tools"
  obtain c1 out1 where o: "admit_messages sha t ?c ms = (c1, out1)" by (meson surj_pair)
  have "fits sha t c1 kept" using assms(5) admit_messages_chain [OF o] o by (simp add: admitThinking_walk)
  moreover have "\<forall>j < length kept. map_of (rm_thinking m) (0 + j) = Some (kept ! j)"
    unfolding assms(3) map_of_append by (simp add: map_add_Some_iff map_of_enumerate)
  ultimately obtain bs' where "snd (admit_blocks sha t m 0 c1 (map tb_block kept @ bs)) = map tb_block kept @ bs'"
    using admit_blocks_fit [OF assms(1)] by blast
  moreover have "rm_thinking m \<noteq> []" using assms(3,4) by (cases kept) auto
  ultimately show ?thesis using o assms(2)
    by (auto simp: admitThinking_walk admit_messages_route admit_blocks_route admit_messages_append split: prod.splits)
qed

text \<open>
  C27: a response's thinking is replayed in full by the next request.  Let a request end in a user
  turn, let \<^verbatim>\<open>digestThinking\<close> keep blocks of its response, all of the request's model, and let
  the log go on with the thinking rows of these blocks and rows that leave the system prompt
  alone.  Then the later request starts with the messages of the earlier one, unchanged, and its
  next message is the assistant's, headed by every kept block in order.
\<close>

theorem thinking_replays:
  assumes b: "buildRequest sha sid system tools h sk fi re me nested t = Inr (req, w)"
    and user: "rq_messages req \<noteq> []" "ms_role (last (rq_messages req)) = ''user''"
    and d: "digestThinking sha tbs req (rt_route t) anyPrefix = Some kept" "kept \<noteq> []" "list_all (\<lambda>tb. tb_model tb = rt_model t) tbs"
    and ids: "distinct (map tb_event kept)" "set (map tb_event kept) \<inter> set (map ev_id h) = {}"
    and rows: "ConsumptionOrder [] h' = ConsumptionOrder [] h @ ths @ rest" "map ev_id ths = map tb_event kept"
      "list_all (\<lambda>e. ev_type e = EventAgentThinking) ths" "list_all (\<lambda>e. ev_type e \<noteq> EventSystemMessage) rest"
    and b': "buildRequest sha sid system tools h' sk fi re me nested (t\<lparr>rt_blocks := map (\<lambda>tb. (tb_event tb, tb)) kept @ rt_blocks t\<rparr>) = Inr (req', w')"
  shows "\<exists>bs more. rq_messages req' = rq_messages req @ \<lparr>ms_role = ''assistant'', ms_content = JArr (map tb_block kept @ bs)\<rparr> # more"
proof -
  let ?sys = "startup_system system [sk, fi, re, me]" and ?new = "map (\<lambda>tb. (tb_event tb, tb)) kept @ rt_blocks t"
  let ?K = "\<lparr>re_system = ?sys, re_sid = sid, re_kept = rt_blocks t, re_nested = nested\<rparr>"
  let ?cs = "contributions ?K [] (ConsumptionOrder [] h)" and ?full = "?sys @ foldl (add_system ?sys) [] (concat (map system_texts (ConsumptionOrder [] h)))"
  have req: "req = \<lparr>rq_system = ?full, rq_tools = tools, rq_messages = map message_of (admitThinking sha t ?full tools (turn_messages [] (turns ?cs)))\<rparr>"
    using b unfolding buildRequest_turns by (auto simp: Let_def split: option.splits)
  have chain: "requestChain (rt_route t) req = Some (chain_items (newPrefixChain (rt_route t) ?full tools)
      (flat_msgs (admitThinking sha t ?full tools (turn_messages [] (turns ?cs)))))"
    by (simp add: req requestChain_def chain_messages_flat)
  have "map ms_role (rq_messages req) = map fst (turns ?cs)"
    using roles_admitThinking [of sha t ?full tools "turn_messages [] (turns ?cs)"] by (simp add: req message_of_def comp_def)
  note roles = this
  have ne: "turns ?cs \<noteq> []" using roles user(1) by (metis map_is_Nil_conv)
  have "fst (last (turns ?cs)) = ms_role (last (rq_messages req))" using roles ne user(1) by (metis last_map)
  with ne user(2) have last: "turns ?cs \<noteq> []" "fst (last (turns ?cs)) \<noteq> ''assistant''" by simp_all
  obtain qs us where ts': "turns (contributions (?K\<lparr>re_kept := ?new\<rparr>) [] (ConsumptionOrder [] h')) = turns ?cs @ (''assistant'', map Kept kept @ qs) # us"
    and "turn_results qs = []"
    using next_turns [OF last d(2) _ ids(1) _ rows(2,3), of "rt_blocks t" rest] ids(2) unfolding rows(1) by (auto simp: set_order)
  have "concat (map system_texts ths) = []" "concat (map system_texts rest) = []"
    using rows(3,4) by (auto simp: system_texts_def list_all_iff)
  then have sys': "concat (map system_texts (ConsumptionOrder [] h')) = concat (map system_texts (ConsumptionOrder [] h))" by (simp add: rows(1))
  have req': "rq_messages req' = map message_of (admitThinking sha (t\<lparr>rt_blocks := ?new\<rparr>) ?full tools (turn_messages [] (turns ?cs @ (''assistant'', map Kept kept @ qs) # us)))"
    using b' unfolding buildRequest_turns by (auto simp: Let_def sys' ts' [simplified] split: option.splits)
  let ?t = "(''assistant'', map Kept kept @ qs)"
  let ?m = "turn_message (foldl next_answering [] (turns ?cs)) ?t" and ?ns = "turn_messages (next_answering (foldl next_answering [] (turns ?cs)) ?t) us"
  have m: "rm_role ?m = ''assistant''" "rm_blocks ?m = map tb_block kept @ turn_blocks qs" "rm_thinking ?m = enumerate 0 kept @ turn_kept (length kept) qs"
    using \<open>turn_results qs = []\<close> by (simp_all add: turn_message_def turn_kept_enumerate)
  have "fits sha t (chain_items (newPrefixChain (rt_route t) ?full tools) (flat_msgs (admitThinking sha t ?full tools (turn_messages [] (turns ?cs))))) kept"
    by (rule digestThinking_fit [OF d(1,3) chain])
  from admitThinking_extends [OF m d(2) this, of ?new ?ns] obtain bs out where
    "admitThinking sha (t\<lparr>rt_blocks := ?new\<rparr>) ?full tools (turn_messages [] (turns ?cs) @ ?m # ?ns)
     = admitThinking sha t ?full tools (turn_messages [] (turns ?cs)) @ ?m\<lparr>rm_blocks := map tb_block kept @ bs\<rparr> # out" by blast
  then have "rq_messages req' = rq_messages req @ \<lparr>ms_role = ''assistant'', ms_content = JArr (map tb_block kept @ bs)\<rparr> # map message_of out"
    unfolding req' turn_messages_append turn_messages.simps by (simp only: req request.simps map_append list.map message_of_update m(1))
  then show ?thesis by blast
qed

definition demo_asked :: "event list" where
  "demo_asked = [demo_span ''m1'' 1 EventUserMessage (JObj [(''content'', JStr ''go'')])]"

definition demo_thought :: thinking_block where
  "demo_thought = \<lparr>tb_event = ''th1'', tb_model = ''model'', tb_digest = [], tb_block = JObj [(''type'', JStr ''thinking'')]\<rparr>"

definition demo_reply :: "event list" where
  "demo_reply = [demo_span ''th1'' 2 EventAgentThinking (JObj []), demo_span ''a1'' 3 EventAgentMessage (JObj [(''content'', JStr ''ok'')])]"

definition demo_to :: replay_thinking where
  "demo_to = \<lparr>rt_model = ''model'', rt_route = ''route'', rt_blocks = []\<rparr>"

abbreviation demo_build :: "event list \<Rightarrow> replay_thinking \<Rightarrow> replay_error + request \<times> nat" where
  "demo_build rows t \<equiv> buildRequest (\<lambda>s. s) ''sesn_1'' [] [] rows [] [] [] [] Map.empty t"

lemma demo_asked_order: "ConsumptionOrder [] demo_asked = demo_asked" "ConsumptionOrder [] (demo_asked @ demo_reply) = demo_asked @ demo_reply"
  by (simp_all add: ConsumptionOrder_def demo_asked_def demo_reply_def demo_span_def Push_def Let_def windowOf_def held_of_def new_orderer_def
      ConsumedInput_def consumed_inputs_def Flush_def)

lemma demo_asked_ok: "first_error demo_asked = None" "first_error (demo_asked @ demo_reply) = None"
  by (simp_all add: demo_asked_def demo_reply_def demo_span_def first_error_def row_error_def row_fields_def replay_eval)

theorem thinking_replays_witness:
  "\<exists>req kept req' w bs more. demo_build demo_asked demo_to = Inr (req, 1)
     \<and> digestThinking (\<lambda>s. s) [demo_thought] req ''route'' False = Some kept \<and> map tb_block kept = [JObj [(''type'', JStr ''thinking'')]]
     \<and> demo_build (demo_asked @ demo_reply) (demo_to\<lparr>rt_blocks := map (\<lambda>tb. (tb_event tb, tb)) kept @ rt_blocks demo_to\<rparr>) = Inr (req', w)
     \<and> rq_messages req' = rq_messages req @ \<lparr>ms_role = ''assistant'', ms_content = JArr (map tb_block kept @ bs)\<rparr> # more"
proof -
  have w: "Max (insert 0 (ev_seq ` set demo_asked)) = 1" by (simp add: demo_asked_def demo_span_def)
  obtain req where b: "demo_build demo_asked demo_to = Inr (req, 1)" and m: "rq_messages req = [\<lparr>ms_role = ''user'', ms_content = JArr [text_block ''go'']\<rparr>]"
    unfolding buildRequest_turns demo_asked_order
    by (simp add: demo_asked_ok w Let_def demo_to_def)
       (simp add: demo_asked_def demo_span_def contribution_def turns_def add_turn_def turn_message_def replay_eval admitThinking_def message_of_def Let_def piece_width_def)
  obtain c where c: "requestChain ''route'' req = Some c" by (simp add: requestChain_def m contentBlocks_def)
  let ?kept = "digest_blocks (\<lambda>s. s) c [demo_thought]"
  have "\<not> urlMedia req" by (simp add: urlMedia_def m text_block_def json_get_def)
  then have d: "digestThinking (\<lambda>s. s) [demo_thought] req ''route'' False = Some ?kept" by (simp add: digestThinking_def c)
  have "\<exists>req' w. demo_build (demo_asked @ demo_reply) (demo_to\<lparr>rt_blocks := map (\<lambda>tb. (tb_event tb, tb)) ?kept @ rt_blocks demo_to\<rparr>) = Inr (req', w)"
    unfolding buildRequest_turns demo_asked_order by (simp add: demo_asked_ok Let_def)
  then obtain req' w where b': "demo_build (demo_asked @ demo_reply) (demo_to\<lparr>rt_blocks := map (\<lambda>tb. (tb_event tb, tb)) ?kept @ rt_blocks demo_to\<rparr>) = Inr (req', w)"
    by blast
  have o: "ConsumptionOrder [] (demo_asked @ demo_reply) = ConsumptionOrder [] demo_asked @ take 1 demo_reply @ drop 1 demo_reply"
    by (simp only: demo_asked_order append_take_drop_id)
  have "\<exists>bs more. rq_messages req' = rq_messages req @ \<lparr>ms_role = ''assistant'', ms_content = JArr (map tb_block ?kept @ bs)\<rparr> # more"
    by (rule thinking_replays [OF b _ _ _ _ _ _ _ o _ _ _ b', where tbs = "[demo_thought]" and anyPrefix = False])
       (use d in \<open>simp_all add: m demo_to_def demo_thought_def demo_asked_def demo_reply_def demo_span_def\<close>)
  then obtain bs more where e: "rq_messages req' = rq_messages req @ \<lparr>ms_role = ''assistant'', ms_content = JArr (map tb_block ?kept @ bs)\<rparr> # more" by blast
  have k: "map tb_block ?kept = [JObj [(''type'', JStr ''thinking'')]]" by (simp add: demo_thought_def)
  show ?thesis
    by (rule exI [of _ req], rule exI [of _ ?kept], rule exI [of _ req'], rule exI [of _ w], rule exI [of _ bs], rule exI [of _ more])
       (intro conjI b d k b' e)
qed

end
