(* ===== verification/Turn_Stream.thy ===== *)
theory Turn_Stream
  imports Thinking Ordered_Tools
begin

text \<open>
  \<^verbatim>\<open>internal/brain/stream.go\<close>: one model response, read chunk by chunk into the material of a
  turn, and \<^verbatim>\<open>turnEvents\<close> of \<^verbatim>\<open>brain.go\<close>, which renders it as events.  The log and preview calls
  the loop makes are effects: the environment \<open>io\<close> answers each, given those before it, with
  an event id or a failure.
\<close>

section \<open>Chunks\<close>

text \<open>
  A tool's input is raw text.  What the code can tell of it is how \<^verbatim>\<open>json.Decoder\<close> reads it:
  nothing at all, a value cut short (or only blanks), with whether it starts with something
  other than an object, malformed text, a value with something behind it, or one value.
\<close>

datatype raw_input = RawEmpty | RawCut bool | RawBad | RawTrailing json | RawValue json

record tool_use =
  tu_name :: string
  tu_input :: raw_input

datatype chunk =
    ThinkingDelta int string
  | ThinkingSignature int string
  | RedactedThinking int string
  | TextDelta int string
  | ToolUse int tool_use
  | Done string "model_usage option" bool

definition SanitizeText :: "string \<Rightarrow> string" where
  "SanitizeText s = filter (\<lambda>c. c \<noteq> CHR 0x00) s"

definition CutOff :: "string \<Rightarrow> bool" where
  "CutOff stopReason \<longleftrightarrow> stopReason = ''max_tokens'' \<or> stopReason = ''model_context_window_exceeded''"

definition StopNote :: "string \<Rightarrow> model_usage option \<Rightarrow> string" where
  "StopNote reason usage =
     (if reason = [] then ''no stop reason''
      else case usage of None \<Rightarrow> ''stop_reason '' @ reason
           | Some u \<Rightarrow> ''stop_reason '' @ reason @ '', '' @ dec_int (sint (m_output u)) @ '' output tokens'')"

definition generated :: "chunk \<Rightarrow> int \<Rightarrow> bool" where
  "generated c lastTool = (case c of
     Done _ _ _ \<Rightarrow> False
   | TextDelta _ t \<Rightarrow> SanitizeText t \<noteq> []
   | ThinkingDelta _ t \<Rightarrow> SanitizeText t \<noteq> []
   | ThinkingSignature i s \<Rightarrow> s \<noteq> [] \<and> lastTool < i
   | _ \<Rightarrow> True)"

section \<open>Tool input\<close>

text \<open>A decoded object is a Go map: a later duplicate key replaces an earlier one.\<close>

fun last_wins :: "(string \<times> 'v) list \<Rightarrow> (string \<times> 'v) list" where
  "last_wins [] = []"
| "last_wins ((k, v) # kvs) = (if k \<in> fst ` set kvs then last_wins kvs else (k, v) # last_wins kvs)"

definition gather :: "(string \<times> 'v option) list \<Rightarrow> (string \<times> 'v) list option" where
  "gather kvs = (if list_all (\<lambda>(k, v). v \<noteq> None) kvs \<and> distinct (map (SanitizeText \<circ> fst) kvs)
     then Some (map (\<lambda>(k, v). (SanitizeText k, the v)) kvs) else None)"
  \<comment> \<open>None also when two keys collide once their NULs are gone\<close>

fun stripValue :: "json \<Rightarrow> json option" where
  "stripValue (JStr s) = Some (JStr (SanitizeText s))"
| "stripValue (JObj kvs) = map_option JObj (gather (last_wins (map (\<lambda>(k, v). (k, stripValue v)) kvs)))"
| "stripValue (JArr vs) = (let rs = map stripValue vs in if list_all (\<lambda>r. r \<noteq> None) rs then Some (JArr (map the rs)) else None)"
| "stripValue v = Some v"

datatype input_error = UnexpectedEOF bool | NotAnObject | NotSingle | KeysCollide

definition normalizeToolInput :: "raw_input \<Rightarrow> input_error + json" where
  "normalizeToolInput raw = (case raw of
     RawEmpty \<Rightarrow> Inr (JObj [])
   | RawCut notObject \<Rightarrow> Inl (UnexpectedEOF notObject)
   | RawBad \<Rightarrow> Inl NotAnObject
   | RawTrailing v \<Rightarrow> (case v of JObj _ \<Rightarrow> Inl NotSingle | JNull \<Rightarrow> Inl NotSingle | _ \<Rightarrow> Inl NotAnObject)
   | RawValue v \<Rightarrow> (case v of
        JNull \<Rightarrow> Inr (JObj [])
      | JObj _ \<Rightarrow> (case stripValue v of None \<Rightarrow> Inl KeysCollide | Some o' \<Rightarrow> Inr o')
      | _ \<Rightarrow> Inl NotAnObject))"

section \<open>Reading the stream\<close>

datatype effect = StartPreview event_type | AppendThinking id | Delta nat string

datatype stream_error =
    Infra effect
  | BadTool string input_error
  | UnfinishedTool string string bool "string option"
  | StreamFailed string
  | NoStopReason
  | DigestFailed

record stream_env =
  se_io :: "effect list \<Rightarrow> effect \<Rightarrow> id option"
  se_sha :: "string \<Rightarrow> string"
  se_req :: request
  se_model :: string
  se_route :: string

record turn_result =
  tr_text :: "string list"
  tr_message :: id
  tr_uses :: "(string \<times> json) list"
  tr_cut :: bool
  tr_stop :: string
  tr_usage :: "model_usage option"
  tr_first_token :: bool
  tr_thinking :: "thinking_block list"

record stream_state =
  ss_turn :: turn_result
  ss_done :: "effect list"
  ss_open :: "id option"
  ss_index :: int
  ss_text :: string
  ss_sig :: string
  ss_redacted :: string
  ss_leading :: bool
  ss_next :: int
  ss_preview :: bool
  ss_entry :: "int \<Rightarrow> nat option"
  ss_unfinished :: "string option"
  ss_notobj :: bool
  ss_passed :: bool
  ss_last :: int

definition init_stream :: stream_state where
  "init_stream = \<lparr>ss_turn = \<lparr>tr_text = [], tr_message = [], tr_uses = [], tr_cut = False, tr_stop = [], tr_usage = None,
       tr_first_token = False, tr_thinking = []\<rparr>,
     ss_done = [], ss_open = None, ss_index = 0, ss_text = [], ss_sig = [], ss_redacted = [], ss_leading = True, ss_next = 0,
     ss_preview = False, ss_entry = Map.empty, ss_unfinished = None, ss_notobj = False, ss_passed = False, ss_last = 0\<rparr>"

definition perform :: "stream_env \<Rightarrow> effect \<Rightarrow> stream_state \<Rightarrow> stream_error + (id \<times> stream_state)" where
  "perform E e st = (case se_io E (ss_done st) e of None \<Rightarrow> Inl (Infra e) | Some i \<Rightarrow> Inr (i, st\<lparr>ss_done := ss_done st @ [e]\<rparr>))"

definition keep :: "stream_env \<Rightarrow> id \<Rightarrow> json \<Rightarrow> stream_state \<Rightarrow> stream_state" where
  "keep E i block st = st\<lparr>ss_turn := (ss_turn st)\<lparr>tr_thinking := tr_thinking (ss_turn st)
       @ [\<lparr>tb_event = i, tb_model = se_model E, tb_digest = [], tb_block = block\<rparr>]\<rparr>,
     ss_next := wrap64 (ss_index st + 1)\<rparr>"

definition thinkingBlock :: "string \<Rightarrow> string \<Rightarrow> json" where
  "thinkingBlock text sig = JObj [(''type'', JStr ''thinking''), (''thinking'', JStr text), (''signature'', JStr sig)]"

definition redactedBlock :: "string \<Rightarrow> json" where
  "redactedBlock data = JObj [(''type'', JStr ''redacted_thinking''), (''data'', JStr data)]"

definition closeThinking :: "stream_env \<Rightarrow> stream_state \<Rightarrow> stream_error + stream_state" where
  "closeThinking E st = (case ss_open st of
     None \<Rightarrow> Inr st
   | Some i \<Rightarrow> (case perform E (AppendThinking i) st of
        Inl e \<Rightarrow> Inl e
      | Inr (_, st1) \<Rightarrow>
          let st2 = st1\<lparr>ss_open := None, ss_text := [], ss_sig := [], ss_redacted := []\<rparr>
          in Inr (if \<not> ss_leading st then st2
                  else if ss_redacted st \<noteq> [] then keep E i (redactedBlock (ss_redacted st)) st2
                  else if ss_sig st \<noteq> [] then keep E i (thinkingBlock (ss_text st) (ss_sig st)) st2
                  else st2\<lparr>ss_leading := False\<rparr>)))"

definition openThinking :: "stream_env \<Rightarrow> int \<Rightarrow> stream_state \<Rightarrow> stream_error + stream_state" where
  "openThinking E index st0 =
     (case (if ss_open st0 \<noteq> None \<and> index \<noteq> ss_index st0 then closeThinking E st0 else Inr st0) of
        Inl e \<Rightarrow> Inl e
      | Inr st \<Rightarrow>
          if ss_open st \<noteq> None then Inr st
          else (case perform E (StartPreview EventAgentThinking) st of
                  Inl e \<Rightarrow> Inl e
                | Inr (i, st') \<Rightarrow> Inr (st'\<lparr>ss_leading := (ss_leading st \<and> index = ss_next st), ss_index := index, ss_open := Some i\<rparr>)))"

text \<open>The branches of the loop's switch.\<close>

definition upd_turn :: "(turn_result \<Rightarrow> turn_result) \<Rightarrow> stream_state \<Rightarrow> stream_state" where
  "upd_turn f st = st\<lparr>ss_turn := f (ss_turn st)\<rparr>"

definition mark_token :: "string \<Rightarrow> stream_state \<Rightarrow> stream_state" where
  "mark_token t st = (if SanitizeText t \<noteq> [] then upd_turn (\<lambda>r. r\<lparr>tr_first_token := True\<rparr>) st else st)"

definition on_text :: "stream_env \<Rightarrow> int \<Rightarrow> string \<Rightarrow> stream_state \<Rightarrow> stream_error + stream_state" where
  "on_text E index text0 st0 = (case closeThinking E st0 of
     Inl e \<Rightarrow> Inl e
   | Inr st1 \<Rightarrow>
       let st2 = st1\<lparr>ss_leading := False\<rparr>; text = SanitizeText text0 in
       if text = [] then Inr st2
       else let st3 = mark_token text st2 in
         (case (if ss_preview st3 then Inr st3
                else case perform E (StartPreview EventAgentMessage) st3 of
                       Inl e \<Rightarrow> Inl e
                     | Inr (i, st) \<Rightarrow> Inr (upd_turn (\<lambda>r. r\<lparr>tr_message := i\<rparr>) st\<lparr>ss_preview := True\<rparr>)) of
            Inl e \<Rightarrow> Inl e
          | Inr st4 \<Rightarrow>
              let (idx, st5) = (case ss_entry st4 index of
                    Some k \<Rightarrow> (k, st4)
                  | None \<Rightarrow> (length (tr_text (ss_turn st4)),
                      upd_turn (\<lambda>r. r\<lparr>tr_text := tr_text r @ [[]]\<rparr>) (st4\<lparr>ss_entry := (ss_entry st4)(index \<mapsto> length (tr_text (ss_turn st4)))\<rparr>)));
                  st6 = upd_turn (\<lambda>r. r\<lparr>tr_text := (tr_text r)[idx := tr_text r ! idx @ text]\<rparr>) st5
              in (case perform E (Delta idx text) st6 of Inl e \<Rightarrow> Inl e | Inr (_, st) \<Rightarrow> Inr st)))"

definition on_tool :: "stream_env \<Rightarrow> int \<Rightarrow> tool_use \<Rightarrow> stream_state \<Rightarrow> stream_error + stream_state" where
  "on_tool E index tu st0 = (case closeThinking E st0 of
     Inl e \<Rightarrow> Inl e
   | Inr st1 \<Rightarrow>
       let st = st1\<lparr>ss_leading := False, ss_last := index\<rparr>; name = SanitizeText (tu_name tu) in
       (case normalizeToolInput (tu_input tu) of
          Inr input \<Rightarrow> Inr (upd_turn (\<lambda>r. r\<lparr>tr_uses := tr_uses r @ [(name, input)]\<rparr>) st)
        | Inl (UnexpectedEOF nobj) \<Rightarrow> Inr (upd_turn (\<lambda>r. r\<lparr>tr_uses := tr_uses r @ [(name, JObj [])]\<rparr>) (st\<lparr>ss_unfinished := Some name, ss_notobj := nobj\<rparr>))
        | Inl e \<Rightarrow> Inl (BadTool name e)))"

definition on_done :: "stream_env \<Rightarrow> string \<Rightarrow> model_usage option \<Rightarrow> bool \<Rightarrow> stream_state \<Rightarrow> stream_error + stream_state" where
  "on_done E stop usage anyPrefix st0 = (case closeThinking E st0 of
     Inl e \<Rightarrow> Inl e
   | Inr st \<Rightarrow> (case digestThinking (se_sha E) (tr_thinking (ss_turn st)) (se_req E) (se_route E) anyPrefix of
        None \<Rightarrow> Inl DigestFailed
      | Some kept \<Rightarrow> Inr (upd_turn (\<lambda>r. r\<lparr>tr_thinking := kept, tr_stop := stop, tr_usage := usage\<rparr>) st)))"

definition on_chunk :: "stream_env \<Rightarrow> chunk \<Rightarrow> stream_state \<Rightarrow> stream_error + stream_state" where
  "on_chunk E c st = (case c of
     ThinkingDelta i t \<Rightarrow> (case openThinking E i (mark_token t st) of Inl e \<Rightarrow> Inl e | Inr st \<Rightarrow> Inr (st\<lparr>ss_text := ss_text st @ t\<rparr>))
   | ThinkingSignature i s \<Rightarrow> (case openThinking E i st of Inl e \<Rightarrow> Inl e | Inr st \<Rightarrow> Inr (st\<lparr>ss_sig := ss_sig st @ s\<rparr>))
   | RedactedThinking i d \<Rightarrow> (case closeThinking E st of Inl e \<Rightarrow> Inl e
       | Inr st \<Rightarrow> (case openThinking E i st of Inl e \<Rightarrow> Inl e | Inr st \<Rightarrow> closeThinking E (st\<lparr>ss_redacted := d\<rparr>)))
   | TextDelta i t \<Rightarrow> on_text E i t st
   | ToolUse i tu \<Rightarrow> on_tool E i tu st
   | Done stop usage anyPrefix \<Rightarrow> on_done E stop usage anyPrefix st)"

text \<open>What the loop does ahead of the switch: whether content followed the last call, and an unfinished one skips the rest.\<close>

definition is_tool :: "chunk \<Rightarrow> bool" where
  "is_tool c = (case c of ToolUse _ _ \<Rightarrow> True | _ \<Rightarrow> False)"

definition note_passed :: "chunk \<Rightarrow> stream_state \<Rightarrow> stream_state" where
  "note_passed c st =
     (if is_tool c \<and> ss_unfinished st = None then st\<lparr>ss_passed := False\<rparr>
      else if tr_uses (ss_turn st) \<noteq> [] \<and> generated c (ss_last st) then st\<lparr>ss_passed := True\<rparr> else st)"

definition stream_step :: "stream_env \<Rightarrow> stream_state \<Rightarrow> chunk \<Rightarrow> stream_error + stream_state" where
  "stream_step E st0 c =
     (let st = note_passed c st0 in
      if ss_unfinished st = None then on_chunk E c st
      else case c of
             Done stop usage _ \<Rightarrow>
               if ss_passed st \<or> \<not> CutOff stop then Inr (upd_turn (\<lambda>r. r\<lparr>tr_stop := stop, tr_usage := usage\<rparr>) st)
               else on_chunk E c st
           | _ \<Rightarrow> Inr st)"

fun stream_loop :: "stream_env \<Rightarrow> stream_state \<Rightarrow> chunk list \<Rightarrow> stream_error + stream_state" where
  "stream_loop E st [] = Inr st"
| "stream_loop E st (c # cs) = (case stream_step E st c of Inl e \<Rightarrow> Inl e | Inr st' \<Rightarrow> stream_loop E st' cs)"

definition cap_cut :: "stream_state \<Rightarrow> bool" where
  "cap_cut st \<longleftrightarrow> CutOff (tr_stop (ss_turn st)) \<and> tr_uses (ss_turn st) \<noteq> [] \<and> \<not> ss_passed st \<and> snd (last (tr_uses (ss_turn st))) = JObj []"

text \<open>The turn and the error the function returns: a turn whose input was never finished goes back with its error.\<close>

definition end_stream :: "stream_state \<Rightarrow> string option \<Rightarrow> turn_result option \<times> stream_error option" where
  "end_stream st err =
     (let turn = ss_turn st; cut = cap_cut st in
      case ss_unfinished st of
        Some name \<Rightarrow>
          if ss_notobj st \<or> \<not> cut \<or> err \<noteq> None
          then (Some turn, Some (UnfinishedTool name (StopNote (tr_stop turn) (tr_usage turn)) (ss_passed st) err))
          else (Some (turn\<lparr>tr_cut := True\<rparr>), None)
      | None \<Rightarrow>
          (case err of Some e \<Rightarrow> (None, Some (StreamFailed e))
           | None \<Rightarrow> if tr_stop turn = [] then (None, Some NoStopReason)
                     else (Some (if cut then turn\<lparr>tr_cut := True\<rparr> else turn), None)))"

definition streamTurn :: "stream_env \<Rightarrow> chunk list \<Rightarrow> string option \<Rightarrow> turn_result option \<times> stream_error option" where
  "streamTurn E cs err = (case stream_loop E init_stream cs of
     Inl e \<Rightarrow> (None, Some e) | Inr st \<Rightarrow> end_stream st err)"

section \<open>Storable input\<close>

definition nul_free :: "string \<Rightarrow> bool" where
  "nul_free s \<longleftrightarrow> CHR 0x00 \<notin> set s"

text \<open>
  A value jsonb stores: no NUL in a string or a key, no key twice, and number literals it can hold.
  Which literals those are is Postgres' to say (its numeric type has a bounded range), so it is the
  parameter \<open>nums\<close>; \<open>numbers_in\<close> says it of every number of a value.
\<close>

fun storable :: "(string \<Rightarrow> bool) \<Rightarrow> json \<Rightarrow> bool" where
  "storable nums (JStr s) = nul_free s"
| "storable nums (JNum n) = nums n"
| "storable nums (JObj kvs) = (list_all (\<lambda>(k, v). nul_free k \<and> storable nums v) kvs \<and> distinct (map fst kvs))"
| "storable nums (JArr vs) = list_all (storable nums) vs"
| "storable nums v = True"

fun numbers_in :: "(string \<Rightarrow> bool) \<Rightarrow> json \<Rightarrow> bool" where
  "numbers_in nums (JNum n) = nums n"
| "numbers_in nums (JObj kvs) = list_all (\<lambda>(k, v). numbers_in nums v) kvs"
| "numbers_in nums (JArr vs) = list_all (numbers_in nums) vs"
| "numbers_in nums v = True"

definition chunk_numbers :: "(string \<Rightarrow> bool) \<Rightarrow> chunk \<Rightarrow> bool" where
  "chunk_numbers nums c = (case c of ToolUse _ tu \<Rightarrow> (case tu_input tu of RawValue v \<Rightarrow> numbers_in nums v | _ \<Rightarrow> True) | _ \<Rightarrow> True)"

lemma nul_free_sanitize [simp]: "nul_free (SanitizeText s)"
  by (simp add: nul_free_def SanitizeText_def)

lemma last_wins_sub: "set (last_wins kvs) \<subseteq> set kvs"
  by (induction kvs rule: last_wins.induct) auto

lemma stripValue_storable: "stripValue v = Some w \<Longrightarrow> numbers_in nums v \<Longrightarrow> storable nums w"
proof (induction v arbitrary: w rule: stripValue.induct)
  case (2 kvs)
  from "2.prems" obtain out where o: "gather (last_wins (map (\<lambda>(k, v). (k, stripValue v)) kvs)) = Some out" "w = JObj out" by auto
  let ?r = "last_wins (map (\<lambda>(k, v). (k, stripValue v)) kvs)"
  have out: "out = map (\<lambda>(k, v). (SanitizeText k, the v)) ?r" "list_all (\<lambda>(k, v). v \<noteq> None) ?r" "distinct (map (SanitizeText \<circ> fst) ?r)"
    using o(1) by (auto simp: gather_def split: if_splits)
  have "storable nums u" if u: "(k, Some u) \<in> set ?r" for k u
  proof -
    from u last_wins_sub obtain v where kv: "(k, v) \<in> set kvs" "stripValue v = Some u" by fastforce
    moreover have "numbers_in nums v" using "2.prems"(2) kv(1) by (auto simp: list_all_iff)
    ultimately show ?thesis using "2.IH" by blast
  qed
  then have "list_all (\<lambda>(k, v). nul_free k \<and> storable nums v) out" using out(2) by (auto simp: out(1) list_all_iff)
  moreover have "map fst out = map (SanitizeText \<circ> fst) ?r" by (simp add: out(1) case_prod_beta comp_def)
  with out(3) have "distinct (map fst out)" by (simp only:)
  ultimately show ?case by (simp add: o(2))
next
  case (3 vs)
  then show ?case by (force simp: Let_def list_all_iff split: if_splits)
qed (auto split: if_splits)

lemma stripValue_object: "stripValue (JObj kvs) = Some w \<Longrightarrow> \<exists>out. w = JObj out"
  by auto

lemma normalize_object:
  assumes "normalizeToolInput raw = Inr v" "\<And>x. raw = RawValue x \<Longrightarrow> numbers_in nums x"
  shows "storable nums v \<and> (\<exists>kvs. v = JObj kvs)"
  using assms
  by (auto simp: normalizeToolInput_def split: raw_input.splits json.splits option.splits
      dest: stripValue_storable [of _ _ nums] stripValue_object simp del: stripValue.simps numbers_in.simps)

section \<open>The invariant of the loop\<close>

definition delta_text :: "nat \<Rightarrow> effect list \<Rightarrow> string" where
  "delta_text k es = concat (map (\<lambda>e. case e of Delta j t \<Rightarrow> if j = k then t else [] | _ \<Rightarrow> []) es)"

lemma delta_text_append [simp]: "delta_text k (es @ fs) = delta_text k es @ delta_text k fs"
  by (simp add: delta_text_def)

lemma delta_text_single [simp]: "delta_text k [Delta j t] = (if j = k then t else [])" "delta_text k [StartPreview ty] = []" "delta_text k [AppendThinking i] = []"
  "delta_text k [] = []"
  by (simp_all add: delta_text_def)

definition uses_ok :: "(string \<Rightarrow> bool) \<Rightarrow> turn_result \<Rightarrow> bool" where
  "uses_ok nums r \<longleftrightarrow> list_all (\<lambda>(n, i). nul_free n \<and> storable nums i \<and> (\<exists>kvs. i = JObj kvs)) (tr_uses r)"

definition text_ok :: "stream_state \<Rightarrow> bool" where
  "text_ok st \<longleftrightarrow> (\<forall>k < length (tr_text (ss_turn st)). tr_text (ss_turn st) ! k \<noteq> [] \<and> nul_free (tr_text (ss_turn st) ! k))
     \<and> (\<forall>k. delta_text k (ss_done st) = (if k < length (tr_text (ss_turn st)) then tr_text (ss_turn st) ! k else []))
     \<and> (\<forall>i k. ss_entry st i = Some k \<longrightarrow> k < length (tr_text (ss_turn st)))
     \<and> (ss_preview st \<longleftrightarrow> tr_text (ss_turn st) \<noteq> [])"

definition same_text :: "stream_state \<Rightarrow> stream_state \<Rightarrow> bool" where
  "same_text st st' \<longleftrightarrow> tr_text (ss_turn st') = tr_text (ss_turn st) \<and> (\<forall>k. delta_text k (ss_done st') = delta_text k (ss_done st))
     \<and> ss_entry st' = ss_entry st \<and> ss_preview st' = ss_preview st \<and> tr_uses (ss_turn st') = tr_uses (ss_turn st)"

lemma same_text_ok: "same_text st st' \<Longrightarrow> text_ok st \<Longrightarrow> text_ok st'"
  by (simp add: same_text_def text_ok_def)

lemma same_text_trans: "same_text a b \<Longrightarrow> same_text b c \<Longrightarrow> same_text a c"
  by (simp add: same_text_def)

lemma same_text_refl [simp]: "same_text st st"
  by (simp add: same_text_def)

lemma closeThinking_text: "closeThinking E st = Inr st' \<Longrightarrow> same_text st st'"
  by (auto simp: closeThinking_def perform_def keep_def same_text_def Let_def split: option.splits prod.splits sum.splits if_splits)

lemma openThinking_text: "openThinking E i st = Inr st' \<Longrightarrow> same_text st st'"
  using closeThinking_text [of E st]
  by (auto simp: openThinking_def perform_def same_text_def split: option.splits prod.splits sum.splits if_splits)

lemma mark_token_text [simp]: "same_text st (mark_token t st)"
  by (simp add: mark_token_def upd_turn_def same_text_def)

lemma mark_token_sel [simp]: "tr_text (ss_turn (mark_token t st)) = tr_text (ss_turn st)" "ss_done (mark_token t st) = ss_done st"
  "ss_entry (mark_token t st) = ss_entry st" "ss_preview (mark_token t st) = ss_preview st" "tr_uses (ss_turn (mark_token t st)) = tr_uses (ss_turn st)"
  by (simp_all add: mark_token_def upd_turn_def)

lemma text_ok_delta:
  assumes "text_ok st" "k < length (tr_text (ss_turn st))" "t \<noteq> []" "nul_free t" "tr_text (ss_turn st') = (tr_text (ss_turn st))[k := tr_text (ss_turn st) ! k @ t]"
    and "\<forall>j. delta_text j (ss_done st') = delta_text j (ss_done st) @ (if j = k then t else [])" "ss_entry st' = ss_entry st" "ss_preview st'"
  shows "text_ok st'"
  using assms unfolding text_ok_def by (auto simp: nth_list_update nul_free_def)

lemma text_ok_first:
  assumes "text_ok st" "t \<noteq> []" "nul_free t" "tr_text (ss_turn st') = tr_text (ss_turn st) @ [t]"
    and "\<forall>j. delta_text j (ss_done st') = delta_text j (ss_done st) @ (if j = length (tr_text (ss_turn st)) then t else [])"
    and "ss_entry st' = (ss_entry st)(i \<mapsto> length (tr_text (ss_turn st)))" "ss_preview st'"
  shows "text_ok st'"
  using assms unfolding text_ok_def by (auto simp: nth_append less_Suc_eq)

lemma on_text_ok:
  assumes "on_text E i t st = Inr st'" "text_ok st"
  shows "text_ok st' \<and> tr_uses (ss_turn st') = tr_uses (ss_turn st)"
proof -
  obtain st1 where c: "closeThinking E st = Inr st1" using assms(1) by (auto simp: on_text_def split: sum.splits)
  have t1: "text_ok st1" "tr_uses (ss_turn st1) = tr_uses (ss_turn st)"
    using closeThinking_text [OF c] assms(2) by (auto simp: same_text_def intro: same_text_ok [OF closeThinking_text [OF c]])
  show ?thesis
  proof (cases "SanitizeText t = []")
    case True
    with assms(1) c have "st' = st1\<lparr>ss_leading := False\<rparr>" by (simp add: on_text_def)
    with t1 show ?thesis by (simp add: text_ok_def)
  next
    case False
    let ?t = "SanitizeText t" and ?st3 = "mark_token (SanitizeText t) (st1\<lparr>ss_leading := False\<rparr>)"
    obtain st4 where p: "(if ss_preview ?st3 then Inr ?st3 else case perform E (StartPreview EventAgentMessage) ?st3 of Inl e \<Rightarrow> Inl e
        | Inr (i, st) \<Rightarrow> Inr (upd_turn (\<lambda>r. r\<lparr>tr_message := i\<rparr>) st\<lparr>ss_preview := True\<rparr>)) = Inr st4"
      using assms(1) c False by (auto simp: on_text_def Let_def split: sum.splits)
    then have s4: "tr_text (ss_turn st4) = tr_text (ss_turn st1)" "tr_uses (ss_turn st4) = tr_uses (ss_turn st1)" "ss_entry st4 = ss_entry st1" "ss_preview st4"
      "\<forall>k. delta_text k (ss_done st4) = delta_text k (ss_done st1)"
      by (auto simp: perform_def upd_turn_def split: if_splits sum.splits option.splits prod.splits)
    show ?thesis
    proof (cases "ss_entry st4 i")
      case (Some k)
      have k: "k < length (tr_text (ss_turn st1))" using Some s4 t1(1) by (auto simp: text_ok_def)
      from assms(1) c False p Some have "tr_text (ss_turn st') = (tr_text (ss_turn st1))[k := tr_text (ss_turn st1) ! k @ ?t]"
        "\<forall>j. delta_text j (ss_done st') = delta_text j (ss_done st1) @ (if j = k then ?t else [])" "ss_entry st' = ss_entry st1" "ss_preview st'"
        "tr_uses (ss_turn st') = tr_uses (ss_turn st1)"
        by (auto simp: on_text_def perform_def upd_turn_def Let_def s4 split: option.splits)
      with text_ok_delta [OF t1(1) k False] t1(2) show ?thesis by simp
    next
      case None
      from assms(1) c False p None have "tr_text (ss_turn st') = tr_text (ss_turn st1) @ [?t]"
        "\<forall>j. delta_text j (ss_done st') = delta_text j (ss_done st1) @ (if j = length (tr_text (ss_turn st1)) then ?t else [])"
        "ss_entry st' = (ss_entry st1)(i \<mapsto> length (tr_text (ss_turn st1)))" "ss_preview st'" "tr_uses (ss_turn st') = tr_uses (ss_turn st1)"
        by (auto simp: on_text_def perform_def upd_turn_def Let_def s4 list_update_append split: option.splits)
      with text_ok_first [OF t1(1) False] t1(2) show ?thesis by simp
    qed
  qed
qed

definition stream_inv :: "(string \<Rightarrow> bool) \<Rightarrow> stream_state \<Rightarrow> bool" where
  "stream_inv nums st \<longleftrightarrow> text_ok st \<and> uses_ok nums (ss_turn st)"

lemma same_text_inv: "same_text st st' \<Longrightarrow> stream_inv nums st \<Longrightarrow> stream_inv nums st'"
  by (auto simp: stream_inv_def uses_ok_def same_text_def intro: same_text_ok [unfolded same_text_def])

lemma on_tool_inv:
  assumes "on_tool E i tu st = Inr st'" "stream_inv nums st" "chunk_numbers nums (ToolUse i tu)"
  shows "stream_inv nums st'"
proof -
  obtain st1 where c: "closeThinking E st = Inr st1" using assms(1) by (auto simp: on_tool_def split: sum.splits)
  have i1: "stream_inv nums st1" by (rule same_text_inv [OF closeThinking_text [OF c] assms(2)])
  have n: "numbers_in nums x" if "tu_input tu = RawValue x" for x
    using assms(3) that by (simp add: chunk_numbers_def)
  have "\<exists>input. tr_uses (ss_turn st') = tr_uses (ss_turn st1) @ [(SanitizeText (tu_name tu), input)] \<and> storable nums input \<and> (\<exists>kvs. input = JObj kvs)"
    using assms(1) c normalize_object [OF _ n] by (auto simp: on_tool_def upd_turn_def Let_def split: sum.splits input_error.splits)
  moreover have "tr_text (ss_turn st') = tr_text (ss_turn st1)" "ss_done st' = ss_done st1" "ss_entry st' = ss_entry st1" "ss_preview st' = ss_preview st1"
    using assms(1) c by (auto simp: on_tool_def upd_turn_def Let_def split: sum.splits input_error.splits)
  ultimately show ?thesis using i1 by (auto simp: stream_inv_def uses_ok_def text_ok_def)
qed

lemma on_chunk_inv:
  assumes "on_chunk E c st = Inr st'" "stream_inv nums st" "chunk_numbers nums c"
  shows "stream_inv nums st'"
proof (cases c)
  case (ThinkingDelta i t)
  with assms(1) obtain st1 where o: "openThinking E i (mark_token t st) = Inr st1" "st' = st1\<lparr>ss_text := ss_text st1 @ t\<rparr>"
    by (auto simp: on_chunk_def split: sum.splits)
  have "same_text st st'" using same_text_trans [OF mark_token_text openThinking_text [OF o(1)]] by (simp add: o(2) same_text_def)
  then show ?thesis by (rule same_text_inv) (rule assms(2))
next
  case (ThinkingSignature i s)
  with assms(1) obtain st1 where o: "openThinking E i st = Inr st1" "st' = st1\<lparr>ss_sig := ss_sig st1 @ s\<rparr>"
    by (auto simp: on_chunk_def split: sum.splits)
  have "same_text st st'" using openThinking_text [OF o(1)] by (simp add: o(2) same_text_def)
  then show ?thesis by (rule same_text_inv) (rule assms(2))
next
  case (RedactedThinking i d)
  with assms(1) obtain st1 st2 where o: "closeThinking E st = Inr st1" "openThinking E i st1 = Inr st2" "closeThinking E (st2\<lparr>ss_redacted := d\<rparr>) = Inr st'"
    by (auto simp: on_chunk_def split: sum.splits)
  have "same_text st st'"
    using same_text_trans [OF closeThinking_text [OF o(1)] openThinking_text [OF o(2)]] closeThinking_text [OF o(3)] by (simp add: same_text_def)
  then show ?thesis by (rule same_text_inv) (rule assms(2))
next
  case (TextDelta i t)
  with assms(1,2) on_text_ok [of E i t st st'] show ?thesis by (simp add: on_chunk_def stream_inv_def uses_ok_def)
next
  case (ToolUse i tu)
  with assms on_tool_inv show ?thesis by (simp add: on_chunk_def)
next
  case (Done stop usage anyPrefix)
  with assms(1) obtain st1 kept where o: "closeThinking E st = Inr st1" "st' = upd_turn (\<lambda>r. r\<lparr>tr_thinking := kept, tr_stop := stop, tr_usage := usage\<rparr>) st1"
    by (auto simp: on_chunk_def on_done_def split: sum.splits option.splits)
  have "same_text st st'" using closeThinking_text [OF o(1)] by (simp add: o(2) upd_turn_def same_text_def)
  then show ?thesis by (rule same_text_inv) (rule assms(2))
qed

lemma note_passed_inv: "stream_inv nums st \<Longrightarrow> stream_inv nums (note_passed c st)"
  by (rule same_text_inv) (simp_all add: note_passed_def same_text_def)

lemma note_passed_unfinished [simp]: "ss_unfinished (note_passed c st) = ss_unfinished st"
  by (simp add: note_passed_def)

lemma stream_step_cases:
  assumes "stream_step E st c = Inr st'"
  obtains (switch) "on_chunk E c (note_passed c st) = Inr st'" "ss_unfinished st = None \<or> (\<exists>stop usage a. c = Done stop usage a \<and> CutOff stop)"
  | (skip) "st' = note_passed c st" "ss_unfinished st \<noteq> None" "\<forall>stop usage a. c \<noteq> Done stop usage a"
  | (over) stop usage a where "c = Done stop usage a" "st' = upd_turn (\<lambda>r. r\<lparr>tr_stop := stop, tr_usage := usage\<rparr>) (note_passed c st)"
      "ss_unfinished st \<noteq> None" "ss_passed (note_passed c st) \<or> \<not> CutOff stop"
proof (cases "ss_unfinished st = None")
  case True
  with assms switch show thesis by (simp add: stream_step_def Let_def)
next
  case False
  show thesis
  proof (cases c)
    case (Done stop usage a)
    show thesis
    proof (cases "ss_passed (note_passed c st) \<or> \<not> CutOff stop")
      case True
      with assms Done False have "st' = upd_turn (\<lambda>r. r\<lparr>tr_stop := stop, tr_usage := usage\<rparr>) (note_passed c st)"
        by (simp add: stream_step_def Let_def split: if_splits)
      from over [OF Done this False True] show thesis .
    next
      case F: False
      with assms Done False switch show thesis by (simp add: stream_step_def Let_def)
    qed
  qed (use assms False skip in \<open>simp_all add: stream_step_def Let_def\<close>)
qed

lemma stream_step_inv: "stream_step E st c = Inr st' \<Longrightarrow> stream_inv nums st \<Longrightarrow> chunk_numbers nums c \<Longrightarrow> stream_inv nums st'"
proof (erule stream_step_cases)
  fix stop usage a
  assume "st' = upd_turn (\<lambda>r. r\<lparr>tr_stop := stop, tr_usage := usage\<rparr>) (note_passed c st)" "stream_inv nums st"
  then show "stream_inv nums st'" using note_passed_inv [of nums st c] by (simp add: upd_turn_def stream_inv_def text_ok_def uses_ok_def)
qed (auto intro: on_chunk_inv note_passed_inv)

lemma stream_loop_inv: "stream_loop E st cs = Inr st' \<Longrightarrow> stream_inv nums st \<Longrightarrow> list_all (chunk_numbers nums) cs \<Longrightarrow> stream_inv nums st'"
  by (induction cs arbitrary: st) (auto split: sum.splits dest: stream_step_inv)

lemma init_stream_inv: "stream_inv nums init_stream"
  by (simp add: stream_inv_def text_ok_def uses_ok_def init_stream_def)

lemma end_stream_turn: "end_stream st err = (Some res, e) \<Longrightarrow> \<exists>b. res = (ss_turn st)\<lparr>tr_cut := b\<rparr>"
  by (auto simp: end_stream_def Let_def split: option.splits if_splits intro: exI [of _ "tr_cut (ss_turn st)"])

text \<open>
  C30: what a response puts on the log can be stored and matches what was shown of it.  Whatever the
  model streams, in a turn the loop returns every call has a name without NULs and, as its input, an
  object without NULs and repeated keys; its number literals are those the model streamed, so the
  object can be stored when \<^verbatim>\<open>jsonb\<close> can hold each of them.  Every text block is nonempty and
  without NULs, and the text of each block is the concatenation of the deltas previewed for its
  index, with none previewed past the last block.
\<close>

theorem turn_storable:
  assumes "stream_loop E init_stream cs = Inr st" "end_stream st err = (Some res, e)" "list_all (chunk_numbers nums) cs"
  shows "list_all (\<lambda>(name, input). nul_free name \<and> storable nums input \<and> (\<exists>kvs. input = JObj kvs)) (tr_uses res)
    \<and> list_all (\<lambda>t. t \<noteq> [] \<and> nul_free t) (tr_text res)
    \<and> (\<forall>k. delta_text k (ss_done st) = (if k < length (tr_text res) then tr_text res ! k else []))"
proof -
  have inv: "text_ok st" "uses_ok nums (ss_turn st)" using stream_loop_inv [OF assms(1) init_stream_inv assms(3)] by (simp_all add: stream_inv_def)
  obtain b where "res = (ss_turn st)\<lparr>tr_cut := b\<rparr>" using end_stream_turn [OF assms(2)] by blast
  then have r: "tr_uses res = tr_uses (ss_turn st)" "tr_text res = tr_text (ss_turn st)" by simp_all
  show ?thesis using inv unfolding r uses_ok_def text_ok_def list_all_length [of _ "tr_text (ss_turn st)"] by blast
qed

text \<open>
  A literal \<^verbatim>\<open>jsonb\<close> cannot hold (\<^verbatim>\<open>1e200000\<close> overflows its numeric type) goes through
  untouched, and the input that carries it is not storable.
\<close>

theorem number_passes_untouched:
  assumes "\<not> nums n"
  shows "\<exists>v. normalizeToolInput (RawValue (JObj [(''n'', JNum n)])) = Inr v \<and> \<not> storable nums v"
  using assms by (simp add: normalizeToolInput_def gather_def)

section \<open>A call the output cap cut off\<close>

definition cut_input :: "chunk \<Rightarrow> bool" where
  "cut_input c = (case c of ToolUse _ tu \<Rightarrow> (case tu_input tu of RawCut _ \<Rightarrow> True | _ \<Rightarrow> False) | _ \<Rightarrow> False)"

definition same_calls :: "stream_state \<Rightarrow> stream_state \<Rightarrow> bool" where
  "same_calls st st' \<longleftrightarrow> ss_unfinished st' = ss_unfinished st \<and> ss_notobj st' = ss_notobj st \<and> tr_uses (ss_turn st') = tr_uses (ss_turn st)
     \<and> ss_last st' = ss_last st \<and> ss_passed st' = ss_passed st"

lemma same_calls_trans: "same_calls a b \<Longrightarrow> same_calls b c \<Longrightarrow> same_calls a c"
  by (simp add: same_calls_def)

lemma closeThinking_calls: "closeThinking E st = Inr st' \<Longrightarrow> same_calls st st'"
  by (auto simp: closeThinking_def perform_def keep_def same_calls_def Let_def split: option.splits prod.splits sum.splits if_splits)

lemma openThinking_calls: "openThinking E i st = Inr st' \<Longrightarrow> same_calls st st'"
  using closeThinking_calls [of E st]
  by (auto simp: openThinking_def perform_def same_calls_def split: option.splits prod.splits sum.splits if_splits)

lemma on_text_unfinished: "on_text E i t st = Inr st' \<Longrightarrow> ss_unfinished st' = ss_unfinished st"
  using closeThinking_calls [of E st]
  by (auto simp: on_text_def perform_def same_calls_def upd_turn_def mark_token_def Let_def split: option.splits prod.splits sum.splits if_splits)

lemma on_chunk_unfinished:
  assumes "on_chunk E c st = Inr st'" "\<not> cut_input c" "ss_unfinished st = None"
  shows "ss_unfinished st' = None"
proof (cases c)
  case (ToolUse i tu)
  then show ?thesis using assms closeThinking_calls [of E st]
    by (auto simp: on_chunk_def on_tool_def same_calls_def upd_turn_def cut_input_def normalizeToolInput_def Let_def
        split: sum.splits input_error.splits raw_input.splits json.splits option.splits)
next
  case (TextDelta i t)
  with assms on_text_unfinished show ?thesis by (simp add: on_chunk_def)
qed (use assms closeThinking_calls [of E] openThinking_calls [of E] in
     \<open>force simp: on_chunk_def on_done_def same_calls_def upd_turn_def mark_token_def split: sum.splits option.splits if_splits\<close>)+

lemma stream_loop_unfinished:
  "stream_loop E st cs = Inr st' \<Longrightarrow> list_all (\<lambda>c. \<not> cut_input c) cs \<Longrightarrow> ss_unfinished st = None \<Longrightarrow> ss_unfinished st' = None"
  by (induction cs arbitrary: st) (auto simp: stream_step_def Let_def split: sum.splits dest: on_chunk_unfinished)

lemma stream_loop_append: "stream_loop E st (xs @ ys) = (case stream_loop E st xs of Inl e \<Rightarrow> Inl e | Inr st' \<Rightarrow> stream_loop E st' ys)"
  by (induction xs arbitrary: st) (auto split: sum.split)

lemma stream_step_over:
  assumes "stream_step E st c = Inr st'" "ss_unfinished st \<noteq> None" "tr_uses (ss_turn st) \<noteq> []"
  shows "ss_unfinished st' = ss_unfinished st \<and> ss_notobj st' = ss_notobj st \<and> tr_uses (ss_turn st') = tr_uses (ss_turn st) \<and> ss_last st' = ss_last st
    \<and> ss_passed st' = (ss_passed st \<or> generated c (ss_last st))"
  using assms(1)
proof (cases rule: stream_step_cases)
  case switch
  with assms(2) obtain stop usage a where c: "c = Done stop usage a" by auto
  with switch obtain st1 kept where o: "closeThinking E (note_passed c st) = Inr st1" "st' = upd_turn (\<lambda>r. r\<lparr>tr_thinking := kept, tr_stop := stop, tr_usage := usage\<rparr>) st1"
    by (auto simp: on_chunk_def on_done_def split: sum.splits option.splits)
  then show ?thesis using closeThinking_calls [OF o(1)] by (simp add: same_calls_def note_passed_def upd_turn_def c generated_def is_tool_def)
next
  case skip
  with assms(2,3) show ?thesis by (simp add: note_passed_def)
next
  case (over stop usage a)
  then show ?thesis by (simp add: note_passed_def upd_turn_def generated_def is_tool_def)
qed

lemma stream_loop_over:
  "stream_loop E st cs = Inr st' \<Longrightarrow> ss_unfinished st \<noteq> None \<Longrightarrow> tr_uses (ss_turn st) \<noteq> [] \<Longrightarrow>
   ss_unfinished st' = ss_unfinished st \<and> ss_notobj st' = ss_notobj st \<and> tr_uses (ss_turn st') = tr_uses (ss_turn st)
   \<and> ss_passed st' = (ss_passed st \<or> list_ex (\<lambda>c. generated c (ss_last st)) cs)"
proof (induction cs arbitrary: st)
  case (Cons c cs)
  then obtain st1 where s: "stream_step E st c = Inr st1" "stream_loop E st1 cs = Inr st'" by (auto split: sum.splits)
  from stream_step_over [OF s(1) Cons.prems(2,3)] Cons.IH [OF s(2)] Cons.prems(2,3) show ?case by simp
qed simp

text \<open>
  C31: a call whose input never finished is never run.  If a turn succeeds although a call's input
  was cut short, the stream ended well with a stop reason that says the output cap was reached,
  the input began as an object or not at all, nothing generated followed the call, and the call
  is the last of the turn, marked as cut with an empty object for its input, so that the
  settlement answers it.  In every other case the turn fails.
\<close>

theorem cut_call_answered:
  assumes "streamTurn E (xs @ ToolUse i tu # ys) err = (Some res, None)" "tu_input tu = RawCut notObject" "list_all (\<lambda>c. \<not> cut_input c) xs"
  shows "\<not> notObject \<and> err = None \<and> tr_cut res \<and> CutOff (tr_stop res) \<and> tr_uses res \<noteq> []
    \<and> last (tr_uses res) = (SanitizeText (tu_name tu), JObj []) \<and> list_all (\<lambda>c. \<not> generated c i) ys"
proof -
  obtain st where st: "stream_loop E init_stream (xs @ ToolUse i tu # ys) = Inr st" "end_stream st err = (Some res, None)"
    using assms(1) by (auto simp: streamTurn_def split: sum.splits)
  then obtain st1 st2 where s: "stream_loop E init_stream xs = Inr st1" "stream_step E st1 (ToolUse i tu) = Inr st2" "stream_loop E st2 ys = Inr st"
    by (auto simp: stream_loop_append split: sum.splits)
  have u1: "ss_unfinished st1 = None" by (rule stream_loop_unfinished [OF s(1) assms(3)]) (simp add: init_stream_def)
  have s2: "ss_unfinished st2 = Some (SanitizeText (tu_name tu))" "ss_notobj st2 = notObject" "ss_passed st2 = False" "ss_last st2 = i"
    "last (tr_uses (ss_turn st2)) = (SanitizeText (tu_name tu), JObj [])" "tr_uses (ss_turn st2) \<noteq> []"
    using s(2) u1 assms(2) closeThinking_calls [of E "note_passed (ToolUse i tu) st1"]
    by (auto simp: stream_step_def on_chunk_def on_tool_def note_passed_def is_tool_def normalizeToolInput_def upd_turn_def same_calls_def Let_def split: sum.splits)
  from stream_loop_over [OF s(3)] s2 have o: "ss_unfinished st = Some (SanitizeText (tu_name tu))" "ss_notobj st = notObject"
    "tr_uses (ss_turn st) = tr_uses (ss_turn st2)" "ss_passed st \<longleftrightarrow> list_ex (\<lambda>c. generated c i) ys" by simp_all
  from st(2) o(1,2) have "\<not> notObject" "err = None" "cap_cut st" "res = (ss_turn st)\<lparr>tr_cut := True\<rparr>"
    by (auto simp: end_stream_def Let_def split: if_splits)
  then show ?thesis using o(3,4) s2(5,6) by (auto simp: cap_cut_def list_all_iff list_ex_iff)
qed

section \<open>The thinking a response keeps\<close>

definition appended :: "effect list \<Rightarrow> id list" where
  "appended es = concat (map (\<lambda>e. case e of AppendThinking i \<Rightarrow> [i] | _ \<Rightarrow> []) es)"

lemma appended_append [simp]: "appended (es @ fs) = appended es @ appended fs"
  by (simp add: appended_def)

lemma appended_single [simp]: "appended [AppendThinking i] = [i]" "appended [StartPreview ty] = []" "appended [Delta k t] = []" "appended [] = []"
  by (simp_all add: appended_def)

definition kept_inv :: "stream_env \<Rightarrow> stream_state \<Rightarrow> bool" where
  "kept_inv E st \<longleftrightarrow> list_all (\<lambda>tb. tb_model tb = se_model E) (tr_thinking (ss_turn st))
     \<and> prefix (map tb_event (tr_thinking (ss_turn st))) (appended (ss_done st))
     \<and> (ss_leading st \<longrightarrow> map tb_event (tr_thinking (ss_turn st)) = appended (ss_done st))"

lemma closeThinking_kept: "closeThinking E st = Inr st' \<Longrightarrow> kept_inv E st \<Longrightarrow> kept_inv E st'"
  by (auto simp: closeThinking_def perform_def keep_def kept_inv_def Let_def split: option.splits prod.splits sum.splits if_splits)

lemma openThinking_kept: "openThinking E i st = Inr st' \<Longrightarrow> kept_inv E st \<Longrightarrow> kept_inv E st'"
  using closeThinking_kept [of E st]
  by (auto simp: openThinking_def perform_def kept_inv_def split: option.splits prod.splits sum.splits if_splits)

lemma kept_inv_cong:
  "kept_inv E st \<Longrightarrow> tr_thinking (ss_turn st') = tr_thinking (ss_turn st) \<Longrightarrow> appended (ss_done st') = appended (ss_done st) \<Longrightarrow>
   (ss_leading st' \<longrightarrow> ss_leading st) \<Longrightarrow> kept_inv E st'"
  by (auto simp: kept_inv_def)

lemma on_text_kept: "on_text E i t st = Inr st' \<Longrightarrow> kept_inv E st \<Longrightarrow> kept_inv E st'"
  using closeThinking_kept [of E st]
  by (auto simp: on_text_def perform_def upd_turn_def mark_token_def Let_def kept_inv_def split: option.splits prod.splits sum.splits if_splits)

lemma on_tool_kept: "on_tool E i tu st = Inr st' \<Longrightarrow> kept_inv E st \<Longrightarrow> kept_inv E st'"
  using closeThinking_kept [of E st]
  by (auto simp: on_tool_def upd_turn_def Let_def kept_inv_def split: sum.splits input_error.splits)

definition is_done :: "chunk \<Rightarrow> bool" where
  "is_done c = (case c of Done _ _ _ \<Rightarrow> True | _ \<Rightarrow> False)"

lemma on_chunk_kept:
  assumes "on_chunk E c st = Inr st'" "kept_inv E st" "\<not> is_done c"
  shows "kept_inv E st'"
proof (cases c)
  case (ThinkingDelta i t)
  with assms(1) obtain st1 where o: "openThinking E i (mark_token t st) = Inr st1" "st' = st1\<lparr>ss_text := ss_text st1 @ t\<rparr>"
    by (auto simp: on_chunk_def split: sum.splits)
  have "kept_inv E (mark_token t st)" by (rule kept_inv_cong [OF assms(2)]) (simp_all add: mark_token_def upd_turn_def)
  from openThinking_kept [OF o(1) this] show ?thesis by (rule kept_inv_cong) (simp_all add: o(2))
next
  case (ThinkingSignature i s)
  with assms(1) obtain st1 where o: "openThinking E i st = Inr st1" "st' = st1\<lparr>ss_sig := ss_sig st1 @ s\<rparr>"
    by (auto simp: on_chunk_def split: sum.splits)
  from openThinking_kept [OF o(1) assms(2)] show ?thesis by (rule kept_inv_cong) (simp_all add: o(2))
next
  case (RedactedThinking i d)
  with assms(1) obtain st1 st2 where o: "closeThinking E st = Inr st1" "openThinking E i st1 = Inr st2" "closeThinking E (st2\<lparr>ss_redacted := d\<rparr>) = Inr st'"
    by (auto simp: on_chunk_def split: sum.splits)
  have "kept_inv E (st2\<lparr>ss_redacted := d\<rparr>)"
    by (rule kept_inv_cong [OF openThinking_kept [OF o(2) closeThinking_kept [OF o(1) assms(2)]]]) simp_all
  with closeThinking_kept [OF o(3)] show ?thesis .
next
  case (TextDelta i t)
  with assms on_text_kept show ?thesis by (simp add: on_chunk_def)
next
  case (ToolUse i tu)
  with assms on_tool_kept show ?thesis by (simp add: on_chunk_def)
next
  case (Done stop usage anyPrefix)
  with assms(3) show ?thesis by (simp add: is_done_def)
qed

lemma note_passed_kept: "kept_inv E st \<Longrightarrow> kept_inv E (note_passed c st)"
  by (erule kept_inv_cong) (simp_all add: note_passed_def)

lemma stream_loop_kept:
  "stream_loop E st cs = Inr st' \<Longrightarrow> kept_inv E st \<Longrightarrow> list_all (\<lambda>c. \<not> is_done c) cs \<Longrightarrow> kept_inv E st'"
proof (induction cs arbitrary: st)
  case (Cons c cs)
  then obtain st1 where s: "stream_step E st c = Inr st1" "stream_loop E st1 cs = Inr st'" by (auto split: sum.splits)
  from s(1) have "kept_inv E st1"
    by (cases rule: stream_step_cases) (use Cons.prems in \<open>auto simp: is_done_def intro: note_passed_kept on_chunk_kept\<close>)
  with Cons s(2) show ?case by simp
qed simp

text \<open>
  A finished turn stores, under the digests of its request, thinking of the request's model
  only, and the stored blocks belong to the first thinking rows the turn put on the log, in the
  order of the log and without a gap.  Nothing that followed text, a call or an unsigned block is
  stored, so replay puts each block back where it was produced.
\<close>

theorem kept_thinking_leads:
  assumes "streamTurn E (cs @ [Done stop usage anyPrefix]) err = (Some res, None)" "list_all (\<lambda>c. \<not> is_done c) cs"
  shows "\<exists>st tbs. stream_loop E init_stream (cs @ [Done stop usage anyPrefix]) = Inr st
    \<and> digestThinking (se_sha E) tbs (se_req E) (se_route E) anyPrefix = Some (tr_thinking res)
    \<and> list_all (\<lambda>tb. tb_model tb = se_model E) tbs \<and> prefix (map tb_event tbs) (appended (ss_done st))"
proof -
  obtain st where st: "stream_loop E init_stream (cs @ [Done stop usage anyPrefix]) = Inr st" "end_stream st err = (Some res, None)"
    using assms(1) by (auto simp: streamTurn_def split: sum.splits)
  then obtain st1 where s: "stream_loop E init_stream cs = Inr st1" "stream_step E st1 (Done stop usage anyPrefix) = Inr st"
    by (auto simp: stream_loop_append split: sum.splits)
  have k1: "kept_inv E (note_passed (Done stop usage anyPrefix) st1)"
    by (rule note_passed_kept, rule stream_loop_kept [OF s(1) _ assms(2)]) (simp add: kept_inv_def init_stream_def)
  have r: "tr_thinking res = tr_thinking (ss_turn st)" using end_stream_turn [OF st(2)] by auto
  from s(2) show ?thesis
  proof (cases rule: stream_step_cases)
    case switch
    then obtain st2 where c: "closeThinking E (note_passed (Done stop usage anyPrefix) st1) = Inr st2"
      "digestThinking (se_sha E) (tr_thinking (ss_turn st2)) (se_req E) (se_route E) anyPrefix = Some (tr_thinking (ss_turn st))" "ss_done st = ss_done st2"
      by (auto simp: on_chunk_def on_done_def upd_turn_def split: sum.splits option.splits)
    from closeThinking_kept [OF c(1) k1] c st(1) r show ?thesis by (auto simp: kept_inv_def)
  next
    case skip
    then show ?thesis by blast
  next
    case (over stop' usage' a)
    then have "\<not> cap_cut st" by (auto simp: cap_cut_def upd_turn_def note_passed_def)
    with over st(2) show ?thesis by (auto simp: end_stream_def upd_turn_def Let_def note_passed_def split: option.splits if_splits)
  qed
qed

section \<open>A response\<close>

definition demo_stream_env :: stream_env where
  "demo_stream_env = \<lparr>se_io = (\<lambda>es e. Some (if es = [] then ''th1'' else ''ev'')), se_sha = (\<lambda>s. s), se_req = demo_request, se_model = ''model'', se_route = ''route''\<rparr>"

definition demo_chunks :: "chunk list" where
  "demo_chunks = [ThinkingDelta 0 ''why'', ThinkingSignature 0 ''sig'', TextDelta 1 ''an'', TextDelta 1 ''swer'',
     ToolUse 2 \<lparr>tu_name = ''bash'', tu_input = RawCut False\<rparr>]"

definition demo_end :: chunk where
  "demo_end = Done ''max_tokens'' None False"

lemmas stream_eval = stream_step_def note_passed_def is_tool_def on_chunk_def on_text_def on_tool_def on_done_def openThinking_def closeThinking_def
  perform_def keep_def upd_turn_def mark_token_def SanitizeText_def generated_def CutOff_def Let_def

lemma demo_chain: "\<exists>c. requestChain r demo_request = Some c"
  by (simp add: requestChain_def demo_request_def contentBlocks_def)

lemma demo_streamed:
  obtains st res where "stream_loop demo_stream_env init_stream (demo_chunks @ [demo_end]) = Inr st" "end_stream st None = (Some res, None)"
    "tr_text res = [''answer'']" "map tb_event (tr_thinking res) = [''th1'']"
    "ss_done st = [StartPreview EventAgentThinking, AppendThinking ''th1'', StartPreview EventAgentMessage, Delta 0 ''an'', Delta 0 ''swer'']"
proof -
  obtain c where c: "requestChain ''route'' demo_request = Some c" using demo_chain by blast
  have u: "\<not> urlMedia demo_request" by (simp add: urlMedia_def demo_request_def)
  have "\<exists>st. stream_loop demo_stream_env init_stream (demo_chunks @ [demo_end]) = Inr st \<and> ss_unfinished st = Some ''bash'' \<and> \<not> ss_notobj st \<and> cap_cut st
      \<and> tr_text (ss_turn st) = [''answer''] \<and> map tb_event (tr_thinking (ss_turn st)) = [''th1'']
      \<and> ss_done st = [StartPreview EventAgentThinking, AppendThinking ''th1'', StartPreview EventAgentMessage, Delta 0 ''an'', Delta 0 ''swer'']"
    by (simp add: demo_chunks_def demo_end_def demo_stream_env_def init_stream_def stream_eval normalizeToolInput_def wrap64_def
        digestThinking_def c u cap_cut_def)
  then obtain st where st: "stream_loop demo_stream_env init_stream (demo_chunks @ [demo_end]) = Inr st" "ss_unfinished st = Some ''bash''" "\<not> ss_notobj st" "cap_cut st"
    "tr_text (ss_turn st) = [''answer'']" "map tb_event (tr_thinking (ss_turn st)) = [''th1'']"
    "ss_done st = [StartPreview EventAgentThinking, AppendThinking ''th1'', StartPreview EventAgentMessage, Delta 0 ''an'', Delta 0 ''swer'']" by (elim exE conjE)
  then have "end_stream st None = (Some ((ss_turn st)\<lparr>tr_cut := True\<rparr>), None)" by (simp add: end_stream_def)
  with st show thesis by (intro that [of st "(ss_turn st)\<lparr>tr_cut := True\<rparr>"]) simp_all
qed

definition short_literal :: "string \<Rightarrow> bool" where
  "short_literal n \<longleftrightarrow> length n \<le> 16 \<and> CHR ''e'' \<notin> set n \<and> CHR ''E'' \<notin> set n"

definition demo_numbered :: "chunk list" where
  "demo_numbered = [TextDelta 0 ''sure'', ToolUse 1 \<lparr>tu_name = ''sleep'', tu_input = RawValue (JObj [(''ms'', JNum ''250'')])\<rparr>, Done ''tool_use'' None False]"

theorem turn_storable_witness:
  "\<exists>st res. stream_loop demo_stream_env init_stream demo_numbered = Inr st \<and> end_stream st None = (Some res, None)
     \<and> tr_uses res = [(''sleep'', JObj [(''ms'', JNum ''250'')])] \<and> storable short_literal (JObj [(''ms'', JNum ''250'')])
     \<and> delta_text 0 (ss_done st) = ''sure''"
proof -
  obtain c where c: "requestChain ''route'' demo_request = Some c" using demo_chain by blast
  have u: "\<not> urlMedia demo_request" by (simp add: urlMedia_def demo_request_def)
  have "\<exists>st res. stream_loop demo_stream_env init_stream demo_numbered = Inr st \<and> end_stream st None = (Some res, None)
      \<and> tr_uses res = [(''sleep'', JObj [(''ms'', JNum ''250'')])] \<and> tr_text res = [''sure'']"
    by (simp add: demo_numbered_def demo_stream_env_def init_stream_def stream_eval normalizeToolInput_def gather_def wrap64_def
        digestThinking_def c u cap_cut_def end_stream_def)
  then obtain st res where s: "stream_loop demo_stream_env init_stream demo_numbered = Inr st" "end_stream st None = (Some res, None)"
    "tr_uses res = [(''sleep'', JObj [(''ms'', JNum ''250'')])]" "tr_text res = [''sure'']" by (elim exE conjE)
  have "list_all (chunk_numbers short_literal) demo_numbered" by (simp add: demo_numbered_def chunk_numbers_def short_literal_def)
  from turn_storable [OF s(1,2) this] s show ?thesis by auto
qed

theorem cut_call_answered_witness:
  "\<exists>res. streamTurn demo_stream_env (demo_chunks @ [demo_end]) None = (Some res, None) \<and> tr_cut res \<and> last (tr_uses res) = (''bash'', JObj [])"
proof -
  obtain res where r: "streamTurn demo_stream_env (demo_chunks @ [demo_end]) None = (Some res, None)" by (rule demo_streamed) (simp add: streamTurn_def)
  have "demo_chunks @ [demo_end] = butlast demo_chunks @ ToolUse 2 \<lparr>tu_name = ''bash'', tu_input = RawCut False\<rparr> # [demo_end]" by (simp add: demo_chunks_def)
  with cut_call_answered [of demo_stream_env "butlast demo_chunks" 2 "\<lparr>tu_name = ''bash'', tu_input = RawCut False\<rparr>" "[demo_end]" None res False] r
  show ?thesis by (simp add: demo_chunks_def cut_input_def SanitizeText_def)
qed

theorem kept_thinking_leads_witness:
  "\<exists>st tbs res. stream_loop demo_stream_env init_stream (demo_chunks @ [demo_end]) = Inr st \<and> streamTurn demo_stream_env (demo_chunks @ [demo_end]) None = (Some res, None)
     \<and> digestThinking (\<lambda>s. s) tbs demo_request ''route'' False = Some (tr_thinking res) \<and> map tb_event (tr_thinking res) = [''th1'']
     \<and> prefix (map tb_event tbs) [''th1'']"
proof -
  obtain st res where s: "stream_loop demo_stream_env init_stream (demo_chunks @ [demo_end]) = Inr st" "end_stream st None = (Some res, None)"
    "map tb_event (tr_thinking res) = [''th1'']" "appended (ss_done st) = [''th1'']"
    by (rule demo_streamed) (simp add: appended_def)
  have r: "streamTurn demo_stream_env (demo_chunks @ [Done ''max_tokens'' None False]) None = (Some res, None)"
    using s by (simp add: streamTurn_def demo_end_def)
  have "list_all (\<lambda>c. \<not> is_done c) demo_chunks" by (simp add: demo_chunks_def is_done_def)
  from kept_thinking_leads [OF r this] s obtain tbs where "digestThinking (\<lambda>s. s) tbs demo_request ''route'' False = Some (tr_thinking res)"
    "prefix (map tb_event tbs) [''th1'']" by (auto simp: demo_stream_env_def demo_end_def)
  with r s show ?thesis by (auto simp: demo_end_def)
qed

end
