(* ===== verification/Turn_Events.thy ===== *)
theory Turn_Events
  imports Turn_Stream Work_Queue
begin

text \<open>
  \<^verbatim>\<open>turnEvents\<close> of \<^verbatim>\<open>internal/brain/brain.go\<close>: a finished turn as the events its settlement
  appends, with the work it schedules, the calls a client has to answer and the calls the
  settlement answers itself.  Event ids are minted by the caller's generator, one per call.
\<close>

section \<open>The built-in tools\<close>

definition IsWebTool :: "string \<Rightarrow> bool" where
  "IsWebTool name \<longleftrightarrow> name \<in> {''web_fetch'', ''web_search''}"

definition IsDelegationTool :: "string \<Rightarrow> bool" where
  "IsDelegationTool name \<longleftrightarrow> name \<in> {''create_agent'', ''send_to_agent'', ''list_agents'', ''wait_for_agents'', ''submit_result'', ''send_to_parent''}"

section \<open>Classes and work kinds\<close>

record tool_class =
  tc_kind :: event_type
  tc_policy :: string
  tc_server :: string
  tc_tool :: string
  tc_settlement :: bool
  tc_builtin :: bool

record delegated_call =
  dc_event :: id
  dc_name :: string
  dc_input :: json
  dc_unoffered :: bool
  dc_cut :: string
  dc_six :: bool

fun execRank :: "kind option \<Rightarrow> nat" where
  "execRank (Some MCPExec) = 3"
| "execRank (Some WebExec) = 2"
| "execRank (Some ToolExec) = 1"
| "execRank _ = 0"

definition escalate :: "kind option \<Rightarrow> kind option \<Rightarrow> kind option" where
  "escalate have want = (if execRank want > execRank have then want else have)"

section \<open>One call\<close>

definition inline_class :: tool_class where
  "inline_class = \<lparr>tc_kind = EventAgentToolUse, tc_policy = [], tc_server = [], tc_tool = [], tc_settlement = True, tc_builtin = False\<rparr>"

definition call_cut :: "(string \<Rightarrow> tool_class option) \<Rightarrow> turn_result \<Rightarrow> nat \<Rightarrow> string \<Rightarrow> bool" where
  "call_cut class res i name \<longleftrightarrow> class name \<noteq> None \<and> tr_cut res \<and> Suc i = length (tr_uses res)"

definition class_for :: "(string \<Rightarrow> tool_class option) \<Rightarrow> turn_result \<Rightarrow> nat \<Rightarrow> string \<Rightarrow> tool_class" where
  "class_for class res i name = (case class name of None \<Rightarrow> inline_class | Some c \<Rightarrow> if call_cut class res i name then inline_class else c)"

text \<open>The evaluated permission of a gated call; a custom tool's call carries none.\<close>

definition call_permission :: "(string \<Rightarrow> tool_class option) \<Rightarrow> turn_result \<Rightarrow> nat \<Rightarrow> string \<Rightarrow> string option" where
  "call_permission class res i name =
     (let c = class_for class res i name in
      if tc_kind c \<notin> {EventAgentToolUse, EventAgentMCPToolUse} then None
      else if class name = None \<or> call_cut class res i name then Some ''deny''
      else if tc_policy c = ''always_ask'' then Some ''ask'' else Some ''allow'')"

definition call_payload :: "(string \<Rightarrow> tool_class option) \<Rightarrow> turn_result \<Rightarrow> nat \<Rightarrow> string \<times> json \<Rightarrow> json" where
  "call_payload class res i tu =
     (let name = fst tu; c = class_for class res i name; mcp = (tc_kind c = EventAgentMCPToolUse) in
      JObj ((case call_permission class res i name of None \<Rightarrow> [] | Some p \<Rightarrow> [(''evaluated_permission'', JStr p)])
            @ [(''input'', snd tu)]
            @ (if mcp then [(''mcp_server_name'', JStr (tc_server c))] else [])
            @ [(''name'', JStr (if mcp then tc_tool c else name)), (''session_thread_id'', JNull)]))"

definition call_event :: "(string \<Rightarrow> tool_class option) \<Rightarrow> turn_result \<Rightarrow> (nat \<Rightarrow> id) \<Rightarrow> nat \<Rightarrow> string \<times> json \<Rightarrow> new_event" where
  "call_event class res ids i tu = (mk_event (tc_kind (class_for class res i (fst tu))) (call_payload class res i tu))\<lparr>ne_id := ids i\<rparr>"

definition call_kind :: "(string \<Rightarrow> tool_class option) \<Rightarrow> turn_result \<Rightarrow> nat \<Rightarrow> string \<Rightarrow> kind option \<Rightarrow> kind option" where
  "call_kind class res i name k =
     (let c = class_for class res i name in
      if tc_kind c = EventAgentToolUse then
        if tc_settlement c then k
        else let k = escalate k (Some ToolExec) in if IsWebTool name then escalate k (Some WebExec) else k
      else if tc_kind c = EventAgentMCPToolUse then escalate k (Some MCPExec) else k)"

definition call_asked :: "(string \<Rightarrow> tool_class option) \<Rightarrow> turn_result \<Rightarrow> nat \<Rightarrow> string \<Rightarrow> bool" where
  "call_asked class res i name \<longleftrightarrow> tc_kind (class_for class res i name) = EventAgentCustomToolUse \<or> call_permission class res i name = Some ''ask''"

definition call_delegated :: "(string \<Rightarrow> tool_class option) \<Rightarrow> turn_result \<Rightarrow> (nat \<Rightarrow> id) \<Rightarrow> nat \<Rightarrow> string \<times> json \<Rightarrow> delegated_call option" where
  "call_delegated class res ids i tu =
     (if \<not> tc_settlement (class_for class res i (fst tu)) then None
      else Some \<lparr>dc_event = ids i, dc_name = fst tu, dc_input = snd tu, dc_unoffered = (class (fst tu) = None),
        dc_cut = (if call_cut class res i (fst tu) then StopNote (tr_stop res) (tr_usage res) else []),
        dc_six = (case class (fst tu) of None \<Rightarrow> False | Some c \<Rightarrow> tc_settlement c)\<rparr>)"

section \<open>The turn\<close>

record turn_batch =
  bt_events :: "new_event list"
  bt_kind :: "kind option"
  bt_asks :: "id list"
  bt_delegated :: "delegated_call list"

definition message_payload :: "string list \<Rightarrow> json" where
  "message_payload texts = JObj [(''content'', JArr (map (\<lambda>t. JObj [(''type'', JStr ''text''), (''text'', JStr t)]) texts))]"

definition turn_start :: "turn_result \<Rightarrow> turn_batch" where
  "turn_start res = \<lparr>bt_events = (if tr_text res = [] then [] else [(mk_event EventAgentMessage (message_payload (tr_text res)))\<lparr>ne_id := tr_message res\<rparr>]),
     bt_kind = None, bt_asks = [], bt_delegated = []\<rparr>"

definition add_call :: "(string \<Rightarrow> tool_class option) \<Rightarrow> turn_result \<Rightarrow> (nat \<Rightarrow> id) \<Rightarrow> turn_batch \<Rightarrow> nat \<times> string \<times> json \<Rightarrow> turn_batch" where
  "add_call class res ids b = (\<lambda>(i, tu). b\<lparr>bt_events := bt_events b @ [call_event class res ids i tu],
     bt_kind := call_kind class res i (fst tu) (bt_kind b),
     bt_asks := bt_asks b @ (if call_asked class res i (fst tu) then [ids i] else []),
     bt_delegated := bt_delegated b @ (case call_delegated class res ids i tu of None \<Rightarrow> [] | Some d \<Rightarrow> [d])\<rparr>)"

definition turnEvents :: "(string \<Rightarrow> tool_class option) \<Rightarrow> turn_result \<Rightarrow> (nat \<Rightarrow> id) \<Rightarrow> turn_batch" where
  "turnEvents class res ids = foldl (add_call class res ids) (turn_start res) (enumerate 0 (tr_uses res))"

definition stampThread :: "new_event list \<Rightarrow> id \<Rightarrow> id list \<Rightarrow> new_event list" where
  "stampThread evs tid askIDs = map (\<lambda>e. e\<lparr>ne_thread := tid,
     ne_cross := (ne_cross e \<or> (tid \<noteq> [] \<and> (ne_type e = EventAgentCustomToolUse \<or> ne_id e \<in> set askIDs)))\<rparr>) evs"

section \<open>What the fold computes\<close>

lemma turnEvents_sel:
  "bt_events (turnEvents class res ids) = bt_events (turn_start res) @ map (\<lambda>(i, tu). call_event class res ids i tu) (enumerate 0 (tr_uses res))"
  "bt_asks (turnEvents class res ids) = map (\<lambda>(i, _). ids i) (filter (\<lambda>(i, tu). call_asked class res i (fst tu)) (enumerate 0 (tr_uses res)))"
  "bt_delegated (turnEvents class res ids) = List.map_filter (\<lambda>(i, tu). call_delegated class res ids i tu) (enumerate 0 (tr_uses res))"
  "bt_kind (turnEvents class res ids) = foldl (\<lambda>k (i, tu). call_kind class res i (fst tu) k) None (enumerate 0 (tr_uses res))"
proof -
  have fold: "bt_events (foldl (add_call class res ids) b us) = bt_events b @ map (\<lambda>(i, tu). call_event class res ids i tu) us
      \<and> bt_asks (foldl (add_call class res ids) b us) = bt_asks b @ map (\<lambda>(i, _). ids i) (filter (\<lambda>(i, tu). call_asked class res i (fst tu)) us)
      \<and> bt_delegated (foldl (add_call class res ids) b us) = bt_delegated b @ List.map_filter (\<lambda>(i, tu). call_delegated class res ids i tu) us
      \<and> bt_kind (foldl (add_call class res ids) b us) = foldl (\<lambda>k (i, tu). call_kind class res i (fst tu) k) (bt_kind b) us" for b us
    by (induction us arbitrary: b) (auto simp: add_call_def List.map_filter_simps split: option.splits)
  show "bt_events (turnEvents class res ids) = bt_events (turn_start res) @ map (\<lambda>(i, tu). call_event class res ids i tu) (enumerate 0 (tr_uses res))"
    "bt_asks (turnEvents class res ids) = map (\<lambda>(i, _). ids i) (filter (\<lambda>(i, tu). call_asked class res i (fst tu)) (enumerate 0 (tr_uses res)))"
    "bt_delegated (turnEvents class res ids) = List.map_filter (\<lambda>(i, tu). call_delegated class res ids i tu) (enumerate 0 (tr_uses res))"
    "bt_kind (turnEvents class res ids) = foldl (\<lambda>k (i, tu). call_kind class res i (fst tu) k) None (enumerate 0 (tr_uses res))"
    using fold [of "turn_start res" "enumerate 0 (tr_uses res)"] by (simp_all add: turnEvents_def turn_start_def)
qed

section \<open>The reply re-enters the conversation as it was generated\<close>

definition class_ok :: "(string \<Rightarrow> tool_class option) \<Rightarrow> string \<Rightarrow> bool" where
  "class_ok class name = (case class name of None \<Rightarrow> True | Some c \<Rightarrow>
     tc_kind c = EventAgentToolUse \<or> tc_kind c = EventAgentCustomToolUse
     \<or> (tc_kind c = EventAgentMCPToolUse \<and> MCPModelName (tc_server c) (tc_tool c) = name))"

lemma class_for_ok:
  assumes "class_ok class name"
  shows "tc_kind (class_for class res i name) = EventAgentToolUse \<or> tc_kind (class_for class res i name) = EventAgentCustomToolUse
    \<or> (tc_kind (class_for class res i name) = EventAgentMCPToolUse
        \<and> MCPModelName (tc_server (class_for class res i name)) (tc_tool (class_for class res i name)) = name)"
  using assms by (auto simp: class_ok_def class_for_def inline_class_def split: option.splits)

lemmas payload_eval = str_field_def raw_field_def field_vals_def field_for_def fold_name_def fold_rune_def byte_def

lemma call_payload_fields:
  "str_field (call_payload class res i (name, input)) ''name'' =
     (if tc_kind (class_for class res i name) = EventAgentMCPToolUse then tc_tool (class_for class res i name) else name)"
  "tc_kind (class_for class res i name) = EventAgentMCPToolUse \<Longrightarrow>
   str_field (call_payload class res i (name, input)) ''mcp_server_name'' = tc_server (class_for class res i name)"
  "raw_field (call_payload class res i (name, input)) ''input'' = Some input"
  "decodes (FStruct [(''name'', FString), (''mcp_server_name'', FString), (''input'', FRaw)]) (call_payload class res i (name, input))"
  by (simp_all add: call_payload_def Let_def payload_eval split: option.split)

definition stored_as :: "event \<Rightarrow> new_event \<Rightarrow> bool" where
  "stored_as ev e \<longleftrightarrow> ev_id ev = ne_id e \<and> ev_type ev = ne_type e \<and> ev_payload ev = ne_payload e"

definition model_call :: "id \<Rightarrow> string \<times> json \<Rightarrow> json" where
  "model_call i tu = JObj [(''id'', JStr i), (''input'', snd tu), (''name'', JStr (fst tu)), (''type'', JStr ''tool_use'')]"

lemma call_row_replays:
  assumes "stored_as ev (call_event class res ids i (name, JObj kvs))" "class_ok class name"
  shows "row_error ev = None \<and> contribution K pre ev = Some (''assistant'', [Call (ids i) (model_call (ids i) (name, JObj kvs))])"
proof -
  have e: "ev_id ev = ids i" "ev_type ev = tc_kind (class_for class res i name)" "ev_payload ev = call_payload class res i (name, JObj kvs)"
    using assms(1) by (simp_all add: stored_as_def call_event_def mk_event_def)
  from class_for_ok [OF assms(2), of res i] show ?thesis
    by (elim disjE) (simp_all add: row_error_def row_fields_def contribution_def tool_use_block_def e call_payload_fields model_call_def Let_def)
qed

lemma message_row_replays:
  assumes "stored_as ev e" "bt_events (turn_start res) = [e]"
  shows "row_error ev = None \<and> contribution K pre ev
    = Some (''assistant'', map (\<lambda>t. Block (JObj [(''type'', JStr ''text''), (''text'', JStr t)])) (tr_text res))"
proof -
  have "ev_type ev = EventAgentMessage" "ev_payload ev = message_payload (tr_text res)"
    using assms by (auto simp: stored_as_def turn_start_def mk_event_def split: if_splits)
  then show ?thesis
    by (simp add: row_error_def row_fields_def contribution_def message_payload_def contentBlocks_def payload_eval Let_def comp_def)
qed

text \<open>
  C32: the reply comes back as the model made it.  Let a turn's calls have objects as inputs and let
  every MCP name resolve to the server and tool it was offered for.  When the rows its settlement
  stored are replayed, none fails to decode, the message contributes the text blocks the model
  streamed, and each call contributes a tool use with the event's id, the very name the model
  called, built-in, custom or MCP, and the input it gave.
\<close>

theorem reply_replays:
  assumes "list_all (\<lambda>(name, input). (\<exists>kvs. input = JObj kvs) \<and> class_ok class name) (tr_uses res)"
    and "list_all2 stored_as rows (bt_events (turnEvents class res ids))"
  shows "first_error rows = None
    \<and> concat (map snd (contributions K pre rows)) =
        map (\<lambda>t. Block (JObj [(''type'', JStr ''text''), (''text'', JStr t)])) (tr_text res)
        @ map (\<lambda>(i, tu). Call (ids i) (model_call (ids i) tu)) (enumerate 0 (tr_uses res))
    \<and> list_all (\<lambda>c. fst c = ''assistant'') (contributions K pre rows)"
proof -
  let ?P = "\<lambda>rows out. first_error rows = None \<and> (\<forall>pre. concat (map snd (contributions K pre rows)) = out
      \<and> list_all (\<lambda>c. fst c = ''assistant'') (contributions K pre rows))"
  have calls: "list_all2 stored_as rs (map (\<lambda>(i, tu). call_event class res ids i tu) us) \<Longrightarrow>
      list_all (\<lambda>(i, name, input). (\<exists>kvs. input = JObj kvs) \<and> class_ok class name) us \<Longrightarrow> ?P rs (map (\<lambda>(i, tu). Call (ids i) (model_call (ids i) tu)) us)" for rs us
  proof (induction us arbitrary: rs)
    case Nil
    then show ?case by (simp add: first_error_def)
  next
    case (Cons u us)
    obtain i name kvs where u: "u = (i, name, JObj kvs)" "class_ok class name" using Cons.prems(2) by (cases u) auto
    from Cons.prems(1) obtain r rs' where r: "rs = r # rs'" "stored_as r (call_event class res ids i (name, JObj kvs))"
      "list_all2 stored_as rs' (map (\<lambda>(i, tu). call_event class res ids i tu) us)" by (auto simp: u(1) list_all2_Cons2)
    from Cons.IH [OF r(3)] Cons.prems(2) call_row_replays [OF r(2) u(2)] show ?case by (simp add: r(1) u(1) first_error_Cons)
  qed
  have en: "list_all (\<lambda>(i, name, input). (\<exists>kvs. input = JObj kvs) \<and> class_ok class name) (enumerate 0 (tr_uses res))"
    using assms(1) by (simp add: list_all_length nth_enumerate_eq)
  show ?thesis
  proof (cases "tr_text res = []")
    case True
    with calls [OF _ en, of rows] assms(2) show ?thesis by (simp add: turnEvents_sel turn_start_def)
  next
    case False
    then obtain e where e: "bt_events (turn_start res) = [e]" by (simp add: turn_start_def)
    with assms(2) obtain r rs where r: "rows = r # rs" "stored_as r e" "list_all2 stored_as rs (map (\<lambda>(i, tu). call_event class res ids i tu) (enumerate 0 (tr_uses res)))"
      by (auto simp: turnEvents_sel list_all2_Cons2)
    from calls [OF r(3) en] message_row_replays [OF r(2) e] show ?thesis by (simp add: r(1) first_error_Cons comp_def)
  qed
qed

definition demo_class :: "string \<Rightarrow> tool_class option" where
  "demo_class = [''mcp__srv__find'' \<mapsto> \<lparr>tc_kind = EventAgentMCPToolUse, tc_policy = ''always_ask'', tc_server = ''srv'', tc_tool = ''find'', tc_settlement = False, tc_builtin = False\<rparr>,
     ''bash'' \<mapsto> \<lparr>tc_kind = EventAgentToolUse, tc_policy = ''always_allow'', tc_server = [], tc_tool = [], tc_settlement = False, tc_builtin = True\<rparr>]"

definition demo_turn :: turn_result where
  "demo_turn = \<lparr>tr_text = [''hi''], tr_message = ''m'', tr_uses = [(''mcp__srv__find'', JObj []), (''nosuch'', JObj []), (''bash'', JObj [])], tr_cut = True,
     tr_stop = ''max_tokens'', tr_usage = None, tr_first_token = True, tr_thinking = []\<rparr>"

definition demo_ids :: "nat \<Rightarrow> id" where
  "demo_ids i = (if i = 0 then ''c0'' else if i = 1 then ''c1'' else ''c2'')"

definition store_event :: "new_event \<Rightarrow> event" where
  "store_event e = \<lparr>ev_id = ne_id e, ev_seq = 1, ev_type = ne_type e, ev_payload = ne_payload e, ev_processed = None, ev_created = 0, ev_thread = [], ev_cross = False\<rparr>"

theorem reply_replays_witness:
  "concat (map snd (contributions demo_env [] (map store_event (bt_events (turnEvents demo_class demo_turn demo_ids))))) =
     [Block (JObj [(''type'', JStr ''text''), (''text'', JStr ''hi'')]), Call ''c0'' (model_call ''c0'' (''mcp__srv__find'', JObj [])),
      Call ''c1'' (model_call ''c1'' (''nosuch'', JObj [])), Call ''c2'' (model_call ''c2'' (''bash'', JObj []))]"
proof -
  have "list_all (\<lambda>(name, input). (\<exists>kvs. input = JObj kvs) \<and> class_ok demo_class name) (tr_uses demo_turn)"
    by (simp add: demo_turn_def class_ok_def demo_class_def MCPModelName_def model_char_def in_range_def byte_def)
  moreover have "list_all2 stored_as (map store_event (bt_events (turnEvents demo_class demo_turn demo_ids))) (bt_events (turnEvents demo_class demo_turn demo_ids))"
    by (simp add: list_all2_map1 stored_as_def store_event_def list_all2_same)
  ultimately show ?thesis using reply_replays [of demo_class demo_turn _ demo_ids demo_env "[]"]
    by (simp add: demo_turn_def demo_ids_def)
qed

section \<open>Every call has one owner\<close>

definition driver_rank :: "(string \<Rightarrow> tool_class option) \<Rightarrow> turn_result \<Rightarrow> nat \<Rightarrow> string \<Rightarrow> nat" where
  "driver_rank class res i name = (let c = class_for class res i name in
     if tc_kind c = EventAgentMCPToolUse then 3
     else if tc_kind c = EventAgentToolUse \<and> \<not> tc_settlement c then (if IsWebTool name then 2 else 1) else 0)"
  \<comment> \<open>the driver that runs the call: MCP, web, sandbox, or none\<close>

lemma execRank_inj: "execRank (Some k) = execRank (Some k') \<Longrightarrow> execRank (Some k) \<noteq> 0 \<Longrightarrow> k = k'"
  by (cases k; cases k') simp_all

lemma call_kind_rank: "execRank (call_kind class res i name k) = max (execRank k) (driver_rank class res i name)"
  by (auto simp: call_kind_def driver_rank_def escalate_def Let_def)

lemma call_kind_some: "k \<in> {None, Some MCPExec, Some WebExec, Some ToolExec} \<Longrightarrow> call_kind class res i name k \<in> {None, Some MCPExec, Some WebExec, Some ToolExec}"
  by (auto simp: call_kind_def escalate_def Let_def)

lemma fold_kind:
  "k \<in> {None, Some MCPExec, Some WebExec, Some ToolExec} \<Longrightarrow>
   foldl (\<lambda>k (i, tu). call_kind class res i (fst tu) k) k us \<in> {None, Some MCPExec, Some WebExec, Some ToolExec}
   \<and> execRank (foldl (\<lambda>k (i, tu). call_kind class res i (fst tu) k) k us) = foldl max (execRank k) (map (\<lambda>(i, tu). driver_rank class res i (fst tu)) us)"
proof (induction us arbitrary: k)
  case (Cons u us)
  with Cons.IH [OF call_kind_some [OF Cons.prems, of "class" res "fst u" "fst (snd u)"]] show ?case
    by (cases u) (simp add: call_kind_rank)
qed simp

text \<open>
  Every call of a turn has exactly one owner.  The work scheduled is the one of the
  highest-ranked driver that has a call to run (MCP before web before sandbox), and none when no
  driver has.  A call the model was not offered or the output cap cut off is stamped deny, runs
  under no driver, waits on no client, and is handed to the settlement, as is every delegation
  call; what is handed to no driver and no settlement is a custom tool's call, which waits on
  the client.
\<close>

theorem call_owners:
  "execRank (bt_kind (turnEvents class res ids)) = Max (insert 0 ((\<lambda>i. driver_rank class res i (fst (tr_uses res ! i))) ` {..<length (tr_uses res)}))
   \<and> bt_kind (turnEvents class res ids) \<in> {None, Some MCPExec, Some WebExec, Some ToolExec}
   \<and> (\<forall>i < length (tr_uses res). let name = fst (tr_uses res ! i); refused = (class name = None \<or> call_cut class res i name) in
        (refused \<longrightarrow> call_permission class res i name = Some ''deny'' \<and> driver_rank class res i name = 0 \<and> \<not> call_asked class res i name
           \<and> (\<exists>d \<in> set (bt_delegated (turnEvents class res ids)). dc_event d = ids i \<and> dc_name d = name))
        \<and> (class_ok class name \<and> driver_rank class res i name = 0 \<and> call_delegated class res ids i (tr_uses res ! i) = None
             \<longrightarrow> tc_kind (class_for class res i name) = EventAgentCustomToolUse \<and> ids i \<in> set (bt_asks (turnEvents class res ids))))"
proof -
  let ?us = "enumerate 0 (tr_uses res)"
  have "(\<lambda>(i, tu). driver_rank class res i (fst tu)) ` set ?us = (\<lambda>i. driver_rank class res i (fst (tr_uses res ! i))) ` {..<length (tr_uses res)}"
    by (force simp: in_set_enumerate_eq)
  then have k: "execRank (bt_kind (turnEvents class res ids)) = Max (insert 0 ((\<lambda>i. driver_rank class res i (fst (tr_uses res ! i))) ` {..<length (tr_uses res)}))"
    "bt_kind (turnEvents class res ids) \<in> {None, Some MCPExec, Some WebExec, Some ToolExec}"
    using fold_kind [of None "class" res ?us] by (simp_all add: turnEvents_sel foldl_max)
  have mem: "(i, tr_uses res ! i) \<in> set ?us" if "i < length (tr_uses res)" for i using that by (simp add: in_set_enumerate_eq)
  have "call_permission class res i name = Some ''deny'' \<and> driver_rank class res i name = 0 \<and> \<not> call_asked class res i name
      \<and> (\<exists>d \<in> set (bt_delegated (turnEvents class res ids)). dc_event d = ids i \<and> dc_name d = name)"
    if i: "i < length (tr_uses res)" "name = fst (tr_uses res ! i)" "class name = None \<or> call_cut class res i name" for i name
  proof -
    have c: "class_for class res i name = inline_class" using i(3) by (auto simp: class_for_def split: option.splits)
    then obtain d where "call_delegated class res ids i (tr_uses res ! i) = Some d" "dc_event d = ids i" "dc_name d = name"
      by (simp add: call_delegated_def i(2) inline_class_def)
    moreover from this(1) have "d \<in> set (bt_delegated (turnEvents class res ids))"
      using mem [OF i(1)] by (cases "tr_uses res ! i") (force simp: turnEvents_sel List.map_filter_def image_iff)
    ultimately have "\<exists>d \<in> set (bt_delegated (turnEvents class res ids)). dc_event d = ids i \<and> dc_name d = name" by blast
    with c i(3) show ?thesis by (auto simp: call_permission_def driver_rank_def call_asked_def inline_class_def)
  qed
  moreover have "tc_kind (class_for class res i name) = EventAgentCustomToolUse \<and> ids i \<in> set (bt_asks (turnEvents class res ids))"
    if i: "i < length (tr_uses res)" "name = fst (tr_uses res ! i)" "class_ok class name" "driver_rank class res i name = 0"
      "call_delegated class res ids i (tr_uses res ! i) = None" for i name
  proof -
    have "tc_kind (class_for class res i name) = EventAgentCustomToolUse"
      using class_for_ok [OF i(3), of res i] i(2,4,5) by (auto simp: driver_rank_def call_delegated_def Let_def split: if_splits)
    with mem [OF i(1)] i(2) show ?thesis by (force simp: turnEvents_sel call_asked_def)
  qed
  ultimately show ?thesis using k by (auto simp: Let_def)
qed

theorem call_owners_witness:
  "bt_kind (turnEvents demo_class demo_turn demo_ids) = Some MCPExec
   \<and> call_permission demo_class demo_turn 1 ''nosuch'' = Some ''deny'' \<and> call_permission demo_class demo_turn 2 ''bash'' = Some ''deny''"
proof -
  have "bt_kind (turnEvents demo_class demo_turn demo_ids) \<in> {None, Some MCPExec, Some WebExec, Some ToolExec}"
    "execRank (bt_kind (turnEvents demo_class demo_turn demo_ids)) = 3"
    using call_owners [of demo_class demo_turn demo_ids]
    by (simp_all add: demo_turn_def lessThan_Suc numeral_3_eq_3 driver_rank_def class_for_def demo_class_def call_cut_def inline_class_def)
  moreover have "call_permission demo_class demo_turn 1 ''nosuch'' = Some ''deny'' \<and> call_permission demo_class demo_turn 2 ''bash'' = Some ''deny''"
    using call_owners [of demo_class demo_turn demo_ids, THEN conjunct2, THEN conjunct2, THEN spec, of 1]
      call_owners [of demo_class demo_turn demo_ids, THEN conjunct2, THEN conjunct2, THEN spec, of 2]
    by (simp add: demo_turn_def demo_class_def call_cut_def Let_def)
  ultimately show ?thesis by auto
qed

end
