(* ===== verification/Delegation.thy ===== *)
theory Delegation
  imports Thread_Messages Turn_Events
begin

text \<open>
  \<^verbatim>\<open>internal/brain/delegate.go\<close>: the six tools the settlement of a turn runs itself, inside the
  transaction that commits the turn.  \<open>run\<close> resolves a turn's delegated calls in model order on
  the session's rows; it returns the rows, the events to append, the threads it woke and whether
  the caller parks or has ended.  The printable runes of Unicode (\<^verbatim>\<open>strconv.IsPrint\<close> past ASCII)
  and the ids minted for spawned threads are arguments.
\<close>

section \<open>Texts\<close>

text \<open>\<^verbatim>\<open>strconv.Quote\<close>, the verb \<^verbatim>\<open>%q\<close> of \<^verbatim>\<open>fmt\<close>.\<close>

definition x_escape :: "nat \<Rightarrow> string" where
  "x_escape n = [CHR 0x5C, CHR ''x'', hex_digit (n div 16 mod 16), hex_digit (n mod 16)]"

definition U_escape :: "nat \<Rightarrow> string" where
  "U_escape n = [CHR 0x5C, CHR ''U''] @ map (\<lambda>i. hex_digit (n div 16 ^ (7 - i) mod 16)) [0..<8]"

definition quote_rune :: "(nat \<Rightarrow> bool) \<Rightarrow> nat option \<times> string \<Rightarrow> string" where
  "quote_rune printable rb = (case rb of (None, b) \<Rightarrow> x_escape (byte (hd b))
   | (Some n, b) \<Rightarrow>
       if n = 0x22 \<or> n = 0x5C then CHR 0x5C # b
       else if (if n < 0x80 then 0x20 \<le> n \<and> n < 0x7F else printable n) then b
       else if n = 7 then [CHR 0x5C, CHR ''a''] else if n = 8 then [CHR 0x5C, CHR ''b'']
       else if n = 12 then [CHR 0x5C, CHR ''f''] else if n = 10 then [CHR 0x5C, CHR ''n'']
       else if n = 13 then [CHR 0x5C, CHR ''r''] else if n = 9 then [CHR 0x5C, CHR ''t'']
       else if n = 11 then [CHR 0x5C, CHR ''v'']
       else if n < 0x20 \<or> n = 0x7F then x_escape n
       else if n < 0x10000 then u_escape n else U_escape n)"

definition go_quote :: "(nat \<Rightarrow> bool) \<Rightarrow> string \<Rightarrow> string" where
  "go_quote printable s = [CHR 0x22] @ concat (map (quote_rune printable) (runes s)) @ [CHR 0x22]"

text \<open>
  \<^verbatim>\<open>utf8.DecodeLastRuneInString\<close> fails exactly when no suffix of at most four bytes is the
  encoding of one rune.
\<close>

definition ends_in_rune :: "string \<Rightarrow> bool" where
  "ends_in_rune s \<longleftrightarrow> list_ex (\<lambda>k. k \<le> length s \<and>
     (case decode_rune (drop (length s - k) s) of (r, w) \<Rightarrow> r \<noteq> None \<and> w = k)) [1, 2, 3, 4]"

fun trim_partial :: "nat \<Rightarrow> string \<Rightarrow> string" where
  "trim_partial 0 s = s"
| "trim_partial (Suc n) s = (if s = [] \<or> ends_in_rune s then s else trim_partial n (butlast s))"

definition TruncateRunes :: "string \<Rightarrow> nat \<Rightarrow> string" where
  "TruncateRunes s n = (if length s \<le> n then s else trim_partial 4 (take n s))"

definition NoOutput :: string where
  "NoOutput = ''(no output)''"

definition maxDelegationText :: nat where
  "maxDelegationText = 16384"

definition maxLiveThreads :: nat where
  "maxLiveThreads = 25"

definition maxSettlementChain :: nat where
  "maxSettlementChain = 25"

definition maxSessionDelegationTurns :: nat where
  "maxSessionDelegationTurns = maxLiveThreads * maxSettlementChain"

definition delegationText :: "string \<Rightarrow> string" where
  "delegationText s = (let s = trim_space (SanitizeText s) in
     if length s > maxDelegationText then TruncateRunes s maxDelegationText @ ''[truncated]'' else s)"

definition unknownToolAnswer :: "(nat \<Rightarrow> bool) \<Rightarrow> string \<Rightarrow> string" where
  "unknownToolAnswer printable name =
     (let text = ''unknown tool '' @ go_quote printable (SanitizeText name) @ '': not offered to this agent'' in
      if length text > maxDelegationText then TruncateRunes text (maxDelegationText - 11) @ ''[truncated]'' else text)"

definition cutCallAnswer :: "string \<Rightarrow> string" where
  "cutCallAnswer note = ''this call was cut off before its arguments were complete ('' @ note
     @ ''), so it was not run: make it again with shorter arguments, or split the work across several calls''"

definition answerMessageSent :: string where
  "answerMessageSent = ''Message sent.''"

definition answerReported :: string where
  "answerReported = ''Result reported.''"

definition answerWaitStarted :: string where
  "answerWaitStarted = marshal (JObj [(''message'', JStr ''Wait started. Reports arrive as messages; do not conclude yet.''),
     (''timed_out'', JBool False)])"

definition answerNothingToWaitFor :: string where
  "answerNothingToWaitFor = marshal (JObj [(''message'', JStr ''No agents are running and no reports are pending.''),
     (''timed_out'', JBool True)])"

definition delegationAnswer :: "id \<Rightarrow> string \<Rightarrow> bool \<Rightarrow> new_event" where
  "delegationAnswer useID text isErr = mk_event EventAgentToolResult
     (JObj [(''content'', text_content (if text = [] then NoOutput else text)), (''is_error'', JBool isErr), (''tool_use_id'', JStr useID)])"

section \<open>The caller and its state\<close>

record delegate_env =
  de_agent :: string
  de_roster :: "json option"
  de_thread :: id
  de_watermark :: nat
  de_settlement_only :: bool
  de_cut :: bool
  de_child :: "nat \<Rightarrow> id"
  de_printable :: "nat \<Rightarrow> bool"

record delegate_state =
  ds_store :: store
  ds_events :: "new_event list"
  ds_wakes :: "id list"
  ds_park :: bool
  ds_ended :: bool
  ds_waited :: "(string \<times> bool) option"

definition ds_db :: "delegate_state \<Rightarrow> session_db" where
  "ds_db st = st_db (ds_store st)"

definition set_db :: "session_db \<Rightarrow> delegate_state \<Rightarrow> delegate_state" where
  "set_db db st = st\<lparr>ds_store := (ds_store st)\<lparr>st_db := db\<rparr>\<rparr>"

definition caller_peer :: "delegate_env \<Rightarrow> thread_peer" where
  "caller_peer E = \<lparr>tp_thread = de_thread E, tp_agent = de_agent E\<rparr>"

definition add_events :: "new_event list \<Rightarrow> delegate_state \<Rightarrow> delegate_state" where
  "add_events evs st = st\<lparr>ds_events := ds_events st @ evs\<rparr>"

definition IsCoordinatorTool :: "string \<Rightarrow> bool" where
  "IsCoordinatorTool name \<longleftrightarrow> name \<in> {''create_agent'', ''send_to_agent'', ''list_agents'', ''wait_for_agents''}"

definition IsWorkerTool :: "string \<Rightarrow> bool" where
  "IsWorkerTool name \<longleftrightarrow> name \<in> {''submit_result'', ''send_to_parent''}"

definition wrongRole :: "delegate_env \<Rightarrow> string \<Rightarrow> string" where
  "wrongRole E name =
     (if de_thread E \<noteq> [] \<and> IsCoordinatorTool name then
        name @ '' belongs to your coordinator, not to you. Report with submit_result, or send your coordinator a message with send_to_parent.''
      else if de_thread E = [] \<and> IsWorkerTool name then
        name @ '' belongs to the agents you spawn, not to you. You are answering the user directly; to reach an agent use send_to_agent.''
      else [])"

definition foreign :: "delegate_env \<Rightarrow> delegated_call \<Rightarrow> bool" where
  "foreign E call \<longleftrightarrow> dc_unoffered call \<or> (dc_six call \<and> wrongRole E (dc_name call) \<noteq> [])"

section \<open>Input waiting past the head of a turn\<close>

definition pendingInputTypes :: "event_type list" where
  "pendingInputTypes = [EventUserToolResult, EventUserCustomToolRes] @ filter inbound consumed_inputs"

definition chain_row :: "id \<Rightarrow> nat \<Rightarrow> event \<Rightarrow> bool" where
  "chain_row thr watermark e \<longleftrightarrow> ev_seq e > watermark \<and> ev_thread e = thr
     \<and> ((ev_type e \<in> set pendingInputTypes \<and> (ev_processed e = None \<or> ev_type e \<in> {EventUserToolResult, EventUserCustomToolRes}))
        \<or> ev_type e = EventAgentThreadMessageReceived)"

definition chainInput :: "event list \<Rightarrow> id \<Rightarrow> nat \<Rightarrow> bool" where
  "chainInput log thr watermark \<longleftrightarrow> list_ex (chain_row thr watermark) log"

definition last_start :: "event list \<Rightarrow> id \<Rightarrow> nat" where
  "last_start log thr = foldl max 0 (map ev_seq (filter (\<lambda>e. ev_thread e = thr \<and> ev_type e = EventSpanModelRequestStart) log))"

definition pendingInput :: "event list \<Rightarrow> id \<Rightarrow> bool" where
  "pendingInput log thr \<longleftrightarrow> list_ex (\<lambda>e. ev_type e \<in> set pendingInputTypes \<and> ev_thread e = thr
     \<and> (ev_processed e = None \<or> (ev_type e \<in> {EventUserToolResult, EventUserCustomToolRes} \<and> ev_seq e > last_start log thr))) log"

section \<open>The tools\<close>

text \<open>A handler answers with a text and whether it is an error; only a database fault has no answer.\<close>

type_synonym answered = "message_error + delegate_state \<times> string \<times> bool"

definition refuse :: "delegate_state \<Rightarrow> string \<Rightarrow> answered" where
  "refuse st text = Inr (st, text, True)"

fun rosterNames :: "json list \<Rightarrow> (string \<times> json) list" where
  "rosterNames [] = []"
| "rosterNames (raw # rs) =
     (if \<not> decodes (FStruct [(''name'', FString)]) raw \<or> str_field raw ''name'' = [] then rosterNames rs
      else (str_field raw ''name'', raw) # rosterNames rs)"

definition rosterMember :: "json option \<Rightarrow> string \<Rightarrow> json option \<times> string list" where
  "rosterMember roster name =
     (case roster of None \<Rightarrow> (None, [])
      | Some p \<Rightarrow> if \<not> decodes (FStruct [(''agents'', FList FRaw)]) p then (None, [])
          else let ms = rosterNames (list_field p ''agents'') in (map_of ms name, map fst ms))"

definition live_count :: "session_db \<Rightarrow> nat" where
  "live_count db = length (filter live (s_threads db))"

definition join_str :: "string \<Rightarrow> string list \<Rightarrow> string" where
  "join_str sep xs = intersperse_concat sep xs"

text \<open>The row a spawn inserts, last in creation order.\<close>

definition spawn_row :: "session_db \<Rightarrow> id \<Rightarrow> string \<Rightarrow> thread_row" where
  "spawn_row db child name = \<lparr>t_id = child, t_parent = Some (primary_thread_id (s_id db)), t_status = SessionRunning,
     t_stop = None, t_agent_name = name, t_archived = False, t_transitioned = False\<rparr>"

definition zero_usage :: usage where
  "zero_usage = \<lparr>u_input = 0, u_output = 0, u_cache_read = 0, u_cache_1h = 0, u_cache_5m = 0\<rparr>"

definition insert_thread :: "id \<Rightarrow> string \<Rightarrow> store \<Rightarrow> store" where
  "insert_thread child name st = st\<lparr>st_db := (st_db st)\<lparr>s_threads := s_threads (st_db st) @ [spawn_row (st_db st) child name]\<rparr>,
     st_thread_usage := (st_thread_usage st)(child \<mapsto> zero_usage)\<rparr>"

definition created_event :: "id \<Rightarrow> string \<Rightarrow> new_event" where
  "created_event child name = mk_event EventSessionThreadCreated (JObj [(''agent_name'', JStr name), (''session_thread_id'', JStr child)])"

text \<open>Spawning, once the call is admitted: the row and the wait cache, the four events, the queued turn.\<close>

definition spawn :: "delegate_env \<Rightarrow> id \<Rightarrow> string \<Rightarrow> string \<Rightarrow> delegate_state \<Rightarrow> answered" where
  "spawn E child name message st =
     (let st1 = st\<lparr>ds_waited := None, ds_store := insert_thread child name (ds_store st)\<rparr>;
          (sent, received) = ThreadMessage (s_id (ds_db st)) (caller_peer E) \<lparr>tp_thread = child, tp_agent = name\<rparr> message
      in case TransitionThread (ds_db st1) (to_running child) of
           Inl e \<Rightarrow> Inl (WakeFailed e)
         | Inr (db2, pair, _) \<Rightarrow>
             Inr ((add_events ([created_event child name, sent] @ pair @ [received]) (set_db db2 st1))
                    \<lparr>ds_wakes := ds_wakes st1 @ [child]\<rparr>,
                  marshal (JObj [(''session_thread_id'', JStr child)]), False))"

definition createAgent :: "delegate_env \<Rightarrow> nat \<Rightarrow> delegated_call \<Rightarrow> delegate_state \<Rightarrow> answered" where
  "createAgent E i call st =
     (let p = dc_input call in
      if \<not> decodes (FStruct [(''agent_name'', FString), (''message'', FString)]) p
      then refuse st ''create_agent takes an agent_name and a message.''
      else let name = trim_space (str_field p ''agent_name''); message = delegationText (str_field p ''message'') in
        if name = [] \<or> message = [] then refuse st ''create_agent needs both agent_name and message.''
        else case rosterMember (de_roster E) name of
          (None, known) \<Rightarrow> refuse st (''no agent named '' @ go_quote (de_printable E) name @ '' is on your roster; it lists: ''
                              @ join_str '', '' known @ ''.'')
        | (Some member, _) \<Rightarrow>
            if live_count (ds_db st) \<ge> maxLiveThreads
            then refuse st (''this session already runs the maximum of '' @ dec maxLiveThreads
                   @ '' agent threads (your own included). Archive a finished one to free a slot.'')
            else spawn E (de_child E i) name message st)"

definition liveChildren :: "session_db \<Rightarrow> thread_row list" where
  "liveChildren db = filter (\<lambda>r. t_parent r \<noteq> None \<and> live r) (s_threads db)"

fun session_status_str :: "session_status \<Rightarrow> string" where
  "session_status_str SessionIdle = ''idle''"
| "session_status_str SessionRunning = ''running''"
| "session_status_str SessionRescheduling = ''rescheduling''"
| "session_status_str SessionTerminated = ''terminated''"
| "session_status_str (SessionOther s) = s"

definition stop_str :: "thread_row \<Rightarrow> string" where
  "stop_str r = (case t_stop r of None \<Rightarrow> [] | Some s \<Rightarrow> stop_type_str (stop_type s))"

definition agentsPhrase :: "thread_row list \<Rightarrow> string" where
  "agentsPhrase children =
     (if children = [] then ''this session has no live agent threads''
      else ''live threads are '' @ join_str '', '' (map (\<lambda>c. t_id c @ '' ('' @ t_agent_name c @ '')'') children))"

definition deliver :: "new_event \<Rightarrow> delegate_state \<Rightarrow> message_error + delegate_state" where
  "deliver received st =
     (case DeliverAndWake (ds_db st) received of Inl e \<Rightarrow> Inl e
      | Inr (db, d) \<Rightarrow> Inr ((add_events (delivery_events d) (set_db db st))
          \<lparr>ds_wakes := (if Woke d then ds_wakes st @ [ne_thread received] else ds_wakes st)\<rparr>))"

text \<open>Sending one message: the sender's row, then the delivery.\<close>

definition send_message :: "delegate_env \<Rightarrow> thread_peer \<Rightarrow> string \<Rightarrow> string \<Rightarrow> delegate_state \<Rightarrow> answered" where
  "send_message E target text answer st =
     (let (sent, received) = ThreadMessage (s_id (ds_db st)) (caller_peer E) target text
      in case deliver received (add_events [sent] st) of Inl e \<Rightarrow> Inl e | Inr st' \<Rightarrow> Inr (st', answer, False))"

text \<open>Whom a send addresses: by thread id, or by an agent name only one live thread runs.\<close>

definition send_target :: "(nat \<Rightarrow> bool) \<Rightarrow> session_db \<Rightarrow> json \<Rightarrow> string + thread_row" where
  "send_target printable db p =
     (let children = liveChildren db; tid = trim_space (str_field p ''session_thread_id'');
          name = trim_space (str_field p ''agent_name'') in
      if tid \<noteq> [] then
        if tid = primary_thread_id (s_id db) then Inl ''that is your own thread; send_to_agent addresses the agents you spawned.''
        else (case find (\<lambda>c. t_id c = tid) (rev children) of
                None \<Rightarrow> Inl (''no live agent thread '' @ go_quote printable tid @ '' in this session; '' @ agentsPhrase children @ ''.'')
              | Some c \<Rightarrow> Inr c)
      else if name \<noteq> [] then
        (case filter (\<lambda>c. t_agent_name c = name) children of
           [] \<Rightarrow> Inl (''no live thread runs '' @ go_quote printable name @ ''; '' @ agentsPhrase children @ ''.'')
         | [c] \<Rightarrow> Inr c
         | cs \<Rightarrow> Inl (dec (length cs) @ '' live threads run '' @ go_quote printable name
                       @ ''; address one by session_thread_id: '' @ join_str '', '' (map t_id cs) @ ''.''))
      else Inl ''send_to_agent needs a session_thread_id or an agent_name.'')"

definition sendToAgent :: "delegate_env \<Rightarrow> delegated_call \<Rightarrow> delegate_state \<Rightarrow> answered" where
  "sendToAgent E call st =
     (let p = dc_input call in
      if \<not> decodes (FStruct [(''session_thread_id'', FString), (''agent_name'', FString), (''message'', FString)]) p
      then refuse st ''send_to_agent takes a message and either a session_thread_id or an agent_name.''
      else let message = delegationText (str_field p ''message'') in
        if message = [] then refuse st ''send_to_agent needs a message.''
        else case send_target (de_printable E) (ds_db st) p of
          Inl text \<Rightarrow> refuse st text
        | Inr c \<Rightarrow>
            if t_status c = SessionIdle \<and> stop_is c StopRetriesExhausted
            then refuse st (''agent '' @ go_quote (de_printable E) (t_agent_name c)
                   @ '' stopped: its turn exhausted its retries. Archive it to free the slot, or spawn a replacement.'')
            else send_message E \<lparr>tp_thread = t_id c, tp_agent = t_agent_name c\<rparr> message answerMessageSent st)"

definition listAgents :: "delegate_state \<Rightarrow> answered" where
  "listAgents st = Inr (st, marshal (JArr (map (\<lambda>c. JObj ([(''session_thread_id'', JStr (t_id c)), (''agent_name'', JStr (t_agent_name c)),
     (''status'', JStr (session_status_str (t_status c)))] @ (if stop_str c = [] then [] else [(''stop_reason'', JStr (stop_str c))])))
     (liveChildren (ds_db st)))), False)"

definition wait_verdict :: "delegate_env \<Rightarrow> delegate_state \<Rightarrow> string \<times> bool" where
  "wait_verdict E st = (case ds_waited st of Some v \<Rightarrow> v
     | None \<Rightarrow> let busy = BusyChild (ds_db st) [];
                  unread = chainInput (s_log (ds_db st)) (de_thread E) (de_watermark E) in
         if \<not> busy \<and> \<not> unread then (answerNothingToWaitFor, False) else (answerWaitStarted, busy \<and> \<not> unread))"

definition waitForAgents :: "delegate_env \<Rightarrow> delegate_state \<Rightarrow> answered" where
  "waitForAgents E st = (let v = wait_verdict E st in
     Inr (st\<lparr>ds_waited := Some v, ds_park := ds_park st \<or> snd v\<rparr>, fst v, False))"

definition submitResult :: "delegate_env \<Rightarrow> delegated_call \<Rightarrow> delegate_state \<Rightarrow> answered" where
  "submitResult E call st =
     (let p = dc_input call in
      if \<not> decodes (FStruct [(''result'', FString)]) p then refuse st ''submit_result takes a result.''
      else let result = delegationText (str_field p ''result'') in
        if result = [] then refuse st ''submit_result needs a result.''
        else if \<not> de_settlement_only E \<or> de_cut E then refuse st ''report after your tool calls have returned.''
        else case send_message E primary_peer result answerReported st of
               Inl e \<Rightarrow> Inl e | Inr (st', a, err) \<Rightarrow> Inr (st'\<lparr>ds_ended := True\<rparr>, a, err))"

definition sendToParent :: "delegate_env \<Rightarrow> delegated_call \<Rightarrow> delegate_state \<Rightarrow> answered" where
  "sendToParent E call st =
     (let p = dc_input call in
      if \<not> decodes (FStruct [(''message'', FString)]) p then refuse st ''send_to_parent takes a message.''
      else let message = delegationText (str_field p ''message'') in
        if message = [] then refuse st ''send_to_parent needs a message.''
        else send_message E primary_peer message answerMessageSent st)"

section \<open>Running a turn's calls\<close>

text \<open>Calls answered without running: a name nobody offered, and a call cut off.\<close>

definition unrun_answer :: "delegate_env \<Rightarrow> delegated_call \<Rightarrow> string" where
  "unrun_answer E call =
     (if dc_unoffered call then unknownToolAnswer (de_printable E) (dc_name call)
      else if dc_cut call \<noteq> [] \<and> \<not> foreign E call then cutCallAnswer (dc_cut call) else [])"

definition dispatch :: "delegate_env \<Rightarrow> nat \<Rightarrow> delegated_call \<Rightarrow> delegate_state \<Rightarrow> answered" where
  "dispatch E i call st =
     (let name = dc_name call; wrong = wrongRole E name in
      if unrun_answer E call \<noteq> [] then refuse st (unrun_answer E call)
      else if wrong \<noteq> [] then refuse st wrong
      else if name = ''create_agent'' then createAgent E i call st
      else if name = ''send_to_agent'' then sendToAgent E call st
      else if name = ''list_agents'' then listAgents st
      else if name = ''wait_for_agents'' then waitForAgents E st
      else if name = ''submit_result'' then submitResult E call st
      else if name = ''send_to_parent'' then sendToParent E call st
      else refuse st (go_quote (de_printable E) name @ '' is not a delegation tool.''))"

definition answer_call :: "delegate_env \<Rightarrow> nat \<Rightarrow> delegated_call \<Rightarrow> delegate_state \<Rightarrow> message_error + delegate_state" where
  "answer_call E i call st =
     (case dispatch E i call st of Inl e \<Rightarrow> Inl e
      | Inr (st', text, isErr) \<Rightarrow> Inr (add_events [(delegationAnswer (dc_event call) text isErr)\<lparr>ne_thread := de_thread E\<rparr>] st'))"

fun run :: "delegate_env \<Rightarrow> nat \<Rightarrow> delegated_call list \<Rightarrow> delegate_state \<Rightarrow> message_error + delegate_state" where
  "run E i [] st = Inr st"
| "run E i (call # calls) st = (case answer_call E i call st of Inl e \<Rightarrow> Inl e | Inr st' \<Rightarrow> run E (Suc i) calls st')"

section \<open>What a turn's calls can do\<close>

definition status_event :: "event_type \<Rightarrow> bool" where
  "status_event t \<longleftrightarrow> sessionStatusTypes t \<or> primaryStatusEvents t"

lemma transition_types: "TransitionThread db t = Inr (db', evs, moved) \<Longrightarrow> list_all (\<lambda>e. status_event (ne_type e)) evs"
proof -
  have th: "list_all (\<lambda>e. status_event (ne_type e)) (List.map_filter id [thread_event db t])"
    by (cases "tt_status t") (auto simp: thread_event_def Let_def List.map_filter_def mk_event_def status_event_def primaryStatusEvents_def split: option.splits)
  have ss: "list_all (\<lambda>e. status_event (ne_type e)) (List.map_filter id [session_event t fs c])" for fs c
  proof (cases "session_event t fs c")
    case (Some e)
    have "sessionStatusOf x = Some y \<Longrightarrow> sessionStatusTypes y" for x y by (cases x) (auto simp: sessionStatusTypes_def)
    moreover have "sessionStatusTypes EventSessionStatusIdle" by (simp add: sessionStatusTypes_def)
    ultimately have "sessionStatusTypes (ne_type e)" using Some
      by (auto simp: session_event_def Let_def mk_event_def split: prod.splits if_splits option.splits)
    with Some show ?thesis by (simp add: List.map_filter_def status_event_def)
  qed (simp add: List.map_filter_def)
  assume "TransitionThread db t = Inr (db', evs, moved)"
  then have "evs = order_pair (thread_event db t) (session_event t (foldSession (move_thread db t) t (has_thread db (moving_id db t))) (s_status (move_thread db t)))"
    by (auto simp: TransitionThread_def Let_def split: option.splits if_splits)
  then obtain fs c where "evs = order_pair (thread_event db t) (session_event t fs c)" by blast
  with th ss [of fs c] show ?thesis
    by (auto simp: order_pair_def Let_def List.map_filter_def split: option.splits if_splits)
qed

definition run_ids :: "session_db \<Rightarrow> id set" where
  "run_ids db = set (map t_id (filter (\<lambda>r. t_status r = SessionRunning) (s_threads db)))"

text \<open>
  One step of a delegation wakes the threads it lists and no others, leaves the log alone, adds
  threads from \<open>F\<close> only and keeps the session within its cap of live threads; what it appends
  before the answer answers no call.
\<close>

definition moves :: "id list \<Rightarrow> delegate_state \<Rightarrow> delegate_state \<Rightarrow> bool" where
  "moves F st st' \<longleftrightarrow>
     (\<exists>ws. ds_wakes st' = ds_wakes st @ ws \<and> run_ids (ds_db st') = run_ids (ds_db st) \<union> row_key (ds_db st) ` set ws)
     \<and> (\<exists>new. map t_id (s_threads (ds_db st')) = map t_id (s_threads (ds_db st)) @ new \<and> subseq new F)
     \<and> s_log (ds_db st') = s_log (ds_db st) \<and> s_id (ds_db st') = s_id (ds_db st)
     \<and> s_archived (ds_db st') = s_archived (ds_db st)
     \<and> (distinct (map t_id (s_threads (ds_db st'))) \<and> live_count (ds_db st) \<le> maxLiveThreads
          \<longrightarrow> live_count (ds_db st') \<le> maxLiveThreads)"

definition delegates :: "id list \<Rightarrow> delegate_state \<Rightarrow> delegate_state \<Rightarrow> bool" where
  "delegates F st st' \<longleftrightarrow> moves F st st' \<and>
     (\<exists>evs. ds_events st' = ds_events st @ evs \<and> list_all (\<lambda>e. ne_type e \<noteq> EventAgentToolResult) evs)"

lemma moves_still: "ds_wakes st' = ds_wakes st \<Longrightarrow> ds_db st' = ds_db st \<Longrightarrow> moves F st st'"
  by (auto simp: moves_def)

lemma moves_trans: "moves F a b \<Longrightarrow> moves G b c \<Longrightarrow> moves (F @ G) a c"
proof -
  assume a: "moves F a b" and b: "moves G b c"
  from a obtain ws1 new1 where 1: "ds_wakes b = ds_wakes a @ ws1" "run_ids (ds_db b) = run_ids (ds_db a) \<union> row_key (ds_db a) ` set ws1"
    "map t_id (s_threads (ds_db b)) = map t_id (s_threads (ds_db a)) @ new1" "subseq new1 F"
    by (auto simp: moves_def)
  from b obtain ws2 new2 where 2: "ds_wakes c = ds_wakes b @ ws2" "run_ids (ds_db c) = run_ids (ds_db b) \<union> row_key (ds_db b) ` set ws2"
    "map t_id (s_threads (ds_db c)) = map t_id (s_threads (ds_db b)) @ new2" "subseq new2 G"
    by (auto simp: moves_def)
  have k: "row_key (ds_db b) = row_key (ds_db a)" using a by (intro ext) (simp add: moves_def row_key_def)
  have d: "distinct (map t_id (s_threads (ds_db b)))" if "distinct (map t_id (s_threads (ds_db c)))"
    using that unfolding 2(3) by simp
  show "moves (F @ G) a c"
    unfolding moves_def
    apply (intro conjI)
    subgoal using 1(1,2) 2(1,2) by (intro exI [of _ "ws1 @ ws2"]) (simp add: k image_Un Un_assoc)
    subgoal using 1(3,4) 2(3,4) by (intro exI [of _ "new1 @ new2"]) (simp add: list_emb_append_mono)
    subgoal using a b by (simp add: moves_def)
    subgoal using a b by (simp add: moves_def)
    subgoal using a b by (simp add: moves_def)
    subgoal using a b d by (auto simp: moves_def)
    done
qed

lemma delegates_refl: "delegates F st st"
  by (simp add: delegates_def moves_still)

lemma delegates_trans: "delegates F a b \<Longrightarrow> delegates G b c \<Longrightarrow> delegates (F @ G) a c"
  by (force simp: delegates_def intro: moves_trans)

lemma ds_db_simps [simp]:
  "ds_db (add_events evs st) = ds_db st" "ds_db (set_db db st) = db"
  "ds_db (st\<lparr>ds_wakes := ws\<rparr>) = ds_db st" "ds_db (st\<lparr>ds_waited := w\<rparr>) = ds_db st"
  "ds_db (st\<lparr>ds_park := b\<rparr>) = ds_db st" "ds_db (st\<lparr>ds_ended := b\<rparr>) = ds_db st"
  by (simp_all add: ds_db_def add_events_def set_db_def)

lemma ds_sel [simp]:
  "ds_events (add_events evs st) = ds_events st @ evs" "ds_events (set_db db st) = ds_events st"
  "ds_wakes (add_events evs st) = ds_wakes st" "ds_wakes (set_db db st) = ds_wakes st"
  "ds_park (add_events evs st) = ds_park st" "ds_park (set_db db st) = ds_park st"
  "ds_ended (add_events evs st) = ds_ended st" "ds_ended (set_db db st) = ds_ended st"
  by (simp_all add: add_events_def set_db_def)

lemma running_move:
  "set (map t_id (filter (\<lambda>r. t_status r = SessionRunning) (map (move_row k SessionRunning stop) rs)))
     = set (map t_id (filter (\<lambda>r. t_status r = SessionRunning) rs)) \<union> {k} \<inter> set (map t_id rs)"
  by (induction rs) (auto simp: move_row_def)

lemma run_ids_move:
  assumes "TransitionThread db (to_running thr) = Inr (db', evs, moved)"
  shows "run_ids db' = run_ids db \<union> {row_key db thr} \<inter> set (map t_id (s_threads db))"
  unfolding run_ids_def transition_effect(1) [OF assms] by (simp only: to_running_def thread_transition.simps running_move)

lemma live_count_move:
  assumes t: "TransitionThread db (to_running thr) = Inr (db', evs, moved)"
    and ok: "\<And>r. r \<in> set (s_threads db) \<Longrightarrow> t_id r = row_key db thr \<Longrightarrow> t_status r \<noteq> SessionTerminated"
  shows "live_count db' = live_count db"
proof -
  let ?f = "move_row (row_key db thr) SessionRunning None"
  have "live (?f r) = live r" if "r \<in> set (s_threads db)" for r
    using ok [OF that] by (auto simp: move_row_def live_def)
  then have "filter (live \<circ> ?f) (s_threads db) = filter live (s_threads db)" by (intro filter_cong) auto
  then show ?thesis
    by (simp add: live_count_def transition_effect(1) [OF t] to_running_def stored_stop_def filter_map)
qed

lemma transition_ids: "TransitionThread db t = Inr (db', evs, moved) \<Longrightarrow> map t_id (s_threads db') = map t_id (s_threads db)"
  by (simp add: transition_effect(1) move_row_def comp_def if_distrib cong: if_cong)

lemma find_distinct_row: "find (\<lambda>r. t_id r = i) rs = Some x \<Longrightarrow> distinct (map t_id rs) \<Longrightarrow> r \<in> set rs \<Longrightarrow> t_id r = i \<Longrightarrow> r = x"
  by (auto simp: find_Some_iff distinct_map inj_on_def)

lemma status_not_result: "status_event (ne_type e) \<Longrightarrow> ne_type e \<noteq> EventAgentToolResult"
  by (auto simp: status_event_def sessionStatusTypes_def primaryStatusEvents_def)

lemma transition_no_result:
  "TransitionThread db t = Inr (db', evs, moved) \<Longrightarrow> list_all (\<lambda>e. ne_type e \<noteq> EventAgentToolResult) evs"
  using transition_types by (fastforce simp: list_all_iff dest: status_not_result)

lemma deliver_delegates:
  assumes "deliver received st = Inr st'" "ne_type received = EventAgentThreadMessageReceived"
  shows "delegates [] st st'" "ds_park st' = ds_park st" "ds_ended st' = ds_ended st"
proof -
  let ?db = "ds_db st" and ?thr = "ne_thread received"
  from assms(1) obtain db pair moved where w: "wakeThread ?db ?thr = Inr (db, pair, moved)"
    and st': "st' = (add_events (pair @ [received]) (set_db db st))\<lparr>ds_wakes := (if pair \<noteq> [] then ds_wakes st @ [?thr] else ds_wakes st)\<rparr>"
    by (auto simp: deliver_def DeliverAndWake_def delivery_events_def Woke_def split: sum.splits)
  show "ds_park st' = ds_park st" "ds_ended st' = ds_ended st" by (simp_all add: st')
  from w show "delegates [] st st'"
  proof (cases rule: wakeThread_Inr)
    case woken
    from woken(1) obtain r where r: "row_of ?db ?thr = Some r" "t_status r = SessionIdle"
      by (auto simp: resting_def split: option.splits)
    then have k: "row_key ?db ?thr \<in> set (map t_id (s_threads ?db))"
      using row_of_id [OF r(1)] by (simp add: row_of_def find_Some_iff) (metis image_eqI nth_mem)
    have "live_count db = live_count ?db" if "distinct (map t_id (s_threads ?db))"
      using r(2) find_distinct_row [OF r(1) [unfolded row_of_def] that] by (intro live_count_move [OF woken(2)]) fastforce
    moreover have "run_ids db = run_ids ?db \<union> {row_key ?db ?thr}" using k run_ids_move [OF woken(2)] by blast
    ultimately show ?thesis
      using transition_no_result [OF woken(2)] transition_effect(2,3,4) [OF woken(2)] woken(3) assms(2)
      by (simp add: delegates_def moves_def st' transition_ids [OF woken(2)])
  next
    case asleep
    with assms(2) show ?thesis by (auto simp: delegates_def moves_def st')
  qed
qed

lemma delegates_mono: "delegates [] a b \<Longrightarrow> delegates F a b"
  using delegates_trans [OF delegates_refl, of "[]" a b F] by simp

text \<open>A step that moves no thread: events, the wait's verdict, the flags of the caller.\<close>

lemma delegates_still:
  assumes "ds_events st' = ds_events st @ evs" "list_all (\<lambda>e. ne_type e \<noteq> EventAgentToolResult) evs"
    "ds_wakes st' = ds_wakes st" "ds_db st' = ds_db st"
  shows "delegates F st st'"
  using assms by (simp add: delegates_def moves_still)

lemma message_types [simp]:
  "ne_type (sent_row sid from to text) = EventAgentThreadMessageSent"
  "ne_type (received_row sid from to text) = EventAgentThreadMessageReceived"
  "ne_thread (received_row sid from to text) = tp_thread to" "ne_thread (sent_row sid from to text) = tp_thread from"
  by (simp_all add: sent_row_def received_row_def mk_event_def)

lemma send_message_delegates:
  assumes "send_message E target text answer st = Inr (st', a, err)"
  shows "delegates F st st'" "ds_park st' = ds_park st" "ds_ended st' = ds_ended st"
proof -
  let ?sent = "sent_row (s_id (ds_db st)) (caller_peer E) target text"
    and ?recv = "received_row (s_id (ds_db st)) (caller_peer E) target text"
  from assms have d: "deliver ?recv (add_events [?sent] st) = Inr st'"
    by (auto simp: send_message_def ThreadMessage_def split: sum.splits)
  have "delegates [] st (add_events [?sent] st)" by (rule delegates_still [where evs = "[?sent]"]) simp_all
  from delegates_trans [OF this deliver_delegates(1) [OF d]] show "delegates F st st'" by (auto intro: delegates_mono)
  show "ds_park st' = ds_park st" "ds_ended st' = ds_ended st" using deliver_delegates(2,3) [OF d] by simp_all
qed

lemma insert_thread_db [simp]:
  "s_threads (st_db (insert_thread child name st)) = s_threads (st_db st) @ [spawn_row (st_db st) child name]"
  "s_log (st_db (insert_thread child name st)) = s_log (st_db st)"
  "s_id (st_db (insert_thread child name st)) = s_id (st_db st)"
  "s_archived (st_db (insert_thread child name st)) = s_archived (st_db st)"
  by (simp_all add: insert_thread_def)

lemma spawn_delegates:
  assumes "spawn E c name msg st = Inr (st', a, err)" and named: "c \<noteq> []" and room: "live_count (ds_db st) < maxLiveThreads"
  shows "delegates [c] st st'" "ds_park st' = ds_park st" "ds_ended st' = ds_ended st"
proof -
  let ?st1 = "st\<lparr>ds_waited := None, ds_store := insert_thread c name (ds_store st)\<rparr>" and ?sid = "s_id (ds_db st)"
  let ?to = "\<lparr>tp_thread = c, tp_agent = name\<rparr>"
  obtain db2 pair m where t: "TransitionThread (ds_db ?st1) (to_running c) = Inr (db2, pair, m)"
    and st': "st' = (add_events ([created_event c name, sent_row ?sid (caller_peer E) ?to msg] @ pair @ [received_row ?sid (caller_peer E) ?to msg])
         (set_db db2 ?st1))\<lparr>ds_wakes := ds_wakes st @ [c]\<rparr>"
    using assms(1) by (auto simp: spawn_def Let_def ThreadMessage_def split: sum.splits)
  have db1 [simp]: "s_threads (ds_db ?st1) = s_threads (ds_db st) @ [spawn_row (ds_db st) c name]" "s_log (ds_db ?st1) = s_log (ds_db st)"
    "s_id (ds_db ?st1) = s_id (ds_db st)" "s_archived (ds_db ?st1) = s_archived (ds_db st)"
    by (simp_all add: ds_db_def)
  have row: "t_id (spawn_row db c name) = c" "t_status (spawn_row db c name) = SessionRunning" "live (spawn_row db c name)" for db
    by (simp_all add: spawn_row_def live_def)
  have rk: "row_key (ds_db ?st1) c = c" using named by (simp add: row_key_def)
  have run: "run_ids db2 = run_ids (ds_db st) \<union> {c}"
    unfolding run_ids_move [OF t] rk by (auto simp: run_ids_def row)
  have ids: "map t_id (s_threads db2) = map t_id (s_threads (ds_db st)) @ [c]" using transition_ids [OF t] by (simp add: row)
  have cap: "live_count db2 \<le> maxLiveThreads" if d: "distinct (map t_id (s_threads db2))"
  proof -
    have "t_status r \<noteq> SessionTerminated" if "r \<in> set (s_threads (ds_db ?st1))" "t_id r = row_key (ds_db ?st1) c" for r
    proof -
      have "r = spawn_row (ds_db st) c name" using that d unfolding ids rk by auto
      then show ?thesis using row(2) [of "ds_db st"] by simp
    qed
    from live_count_move [OF t this] have "live_count db2 = live_count (ds_db ?st1)" .
    also have "\<dots> = Suc (live_count (ds_db st))" by (simp add: live_count_def row)
    finally show ?thesis using room by simp
  qed
  show "ds_park st' = ds_park st" "ds_ended st' = ds_ended st" by (simp_all add: st')
  show "delegates [c] st st'"
    unfolding delegates_def moves_def
    apply (intro conjI)
    subgoal using run named by (simp add: st' row_key_def)
    subgoal using ids by (simp add: st')
    subgoal using transition_effect(3) [OF t] by (simp add: st')
    subgoal using transition_effect(2) [OF t] by (simp add: st')
    subgoal using transition_effect(4) [OF t] by (simp add: st')
    subgoal using cap by (simp add: st')
    subgoal using transition_no_result [OF t] by (simp add: st' created_event_def mk_event_def)
    done
qed

lemma createAgent_Inr:
  assumes "createAgent E i call st = Inr (st', a, err)"
  obtains "st' = st" | name msg where "spawn E (de_child E i) name msg st = Inr (st', a, err)" "live_count (ds_db st) < maxLiveThreads"
  using assms by (auto simp: createAgent_def refuse_def Let_def not_le split: if_splits prod.splits option.splits)

lemma createAgent_delegates:
  assumes "createAgent E i call st = Inr (st', a, err)" "de_child E i \<noteq> []"
  shows "delegates [de_child E i] st st'"
  using assms(1) by (cases rule: createAgent_Inr) (use spawn_delegates(1) assms(2) delegates_refl in blast)+


lemma dispatch_delegates:
  assumes "dispatch E i call st = Inr (st', a, err)" "de_child E i \<noteq> []"
  shows "delegates [de_child E i] st st'"
proof -
  have send: "delegates F st s" if "sendToAgent E call st = Inr (s, a, err)" for F s
    using that delegates_refl send_message_delegates(1)
    by (auto simp: sendToAgent_def refuse_def Let_def split: if_splits sum.splits)
  have parent: "delegates F st s" if "sendToParent E call st = Inr (s, a, err)" for F s
    using that delegates_refl send_message_delegates(1)
    by (auto simp: sendToParent_def refuse_def Let_def split: if_splits)
  have submit: "delegates F st s" if "submitResult E call st = Inr (s, a, err)" for F s
  proof -
    from that consider "s = st" | s0 where "send_message E primary_peer (delegationText (str_field (dc_input call) ''result'')) answerReported st = Inr (s0, a, err)" "s = s0\<lparr>ds_ended := True\<rparr>"
      by (auto simp: submitResult_def refuse_def Let_def split: if_splits sum.splits)
    then show ?thesis
    proof cases
      case 2
      have "delegates [] s0 s" by (rule delegates_still [where evs = "[]"]) (simp_all add: 2)
      from delegates_trans [OF send_message_delegates(1) [OF 2(1)] this] show ?thesis by simp
    qed (simp add: delegates_refl)
  qed
  have wait: "delegates F st s" if "waitForAgents E st = Inr (s, a, err)" for F s
    using that by (intro delegates_still [where evs = "[]"]) (auto simp: waitForAgents_def Let_def)
  have "listAgents st = Inr (s, a, err) \<Longrightarrow> s = st" for s by (simp add: listAgents_def)
  with assms send parent submit wait createAgent_delegates show ?thesis
    unfolding dispatch_def Let_def refuse_def
    by (simp split: if_split_asm) (use delegates_refl in blast)+
qed


section \<open>Every call is answered\<close>

definition answer_ref :: "new_event \<Rightarrow> id" where
  "answer_ref e = str_field (ne_payload e) ''tool_use_id''"

definition answers_of :: "new_event list \<Rightarrow> new_event list" where
  "answers_of evs = filter (\<lambda>e. ne_type e = EventAgentToolResult) evs"

lemma run_Cons_Inr:
  assumes "run E i (call # calls) st = Inr st'"
  obtains s a err where "dispatch E i call st = Inr (s, a, err)"
    "run E (Suc i) calls (add_events [(delegationAnswer (dc_event call) a err)\<lparr>ne_thread := de_thread E\<rparr>] s) = Inr st'"
  using assms by (auto simp: answer_call_def split: sum.splits)

lemma answer_event [simp]:
  "ne_type (delegationAnswer i text err) = EventAgentToolResult"
  "answer_ref ((delegationAnswer i text err)\<lparr>ne_thread := thr\<rparr>) = i"
  by (simp_all add: delegationAnswer_def mk_event_def answer_ref_def str_field_def field_vals_def fold_name_def fold_rune_def byte_def)

lemma answers_append: "answers_of (xs @ ys) = answers_of xs @ answers_of ys"
  by (simp add: answers_of_def)

lemma run_answers:
  assumes "run E i calls st = Inr st'" "\<And>j. de_child E j \<noteq> []"
  shows "\<exists>evs. ds_events st' = ds_events st @ evs \<and> map answer_ref (answers_of evs) = map dc_event calls
           \<and> list_all (\<lambda>e. ne_thread e = de_thread E) (answers_of evs)"
  using assms(1)
proof (induction calls arbitrary: i st)
  case (Cons call calls)
  from Cons.prems obtain s a err where d: "dispatch E i call st = Inr (s, a, err)"
    and r: "run E (Suc i) calls (add_events [(delegationAnswer (dc_event call) a err)\<lparr>ne_thread := de_thread E\<rparr>] s) = Inr st'"
    by (rule run_Cons_Inr)
  let ?ans = "(delegationAnswer (dc_event call) a err)\<lparr>ne_thread := de_thread E\<rparr>"
  from dispatch_delegates [OF d assms(2)] obtain evs1 where
    e1: "ds_events s = ds_events st @ evs1" "list_all (\<lambda>e. ne_type e \<noteq> EventAgentToolResult) evs1"
    by (auto simp: delegates_def)
  have n: "answers_of evs1 = []" using e1(2) by (simp add: answers_of_def filter_empty_conv list_all_iff)
  from Cons.IH [OF r] obtain evs2 where e2: "ds_events st' = ds_events s @ [?ans] @ evs2"
    "map answer_ref (answers_of evs2) = map dc_event calls" "list_all (\<lambda>e. ne_thread e = de_thread E) (answers_of evs2)"
    by auto
  have "answers_of [?ans] = [?ans]" by (simp add: answers_of_def)
  with n e1(1) e2 show ?case
    by (intro exI [of _ "evs1 @ [?ans] @ evs2"]) (simp only: append_assoc answers_append, simp)
qed (simp add: answers_of_def)

lemma run_moves:
  assumes "run E i calls st = Inr st'" "\<And>j. de_child E j \<noteq> []"
  shows "moves (map (de_child E) [i..<i + length calls]) st st'"
  using assms(1)
proof (induction calls arbitrary: i st)
  case (Cons call calls)
  from Cons.prems obtain s a err where d: "dispatch E i call st = Inr (s, a, err)"
    and r: "run E (Suc i) calls (add_events [(delegationAnswer (dc_event call) a err)\<lparr>ne_thread := de_thread E\<rparr>] s) = Inr st'"
    by (rule run_Cons_Inr)
  let ?s = "add_events [(delegationAnswer (dc_event call) a err)\<lparr>ne_thread := de_thread E\<rparr>] s"
  have "moves [de_child E i] st s" using dispatch_delegates [OF d assms(2)] by (simp add: delegates_def)
  moreover have "moves [] s ?s" by (rule moves_still) simp_all
  ultimately have "moves (([de_child E i] @ []) @ map (de_child E) [Suc i..<Suc i + length calls]) st st'"
    using Cons.IH [OF r] by (blast intro: moves_trans)
  moreover have "[i..<i + length (call # calls)] = i # [Suc i..<Suc i + length calls]" by (simp add: upt_rec)
  ultimately show ?case by simp
qed (simp add: moves_still)

section \<open>Every turn's calls settle\<close>

text \<open>The rows of a session: ids distinct and not empty, the primary's among them.\<close>

definition threads_ok :: "session_db \<Rightarrow> bool" where
  "threads_ok db \<longleftrightarrow> distinct (map t_id (s_threads db)) \<and> [] \<notin> set (map t_id (s_threads db))
     \<and> primary_thread_id (s_id db) \<in> set (map t_id (s_threads db))"

definition fresh_children :: "delegate_env \<Rightarrow> session_db \<Rightarrow> bool" where
  "fresh_children E db \<longleftrightarrow> inj (de_child E) \<and> [] \<notin> range (de_child E) \<and> range (de_child E) \<inter> set (map t_id (s_threads db)) = {}"

lemma row_of_iff: "row_of db thr \<noteq> None \<longleftrightarrow> row_key db thr \<in> set (map t_id (s_threads db))"
  by (simp add: row_of_def find_None_iff image_iff) metis

lemma transition_total:
  assumes "row_key db thr \<in> set (map t_id (s_threads db))"
  shows "\<exists>db' evs moved. TransitionThread db (to_running thr) = Inr (db', evs, moved)"
proof -
  have "has_thread db (moving_id db (to_running thr))"
    using assms by (simp add: has_thread_def moving_row_key to_running_def)
  then show ?thesis by (simp add: TransitionThread_def to_running_def Let_def)
qed

lemma deliver_total:
  assumes "row_key (ds_db st) (ne_thread received) \<in> set (map t_id (s_threads (ds_db st)))"
  shows "\<not> isl (deliver received st)"
proof -
  obtain r where r: "find (\<lambda>r. t_id r = row_key (ds_db st) (ne_thread received)) (s_threads (ds_db st)) = Some r"
    using iffD2 [OF row_of_iff assms] by (auto simp: row_of_def)
  obtain db' evs moved where t: "TransitionThread (ds_db st) (to_running (ne_thread received)) = Inr (db', evs, moved)"
    using transition_total [OF assms] by blast
  then have "\<not> isl (wakeThread (ds_db st) (ne_thread received))" by (simp add: wakeThread_def r t)
  then show ?thesis by (auto simp: deliver_def DeliverAndWake_def split: sum.split)
qed

lemma send_message_total:
  assumes "row_key (ds_db st) (tp_thread target) \<in> set (map t_id (s_threads (ds_db st)))"
  shows "\<not> isl (send_message E target msg ans st)"
proof -
  let ?recv = "received_row (s_id (ds_db st)) (caller_peer E) target msg"
    and ?sent = "sent_row (s_id (ds_db st)) (caller_peer E) target msg"
  have "\<not> isl (deliver ?recv (add_events [?sent] st))"
    by (rule deliver_total) (use assms in simp)
  then show ?thesis by (auto simp: send_message_def ThreadMessage_def split: sum.split)
qed

lemma send_target_row: "send_target pr db p = Inr c \<Longrightarrow> c \<in> set (liveChildren db)"
proof -
  assume a: "send_target pr db p = Inr c"
  let ?tid = "trim_space (str_field p ''session_thread_id'')" and ?name = "trim_space (str_field p ''agent_name'')"
  consider "find (\<lambda>c. t_id c = ?tid) (rev (liveChildren db)) = Some c" | "filter (\<lambda>c. t_agent_name c = ?name) (liveChildren db) = [c]"
    using a by (auto simp: send_target_def Let_def split: if_splits option.splits list.splits)
  then show ?thesis
  proof cases
    case 1
    then have "c \<in> set (rev (liveChildren db))" by (metis find_Some_iff nth_mem)
    then show ?thesis by simp
  next
    case 2
    then have "c \<in> set (filter (\<lambda>c. t_agent_name c = ?name) (liveChildren db))" by simp
    then show ?thesis by simp
  qed
qed

lemma dispatch_total:
  assumes ok: "threads_ok (ds_db st)" and named: "de_child E i \<noteq> []"
  shows "\<not> isl (dispatch E i call st)"
proof -
  have prim: "\<not> isl (send_message E primary_peer msg ans st)" for msg ans
    by (rule send_message_total) (use ok in \<open>simp add: threads_ok_def row_key_def primary_peer_def\<close>)
  have spawn: "\<not> isl (spawn E (de_child E i) name msg st)" for name msg
  proof -
    let ?st1 = "st\<lparr>ds_waited := None, ds_store := insert_thread (de_child E i) name (ds_store st)\<rparr>"
    obtain db' evs m where "TransitionThread (ds_db ?st1) (to_running (de_child E i)) = Inr (db', evs, m)"
      using transition_total [of "ds_db ?st1" "de_child E i"] named by (auto simp: row_key_def ds_db_def spawn_row_def)
    then show ?thesis by (simp add: spawn_def ThreadMessage_def Let_def)
  qed
  have create: "\<not> isl (createAgent E i call st)"
    by (simp add: createAgent_def refuse_def Let_def spawn split: prod.split option.split)
  have agent: "\<not> isl (sendToAgent E call st)"
  proof (cases "send_target (de_printable E) (ds_db st) (dc_input call)")
    case (Inr c)
    from send_target_row [OF this] have "t_id c \<in> set (map t_id (s_threads (ds_db st)))" by (simp add: liveChildren_def)
    moreover from this ok have "t_id c \<noteq> []" unfolding threads_ok_def by metis
    ultimately have "\<not> isl (send_message E \<lparr>tp_thread = t_id c, tp_agent = t_agent_name c\<rparr> msg ans st)" for msg ans
      by (intro send_message_total) (simp add: row_key_def)
    with Inr show ?thesis by (simp add: sendToAgent_def refuse_def Let_def)
  qed (simp add: sendToAgent_def refuse_def Let_def)
  have "\<not> isl (sendToParent E call st)" using prim by (simp add: sendToParent_def refuse_def Let_def)
  moreover have "\<not> isl (submitResult E call st)"
    using prim [of "delegationText (str_field (dc_input call) ''result'')" answerReported]
    by (auto simp: submitResult_def refuse_def Let_def split: sum.split)
  moreover have "\<not> isl (listAgents st)" "\<not> isl (waitForAgents E st)" by (simp_all add: listAgents_def waitForAgents_def Let_def)
  ultimately show ?thesis using create agent by (simp add: dispatch_def refuse_def Let_def)
qed

lemma run_total:
  assumes "threads_ok (ds_db st)" "inj (de_child E)" "[] \<notin> range (de_child E)"
    "\<And>j. i \<le> j \<Longrightarrow> de_child E j \<notin> set (map t_id (s_threads (ds_db st)))"
  shows "\<not> isl (run E i calls st)"
  using assms(1,4)
proof (induction calls arbitrary: i st)
  case (Cons call calls)
  have named: "de_child E i \<noteq> []" using assms(3) by (metis rangeI)
  obtain s a err where d: "dispatch E i call st = Inr (s, a, err)"
    using dispatch_total [OF Cons.prems(1) named, of call] by (cases "dispatch E i call st") auto
  let ?s = "add_events [(delegationAnswer (dc_event call) a err)\<lparr>ne_thread := de_thread E\<rparr>] s"
  from dispatch_delegates [OF d named] obtain new where new: "map t_id (s_threads (ds_db s)) = map t_id (s_threads (ds_db st)) @ new"
    "subseq new [de_child E i]" "s_id (ds_db s) = s_id (ds_db st)" by (auto simp: delegates_def moves_def)
  have n: "new = [] \<or> new = [de_child E i]" using new(2) in_set_subseqs [of new "[de_child E i]"] by auto
  have "threads_ok (ds_db ?s)"
    using Cons.prems(1) Cons.prems(2) [of i] n named unfolding threads_ok_def ds_db_simps new(1,3)
    by (elim disjE conjE) simp_all
  moreover have "de_child E j \<notin> set (map t_id (s_threads (ds_db ?s)))" if "Suc i \<le> j" for j
    using Cons.prems(2) [of j] that n injD [OF assms(2), of j i] by (auto simp: new(1))
  ultimately have "\<not> isl (run E (Suc i) calls ?s)" by (rule Cons.IH)
  then show ?case by (simp add: answer_call_def d)
qed simp

text \<open>
  C34: no delegated call is left open.  Whatever a turn's delegated calls are, the settlement runs
  them all, and what it appends on the caller's thread holds exactly one tool result per call, in
  the order the model made them.
\<close>

theorem delegated_calls_answered:
  assumes "threads_ok (ds_db st)" "fresh_children E (ds_db st)"
  shows "\<exists>st' evs. run E 0 calls st = Inr st' \<and> ds_events st' = ds_events st @ evs
     \<and> map answer_ref (answers_of evs) = map dc_event calls
     \<and> list_all (\<lambda>e. ne_thread e = de_thread E) (answers_of evs)"
proof -
  have fresh: "inj (de_child E)" "[] \<notin> range (de_child E)" "\<And>j. de_child E j \<notin> set (map t_id (s_threads (ds_db st)))"
    using assms(2) by (auto simp: fresh_children_def)
  from run_total [OF assms(1) fresh(1,2), of 0 calls] fresh(3) obtain st' where r: "run E 0 calls st = Inr st'"
    by (cases "run E 0 calls st") auto
  have "de_child E j \<noteq> []" for j using fresh(2) by (metis rangeI)
  from run_answers [OF r this] r show ?thesis by blast
qed

text \<open>
  C35: a session never runs more than 25 live threads.  Delegation spawns only below the cap; the
  threads running afterwards are those that ran before and those the settlement is told to queue a
  turn for, and no thread row is lost or duplicated.
\<close>

theorem delegation_bounded:
  assumes "threads_ok (ds_db st)" "fresh_children E (ds_db st)" "run E 0 calls st = Inr st'" "live_count (ds_db st) \<le> maxLiveThreads"
  shows "live_count (ds_db st') \<le> maxLiveThreads
    \<and> (\<exists>ws. ds_wakes st' = ds_wakes st @ ws \<and> run_ids (ds_db st') = run_ids (ds_db st) \<union> row_key (ds_db st) ` set ws)
    \<and> threads_ok (ds_db st') \<and> prefix (map t_id (s_threads (ds_db st))) (map t_id (s_threads (ds_db st')))"
proof -
  have named: "de_child E j \<noteq> []" for j using assms(2) unfolding fresh_children_def by (metis rangeI)
  note m = run_moves [OF assms(3) named]
  from m obtain new where new: "map t_id (s_threads (ds_db st')) = map t_id (s_threads (ds_db st)) @ new"
    "subseq new (map (de_child E) [0..<length calls])" "s_id (ds_db st') = s_id (ds_db st)" by (auto simp: moves_def)
  have "inj_on (de_child E) {0..<length calls}" using assms(2) by (auto simp: fresh_children_def intro: inj_on_subset)
  then have "distinct new" using new(2) subseqs_distinctD [of new "map (de_child E) [0..<length calls]"] by (simp add: distinct_map)
  moreover have "set new \<subseteq> range (de_child E)"
  proof
    fix x assume "x \<in> set new"
    then obtain y where "y \<in> set (map (de_child E) [0..<length calls])" "x = y" by (rule list_emb_set [OF new(2)])
    then show "x \<in> range (de_child E)" by auto
  qed
  ultimately have ok: "threads_ok (ds_db st')"
    using assms(1,2) unfolding threads_ok_def fresh_children_def new(1) new(3) by auto
  moreover from this have "live_count (ds_db st') \<le> maxLiveThreads" using m assms(4) by (simp add: moves_def threads_ok_def)
  moreover have "\<exists>ws. ds_wakes st' = ds_wakes st @ ws \<and> run_ids (ds_db st') = run_ids (ds_db st) \<union> row_key (ds_db st) ` set ws"
    using m by (auto simp: moves_def)
  ultimately show ?thesis by (simp add: new(1))
qed

definition demo_coordinator :: delegate_state where
  "demo_coordinator = \<lparr>ds_store = (demo_store [])\<lparr>st_db := demo_db\<lparr>s_threads := [demo_primary]\<rparr>\<rparr>, ds_events = [], ds_wakes = [],
     ds_park = False, ds_ended = False, ds_waited = None\<rparr>"

definition demo_delegate :: delegate_env where
  "demo_delegate = \<lparr>de_agent = ''lead'', de_roster = Some (JObj [(''agents'', JArr [JObj [(''name'', JStr ''helper'')]])]), de_thread = [],
     de_watermark = 3, de_settlement_only = True, de_cut = False, de_child = (\<lambda>i. ''sthr_c'' @ replicate i (CHR ''x'')), de_printable = (\<lambda>_. True)\<rparr>"

definition demo_spawns :: "delegated_call list" where
  "demo_spawns = [\<lparr>dc_event = ''sevt_1'', dc_name = ''create_agent'', dc_input = JObj [(''agent_name'', JStr ''helper''), (''message'', JStr ''go'')],
       dc_unoffered = False, dc_cut = [], dc_six = True\<rparr>,
     \<lparr>dc_event = ''sevt_2'', dc_name = ''wait_for_agents'', dc_input = JObj [], dc_unoffered = False, dc_cut = [], dc_six = True\<rparr>]"

lemma demo_delegate_ok: "threads_ok (ds_db demo_coordinator)" "fresh_children demo_delegate (ds_db demo_coordinator)"
    "live_count (ds_db demo_coordinator) \<le> maxLiveThreads"
proof -
  show "threads_ok (ds_db demo_coordinator)"
    by (simp add: threads_ok_def ds_db_def demo_coordinator_def demo_defs primary_thread_id_def)
  have "inj (de_child demo_delegate)" by (rule injI) (simp add: demo_delegate_def)
  then show "fresh_children demo_delegate (ds_db demo_coordinator)"
    by (auto simp: fresh_children_def ds_db_def demo_coordinator_def demo_defs demo_delegate_def)
  show "live_count (ds_db demo_coordinator) \<le> maxLiveThreads"
    by (simp add: live_count_def ds_db_def demo_coordinator_def demo_defs maxLiveThreads_def live_def)
qed

theorem delegated_calls_answered_witness:
  "\<exists>st' evs. run demo_delegate 0 demo_spawns demo_coordinator = Inr st' \<and> ds_events st' = evs
     \<and> map answer_ref (answers_of evs) = [''sevt_1'', ''sevt_2'']"
  using delegated_calls_answered [OF demo_delegate_ok(1,2), of demo_spawns]
  by (auto simp: demo_spawns_def demo_coordinator_def)

theorem delegation_bounded_witness:
  "\<exists>st'. run demo_delegate 0 demo_spawns demo_coordinator = Inr st' \<and> live_count (ds_db st') \<le> 25"
proof -
  have n: "[] \<notin> range (de_child demo_delegate)" "inj (de_child demo_delegate)"
    "\<And>j. de_child demo_delegate j \<notin> set (map t_id (s_threads (ds_db demo_coordinator)))"
    using demo_delegate_ok(2) by (auto simp: fresh_children_def)
  from run_total [OF demo_delegate_ok(1) n(2,1), of 0 demo_spawns] n(3) obtain st' where
    r: "run demo_delegate 0 demo_spawns demo_coordinator = Inr st'" by (cases "run demo_delegate 0 demo_spawns demo_coordinator") auto
  from delegation_bounded [OF demo_delegate_ok(1,2) r demo_delegate_ok(3)] r show ?thesis by (simp add: maxLiveThreads_def)
qed


end
