(* ===== verification/Outcomes.thy ===== *)
theory Outcomes
  imports Delegation
begin

text \<open>
  \<^verbatim>\<open>internal/events/outcomes.go\<close>, \<^verbatim>\<open>internal/domain/outcome.go\<close> and the verdicts of
  \<^verbatim>\<open>internal/brain/grader.go\<close>: the outcomes a client defines, the list of evaluations on the
  session row, and every way an entry moves.  An entry is pending, running, evaluating, and then
  ends satisfied, failed, out of iterations or interrupted; a grader that asks for a revision sends
  it back to running with one more iteration.
\<close>

section \<open>Results\<close>

definition OutcomeResultTerminal :: "string \<Rightarrow> bool" where
  "OutcomeResultTerminal result \<longleftrightarrow> result \<in> {''satisfied'', ''max_iterations_reached'', ''failed'', ''interrupted''}"

section \<open>Definitions\<close>

record define_outcome =
  do_id :: id
  do_description :: string
  do_max :: int
  do_rubric_type :: string
  do_content :: string
  do_file :: string

definition define_fields :: field where
  "define_fields = FStruct [(''outcome_id'', FString), (''description'', FString), (''max_iterations'', FInt),
     (''rubric'', FStruct [(''type'', FString), (''content'', FString), (''file_id'', FString)])]"

definition ParseDefineOutcome :: "json \<Rightarrow> define_outcome option" where
  "ParseDefineOutcome p =
     (if \<not> decodes define_fields p then None
      else Some \<lparr>do_id = str_field p ''outcome_id'', do_description = str_field p ''description'', do_max = int_field p ''max_iterations'',
        do_rubric_type = str_field (obj_field p ''rubric'') ''type'', do_content = str_field (obj_field p ''rubric'') ''content'',
        do_file = str_field (obj_field p ''rubric'') ''file_id''\<rparr>)"

datatype outcome_refusal =
    BadDefinition
  | OneOutcomeAtATime
  | StillActive id string
  | RubricNotFound string
  | RubricTooLarge string int

fun DefineOutcomes :: "new_event list \<Rightarrow> outcome_refusal + define_outcome list" where
  "DefineOutcomes [] = Inr []"
| "DefineOutcomes (ev # evs) =
     (if ne_type ev \<noteq> EventUserDefineOutcome then DefineOutcomes evs
      else case ParseDefineOutcome (ne_payload ev) of None \<Rightarrow> Inl BadDefinition
           | Some d \<Rightarrow> (case DefineOutcomes evs of Inl e \<Rightarrow> Inl e | Inr ds \<Rightarrow> Inr (d # ds)))"

definition maxRubricFileBytes :: int where
  "maxRubricFileBytes = 256 * 1024"

text \<open>\<open>files\<close> are the sizes of the live rows of the files table.\<close>

definition rubric_refusal :: "(string \<rightharpoonup> int) \<Rightarrow> define_outcome \<Rightarrow> outcome_refusal option" where
  "rubric_refusal files d =
     (if do_rubric_type d \<noteq> ''file'' then None
      else case files (do_file d) of None \<Rightarrow> Some (RubricNotFound (do_file d))
           | Some n \<Rightarrow> if n > maxRubricFileBytes then Some (RubricTooLarge (do_file d) n) else None)"

definition ActiveOutcome :: "outcome_evaluation list \<Rightarrow> outcome_evaluation option" where
  "ActiveOutcome evals = find (\<lambda>e. \<not> OutcomeResultTerminal (oe_result e)) evals"

definition ValidateDefineOutcomes :: "(string \<rightharpoonup> int) \<Rightarrow> outcome_evaluation list \<Rightarrow> define_outcome list \<Rightarrow> bool \<Rightarrow> outcome_refusal option" where
  "ValidateDefineOutcomes files evals defs batchInterrupts =
     (case defs of [] \<Rightarrow> None
      | [d] \<Rightarrow> (case (if batchInterrupts then None else ActiveOutcome evals) of
                  Some e \<Rightarrow> Some (StillActive (oe_id e) (oe_result e))
                | None \<Rightarrow> rubric_refusal files d)
      | _ \<Rightarrow> Some OneOutcomeAtATime)"

definition NewOutcomeEntry :: "define_outcome \<Rightarrow> outcome_evaluation" where
  "NewOutcomeEntry d = \<lparr>oe_id = do_id d, oe_description = do_description d, oe_explanation = [], oe_iteration = 0,
     oe_result = ''pending'', oe_completed = None\<rparr>"

definition RubricSnapshotKey :: "id \<Rightarrow> string" where
  "RubricSnapshotKey oid = ''outcomes/'' @ oid @ ''/rubric''"

section \<open>Interrupts\<close>

definition InterruptedExplanation :: string where
  "InterruptedExplanation = ''The outcome was interrupted by a user.interrupt before evaluation completed.''"

definition num :: "int \<Rightarrow> json" where
  "num i = JNum (dec_int i)"

definition usage_json :: "model_usage \<Rightarrow> json" where
  "usage_json u = JObj [(''cache_creation_input_tokens'', num (sint (m_cache_creation u))), (''cache_read_input_tokens'', num (sint (m_cache_read u))),
     (''input_tokens'', num (sint (m_input u))), (''output_tokens'', num (sint (m_output u))), (''speed'', JNull)]"

definition no_usage :: model_usage where
  "no_usage = \<lparr>m_cache_creation = 0, m_cache_read = 0, m_input = 0, m_output = 0\<rparr>"

definition eval_end :: "id \<Rightarrow> id \<Rightarrow> int \<Rightarrow> string \<Rightarrow> string \<Rightarrow> model_usage \<Rightarrow> json" where
  "eval_end oid start iteration result explanation usage = JObj [(''explanation'', JStr explanation), (''iteration'', num iteration),
     (''outcome_evaluation_start_id'', JStr start), (''outcome_id'', JStr oid), (''result'', JStr result), (''usage'', usage_json usage)]"

definition start_ids :: "event list \<Rightarrow> id \<Rightarrow> id list" where
  "start_ids log oid = map ev_id (filter (\<lambda>e. ev_type e = EventSpanOutcomeEvalStart \<and> sql_text (ev_payload e) ''outcome_id'' = Some oid) log)"

definition InterruptOutcomes :: "event list \<Rightarrow> outcome_evaluation list \<Rightarrow> new_event list \<times> bool" where
  "InterruptOutcomes log evals =
     (let out = map (\<lambda>e. mk_event EventSpanOutcomeEvalEnd (eval_end (oe_id e)
            (if oe_result e = ''evaluating'' \<and> start_ids log (oe_id e) \<noteq> [] then last (start_ids log (oe_id e)) else [])
            (oe_iteration e) ''interrupted'' InterruptedExplanation no_usage))
          (filter (\<lambda>e. \<not> OutcomeResultTerminal (oe_result e)) evals)
      in (out, out \<noteq> []))"

definition FlipNonTerminalOutcomes :: "int \<Rightarrow> outcome_evaluation list \<Rightarrow> outcome_evaluation list" where
  "FlipNonTerminalOutcomes now evals = map (\<lambda>e. if OutcomeResultTerminal (oe_result e) then e
     else e\<lparr>oe_result := ''interrupted'', oe_explanation := InterruptedExplanation, oe_completed := Some now\<rparr>) evals"

section \<open>The cycle\<close>

definition BeginOutcomeWork :: "outcome_evaluation list \<Rightarrow> outcome_evaluation list" where
  "BeginOutcomeWork evals = map (\<lambda>e. if oe_result e = ''pending'' then e\<lparr>oe_result := ''running''\<rparr> else e) evals"

definition FindDefineOutcome :: "event list \<Rightarrow> id \<Rightarrow> define_outcome option" where
  "FindDefineOutcome history oid = find (\<lambda>d. do_id d = oid)
     (List.map_filter (\<lambda>ev. if ev_type ev = EventUserDefineOutcome then ParseDefineOutcome (ev_payload ev) else None) history)"

definition LatestOutcomeStart :: "event list \<Rightarrow> id \<Rightarrow> event option" where
  "LatestOutcomeStart evs oid = find (\<lambda>ev. ev_type ev = EventSpanOutcomeEvalStart
     \<and> decodes (FStruct [(''outcome_id'', FString)]) (ev_payload ev) \<and> str_field (ev_payload ev) ''outcome_id'' = oid) (rev evs)"

definition NewOutcomeStartEvent :: "id \<Rightarrow> int \<Rightarrow> id \<Rightarrow> int \<Rightarrow> new_event" where
  "NewOutcomeStartEvent eid now oid iteration =
     (mk_event EventSpanOutcomeEvalStart (JObj [(''iteration'', num iteration), (''outcome_id'', JStr oid)]))\<lparr>ne_id := eid, ne_processed := Some now\<rparr>"
  \<comment> \<open>arguments: the minted id, the clock, the outcome, its iteration\<close>

definition start_evaluating :: "id \<Rightarrow> outcome_evaluation list \<Rightarrow> outcome_evaluation list" where
  "start_evaluating oid evals = map (\<lambda>e. if oe_id e = oid then e\<lparr>oe_result := ''evaluating''\<rparr> else e) evals"

text \<open>Reading the grader's reply: its last line that starts with VERDICT decides.\<close>

fun verdict_line :: "string list \<Rightarrow> string list \<Rightarrow> (string \<times> string list) option" where
  "verdict_line [] rest = None"
| "verdict_line (l # ls) rest =
     (let t = trim_space l in
      if has_prefix t ''VERDICT:'' then Some (trim_space (drop 8 t), rev ls @ rest) else verdict_line ls (l # rest))"
  \<comment> \<open>the lines in reverse; the result carries the other lines in order\<close>

definition parseVerdict :: "string \<Rightarrow> string \<times> string" where
  "parseVerdict text =
     (case verdict_line (rev (split_on (CHR 0x0A) (trim_space text))) [] of
        Some (v, others) \<Rightarrow>
          if v \<in> {''satisfied'', ''needs_revision'', ''failed''} then (v, trim_space (intersperse_concat [CHR 0x0A] others))
          else (''needs_revision'', trim_space text)
      | None \<Rightarrow> (''needs_revision'', trim_space text))"

definition graderExplanationBudget :: nat where
  "graderExplanationBudget = 20000"

definition rune_start :: "char \<Rightarrow> bool" where
  "rune_start c \<longleftrightarrow> \<not> (0x80 \<le> byte c \<and> byte c < 0xC0)"

fun rune_cut :: "string \<Rightarrow> nat \<Rightarrow> nat" where
  "rune_cut s 0 = 0"
| "rune_cut s (Suc n) = (if rune_start (s ! Suc n) then Suc n else rune_cut s n)"

definition capExplanation :: "string \<Rightarrow> string" where
  "capExplanation e = (if length e > graderExplanationBudget
     then take (rune_cut e graderExplanationBudget) e @ [CHR 0x0A] @ ''[truncated]'' else e)"

text \<open>The cycle's result: a revision asked for on the budget's last cycle is the end of the budget.\<close>

definition graded_result :: "string \<Rightarrow> bool \<Rightarrow> string" where
  "graded_result verdict lastCycle = (if verdict = ''needs_revision'' \<and> lastCycle then ''max_iterations_reached'' else verdict)"

definition verdict_terminal :: "string \<Rightarrow> bool" where
  "verdict_terminal result \<longleftrightarrow> result \<in> {''satisfied'', ''failed'', ''max_iterations_reached''}"

definition apply_verdict :: "id \<Rightarrow> string \<Rightarrow> string \<Rightarrow> int \<Rightarrow> outcome_evaluation list \<Rightarrow> outcome_evaluation list" where
  "apply_verdict oid result explanation now evals = map (\<lambda>e. if oe_id e \<noteq> oid then e
     else if verdict_terminal result then e\<lparr>oe_explanation := explanation, oe_result := result, oe_completed := Some now\<rparr>
     else e\<lparr>oe_explanation := explanation, oe_result := ''running'', oe_iteration := wrap64 (oe_iteration e + 1)\<rparr>) evals"

definition revert_evaluating :: "id \<Rightarrow> outcome_evaluation list \<Rightarrow> outcome_evaluation list" where
  "revert_evaluating oid evals = map (\<lambda>e. if oe_id e = oid \<and> oe_result e = ''evaluating'' then e\<lparr>oe_result := ''running''\<rparr> else e) evals"

section \<open>The life of the outcomes of a session\<close>

text \<open>
  The entries and the accepted definitions, under every operation that moves them: a send that
  defines (and perhaps interrupts) an outcome, an interrupt, a request's start, a settlement that
  schedules an evaluation, a verdict, a failed grader call.
\<close>

type_synonym outcomes = "outcome_evaluation list \<times> define_outcome list"

definition budget_of :: "define_outcome list \<Rightarrow> id \<Rightarrow> int option" where
  "budget_of defs oid = map_option do_max (find (\<lambda>d. do_id d = oid) defs)"

inductive outcome_step :: "outcomes \<Rightarrow> outcomes \<Rightarrow> bool" where
  defined: "ValidateDefineOutcomes files evals [d] interrupts = None \<Longrightarrow> do_id d \<notin> do_id ` set defs
     \<Longrightarrow> 1 \<le> do_max d \<Longrightarrow> do_max d \<le> 20 \<Longrightarrow>
     outcome_step (evals, defs) ((if interrupts then FlipNonTerminalOutcomes now evals else evals) @ [NewOutcomeEntry d], defs @ [d])"
| interrupt: "outcome_step (evals, defs) (FlipNonTerminalOutcomes now evals, defs)"
| begin_work: "outcome_step (evals, defs) (BeginOutcomeWork evals, defs)"
| schedule: "ActiveOutcome evals = Some e \<Longrightarrow> oe_result e \<in> {''pending'', ''running''}
     \<Longrightarrow> outcome_step (evals, defs) (start_evaluating (oe_id e) evals, defs)"
| verdict: "ActiveOutcome evals = Some e \<Longrightarrow> oe_result e = ''evaluating'' \<Longrightarrow> budget_of defs (oe_id e) = Some b
     \<Longrightarrow> (result, explanation) = (graded_result (fst (parseVerdict reply)) (lastOutcomeCycle (oe_iteration e) b), capExplanation (snd (parseVerdict reply)))
     \<Longrightarrow> outcome_step (evals, defs) (apply_verdict (oe_id e) result explanation now evals, defs)"
| undefined_outcome: "ActiveOutcome evals = Some e \<Longrightarrow> oe_result e = ''evaluating'' \<Longrightarrow> budget_of defs (oe_id e) = None
     \<Longrightarrow> outcome_step (evals, defs) (apply_verdict (oe_id e) ''failed'' explanation now evals, defs)"
| grader_error: "ActiveOutcome evals = Some e \<Longrightarrow> oe_result e = ''evaluating''
     \<Longrightarrow> outcome_step (evals, defs) (revert_evaluating (oe_id e) evals, defs)"

text \<open>
  What holds throughout: each entry belongs to its definition, only the last one may be active, an
  entry is completed exactly when its result is terminal, and no entry has used up more cycles than
  its budget.
\<close>

definition entry_ok :: "outcome_evaluation \<Rightarrow> define_outcome \<Rightarrow> bool" where
  "entry_ok e d \<longleftrightarrow> oe_id e = do_id d \<and> 0 \<le> oe_iteration e \<and> oe_iteration e < do_max d
     \<and> (oe_completed e \<noteq> None \<longleftrightarrow> OutcomeResultTerminal (oe_result e))
     \<and> (OutcomeResultTerminal (oe_result e) \<or> oe_result e \<in> {''pending'', ''running'', ''evaluating''})"

definition outcomes_inv :: "outcomes \<Rightarrow> bool" where
  "outcomes_inv s \<longleftrightarrow> (let (evals, defs) = s in list_all2 entry_ok evals defs \<and> distinct (map do_id defs)
     \<and> list_all (\<lambda>d. 1 \<le> do_max d \<and> do_max d \<le> 20) defs
     \<and> list_all (\<lambda>e. OutcomeResultTerminal (oe_result e)) (butlast evals))"

inductive_cases outcome_stepE [elim]: "outcome_step s s'"

lemma terminal_simps [simp]:
  "OutcomeResultTerminal ''satisfied''" "OutcomeResultTerminal ''max_iterations_reached''" "OutcomeResultTerminal ''failed''"
  "OutcomeResultTerminal ''interrupted''" "\<not> OutcomeResultTerminal ''pending''" "\<not> OutcomeResultTerminal ''running''"
  "\<not> OutcomeResultTerminal ''evaluating''"
  by (simp_all add: OutcomeResultTerminal_def)

text \<open>Every operation but a definition rewrites the entries one by one.\<close>

lemma inv_map:
  assumes "outcomes_inv (evals, defs)"
    and f: "\<And>e d. e \<in> set evals \<Longrightarrow> d \<in> set defs \<Longrightarrow> entry_ok e d \<Longrightarrow> 1 \<le> do_max d \<and> do_max d \<le> 20 \<Longrightarrow> entry_ok (f e) d"
    and t: "\<And>e. OutcomeResultTerminal (oe_result e) \<Longrightarrow> e \<in> set (butlast evals) \<Longrightarrow> OutcomeResultTerminal (oe_result (f e))"
  shows "outcomes_inv (map f evals, defs)"
proof -
  from assms(1) have i: "list_all2 entry_ok evals defs" "distinct (map do_id defs)" "list_all (\<lambda>d. 1 \<le> do_max d \<and> do_max d \<le> 20) defs"
    "list_all (\<lambda>e. OutcomeResultTerminal (oe_result e)) (butlast evals)" by (auto simp: outcomes_inv_def)
  have "list_all2 entry_ok (map f evals) defs"
    unfolding list_all2_conv_all_nth using i(1,3) f by (simp add: list_all2_conv_all_nth list_all_length)
  moreover have "list_all (\<lambda>e. OutcomeResultTerminal (oe_result e)) (butlast (map f evals))"
    using i(4) t by (auto simp: list_all_iff map_butlast [symmetric])
  ultimately show ?thesis using i(2,3) by (simp add: outcomes_inv_def)
qed

lemma entry_ids: "list_all2 entry_ok evals defs \<Longrightarrow> map oe_id evals = map do_id defs"
  by (induction rule: list_all2_induct) (simp_all add: entry_ok_def)

lemma find_by_key: "distinct (map f xs) \<Longrightarrow> x \<in> set xs \<Longrightarrow> find (\<lambda>y. f y = f x) xs = Some x"
  by (induction xs) (auto simp: image_iff)

lemma budget_def: "outcomes_inv (evals, defs) \<Longrightarrow> entry_ok e d \<Longrightarrow> d \<in> set defs \<Longrightarrow> budget_of defs (oe_id e) = Some (do_max d)"
  using find_by_key [of do_id defs d] by (simp add: outcomes_inv_def budget_of_def entry_ok_def)

lemma active_last:
  assumes "outcomes_inv (evals, defs)" "ActiveOutcome evals = Some e"
  shows "evals \<noteq> []" "e = last evals" "\<And>x. x \<in> set (butlast evals) \<Longrightarrow> oe_id x \<noteq> oe_id e" "\<not> OutcomeResultTerminal (oe_result e)"
proof -
  from assms(2) have e: "e \<in> set evals" "\<not> OutcomeResultTerminal (oe_result e)"
    by (auto simp: ActiveOutcome_def find_Some_iff)
  then show ne: "evals \<noteq> []" "\<not> OutcomeResultTerminal (oe_result e)" by auto
  then obtain xs l where l: "evals = xs @ [l]" by (metis rev_exhaust)
  with assms(1) e show "e = last evals" by (auto simp: outcomes_inv_def list_all_iff)
  have "map oe_id evals = map do_id defs" using assms(1) entry_ids by (simp add: outcomes_inv_def)
  then have "distinct (map oe_id evals)" using assms(1) by (simp add: outcomes_inv_def)
  with l \<open>e = last evals\<close> show "oe_id x \<noteq> oe_id e" if "x \<in> set (butlast evals)" for x
    using that by simp (metis image_eqI)
qed

lemma active_unique:
  assumes "outcomes_inv (evals, defs)" "ActiveOutcome evals = Some e" "x \<in> set evals" "oe_id x = oe_id e"
  shows "x = e"
proof (rule ccontr)
  assume "x \<noteq> e"
  with assms(3) active_last(1,2) [OF assms(1,2)] have "x \<in> set (butlast evals)"
    by (metis append_butlast_last_id in_set_conv_decomp rotate1.simps(2) set_ConsD set_rotate1)
  with active_last(3) [OF assms(1,2)] assms(4) show False by blast
qed

lemma parseVerdict_result: "fst (parseVerdict reply) \<in> {''satisfied'', ''needs_revision'', ''failed''}"
  by (auto simp: parseVerdict_def split: option.split)

lemma flip_inv: "outcomes_inv (evals, defs) \<Longrightarrow> outcomes_inv (FlipNonTerminalOutcomes now evals, defs)"
  unfolding FlipNonTerminalOutcomes_def by (rule inv_map) (auto simp: entry_ok_def)

lemma flip_terminal: "list_all (\<lambda>e. OutcomeResultTerminal (oe_result e)) (FlipNonTerminalOutcomes now evals)"
  by (auto simp: FlipNonTerminalOutcomes_def list_all_iff)

lemma define_inv:
  assumes "outcomes_inv (evals, defs)" "list_all (\<lambda>e. OutcomeResultTerminal (oe_result e)) evals" "do_id d \<notin> do_id ` set defs"
    "1 \<le> do_max d" "do_max d \<le> 20"
  shows "outcomes_inv (evals @ [NewOutcomeEntry d], defs @ [d])"
  using assms by (auto simp: outcomes_inv_def entry_ok_def NewOutcomeEntry_def list_all2_lengthD intro: list_all2_appendI)

lemma wrap_small: "0 \<le> i \<Longrightarrow> i < 20 \<Longrightarrow> wrap64 (i + 1) = i + 1"
  by (simp add: wrap64_def)

lemma verdict_is_terminal: "verdict_terminal result \<Longrightarrow> OutcomeResultTerminal result"
  unfolding verdict_terminal_def OutcomeResultTerminal_def by blast

lemma verdict_inv:
  assumes inv: "outcomes_inv (evals, defs)" and act: "ActiveOutcome evals = Some e" "budget_of defs (oe_id e) = Some b"
    and r: "verdict_terminal result \<or> \<not> lastOutcomeCycle (oe_iteration e) b"
  shows "outcomes_inv (apply_verdict (oe_id e) result explanation now evals, defs)"
  unfolding apply_verdict_def
proof (rule inv_map [OF inv])
  fix x d assume x: "x \<in> set evals" "d \<in> set defs" "entry_ok x d" and lim: "1 \<le> do_max d \<and> do_max d \<le> 20"
  show "entry_ok (if oe_id x \<noteq> oe_id e then x
     else if verdict_terminal result then x\<lparr>oe_explanation := explanation, oe_result := result, oe_completed := Some now\<rparr>
     else x\<lparr>oe_explanation := explanation, oe_result := ''running'', oe_iteration := wrap64 (oe_iteration x + 1)\<rparr>) d"
  proof (cases "oe_id x = oe_id e")
    case True
    have xe: "x = e" by (rule active_unique [OF inv act(1) x(1) True])
    have bd: "b = do_max d" using act(2) budget_def [OF inv x(3,2)] xe by simp
    have nt: "\<not> OutcomeResultTerminal (oe_result e)" using active_last(4) [OF inv act(1)] .
    show ?thesis
    proof (cases "verdict_terminal result")
      case True
      then show ?thesis using x(3) \<open>oe_id x = oe_id e\<close> verdict_is_terminal [OF True] by (simp add: entry_ok_def)
    next
      case False
      with r bd x(3) lim xe have "oe_iteration x + 1 < do_max d \<and> 0 \<le> oe_iteration x" by (simp add: lastOutcomeCycle_def entry_ok_def wrap_small)
      moreover have "wrap64 (oe_iteration x + 1) = oe_iteration x + 1" using x(3) lim by (intro wrap_small) (auto simp: entry_ok_def)
      ultimately show ?thesis using False x(3) nt xe by (simp add: entry_ok_def)
    qed
  qed (use x in simp)
qed (use active_last(3) [OF inv act(1)] in auto)

lemma graded_cases:
  "verdict_terminal (graded_result (fst (parseVerdict reply)) lastCycle) \<or> \<not> lastCycle"
  using parseVerdict_result [of reply] unfolding graded_result_def verdict_terminal_def by (auto simp del: fst_conv)

lemma active_defined:
  assumes "outcomes_inv (evals, defs)" "ActiveOutcome evals = Some e"
  obtains d where "d \<in> set defs" "entry_ok e d"
proof -
  have "e \<in> set evals" using active_last(1,2) [OF assms] by simp
  moreover have "list_all2 entry_ok evals defs" using assms(1) by (simp add: outcomes_inv_def)
  ultimately show thesis using that by (metis in_set_conv_nth list_all2_conv_all_nth)
qed

lemma rewrite_active_inv:
  assumes "outcomes_inv (evals, defs)" "ActiveOutcome evals = Some e" "\<And>x. oe_id x \<noteq> oe_id e \<Longrightarrow> f x = x"
    and "\<And>d. entry_ok e d \<Longrightarrow> entry_ok (f e) d"
  shows "outcomes_inv (map f evals, defs)"
proof (rule inv_map [OF assms(1)])
  fix x d assume x: "x \<in> set evals" "entry_ok x d"
  show "entry_ok (f x) d"
    using x assms(3,4) active_unique [OF assms(1,2) x(1)] by (cases "oe_id x = oe_id e") auto
qed (use active_last(3) [OF assms(1,2)] assms(3) in auto)

lemma outcome_step_inv: "outcome_step s s' \<Longrightarrow> outcomes_inv s \<Longrightarrow> outcomes_inv s'"
proof (induction rule: outcome_step.induct)
  case (defined files evals d interrupts defs now)
  have "list_all (\<lambda>e. OutcomeResultTerminal (oe_result e)) evals" if "\<not> interrupts"
    using defined.hyps(1) that by (auto simp: ValidateDefineOutcomes_def ActiveOutcome_def find_None_iff list_all_iff split: option.splits)
  with defined show ?case by (auto intro!: define_inv flip_inv flip_terminal)
next
  case (interrupt evals defs now)
  then show ?case by (rule flip_inv)
next
  case (begin_work evals defs)
  let ?f = "\<lambda>e. if oe_result e = ''pending'' then e\<lparr>oe_result := ''running''\<rparr> else e"
  have "entry_ok (?f e) d" if "entry_ok e d" for e d
  proof (cases "oe_result e = ''pending''")
    case True
    then show ?thesis using that by (simp add: entry_ok_def)
  qed (simp add: that)
  moreover have "OutcomeResultTerminal (oe_result (?f e))" if "OutcomeResultTerminal (oe_result e)" for e
    using that by (cases "oe_result e = ''pending''") simp_all
  ultimately show ?case unfolding BeginOutcomeWork_def by (intro inv_map [OF begin_work]) blast+
next
  case (schedule evals e defs)
  show ?case unfolding start_evaluating_def
    by (rule rewrite_active_inv [OF schedule.prems schedule.hyps(1)])
       (use active_last(4) [OF schedule.prems schedule.hyps(1)] in \<open>simp_all add: entry_ok_def\<close>)
next
  case (verdict evals e defs b result explanation reply now)
  show ?case by (rule verdict_inv [OF verdict.prems verdict.hyps(1,3)]) (use verdict.hyps(4) graded_cases in simp)
next
  case (undefined_outcome evals e defs explanation now)
  then show ?case using active_defined [OF undefined_outcome.prems undefined_outcome.hyps(1)] budget_def [OF undefined_outcome.prems]
    by (metis option.distinct(1))
next
  case (grader_error evals e defs)
  show ?case unfolding revert_evaluating_def
    by (rule rewrite_active_inv [OF grader_error.prems grader_error.hyps(1)])
       (use grader_error.hyps(2) in \<open>simp_all add: entry_ok_def\<close>)
qed

lemma reachable_inv: "outcome_step\<^sup>*\<^sup>* ([], []) s \<Longrightarrow> outcomes_inv s"
proof (induction rule: rtranclp_induct)
  case base
  show ?case by (simp add: outcomes_inv_def)
next
  case (step s s')
  then show ?case using outcome_step_inv by blast
qed

text \<open>An entry whose result is terminal is never written again.\<close>

lemma step_final:
  assumes "outcome_step (evals, defs) (evals', defs')" "outcomes_inv (evals, defs)" "i < length evals" "OutcomeResultTerminal (oe_result (evals ! i))"
  shows "i < length evals' \<and> evals' ! i = evals ! i"
proof -
  have other: "oe_id (evals ! i) \<noteq> oe_id e" if "ActiveOutcome evals = Some e" for e
    using active_unique [OF assms(2) that, of "evals ! i"] active_last(4) [OF assms(2) that] assms(3,4) by auto
  from assms(1) show ?thesis
    by (cases rule: outcome_step.cases)
       (use assms(3,4) other in \<open>auto simp: nth_append FlipNonTerminalOutcomes_def BeginOutcomeWork_def start_evaluating_def apply_verdict_def revert_evaluating_def\<close>)
qed

text \<open>
  C36: the outcomes of a session.  However sends, interrupts, requests, settlements, verdicts and
  failed grader calls interleave, only the last outcome may be active, every entry belongs to its own
  definition, it is completed exactly when its result is terminal, and it is never evaluated more
  often than its definition allows; an entry that has ended is not written again.
\<close>

theorem outcome_lifecycle:
  assumes "outcome_step\<^sup>*\<^sup>* ([], []) (evals, defs)"
  shows "length (filter (\<lambda>e. \<not> OutcomeResultTerminal (oe_result e)) evals) \<le> 1
    \<and> list_all (\<lambda>e. OutcomeResultTerminal (oe_result e)) (butlast evals)
    \<and> map oe_id evals = map do_id defs \<and> distinct (map oe_id evals)
    \<and> list_all2 (\<lambda>e d. 0 \<le> oe_iteration e \<and> oe_iteration e < do_max d \<and> (oe_completed e \<noteq> None \<longleftrightarrow> OutcomeResultTerminal (oe_result e))) evals defs
    \<and> (\<forall>evals' defs'. outcome_step (evals, defs) (evals', defs') \<longrightarrow>
         (\<forall>i. i < length evals \<and> OutcomeResultTerminal (oe_result (evals ! i)) \<longrightarrow> i < length evals' \<and> evals' ! i = evals ! i))"
proof -
  have inv: "outcomes_inv (evals, defs)" by (rule reachable_inv [OF assms])
  then have l: "list_all2 entry_ok evals defs" "distinct (map do_id defs)"
    "list_all (\<lambda>e. OutcomeResultTerminal (oe_result e)) (butlast evals)" by (auto simp: outcomes_inv_def)
  have "filter (\<lambda>e. \<not> OutcomeResultTerminal (oe_result e)) (butlast evals) = []" using l(3) by (simp add: filter_empty_conv list_all_iff)
  then have "length (filter (\<lambda>e. \<not> OutcomeResultTerminal (oe_result e)) evals) \<le> 1"
    by (cases evals rule: rev_cases) simp_all
  moreover have "list_all2 (\<lambda>e d. 0 \<le> oe_iteration e \<and> oe_iteration e < do_max d \<and> (oe_completed e \<noteq> None \<longleftrightarrow> OutcomeResultTerminal (oe_result e))) evals defs"
    by (rule list_all2_mono [OF l(1)]) (simp add: entry_ok_def)
  ultimately show ?thesis using entry_ids [OF l(1)] l(2,3) step_final [OF _ inv] by auto
qed

definition demo_outcome :: define_outcome where
  "demo_outcome = \<lparr>do_id = ''outc_1'', do_description = ''d'', do_max = 2, do_rubric_type = ''text'', do_content = ''r'', do_file = []\<rparr>"

definition demo_graded :: outcomes where
  "demo_graded = ([\<lparr>oe_id = ''outc_1'', oe_description = ''d'', oe_explanation = [], oe_iteration = 0, oe_result = ''evaluating'', oe_completed = None\<rparr>],
     [demo_outcome])"

lemma demo_graded_reachable: "outcome_step\<^sup>*\<^sup>* ([], []) demo_graded"
proof -
  let ?e = "NewOutcomeEntry demo_outcome"
  have "outcome_step ([], []) ((if False then FlipNonTerminalOutcomes 0 [] else []) @ [?e], [] @ [demo_outcome])"
    by (rule outcome_step.defined [of Map.empty])
       (simp_all add: ValidateDefineOutcomes_def ActiveOutcome_def rubric_refusal_def demo_outcome_def)
  then have 1: "outcome_step ([], []) ([?e], [demo_outcome])" by simp
  have 2: "outcome_step ([?e], [demo_outcome]) (start_evaluating (oe_id ?e) [?e], [demo_outcome])"
    by (rule outcome_step.schedule) (simp_all add: ActiveOutcome_def NewOutcomeEntry_def)
  have "(start_evaluating (oe_id ?e) [?e], [demo_outcome]) = demo_graded"
    by (simp add: start_evaluating_def NewOutcomeEntry_def demo_graded_def demo_outcome_def)
  with 1 2 show ?thesis by (metis rtranclp.rtrancl_into_rtrancl rtranclp.rtrancl_refl)
qed

theorem outcome_lifecycle_witness:
  "length (filter (\<lambda>e. \<not> OutcomeResultTerminal (oe_result e)) (fst demo_graded)) = 1
   \<and> list_all2 (\<lambda>e d. oe_iteration e < do_max d) (fst demo_graded) (snd demo_graded)"
proof -
  have "outcome_step\<^sup>*\<^sup>* ([], []) (fst demo_graded, snd demo_graded)" using demo_graded_reachable by simp
  from outcome_lifecycle [OF this] have "list_all2 (\<lambda>e d. 0 \<le> oe_iteration e \<and> oe_iteration e < do_max d
     \<and> (oe_completed e \<noteq> None \<longleftrightarrow> OutcomeResultTerminal (oe_result e))) (fst demo_graded) (snd demo_graded)" by (elim conjE)
  then have "list_all2 (\<lambda>e d. oe_iteration e < do_max d) (fst demo_graded) (snd demo_graded)" by (rule list_all2_mono) simp
  then show ?thesis by (simp add: demo_graded_def)
qed

end
