(* ===== verification/Settlement.thy ===== *)
theory Settlement
  imports Outcomes
begin

text \<open>
  The settlements of \<^verbatim>\<open>internal/brain\<close>: every way a claimed model turn gives its item back.  One
  settlement is one transaction under the session's row lock.  It decides on the session's rows,
  appends its batch and, inside the append (\<^verbatim>\<open>AppendOptions.Then\<close>), moves the work queue; an error
  anywhere rolls all of it back, so a settlement is a function from the platform's state to an
  error or the next state.  Clocks, minted ids and the trace context are arguments.
\<close>

section \<open>The platform's state\<close>

record platform =
  pf_store :: store
  pf_queue :: queue_db

datatype settle_error =
    SettleAppend append_error
  | SettleStatus status_error
  | SettleMessage message_error
  | SettleTools tool_error
  | SettleQueue queue_error

text \<open>What a settlement reads besides the state: the turn's agent and head, clocks and minted ids.\<close>

record turn_env =
  te_agent :: string
  te_roster :: "json option"
  te_env :: env_kind
  te_watermark :: nat
  te_child :: "nat \<Rightarrow> id"
  te_printable :: "nat \<Rightarrow> bool"
  te_append :: readings
  te_advance :: advance_reads
  te_flow :: readings
  te_now :: int
  te_start :: id
  te_queue_now :: int
  te_work :: "nat \<Rightarrow> id"
  te_trace :: "json option"

definition and_then :: "'e + 'a \<Rightarrow> ('a \<Rightarrow> 'e + 'b) \<Rightarrow> 'e + 'b" where
  "and_then x f = (case x of Inl e \<Rightarrow> Inl e | Inr a \<Rightarrow> f a)"

definition or_fail :: "('e \<Rightarrow> settle_error) \<Rightarrow> 'e + 'a \<Rightarrow> settle_error + 'a" where
  "or_fail f x = map_sum f id x"

definition pf_db :: "platform \<Rightarrow> session_db" where
  "pf_db P = st_db (pf_store P)"

definition pf_log :: "platform \<Rightarrow> event list" where
  "pf_log P = s_log (pf_db P)"

definition with_db :: "session_db \<Rightarrow> platform \<Rightarrow> platform" where
  "with_db db P = P\<lparr>pf_store := (pf_store P)\<lparr>st_db := db\<rparr>\<rparr>"

text \<open>An append and the work its \<^verbatim>\<open>Then\<close> does in the same transaction.\<close>

definition commit :: "readings \<Rightarrow> platform \<Rightarrow> new_event list \<Rightarrow> append_opts \<Rightarrow> (platform \<Rightarrow> settle_error + platform)
    \<Rightarrow> settle_error + platform" where
  "commit K P batch opts work = and_then (or_fail SettleAppend (AppendInTx K (pf_store P) batch (opts\<lparr>o_then := Some Inr\<rparr>)))
     (\<lambda>(st, _). work (P\<lparr>pf_store := st\<rparr>))"

section \<open>Queue operations of a settlement\<close>

definition complete_item :: "item \<Rightarrow> platform \<Rightarrow> settle_error + platform" where
  "complete_item it P = and_then (or_fail SettleQueue (Complete (pf_queue P) it)) (\<lambda>q. Inr (P\<lparr>pf_queue := q\<rparr>))"

definition requeue_item :: "turn_env \<Rightarrow> item \<Rightarrow> int \<Rightarrow> platform \<Rightarrow> settle_error + platform" where
  "requeue_item E it chain P = and_then (or_fail SettleQueue (RequeueSettlement (pf_queue P) it chain (te_queue_now E)))
     (\<lambda>q. Inr (P\<lparr>pf_queue := q\<rparr>))"

definition enqueue :: "turn_env \<Rightarrow> nat \<Rightarrow> item \<Rightarrow> id \<Rightarrow> kind \<Rightarrow> platform \<Rightarrow> platform" where
  "enqueue E n it thr k P = P\<lparr>pf_queue := fst (EnqueueThread (pf_queue P) (te_work E n) (it_env it) (it_session it) thr k
     (te_queue_now E) (te_trace E))\<rparr>"

fun enqueue_turns :: "turn_env \<Rightarrow> nat \<Rightarrow> item \<Rightarrow> id list \<Rightarrow> platform \<Rightarrow> platform" where
  "enqueue_turns E n it [] P = P"
| "enqueue_turns E n it (thr # thrs) P = enqueue_turns E (Suc n) it thrs (enqueue E n it thr ModelTurn P)"

definition harvest :: "turn_env \<Rightarrow> nat \<Rightarrow> item \<Rightarrow> bool \<Rightarrow> platform \<Rightarrow> platform" where
  "harvest E n it grading P = P\<lparr>pf_queue := fst (EnqueueOutputsHarvest (pf_queue P) (te_work E n) (it_env it) (it_session it) grading
     (te_queue_now E) (te_trace E))\<rparr>"

definition enqueueIdleHarvest :: "turn_env \<Rightarrow> nat \<Rightarrow> item \<Rightarrow> session_status option \<Rightarrow> env_kind \<Rightarrow> platform \<Rightarrow> platform" where
  "enqueueIdleHarvest E n it moved envKind P =
     (if moved \<noteq> Some SessionIdle \<or> envKind \<noteq> EnvCloud then P else harvest E n it False P)"

definition exec_kind :: "exec_class \<Rightarrow> kind option" where
  "exec_kind c = (case c of ExecMCP \<Rightarrow> Some MCPExec | ExecWeb \<Rightarrow> Some WebExec | ExecTool \<Rightarrow> Some ToolExec | ExecNone \<Rightarrow> None)"

definition enqueueRunnableTools :: "turn_env \<Rightarrow> nat \<Rightarrow> item \<Rightarrow> platform \<Rightarrow> platform" where
  "enqueueRunnableTools E n it P =
     (case exec_kind (RunnableExecClass (pf_log P) (s_env_kind (pf_db P)) [] [] IsWebTool IsDelegationTool) of
        None \<Rightarrow> P | Some k \<Rightarrow> enqueue E n it [] k P)"

definition platform_owned :: "string \<Rightarrow> bool" where
  "platform_owned name \<longleftrightarrow> IsWebTool name \<or> IsDelegationTool name"

definition settleTools :: "turn_env \<Rightarrow> nat \<Rightarrow> item \<Rightarrow> platform \<Rightarrow> settle_error + platform \<times> session_status option" where
  "settleTools E n it P =
     and_then (or_fail SettleTools (AdvanceThreadTools (te_advance E) (pf_store P) (it_thread it) platform_owned))
       (\<lambda>(st1, flow). and_then (or_fail SettleTools (SettleToolFlow (te_flow E) st1 (it_thread it) flow))
         (\<lambda>(st2, moved).
            let P2 = enqueueRunnableTools E n it (P\<lparr>pf_store := st2\<rparr>)
            in Inr (if tf_unsettled flow then P2 else enqueue E (Suc n) it (it_thread it) ModelTurn P2, moved)))"

section \<open>Events of a settlement\<close>

text \<open>\<open>span\<close> is the id of the request's start event; both ends carry the clock of their rendering.\<close>

definition EndEvent :: "turn_env \<Rightarrow> id \<Rightarrow> id \<Rightarrow> bool \<Rightarrow> model_usage \<Rightarrow> new_event" where
  "EndEvent E thr span isError usage = (mk_event EventSpanModelRequestEnd (JObj [(''is_error'', JBool isError),
     (''model_request_start_id'', JStr span), (''model_usage'', usage_json usage)]))\<lparr>ne_processed := Some (te_now E), ne_thread := thr\<rparr>"

definition outcome_end :: "turn_env \<Rightarrow> outcome_evaluation \<Rightarrow> id \<Rightarrow> string \<Rightarrow> string \<Rightarrow> model_usage \<Rightarrow> new_event" where
  "outcome_end E active span result explanation usage =
     (mk_event EventSpanOutcomeEvalEnd (eval_end (oe_id active) span (oe_iteration active) result explanation usage))
       \<lparr>ne_processed := Some (te_now E)\<rparr>"

definition session_error :: "string \<Rightarrow> string \<Rightarrow> string \<Rightarrow> new_event" where
  "session_error typ msg retry = mk_event EventSessionError (JObj [(''error'', JObj [(''message'', JStr msg),
     (''retry_status'', JObj [(''type'', JStr retry)]), (''type'', JStr typ)])])"

definition chainCapped :: "id \<Rightarrow> string \<Rightarrow> new_event" where
  "chainCapped thr agentName = (session_error ''delegation_chain_exhausted_error''
     (agentName @ '' ran '' @ dec maxSettlementChain @ '' consecutive turns resolved entirely by settlement-owned answers ''
      @ em_dash @ '' delegation calls, names it was never offered, calls the output cap cut off '' @ em_dash
      @ '' with no external input and no newly woken thread. The thread is idle; a message, or a report from a child it spawned, resumes it.'')
     ''exhausted'')\<lparr>ne_thread := thr\<rparr>"

definition runExhausted :: "id \<Rightarrow> string \<Rightarrow> new_event" where
  "runExhausted thr agentName = (session_error ''session_delegation_exhausted_error''
     (''This session spent '' @ dec maxSessionDelegationTurns @ '' turns calling delegation tools since a client last asked it for anything, so ''
      @ agentName @ '' was not started. Threads that were running settle and stop. A message to any of them resumes the session with a fresh budget.'')
     ''exhausted'')\<lparr>ne_thread := thr\<rparr>"

definition retries_notice :: "string \<Rightarrow> string" where
  "retries_notice agentName = ''[agent '' @ agentName @ '' stopped: its turn exhausted its retries]'' @ para
     @ ''Archive it to free the slot, or spawn a replacement.''"

definition capped_notice :: "string \<Rightarrow> string" where
  "capped_notice agentName = ''[agent '' @ agentName @ '' stopped: '' @ dec maxSettlementChain
     @ '' consecutive turns resolved entirely by settlement-owned answers '' @ em_dash
     @ '' delegation calls, names it was never offered, calls the output cap cut off '' @ em_dash
     @ '' with no external input and no newly woken thread]'' @ para
     @ ''Nothing was reported on them; anything it reported earlier stands. It is idle until you message it '' @ em_dash
     @ '' send it what is missing, or archive it to free the slot.''"

definition exhausted_notice :: "string \<Rightarrow> string" where
  "exhausted_notice agentName = ''[agent '' @ agentName @ '' stopped: the session spent its delegation budget of ''
     @ dec maxSessionDelegationTurns @ '' turns]'' @ para
     @ ''Nothing was reported on them; anything it reported earlier stands. The whole session is idle until somebody messages it.''"

section \<open>Ending a thread\<close>

text \<open>
  The steps every ending shares, in the order that never folds the session idle in between: the
  notice owed to the coordinator with the wake it causes, then the thread's own idle.
\<close>

definition tell :: "session_db \<Rightarrow> id \<Rightarrow> new_event option \<Rightarrow> settle_error + session_db \<times> new_event list \<times> bool \<times> session_status option" where
  "tell db thr notice = (case notice of None \<Rightarrow> Inr (db, [], False, None)
     | Some n \<Rightarrow> and_then (or_fail SettleMessage (DeliverThreadEnded db thr n))
         (\<lambda>(db', told). Inr (db', delivery_events told, Woke told, dl_moved told)))"

definition move :: "session_db \<Rightarrow> thread_transition \<Rightarrow> settle_error + session_db \<times> new_event list \<times> session_status option" where
  "move db t = or_fail SettleStatus (TransitionThread db t)"

definition net_move :: "session_status option \<Rightarrow> session_status option \<Rightarrow> session_status option" where
  "net_move moved wokeTo = (if moved = None then wokeTo else moved)"

definition end_thread :: "session_db \<Rightarrow> id \<Rightarrow> new_event option \<Rightarrow> stop_reason_type
    \<Rightarrow> settle_error + session_db \<times> new_event list \<times> bool \<times> session_status option" where
  "end_thread db thr notice why = and_then (tell db thr notice) (\<lambda>(db1, told, woke, wokeTo).
     and_then (move db1 (to_idle thr why)) (\<lambda>(db2, pair, moved). Inr (db2, told @ pair, woke, net_move moved wokeTo)))"

section \<open>A failed turn\<close>

definition settled_work :: "turn_env \<Rightarrow> item \<Rightarrow> session_status option \<Rightarrow> env_kind \<Rightarrow> bool \<Rightarrow> platform \<Rightarrow> settle_error + platform" where
  "settled_work E it moved envKind woke P = and_then (complete_item it P) (\<lambda>P1.
     let P2 = enqueueIdleHarvest E 0 it moved envKind P1
     in Inr (if woke then enqueue E 1 it [] ModelTurn P2 else P2))"

definition settle :: "turn_env \<Rightarrow> item \<Rightarrow> append_opts \<Rightarrow> stop_reason_type \<Rightarrow> (bool \<Rightarrow> new_event list) \<Rightarrow> platform \<Rightarrow> settle_error + platform" where
  "settle E it opts why build P =
     (let thr = it_thread it; db = pf_db P;
          chained = (te_watermark E > 0 \<and> chainInput (pf_log P) thr (te_watermark E));
          batch = stampThread (build chained) thr []; opts1 = opts\<lparr>o_thread := thr\<rparr>;
          notice = (if thr \<noteq> [] \<and> why = StopRetriesExhausted then childEndedNotice db thr retries_notice else None)
      in if chained then commit (te_append E) P batch opts1 (requeue_item E it 0)
         else and_then (end_thread db thr notice why) (\<lambda>(db1, evs, woke, moved).
           commit (te_append E) (with_db db1 P) (batch @ evs) (opts1\<lparr>o_set_status := moved\<rparr>) (settled_work E it moved (te_env E) woke)))"

definition maxFailureMessage :: nat where
  "maxFailureMessage = 8192"

definition failure_text :: "string \<Rightarrow> string" where
  "failure_text msg = (let s = SanitizeText msg in
     if length s > maxFailureMessage then TruncateRunes s maxFailureMessage @ ''[truncated]'' else s)"

definition failure_events :: "turn_env \<Rightarrow> id \<Rightarrow> id option \<Rightarrow> string \<Rightarrow> bool \<Rightarrow> new_event list" where
  "failure_events E thr span msg chained =
     (case span of None \<Rightarrow> [] | Some s \<Rightarrow> [EndEvent E thr s True no_usage])
     @ [session_error ''model_request_failed_error'' msg (if chained then ''retrying'' else ''exhausted'')]"

definition commitFailure :: "turn_env \<Rightarrow> item \<Rightarrow> id option \<Rightarrow> string \<Rightarrow> platform \<Rightarrow> settle_error + platform" where
  "commitFailure E it span msg P =
     settle E it (no_opts\<lparr>o_mark := (if span = None then te_watermark E else 0)\<rparr>) StopRetriesExhausted
       (failure_events E (it_thread it) span msg) P"

definition failTurn :: "turn_env \<Rightarrow> item \<Rightarrow> id option \<Rightarrow> string \<Rightarrow> platform \<Rightarrow> settle_error + platform" where
  "failTurn E it span msg P = commitFailure E it span (failure_text msg) P"

definition releaseStartedTurn :: "turn_env \<Rightarrow> item \<Rightarrow> id \<Rightarrow> platform \<Rightarrow> settle_error + platform" where
  "releaseStartedTurn E it span P = commit (te_append E) P [EndEvent E (it_thread it) span True no_usage]
     (no_opts\<lparr>o_thread := it_thread it\<rparr>) (requeue_item E it 0)"

section \<open>A turn that called no tool\<close>

definition endTurn :: stop_reason_type where
  "endTurn = StopEndTurn"

text \<open>The outcome this ending starts grading: an active one, when the session comes to rest with it.\<close>

definition grading_due :: "session_db \<Rightarrow> outcome_evaluation list \<Rightarrow> id \<Rightarrow> outcome_evaluation option" where
  "grading_due db evals thr = (case ActiveOutcome evals of None \<Rightarrow> None
     | Some active \<Rightarrow>
         if oe_result active \<noteq> ''pending'' \<and> oe_result active \<noteq> ''running'' then None
         else case PreviewTransition db (to_idle thr endTurn) of
           (folded, stop) \<Rightarrow> if folded = SessionIdle \<and> (case stop of None \<Rightarrow> False | Some s \<Rightarrow> stop_type s = StopEndTurn)
             then Some active else None)"

definition grading_rows :: "session_db \<Rightarrow> id \<Rightarrow> new_event option \<Rightarrow> new_event \<Rightarrow> settle_error + session_db \<times> new_event list" where
  "grading_rows db thr notice startEv =
     (if thr = [] then Inr (db, [startEv])
      else and_then (move db (to_running [])) (\<lambda>(db1, wake, _).
        and_then (tell db1 thr notice) (\<lambda>(db2, told, _, _).
        and_then (move db2 (to_idle thr endTurn)) (\<lambda>(db3, park, _). Inr (db3, wake @ [startEv] @ told @ park)))))"

definition grading_work :: "turn_env \<Rightarrow> item \<Rightarrow> env_kind \<Rightarrow> platform \<Rightarrow> settle_error + platform" where
  "grading_work E it envKind P =
     (if envKind = EnvCloud then complete_item it (harvest E 0 it True P)
      else if it_thread it \<noteq> [] then complete_item it (enqueue E 0 it [] ModelTurn P)
      else requeue_item E it 0 P)"

definition settleEndTurn :: "turn_env \<Rightarrow> item \<Rightarrow> append_opts \<Rightarrow> new_event list \<Rightarrow> platform \<Rightarrow> settle_error + platform" where
  "settleEndTurn E it opts head P =
     (let thr = it_thread it; db = pf_db P; envKind = s_env_kind db;
          chained = (te_watermark E > 0 \<and> chainInput (pf_log P) thr (te_watermark E));
          notice = threadEndedWithoutReport db thr
      in if chained then commit (te_append E) P head opts (requeue_item E it 0)
         else case grading_due db (st_outcomes (pf_store P)) thr of
           Some active \<Rightarrow>
             and_then (grading_rows db thr notice (NewOutcomeStartEvent (te_start E) (te_now E) (oe_id active) (oe_iteration active)))
               (\<lambda>(db1, evs). commit (te_append E) (with_db db1 P) (head @ evs)
                  (opts\<lparr>o_outcomes := Some (\<lambda>evals. Inr (start_evaluating (oe_id active) evals))\<rparr>) (grading_work E it envKind))
         | None \<Rightarrow> and_then (end_thread db thr notice endTurn) (\<lambda>(db1, evs, woke, moved).
             commit (te_append E) (with_db db1 P) (head @ evs) (opts\<lparr>o_set_status := moved\<rparr>) (settled_work E it moved envKind woke)))"

section \<open>A grading cycle\<close>

definition content_of :: "event \<Rightarrow> json option" where
  "content_of e = json_get (ev_payload e) ''content''"

definition received_from :: "id \<Rightarrow> event \<Rightarrow> bool" where
  "received_from child e \<longleftrightarrow> ev_thread e = [] \<and> ev_type e = EventAgentThreadMessageReceived
     \<and> sql_text (ev_payload e) ''from_session_thread_id'' = Some child"

text \<open>A row a child sent: its own sent row is ahead of it, with no other row from that child in between.\<close>

definition sent_by :: "event list \<Rightarrow> id \<Rightarrow> id \<Rightarrow> event \<Rightarrow> bool" where
  "sent_by log primary child r \<longleftrightarrow> list_ex (\<lambda>s. ev_thread s = child \<and> ev_type s = EventAgentThreadMessageSent
     \<and> sql_text (ev_payload s) ''to_session_thread_id'' = Some primary \<and> ev_seq s < ev_seq r
     \<and> content_of s \<noteq> None \<and> content_of s = content_of r
     \<and> \<not> list_ex (\<lambda>o'. received_from child o' \<and> ev_seq o' > ev_seq s \<and> ev_seq o' < ev_seq r) log) log"

definition liveChildMessage :: "session_db \<Rightarrow> nat \<Rightarrow> bool" where
  "liveChildMessage db watermark \<longleftrightarrow> list_ex (\<lambda>r. list_ex (\<lambda>c. received_from (t_id c) r
     \<and> (ev_processed r = None \<or> ev_seq r > watermark) \<and> t_parent c \<noteq> None \<and> \<not> t_archived c
     \<and> sent_by (s_log db) (primary_thread_id (s_id db)) (t_id c) r) (s_threads db)) (s_log db)"

definition gradingChain :: "session_db \<Rightarrow> nat \<Rightarrow> bool" where
  "gradingChain db watermark \<longleftrightarrow> pendingInput (s_log db) [] \<or> liveChildMessage db watermark"

text \<open>The end of a grading turn that stays with the primary: it idles and the item completes.\<close>

definition rest_primary :: "turn_env \<Rightarrow> item \<Rightarrow> new_event list \<Rightarrow> append_opts \<Rightarrow> stop_reason_type \<Rightarrow> platform \<Rightarrow> settle_error + platform" where
  "rest_primary E it batch opts why P = and_then (move (pf_db P) (to_idle [] why)) (\<lambda>(db, pair, moved).
     commit (te_append E) (with_db db P) (batch @ pair) (opts\<lparr>o_set_status := moved\<rparr>) (complete_item it))"

definition verdict_opts :: "turn_env \<Rightarrow> outcome_evaluation \<Rightarrow> string \<Rightarrow> string \<Rightarrow> model_usage \<Rightarrow> append_opts" where
  "verdict_opts E active result explanation usage = no_opts\<lparr>o_add_usage := Some usage,
     o_outcomes := Some (\<lambda>evals. Inr (apply_verdict (oe_id active) result explanation (te_now E) evals))\<rparr>"

definition settled_underneath :: "outcome_evaluation list \<Rightarrow> outcome_evaluation \<Rightarrow> bool" where
  "settled_underneath current active \<longleftrightarrow> list_ex (\<lambda>e. oe_id e = oe_id active \<and> oe_result e \<noteq> ''evaluating'') current"

definition settleVerdict :: "turn_env \<Rightarrow> item \<Rightarrow> outcome_evaluation \<Rightarrow> id \<Rightarrow> string \<Rightarrow> string \<Rightarrow> model_usage \<Rightarrow> bool
    \<Rightarrow> platform \<Rightarrow> settle_error + platform" where
  "settleVerdict E it active span result explanation usage lastCycle P =
     (if settled_underneath (st_outcomes (pf_store P)) active then complete_item it P
      else let batch = [outcome_end E active span result explanation usage]; opts = verdict_opts E active result explanation usage
        in if result = ''needs_revision'' \<or> lastCycle \<or> result = ''max_iterations_reached'' \<or> gradingChain (pf_db P) (te_watermark E)
           then commit (te_append E) P batch opts (requeue_item E it 0)
           else rest_primary E it batch opts endTurn P)"

definition settleGraderError :: "turn_env \<Rightarrow> item \<Rightarrow> outcome_evaluation \<Rightarrow> string \<Rightarrow> platform \<Rightarrow> settle_error + platform" where
  "settleGraderError E it active msg P =
     (let chained = gradingChain (pf_db P) (te_watermark E);
          batch = [session_error ''model_request_failed_error'' (SanitizeText msg) (if chained then ''retrying'' else ''exhausted'')];
          opts = no_opts\<lparr>o_outcomes := Some (\<lambda>evals. Inr (revert_evaluating (oe_id active) evals))\<rparr>
      in if chained then commit (te_append E) P batch opts (requeue_item E it 0)
         else rest_primary E it batch opts StopRetriesExhausted P)"

definition completeStaleItem :: "item \<Rightarrow> platform \<Rightarrow> settle_error + platform" where
  "completeStaleItem it P = complete_item it P"

text \<open>The liveness row of a running grader; a cycle settled underneath it writes nothing.\<close>

definition Heartbeat_outcome :: "readings \<Rightarrow> int \<Rightarrow> outcome_evaluation \<Rightarrow> store \<Rightarrow> append_error + store" where
  "Heartbeat_outcome K now active st =
     (case AppendInTx K st [(mk_event EventSpanOutcomeEvalOngoing (JObj [(''iteration'', num (oe_iteration active)), (''outcome_id'', JStr (oe_id active))]))
              \<lparr>ne_processed := Some now\<rparr>]
            (no_opts\<lparr>o_outcomes := Some (\<lambda>evals. if list_ex (\<lambda>e. oe_id e = oe_id active \<and> oe_result e = ''evaluating'') evals
               then Inr evals else Inl ''outcome evaluation no longer live'')\<rparr>) of
        Inl (CallbackFailed _) \<Rightarrow> Inr st | Inl e \<Rightarrow> Inl e | Inr (st', _) \<Rightarrow> Inr st')"

section \<open>A turn that delegated\<close>

definition delegate_for :: "turn_env \<Rightarrow> item \<Rightarrow> bool \<Rightarrow> bool \<Rightarrow> delegate_env" where
  "delegate_for E it settlementOnly isCut = \<lparr>de_agent = te_agent E, de_roster = te_roster E, de_thread = it_thread it,
     de_watermark = te_watermark E, de_settlement_only = settlementOnly, de_cut = isCut, de_child = te_child E, de_printable = te_printable E\<rparr>"

definition holds_cut :: "delegate_env \<Rightarrow> delegated_call list \<Rightarrow> bool" where
  "holds_cut D calls \<longleftrightarrow> list_ex (\<lambda>c. \<not> foreign D c \<and> dc_cut c \<noteq> []) calls"

definition genuine :: "delegate_env \<Rightarrow> delegated_call list \<Rightarrow> bool" where
  "genuine D calls \<longleftrightarrow> list_ex (\<lambda>c. \<not> foreign D c \<and> dc_cut c = []) calls"

definition run_delegated :: "turn_env \<Rightarrow> item \<Rightarrow> bool \<Rightarrow> delegated_call list \<Rightarrow> store \<Rightarrow> settle_error + delegate_state" where
  "run_delegated E it settlementOnly calls st =
     or_fail SettleMessage (run (delegate_for E it settlementOnly (holds_cut (delegate_for E it settlementOnly False) calls)) 0 calls
       \<lparr>ds_store = st, ds_events = [], ds_wakes = [], ds_park = False, ds_ended = False, ds_waited = None\<rparr>)"

text \<open>The fate of the thread: chained (with the count it carries), idled, capped.\<close>

record turn_fate =
  ft_idle :: bool
  ft_chain :: bool
  ft_capped :: bool
  ft_by_input :: bool

definition turn_fate_of :: "bool \<Rightarrow> bool \<Rightarrow> bool \<Rightarrow> bool \<Rightarrow> bool \<Rightarrow> bool \<Rightarrow> bool \<Rightarrow> int \<Rightarrow> turn_fate" where
  "turn_fate_of gated settlementOnly isCut wait ended woke unread chainCount =
     (let park = wait \<and> \<not> gated \<and> settlementOnly \<and> \<not> isCut;
          chain = (\<not> gated \<and> settlementOnly \<and> \<not> park \<and> \<not> ended);
          idle = (\<not> gated \<and> (park \<or> ended));
          capped = (chain \<and> \<not> woke \<and> chainCount + 1 \<ge> int maxSettlementChain)
      in if (idle \<or> capped) \<and> unread then \<lparr>ft_idle = False, ft_chain = True, ft_capped = False, ft_by_input = True\<rparr>
         else if capped then \<lparr>ft_idle = True, ft_chain = False, ft_capped = True, ft_by_input = False\<rparr>
         else \<lparr>ft_idle = idle, ft_chain = chain, ft_capped = False, ft_by_input = False\<rparr>)"

text \<open>The rows after the fate: the cut's error and notice, then the idle.\<close>

definition fate_rows :: "turn_env \<Rightarrow> item \<Rightarrow> turn_fate \<Rightarrow> session_db \<Rightarrow> settle_error + session_db \<times> new_event list \<times> bool" where
  "fate_rows E it f db =
     (let thr = it_thread it in
      if ft_capped f then and_then (end_thread db thr (childEndedNotice db thr capped_notice) endTurn)
        (\<lambda>(db1, evs, woke, _). Inr (db1, chainCapped thr (te_agent E) # evs, woke))
      else if ft_idle f then and_then (move db (to_idle thr endTurn)) (\<lambda>(db1, pair, _). Inr (db1, pair, False))
      else Inr (db, [], False))"

definition count_delegation :: "bool \<Rightarrow> platform \<Rightarrow> platform" where
  "count_delegation b P = (if b then P\<lparr>pf_store := (pf_store P)\<lparr>st_delegation := st_delegation (pf_store P) + 1\<rparr>\<rparr> else P)"

definition fate_work :: "turn_env \<Rightarrow> item \<Rightarrow> turn_fate \<Rightarrow> bool \<Rightarrow> bool \<Rightarrow> platform \<Rightarrow> settle_error + platform" where
  "fate_work E it f woke settlementOnly P =
     (if ft_chain f then requeue_item E it (if ft_by_input f \<or> woke then 0 else it_chain it + 1) P
      else and_then (complete_item it P) (\<lambda>P1.
        if settlementOnly then Inr P1
        else and_then (settleTools E 1 it P1) (\<lambda>(P2, moved). Inr (enqueueIdleHarvest E 3 it moved (te_env E) P2))))"

definition fate_for :: "turn_env \<Rightarrow> item \<Rightarrow> id list \<Rightarrow> delegated_call list \<Rightarrow> bool \<Rightarrow> event list \<Rightarrow> delegate_state \<Rightarrow> turn_fate" where
  "fate_for E it askIDs calls settlementOnly log d =
     turn_fate_of (askIDs \<noteq> []) settlementOnly (holds_cut (delegate_for E it settlementOnly False) calls) (ds_park d) (ds_ended d)
       (ds_wakes d \<noteq> []) (chainInput log (it_thread it) (te_watermark E)) (it_chain it)"

definition delegated_work :: "turn_env \<Rightarrow> item \<Rightarrow> turn_fate \<Rightarrow> id list \<Rightarrow> bool \<Rightarrow> bool \<Rightarrow> session_status option \<Rightarrow> bool
    \<Rightarrow> platform \<Rightarrow> settle_error + platform" where
  "delegated_work E it f wakes told counted moved settlementOnly P =
     and_then (fate_work E it f (wakes \<noteq> []) settlementOnly (enqueueIdleHarvest E 0 it moved (te_env E) (count_delegation counted P)))
       (\<lambda>P1. Inr (enqueue_turns E 4 it (wakes @ (if told then [[]] else [])) P1))"

definition commitDelegatedTurn :: "turn_env \<Rightarrow> item \<Rightarrow> new_event list \<Rightarrow> append_opts \<Rightarrow> id list \<Rightarrow> delegated_call list \<Rightarrow> bool
    \<Rightarrow> platform \<Rightarrow> settle_error + platform" where
  "commitDelegatedTurn E it head opts askIDs calls settlementOnly P =
     and_then (run_delegated E it settlementOnly calls (pf_store P)) (\<lambda>d.
       let f = fate_for E it askIDs calls settlementOnly (pf_log P) d
       in and_then (fate_rows E it f (ds_db d)) (\<lambda>(db, evs, told).
         let moved = (if s_status db \<noteq> s_status (pf_db P) then Some (s_status db) else None)
         in commit (te_append E) (P\<lparr>pf_store := (ds_store d)\<lparr>st_db := db\<rparr>\<rparr>) (head @ ds_events d @ evs)
              (if moved = None then opts else opts\<lparr>o_set_status := moved\<rparr>)
              (delegated_work E it f (ds_wakes d) told (genuine (delegate_for E it settlementOnly False) calls) moved settlementOnly)))"

text \<open>The claim of a session that has spent its budget: the item completes, the thread idles.\<close>

definition budget_spent :: "item \<Rightarrow> platform \<Rightarrow> bool" where
  "budget_spent it P \<longleftrightarrow> st_delegation (pf_store P) \<ge> maxSessionDelegationTurns \<and> \<not> pendingInput (pf_log P) (it_thread it)"

definition cutExhaustedRun :: "turn_env \<Rightarrow> item \<Rightarrow> platform \<Rightarrow> settle_error + platform \<times> bool" where
  "cutExhaustedRun E it P =
     (let thr = it_thread it; db = pf_db P; before = s_status db in
      if \<not> budget_spent it P then Inr (P, False)
      else and_then (end_thread db thr (childEndedNotice db thr exhausted_notice) endTurn) (\<lambda>(db1, evs, woke, _).
        let moved = (if s_status db1 \<noteq> before then Some (s_status db1) else None)
        in and_then (commit (te_append E) (with_db db1 P) (runExhausted thr (te_agent E) # evs)
                       (no_opts\<lparr>o_thread := thr, o_set_status := moved\<rparr>) (settled_work E it moved (te_env E) woke))
             (\<lambda>P1. Inr (P1, True))))"

section \<open>Committing a turn\<close>

text \<open>\<open>span\<close> is the request's start event and \<open>ids\<close> the ids minted for the calls.\<close>

definition turn_head :: "turn_env \<Rightarrow> item \<Rightarrow> (string \<Rightarrow> tool_class option) \<Rightarrow> id \<Rightarrow> (nat \<Rightarrow> id) \<Rightarrow> turn_result \<Rightarrow> id list \<Rightarrow> new_event list" where
  "turn_head E it class span ids res askIDs = stampThread (bt_events (turnEvents class res ids)
     @ [EndEvent E (it_thread it) span False (case tr_usage res of None \<Rightarrow> no_usage | Some u \<Rightarrow> u)]) (it_thread it) askIDs"

definition turn_opts :: "item \<Rightarrow> turn_result \<Rightarrow> append_opts" where
  "turn_opts it res = no_opts\<lparr>o_thread := it_thread it, o_add_usage := Some (case tr_usage res of None \<Rightarrow> no_usage | Some u \<Rightarrow> u),
     o_thinking := (if tr_text res \<noteq> [] \<or> tr_uses res \<noteq> [] then tr_thinking res else [])\<rparr>"

definition tool_work :: "turn_env \<Rightarrow> item \<Rightarrow> platform \<Rightarrow> settle_error + platform" where
  "tool_work E it P = and_then (complete_item it P) (\<lambda>P1. and_then (settleTools E 0 it P1)
     (\<lambda>(P2, moved). Inr (enqueueIdleHarvest E 2 it moved (te_env E) P2)))"

definition commitTurn :: "turn_env \<Rightarrow> item \<Rightarrow> (string \<Rightarrow> tool_class option) \<Rightarrow> id \<Rightarrow> (nat \<Rightarrow> id) \<Rightarrow> turn_result \<Rightarrow> platform
    \<Rightarrow> settle_error + platform" where
  "commitTurn E it class span ids res P =
     (let b = turnEvents class res ids; askIDs = ToolWaitIDs (bt_events b) (te_env E) platform_owned;
          head = turn_head E it class span ids res askIDs; opts = turn_opts it res
      in if tr_uses res = [] then settleEndTurn E it opts head P
         else if bt_delegated b \<noteq> []
         then commitDelegatedTurn E it head opts askIDs (bt_delegated b) (length (bt_delegated b) = length (tr_uses res)) P
         else commit (te_append E) P head opts (tool_work E it))"

section \<open>Claiming\<close>

datatype claimed = Drained | Live

definition thread_status :: "session_db \<Rightarrow> id \<Rightarrow> session_status \<times> bool" where
  "thread_status db thr = (case row_of db thr of Some r \<Rightarrow> (t_status r, t_archived r)
     | None \<Rightarrow> (if thr = [] then s_status db else SessionTerminated, False))"

definition claimLiveSession :: "turn_env \<Rightarrow> item \<Rightarrow> platform \<Rightarrow> settle_error + platform \<times> claimed" where
  "claimLiveSession E it P =
     (let thr = it_thread it; db = pf_db P; (status, archived) = thread_status db thr in
      if status \<noteq> SessionRunning \<or> s_archived db \<or> archived then and_then (complete_item it P) (\<lambda>P1. Inr (P1, Drained))
      else and_then (or_fail SettleTools (AdvanceThreadTools (te_advance E) (pf_store P) thr platform_owned)) (\<lambda>(st1, flow).
        if \<not> tf_unsettled flow then Inr (P\<lparr>pf_store := st1\<rparr>, Live)
        else and_then (or_fail SettleTools (SettleToolFlow (te_flow E) st1 thr flow)) (\<lambda>(st2, _).
          and_then (complete_item it (P\<lparr>pf_store := st2\<rparr>)) (\<lambda>P1. Inr (enqueueRunnableTools E 0 it P1, Drained)))))"

text \<open>A reclaimed turn is announced by a forced reschedule, under the lease.\<close>

definition recover :: "turn_env \<Rightarrow> item \<Rightarrow> platform \<Rightarrow> settle_error + platform" where
  "recover E it P =
     and_then (or_fail SettleAppend (AppendTransition (te_append E) (pf_store P) []
        [\<lparr>tt_thread = it_thread it, tt_status = SessionRescheduling, tt_stop = None, tt_reemit = False, tt_force = True\<rparr>,
         \<lparr>tt_thread = it_thread it, tt_status = SessionRunning, tt_stop = None, tt_reemit = False, tt_force = True\<rparr>] (no_opts\<lparr>o_then := Some Inr\<rparr>)))
       (\<lambda>(st, _). and_then (or_fail SettleQueue (Assert (pf_queue P) it)) (\<lambda>_. Inr (P\<lparr>pf_store := st\<rparr>)))"

section \<open>Sequencing\<close>

lemma and_then_Inr [simp]: "and_then x f = Inr b \<longleftrightarrow> (\<exists>a. x = Inr a \<and> f a = Inr b)"
  by (cases x) (simp_all add: and_then_def)

lemma or_fail_Inr [simp]: "or_fail g x = Inr a \<longleftrightarrow> x = Inr a"
  by (cases x) (simp_all add: or_fail_def)

lemma commit_Inr:
  "commit K P batch opts work = Inr P' \<longleftrightarrow>
     (\<exists>st rows. AppendInTx K (pf_store P) batch (opts\<lparr>o_then := Some Inr\<rparr>) = Inr (st, rows) \<and> work (P\<lparr>pf_store := st\<rparr>) = Inr P')"
  by (auto simp: commit_def)

lemma with_db_queue [simp]: "pf_queue (with_db db P) = pf_queue P"
  by (simp add: with_db_def)

lemma store_queue [simp]: "pf_queue (P\<lparr>pf_store := st\<rparr>) = pf_queue P"
  by simp

section \<open>What a settlement does to the queue\<close>

definition turn_slot :: "item \<Rightarrow> id \<times> id \<times> kind" where
  "turn_slot it = (it_session it, it_thread it, ModelTurn)"

text \<open>The claim's row carries the item's slot, and the ids still to be minted are unused.\<close>

definition claimed_turn :: "item \<Rightarrow> queue_db \<Rightarrow> bool" where
  "claimed_turn it q \<longleftrightarrow> (\<forall>r \<in> set (q_items q). held it r \<longrightarrow> slot r = turn_slot it)"

definition minted :: "turn_env \<Rightarrow> nat \<Rightarrow> queue_db \<Rightarrow> bool" where
  "minted E n q \<longleftrightarrow> queue_inv q \<and> inj (te_work E) \<and> (\<forall>i \<ge> n. te_work E i \<notin> w_id ` set (q_items q))"

text \<open>Work added by enqueues, with the ids from \<open>n\<close> up to \<open>m\<close>; a claimed item given back.\<close>

definition adds :: "turn_env \<Rightarrow> nat \<Rightarrow> nat \<Rightarrow> queue_db \<Rightarrow> queue_db \<Rightarrow> bool" where
  "adds E n m q q' \<longleftrightarrow> (\<forall>it. owns q' it \<longleftrightarrow> owns q it) \<and> (\<forall>it. claimed_turn it q' \<longleftrightarrow> claimed_turn it q)
     \<and> set (live_slots q) \<subseteq> set (live_slots q')
     \<and> (\<forall>r \<in> set (q_items q'). r \<in> set (q_items q) \<or> chain_of r = 0) \<and> (minted E n q \<longrightarrow> minted E m q')"

definition gives :: "turn_env \<Rightarrow> item \<Rightarrow> queue_db \<Rightarrow> queue_db \<Rightarrow> bool" where
  "gives E it q q' \<longleftrightarrow> owns q it \<and> (queue_inv q \<longrightarrow> (\<forall>it'. it_id it' = it_id it \<longrightarrow> \<not> owns q' it'))
     \<and> (claimed_turn it q \<longrightarrow> set (live_slots q) \<subseteq> set (live_slots q') \<union> {turn_slot it})
     \<and> (\<forall>r \<in> set (q_items q'). r \<in> set (q_items q) \<or> chain_of r < int maxSettlementChain \<or> (\<exists>x \<in> set (q_items q). chain_of r = chain_of x))
     \<and> (\<forall>n. minted E n q \<longrightarrow> minted E n q')"

lemma adds_refl: "adds E n n q q"
  by (simp add: adds_def)

lemma adds_trans [trans]: "adds E n m q q1 \<Longrightarrow> adds E m k q1 q2 \<Longrightarrow> adds E n k q q2"
  unfolding adds_def by (blast intro: order_trans)

lemma minted_mono: "minted E n q \<Longrightarrow> n \<le> m \<Longrightarrow> minted E m q"
  by (auto simp: minted_def)

lemma adds_weaken: "adds E n m q q1 \<Longrightarrow> m \<le> k \<Longrightarrow> adds E n k q q1"
  by (auto simp: adds_def intro: minted_mono)

lemma adds_later: "adds E n m q q1 \<Longrightarrow> k \<le> n \<Longrightarrow> adds E k m q q1"
  by (auto simp: adds_def intro: minted_mono)

lemma insert_adds:
  assumes r: "w_state r = WQueued" "w_id r = te_work E n" "chain_of r = 0" "lease_ok r"
  shows "adds E n (Suc n) q (fst (insert_item q r))" "slot r \<in> set (live_slots (fst (insert_item q r)))"
proof -
  show "slot r \<in> set (live_slots (fst (insert_item q r)))"
    using r(1) by (simp add: insert_item_slot live_slots_def)
  show "adds E n (Suc n) q (fst (insert_item q r))"
  proof (cases "slot r \<in> set (live_slots q)")
    case True
    then show ?thesis by (simp add: insert_item_slot adds_weaken [OF adds_refl])
  next
    case False
    then have q': "fst (insert_item q r) = q\<lparr>q_items := q_items q @ [r]\<rparr>" by (simp add: insert_item_slot)
    have nh: "\<not> held it r" for it using r(1) by (simp add: held_def)
    have "minted E (Suc n) (q\<lparr>q_items := q_items q @ [r]\<rparr>)" if "minted E n q"
    proof -
      have "te_work E n \<notin> w_id ` set (q_items q)" using that by (simp add: minted_def)
      then have "queue_inv (q\<lparr>q_items := q_items q @ [r]\<rparr>)"
        using that r False by (auto simp: minted_def queue_inv_def live_slots_def)
      moreover have "te_work E i \<noteq> te_work E n" if "Suc n \<le> i" for i
        using that \<open>minted E n q\<close> by (auto simp: minted_def inj_eq)
      ultimately show ?thesis using that r(2) by (simp add: minted_def)
    qed
    with nh r(3) show ?thesis
      unfolding q' adds_def by (auto simp: owns_def hits_def claimed_turn_def live_slots_def)
  qed
qed

lemma enqueue_adds:
  "adds E n (Suc n) (pf_queue P) (pf_queue (enqueue E n it thr k P))"
  "(it_session it, thr, k) \<in> set (live_slots (pf_queue (enqueue E n it thr k P)))"
proof -
  obtain tr where q: "pf_queue (enqueue E n it thr k P)
      = fst (insert_item (pf_queue P) (new_row (te_work E n) (it_env it) (it_session it) thr k (te_queue_now E) tr))"
    by (simp add: enqueue_def EnqueueThread_def Let_def split_beta)
  have r: "w_state (new_row w e s t kk nn c) = WQueued" "chain_of (new_row w e s t kk nn c) = 0" "lease_ok (new_row w e s t kk nn c)"
    for w e s t kk nn c by (simp_all add: new_row_def chain_of_def lease_ok_def)
  show "adds E n (Suc n) (pf_queue P) (pf_queue (enqueue E n it thr k P))"
    unfolding q by (rule insert_adds(1)) (simp_all add: r)
  show "(it_session it, thr, k) \<in> set (live_slots (pf_queue (enqueue E n it thr k P)))"
    unfolding q using insert_adds(2) [where r = "new_row (te_work E n) (it_env it) (it_session it) thr k (te_queue_now E) tr"] by (simp add: r)
qed

lemma harvest_adds:
  "adds E n (Suc n) (pf_queue P) (pf_queue (harvest E n it g P))"
  "(it_session it, [], OutputsHarvest) \<in> set (live_slots (pf_queue (harvest E n it g P)))"
proof -
  let ?r = "(new_row (te_work E n) (it_env it) (it_session it) [] OutputsHarvest (te_queue_now E) (te_trace E))
       \<lparr>w_started := None, w_meta := [''chain_grading'' \<mapsto> MBool g]\<rparr>"
  have q: "pf_queue (harvest E n it g P) = fst (insert_item (pf_queue P) ?r)" by (simp add: harvest_def EnqueueOutputsHarvest_def)
  have r: "w_state ?r = WQueued" "w_id ?r = te_work E n" "chain_of ?r = 0" "lease_ok ?r"
    "slot ?r = (it_session it, [], OutputsHarvest)"
    by (simp_all add: new_row_def chain_of_def lease_ok_def slot_def)
  show "adds E n (Suc n) (pf_queue P) (pf_queue (harvest E n it g P))"
    unfolding q by (rule insert_adds(1)) (fact r)+
  show "(it_session it, [], OutputsHarvest) \<in> set (live_slots (pf_queue (harvest E n it g P)))"
    unfolding q using insert_adds(2) [of ?r, OF r(1,2,3,4)] r(5) by simp
qed


text \<open>A held row updated in place: the other rows, their slots and the ids stay.\<close>

lemma upd_gives:
  assumes own: "owns q it" and f: "\<And>r. w_id (f r) = w_id r \<and> slot (f r) = slot r \<and> w_state (f r) \<noteq> WActive"
    and chain: "\<And>r. chain_of (f r) < int maxSettlementChain \<or> chain_of (f r) = chain_of r"
    and inv: "queue_inv q \<Longrightarrow> queue_inv (upd (held it) f q)"
  shows "gives E it q (upd (held it) f q)"
  unfolding gives_def
proof (intro conjI)
  let ?q = "upd (held it) f q"
  show "queue_inv q \<longrightarrow> (\<forall>it'. it_id it' = it_id it \<longrightarrow> \<not> owns ?q it')"
    using upd_held_released [where f = f, OF _ own] f by (fastforce simp: owns_def hits_def held_def simp del: q_upd)
  show "claimed_turn it q \<longrightarrow> set (live_slots q) \<subseteq> set (live_slots ?q) \<union> {turn_slot it}"
  proof
    assume c: "claimed_turn it q"
    show "set (live_slots q) \<subseteq> set (live_slots ?q) \<union> {turn_slot it}"
    proof
      fix sl assume "sl \<in> set (live_slots q)"
      then obtain r where r: "r \<in> set (q_items q)" "is_live (w_state r)" "sl = slot r" by (auto simp: live_slots_def)
      show "sl \<in> set (live_slots ?q) \<union> {turn_slot it}"
      proof (cases "held it r")
        case True
        with c r show ?thesis by (simp add: claimed_turn_def)
      next
        case False
        with r have "r \<in> set (q_items ?q)" by (auto simp: image_iff)
        with r show ?thesis by (auto simp: live_slots_def)
      qed
    qed
  qed
  show "\<forall>r \<in> set (q_items ?q). r \<in> set (q_items q) \<or> chain_of r < int maxSettlementChain \<or> (\<exists>x \<in> set (q_items q). chain_of r = chain_of x)"
    using chain by (auto simp: image_iff)
  show "\<forall>n. minted E n q \<longrightarrow> minted E n ?q"
  proof (intro allI impI)
    fix n assume m: "minted E n q"
    have "map w_id (q_items ?q) = map w_id (q_items q)" using f by (simp add: comp_def if_distrib cong: if_cong)
    then have "w_id ` set (q_items ?q) = w_id ` set (q_items q)" by (metis set_map)
    with m inv show "minted E n ?q" by (simp add: minted_def)
  qed
qed (fact own)

lemma complete_gives:
  assumes "complete_item it P = Inr P'"
  shows "gives E it (pf_queue P) (pf_queue P')" "pf_store P' = pf_store P"
proof -
  from assms obtain q where q: "Complete (pf_queue P) it = Inr q" "P' = P\<lparr>pf_queue := q\<rparr>" by (auto simp: complete_item_def)
  from q(1) have own: "owns (pf_queue P) it" and e: "q = upd (held it) (\<lambda>r. r\<lparr>w_state := WStopped, w_lease := None\<rparr>) (pf_queue P)"
    by (auto simp: Complete_def split: if_splits)
  have "gives E it (pf_queue P) q"
    unfolding e by (rule upd_gives [OF own]) (use inv_Complete [OF _ q(1)] in \<open>simp_all add: slot_def chain_of_def e\<close>)
  then show "gives E it (pf_queue P) (pf_queue P')" by (simp add: q(2))
  show "pf_store P' = pf_store P" by (simp add: q(2))
qed

lemma requeue_gives:
  assumes "requeue_item E it c P = Inr P'" "c < int maxSettlementChain"
  shows "gives E it (pf_queue P) (pf_queue P')" "pf_store P' = pf_store P"
    "claimed_turn it (pf_queue P) \<Longrightarrow> turn_slot it \<in> set (live_slots (pf_queue P'))"
proof -
  from assms obtain q where q: "requeue (pf_queue P) it c 0 (te_queue_now E) = Inr q" "P' = P\<lparr>pf_queue := q\<rparr>"
    by (auto simp: requeue_item_def RequeueSettlement_def)
  let ?f = "\<lambda>r. r\<lparr>w_state := WQueued, w_lease := None, w_meta := (if c > 0 then (w_meta r)(''settlement_chain'' \<mapsto> MInt c)
     else (w_meta r)(''settlement_chain'' := None))\<rparr>"
  from q(1) have own: "owns (pf_queue P) it" and e: "q = upd (held it) ?f (pf_queue P)"
    by (auto simp: requeue_def split: if_splits)
  have "gives E it (pf_queue P) q"
    unfolding e by (rule upd_gives [OF own]) (use inv_requeue [OF _ q(1)] assms(2) in \<open>auto simp: slot_def chain_of_def e maxSettlementChain_def\<close>)
  then show "gives E it (pf_queue P) (pf_queue P')" by (simp add: q(2))
  show "pf_store P' = pf_store P" by (simp add: q(2))
  from own obtain r where r: "r \<in> set (q_items (pf_queue P))" "held it r" by (auto simp: owns_def hits_def)
  then have "?f r \<in> set (q_items q)" unfolding e q_upd by (force simp: image_iff)
  moreover have "slot (?f r) = slot r" "is_live (w_state (?f r))" by (simp_all add: slot_def)
  ultimately show "turn_slot it \<in> set (live_slots (pf_queue P'))" if "claimed_turn it (pf_queue P)"
    using that r unfolding q(2) by (force simp: claimed_turn_def live_slots_def image_iff)
qed

definition settled :: "turn_env \<Rightarrow> item \<Rightarrow> queue_db \<Rightarrow> queue_db \<Rightarrow> bool" where
  "settled E it q q' \<longleftrightarrow> owns q it \<and> (minted E 0 q \<longrightarrow> queue_inv q' \<and> (\<forall>it'. it_id it' = it_id it \<longrightarrow> \<not> owns q' it'))
     \<and> (claimed_turn it q \<longrightarrow> set (live_slots q) \<subseteq> set (live_slots q') \<union> {turn_slot it})
     \<and> (list_all (\<lambda>r. chain_of r < int maxSettlementChain) (q_items q) \<longrightarrow> list_all (\<lambda>r. chain_of r < int maxSettlementChain) (q_items q'))"

lemma settledI:
  assumes "adds E 0 n q q1" "gives E it q1 q2" "adds E n m q2 q3"
  shows "settled E it q q3"
  unfolding settled_def
proof (intro conjI impI)
  show "owns q it" using assms(1,2) by (simp add: adds_def gives_def)
  show "claimed_turn it q \<Longrightarrow> set (live_slots q) \<subseteq> set (live_slots q3) \<union> {turn_slot it}"
    using assms unfolding adds_def gives_def by blast
  show "list_all (\<lambda>r. chain_of r < int maxSettlementChain) (q_items q3)" if b: "list_all (\<lambda>r. chain_of r < int maxSettlementChain) (q_items q)"
  proof -
    have z: "(0::int) < int maxSettlementChain" by (simp add: maxSettlementChain_def)
    have b1: "chain_of r < int maxSettlementChain" if "r \<in> set (q_items q1)" for r
    proof -
      have "r \<in> set (q_items q) \<or> chain_of r = 0" using that assms(1) by (simp add: adds_def)
      with b z show ?thesis by (auto simp: list_all_iff)
    qed
    have b2: "chain_of r < int maxSettlementChain" if "r \<in> set (q_items q2)" for r
      using that assms(2) b1 unfolding gives_def by metis
    have "chain_of r < int maxSettlementChain" if "r \<in> set (q_items q3)" for r
    proof -
      have "r \<in> set (q_items q2) \<or> chain_of r = 0" using that assms(3) by (simp add: adds_def)
      with b2 z show ?thesis by auto
    qed
    then show ?thesis by (simp add: list_all_iff)
  qed
next
  assume m: "minted E 0 q"
  then have 1: "minted E n q1" using assms(1) by (simp add: adds_def)
  moreover from 1 have "queue_inv q1" by (simp add: minted_def)
  ultimately have 2: "minted E n q2" "\<forall>it'. it_id it' = it_id it \<longrightarrow> \<not> owns q2 it'" using assms(2) by (simp_all add: gives_def)
  then show "queue_inv q3" using assms(3) by (auto simp: adds_def minted_def)
  show "\<forall>it'. it_id it' = it_id it \<longrightarrow> \<not> owns q3 it'" using 2 assms(3) by (auto simp: adds_def)
qed

lemma idle_harvest_adds: "adds E n (Suc n) (pf_queue P) (pf_queue (enqueueIdleHarvest E n it moved envKind P))"
  using harvest_adds(1) adds_weaken [OF adds_refl] by (auto simp: enqueueIdleHarvest_def)

lemma runnable_adds: "adds E n (Suc n) (pf_queue P) (pf_queue (enqueueRunnableTools E n it P))"
  using enqueue_adds(1) adds_weaken [OF adds_refl] by (auto simp: enqueueRunnableTools_def split: option.split)

lemma turns_adds: "adds E n (n + length thrs) (pf_queue P) (pf_queue (enqueue_turns E n it thrs P))"
proof (induction thrs arbitrary: n P)
  case (Cons thr thrs)
  have "adds E n (Suc n) (pf_queue P) (pf_queue (enqueue E n it thr ModelTurn P))" by (rule enqueue_adds)
  from adds_trans [OF this Cons.IH] show ?case by simp
qed (simp add: adds_refl)

lemma settleTools_Inr:
  assumes "settleTools E n it P = Inr (P', moved)"
  obtains st where "P' = enqueueRunnableTools E n it (P\<lparr>pf_store := st\<rparr>)"
  | st where "P' = enqueue E (Suc n) it (it_thread it) ModelTurn (enqueueRunnableTools E n it (P\<lparr>pf_store := st\<rparr>))"
  using assms by (auto simp: settleTools_def Let_def split: if_splits)

lemma settleTools_adds:
  assumes "settleTools E n it P = Inr (P', moved)"
  shows "adds E n (n + 2) (pf_queue P) (pf_queue P')"
proof -
  have 1: "adds E n (Suc n) (pf_queue P) (pf_queue (enqueueRunnableTools E n it (P\<lparr>pf_store := st\<rparr>)))" for st
    using runnable_adds [of E n "P\<lparr>pf_store := st\<rparr>" it] by simp
  from assms show ?thesis
    by (cases rule: settleTools_Inr) (use adds_weaken [OF 1, of "n + 2"] adds_trans [OF 1 enqueue_adds(1)] in simp_all)
qed

section \<open>Every settlement\<close>

text \<open>
  The contract of a settlement, whatever it decides: it commits only for the holder of the lease,
  nobody holds the item afterwards, every other live slot stays, the queue stays well-formed, and
  no chain count reaches the cap.
\<close>

lemma settled_work_settled: "settled_work E it moved envKind woke P = Inr P' \<Longrightarrow> settled E it (pf_queue P) (pf_queue P')"
proof -
  assume a: "settled_work E it moved envKind woke P = Inr P'"
  then obtain P1 where c: "complete_item it P = Inr P1" and P': "P' = (if woke then enqueue E 1 it [] ModelTurn (enqueueIdleHarvest E 0 it moved envKind P1)
      else enqueueIdleHarvest E 0 it moved envKind P1)"
    by (auto simp: settled_work_def Let_def)
  have 1: "adds E 0 1 (pf_queue P1) (pf_queue (enqueueIdleHarvest E 0 it moved envKind P1))" using idle_harvest_adds [of E 0] by simp
  have "adds E 0 2 (pf_queue P1) (pf_queue P')"
    unfolding P' using adds_weaken [OF 1, of 2] adds_trans [OF 1 enqueue_adds(1)] by (simp add: numeral_2_eq_2)
  from settledI [OF adds_refl complete_gives(1) [OF c] this] show ?thesis .
qed

lemma complete_settled: "complete_item it P = Inr P' \<Longrightarrow> settled E it (pf_queue P) (pf_queue P')"
  by (rule settledI [OF adds_refl complete_gives(1) adds_refl])

lemma requeue_settled: "requeue_item E it c P = Inr P' \<Longrightarrow> c < int maxSettlementChain \<Longrightarrow> settled E it (pf_queue P) (pf_queue P')"
  by (rule settledI [OF adds_refl requeue_gives(1) adds_refl])

lemma requeue_0_settled: "requeue_item E it 0 P = Inr P' \<Longrightarrow> settled E it (pf_queue P) (pf_queue P')"
  by (erule requeue_settled) (simp add: maxSettlementChain_def)

lemma commit_settled:
  assumes "commit K P batch opts work = Inr P'" "\<And>P1 P'. work P1 = Inr P' \<Longrightarrow> settled E it (pf_queue P1) (pf_queue P')"
  shows "settled E it (pf_queue P) (pf_queue P')"
proof -
  from assms(1) obtain st where "work (P\<lparr>pf_store := st\<rparr>) = Inr P'" by (auto simp: commit_Inr)
  from assms(2) [OF this] show ?thesis by simp
qed

lemma settle_settled:
  assumes "settle E it opts why build P = Inr P'"
  shows "settled E it (pf_queue P) (pf_queue P')"
proof -
  from assms consider b o1 where "commit (te_append E) P b o1 (requeue_item E it 0) = Inr P'"
    | db b o1 moved woke where "commit (te_append E) (with_db db P) b o1 (settled_work E it moved (te_env E) woke) = Inr P'"
    by (auto simp: settle_def Let_def split: if_splits)
  then show ?thesis
  proof cases
    case 1
    from commit_settled [OF this requeue_0_settled] show ?thesis .
  next
    case 2
    from commit_settled [OF this settled_work_settled] show ?thesis by simp
  qed
qed

lemma grading_work_settled:
  assumes "grading_work E it k P = Inr P'"
  shows "settled E it (pf_queue P) (pf_queue P')"
proof -
  from assms consider "complete_item it (harvest E 0 it True P) = Inr P'" | "complete_item it (enqueue E 0 it [] ModelTurn P) = Inr P'"
    | "requeue_item E it 0 P = Inr P'"
    by (auto simp: grading_work_def split: if_splits)
  then show ?thesis
  proof cases
    case 1
    show ?thesis by (rule settledI [OF harvest_adds(1) complete_gives(1) [OF 1] adds_refl])
  next
    case 2
    show ?thesis by (rule settledI [OF enqueue_adds(1) complete_gives(1) [OF 2] adds_refl])
  qed (rule requeue_0_settled)
qed

lemma settleEndTurn_settled:
  assumes "settleEndTurn E it opts head P = Inr P'"
  shows "settled E it (pf_queue P) (pf_queue P')"
proof -
  from assms consider b o1 where "commit (te_append E) P b o1 (requeue_item E it 0) = Inr P'"
    | db b o1 k where "commit (te_append E) (with_db db P) b o1 (grading_work E it k) = Inr P'"
    | db b o1 moved k woke where "commit (te_append E) (with_db db P) b o1 (settled_work E it moved k woke) = Inr P'"
    by (auto simp: settleEndTurn_def Let_def split: if_splits option.splits)
  then show ?thesis
  proof cases
    case 1
    from commit_settled [OF this requeue_0_settled] show ?thesis .
  next
    case 2
    from commit_settled [OF this grading_work_settled] show ?thesis by simp
  next
    case 3
    from commit_settled [OF this settled_work_settled] show ?thesis by simp
  qed
qed

lemma rest_primary_settled:
  assumes "rest_primary E it batch opts why P = Inr P'"
  shows "settled E it (pf_queue P) (pf_queue P')"
proof -
  from assms obtain db b o1 where "commit (te_append E) (with_db db P) b o1 (complete_item it) = Inr P'"
    by (auto simp: rest_primary_def)
  from commit_settled [OF this complete_settled] show ?thesis by simp
qed

lemma settleVerdict_settled: "settleVerdict E it active span result explanation usage lc P = Inr P' \<Longrightarrow> settled E it (pf_queue P) (pf_queue P')"
  by (auto simp: settleVerdict_def Let_def split: if_splits
      intro: complete_settled rest_primary_settled commit_settled [OF _ requeue_0_settled])

lemma settleGraderError_settled: "settleGraderError E it active msg P = Inr P' \<Longrightarrow> settled E it (pf_queue P) (pf_queue P')"
  by (auto simp: settleGraderError_def Let_def split: if_splits intro: rest_primary_settled commit_settled [OF _ requeue_0_settled])

lemma tools_harvest_adds:
  assumes "settleTools E n it P = Inr (P1, moved)" "k = n + 2"
  shows "adds E n (Suc k) (pf_queue P) (pf_queue (enqueueIdleHarvest E k it m ek P1))"
  unfolding assms(2) by (rule adds_trans [OF settleTools_adds [OF assms(1)] idle_harvest_adds])

lemma tool_work_settled:
  assumes "tool_work E it P = Inr P'"
  shows "settled E it (pf_queue P) (pf_queue P')"
proof -
  from assms obtain P1 P2 moved where c: "complete_item it P = Inr P1" "settleTools E 0 it P1 = Inr (P2, moved)"
    "P' = enqueueIdleHarvest E 2 it moved (te_env E) P2" by (auto simp: tool_work_def)
  have "adds E 0 (Suc 2) (pf_queue P1) (pf_queue P')"
    unfolding c(3) by (rule tools_harvest_adds [OF c(2)]) simp
  from settledI [OF adds_refl complete_gives(1) [OF c(1)] this] show ?thesis .
qed

lemma count_queue [simp]: "pf_queue (count_delegation b P) = pf_queue P"
  by (simp add: count_delegation_def)

text \<open>The count a chained turn carries on: below the cap, whatever the fate.\<close>

lemma fate_chain:
  assumes "f = turn_fate_of gated only isCut wait ended woke unread n" "ft_chain f"
  shows "(if ft_by_input f \<or> woke then 0 else n + 1) < int maxSettlementChain"
  using assms by (auto simp: turn_fate_of_def Let_def maxSettlementChain_def split: if_splits)

lemma fate_work_settled:
  assumes w: "fate_work E it f woke only P = Inr P'" and a: "adds E 0 1 (pf_queue P0) (pf_queue P)"
    and f: "f = turn_fate_of gated only isCut wait ended woke unread (it_chain it)" and later: "adds E 4 m (pf_queue P') q"
  shows "settled E it (pf_queue P0) q"
proof (cases "ft_chain f")
  case True
  with w have r: "requeue_item E it (if ft_by_input f \<or> woke then 0 else it_chain it + 1) P = Inr P'" by (simp add: fate_work_def)
  show ?thesis
    by (rule settledI [OF a requeue_gives(1) [OF r fate_chain [OF f True]] adds_later [OF later]]) simp
next
  case False
  with w obtain P1 where c: "complete_item it P = Inr P1"
    and r: "(if only then Inr P1 else and_then (settleTools E 1 it P1) (\<lambda>(P2, moved). Inr (enqueueIdleHarvest E 3 it moved (te_env E) P2))) = Inr P'"
    by (auto simp: fate_work_def)
  have "adds E 1 4 (pf_queue P1) (pf_queue P')"
  proof (cases only)
    case True
    with r show ?thesis by (auto intro: adds_weaken [OF adds_refl])
  next
    case False
    with r obtain P2 moved where s: "settleTools E 1 it P1 = Inr (P2, moved)" "P' = enqueueIdleHarvest E 3 it moved (te_env E) P2" by auto
    have "adds E 1 (Suc 3) (pf_queue P1) (pf_queue P')"
      unfolding s(2) by (rule tools_harvest_adds [OF s(1)]) simp
    then show ?thesis by simp
  qed
  from settledI [OF a complete_gives(1) [OF c] adds_trans [OF this later]] show ?thesis .
qed

lemma delegated_work_settled:
  assumes "delegated_work E it f wakes told counted moved only P = Inr P'"
    and f: "f = turn_fate_of gated only isCut wait ended (wakes \<noteq> []) unread (it_chain it)"
  shows "settled E it (pf_queue P) (pf_queue P')"
proof -
  from assms(1) obtain P1 where
    w: "fate_work E it f (wakes \<noteq> []) only (enqueueIdleHarvest E 0 it moved (te_env E) (count_delegation counted P)) = Inr P1"
    and P': "P' = enqueue_turns E 4 it (wakes @ (if told then [[]] else [])) P1"
    by (auto simp: delegated_work_def)
  have "adds E 0 1 (pf_queue P) (pf_queue (enqueueIdleHarvest E 0 it moved (te_env E) (count_delegation counted P)))"
    using idle_harvest_adds [of E 0 "count_delegation counted P"] by simp
  from fate_work_settled [OF w this f turns_adds] show ?thesis unfolding P' .
qed

lemma commitDelegatedTurn_Inr:
  assumes "commitDelegatedTurn E it head opts waits calls only P = Inr P'"
  obtains d db evs told moved o1 where "run_delegated E it only calls (pf_store P) = Inr d"
    "fate_rows E it (fate_for E it waits calls only (pf_log P) d) (ds_db d) = Inr (db, evs, told)"
    "commit (te_append E) (P\<lparr>pf_store := (ds_store d)\<lparr>st_db := db\<rparr>\<rparr>) (head @ ds_events d @ evs) o1
       (delegated_work E it (fate_for E it waits calls only (pf_log P) d) (ds_wakes d) told
          (genuine (delegate_for E it only False) calls) moved only) = Inr P'"
proof -
  from assms obtain d where d: "run_delegated E it only calls (pf_store P) = Inr d"
    and r: "(let f = fate_for E it waits calls only (pf_log P) d
       in and_then (fate_rows E it f (ds_db d)) (\<lambda>(db, evs, told).
         let moved = (if s_status db \<noteq> s_status (pf_db P) then Some (s_status db) else None)
         in commit (te_append E) (P\<lparr>pf_store := (ds_store d)\<lparr>st_db := db\<rparr>\<rparr>) (head @ ds_events d @ evs)
              (if moved = None then opts else opts\<lparr>o_set_status := moved\<rparr>)
              (delegated_work E it f (ds_wakes d) told (genuine (delegate_for E it only False) calls) moved only))) = Inr P'"
    unfolding commitDelegatedTurn_def and_then_Inr by blast
  from r obtain x where "fate_rows E it (fate_for E it waits calls only (pf_log P) d) (ds_db d) = Inr x"
    "(case x of (db, evs, told) \<Rightarrow>
         let moved = (if s_status db \<noteq> s_status (pf_db P) then Some (s_status db) else None)
         in commit (te_append E) (P\<lparr>pf_store := (ds_store d)\<lparr>st_db := db\<rparr>\<rparr>) (head @ ds_events d @ evs)
              (if moved = None then opts else opts\<lparr>o_set_status := moved\<rparr>)
              (delegated_work E it (fate_for E it waits calls only (pf_log P) d) (ds_wakes d) told (genuine (delegate_for E it only False) calls) moved only)) = Inr P'"
    unfolding Let_def and_then_Inr by blast
  then show ?thesis by (cases x) (simp only: prod.case Let_def, rule that [OF d])
qed

lemma commitDelegatedTurn_settled:
  assumes "commitDelegatedTurn E it head opts waits calls only P = Inr P'"
  shows "settled E it (pf_queue P) (pf_queue P')"
  using assms
proof (cases rule: commitDelegatedTurn_Inr)
  case (1 d db evs told moved o1)
  from commit_settled [OF 1(3) delegated_work_settled] show ?thesis by (simp add: fate_for_def)
qed

lemma commitTurn_settled: "commitTurn E it class span ids res P = Inr P' \<Longrightarrow> settled E it (pf_queue P) (pf_queue P')"
  by (auto simp: commitTurn_def Let_def split: if_splits
      intro: settleEndTurn_settled commitDelegatedTurn_settled commit_settled [OF _ tool_work_settled])

lemma cutExhaustedRun_settled:
  assumes "cutExhaustedRun E it P = Inr (P', True)"
  shows "settled E it (pf_queue P) (pf_queue P')"
proof -
  from assms obtain db b o1 moved woke where "commit (te_append E) (with_db db P) b o1 (settled_work E it moved (te_env E) woke) = Inr P'"
    by (auto simp: cutExhaustedRun_def Let_def split: if_splits)
  from commit_settled [OF this settled_work_settled] show ?thesis by simp
qed

lemma claim_settled:
  assumes "claimLiveSession E it P = Inr (P', Drained)"
  shows "settled E it (pf_queue P) (pf_queue P')"
proof -
  from assms consider "complete_item it P = Inr P'"
    | st P1 where "complete_item it (P\<lparr>pf_store := st\<rparr>) = Inr P1" "P' = enqueueRunnableTools E 0 it P1"
    by (auto simp: claimLiveSession_def Let_def split: if_splits prod.splits)
  then show ?thesis
  proof cases
    case 2
    from settledI [OF adds_refl complete_gives(1) [OF 2(1)] runnable_adds] show ?thesis by (simp add: 2(2))
  qed (rule complete_settled)
qed

text \<open>
  The ways a claimed item is settled.  The flag tells whether the settlement itself decides what
  the thread does next; it is off where tools still have to run and where only a stale item is
  given back.
\<close>

definition settlement_only :: "(string \<Rightarrow> tool_class option) \<Rightarrow> turn_result \<Rightarrow> (nat \<Rightarrow> id) \<Rightarrow> bool" where
  "settlement_only class res ids \<longleftrightarrow> length (bt_delegated (turnEvents class res ids)) = length (tr_uses res)"

text \<open>Which classes a settlement runs: the six delegation tools, which no policy gates.\<close>

definition six_only :: "(string \<Rightarrow> tool_class option) \<Rightarrow> bool" where
  "six_only class \<longleftrightarrow> (\<forall>name c. class name = Some c \<and> tc_settlement c \<longrightarrow>
     IsDelegationTool name \<and> tc_kind c = EventAgentToolUse \<and> tc_policy c \<noteq> ''always_ask'')"

inductive settles :: "turn_env \<Rightarrow> item \<Rightarrow> bool \<Rightarrow> platform \<Rightarrow> platform \<Rightarrow> bool" where
  turn: "commitTurn E it class span ids res P = Inr P' \<Longrightarrow> six_only class \<Longrightarrow> settles E it (settlement_only class res ids) P P'"
| failed: "failTurn E it start msg P = Inr P' \<Longrightarrow> settles E it True P P'"
| released: "releaseStartedTurn E it span P = Inr P' \<Longrightarrow> settles E it True P P'"
| verdict: "settleVerdict E it active span result explanation usage lastCycle P = Inr P' \<Longrightarrow> it_thread it = []
    \<Longrightarrow> settles E it (\<not> settled_underneath (st_outcomes (pf_store P)) active) P P'"
| grader_error: "settleGraderError E it active msg P = Inr P' \<Longrightarrow> it_thread it = [] \<Longrightarrow> settles E it True P P'"
| stale: "completeStaleItem it P = Inr P' \<Longrightarrow> settles E it False P P'"
| exhausted: "cutExhaustedRun E it P = Inr (P', True) \<Longrightarrow> settles E it True P P'"
| drained: "claimLiveSession E it P = Inr (P', Drained) \<Longrightarrow> settles E it False P P'"

inductive_cases settlesE: "settles E it alone P P'"

section \<open>The contract of a settlement\<close>

locale settlement =
  fixes commits :: "turn_env \<Rightarrow> item \<Rightarrow> platform \<Rightarrow> platform \<Rightarrow> bool"
  assumes hands_back: "commits E it P P' \<Longrightarrow> settled E it (pf_queue P) (pf_queue P')"
begin

lemma fenced: "commits E it P P' \<Longrightarrow> owns (pf_queue P) it"
  using hands_back by (simp add: settled_def)

lemma loser_changes_nothing: "\<not> owns (pf_queue P) it \<Longrightarrow> \<not> commits E it P P'"
  using fenced by blast

lemma nobody_after:
  "commits E it P P' \<Longrightarrow> minted E 0 (pf_queue P) \<Longrightarrow> it_id it' = it_id it \<Longrightarrow> \<not> owns (pf_queue P') it'"
  using hands_back by (simp add: settled_def)

lemma once: "commits E it P P' \<Longrightarrow> minted E 0 (pf_queue P) \<Longrightarrow> it_id it' = it_id it \<Longrightarrow> \<not> commits E' it' P' P''"
  by (rule loser_changes_nothing) (rule nobody_after)

lemma inv_kept: "commits E it P P' \<Longrightarrow> minted E 0 (pf_queue P) \<Longrightarrow> queue_inv (pf_queue P')"
  using hands_back by (simp add: settled_def)

lemma slots_kept:
  "commits E it P P' \<Longrightarrow> claimed_turn it (pf_queue P) \<Longrightarrow> set (live_slots (pf_queue P)) \<subseteq> set (live_slots (pf_queue P')) \<union> {turn_slot it}"
  using hands_back by (simp add: settled_def)

lemma chains_kept:
  "commits E it P P' \<Longrightarrow> list_all (\<lambda>r. chain_of r < int maxSettlementChain) (q_items (pf_queue P))
    \<Longrightarrow> list_all (\<lambda>r. chain_of r < int maxSettlementChain) (q_items (pf_queue P'))"
  using hands_back by (simp add: settled_def)

end

interpretation stl: settlement "\<lambda>E it P P'. settles E it alone P P'" for alone
proof
  show "settles E it alone P P' \<Longrightarrow> settled E it (pf_queue P) (pf_queue P')" for E it P P'
    by (erule settlesE) (auto simp: failTurn_def commitFailure_def releaseStartedTurn_def completeStaleItem_def
        intro: commitTurn_settled settle_settled commit_settled [OF _ requeue_0_settled] settleVerdict_settled
          settleGraderError_settled complete_settled cutExhaustedRun_settled claim_settled)
qed

text \<open>
  C37: a settlement is fenced by the lease and happens once.  However a claimed turn is settled (a
  turn with or without tools, a failure, a verdict, a refusal, a stale claim), it commits only while
  the claimant's lease holds the item; afterwards no settlement of any kind commits under that item
  again, every other live work item is still there, the queue's invariant holds, and no item carries
  a count of self-fed turns at the cap.
\<close>

theorem settlement_commits_once:
  assumes "settles E it alone P P'" "minted E 0 (pf_queue P)" "claimed_turn it (pf_queue P)"
  shows "owns (pf_queue P) it \<and> queue_inv (pf_queue P')
    \<and> (\<forall>E' it' alone' P''. it_id it' = it_id it \<longrightarrow> \<not> settles E' it' alone' P' P'')
    \<and> set (live_slots (pf_queue P)) \<subseteq> set (live_slots (pf_queue P')) \<union> {turn_slot it}
    \<and> (list_all (\<lambda>r. chain_of r < int maxSettlementChain) (q_items (pf_queue P))
        \<longrightarrow> list_all (\<lambda>r. chain_of r < int maxSettlementChain) (q_items (pf_queue P')))"
proof (intro conjI allI impI)
  fix E' and it' :: item and alone' P'' assume "it_id it' = it_id it"
  from stl.nobody_after [OF assms(1,2) this] show "\<not> settles E' it' alone' P' P''" by (rule stl.loser_changes_nothing)
qed (fact stl.fenced [OF assms(1)] stl.inv_kept [OF assms(1,2)] stl.slots_kept [OF assms(1,3)] | erule stl.chains_kept [OF assms(1)])+

text \<open>A running primary whose turn fails while a message waits past the head it replayed.\<close>

definition demo_claimed :: item where
  "demo_claimed = \<lparr>it_id = ''work_1'', it_env = ''env_c'', it_session = ''sesn_a'', it_thread = [], it_kind = ModelTurn, it_lease = 80,
     it_reclaimed = False, it_chain = 0, it_grading = False, it_trace = None\<rparr>"

definition demo_waiting :: event where
  "demo_waiting = \<lparr>ev_id = ''sevt_m'', ev_seq = 5, ev_type = EventUserMessage, ev_payload = JObj [], ev_processed = None,
     ev_created = 40, ev_thread = [], ev_cross = False\<rparr>"

definition demo_platform :: platform where
  "demo_platform = \<lparr>pf_store = (demo_store [])\<lparr>st_db := demo_db\<lparr>s_status := SessionRunning, s_log := [demo_waiting],
       s_threads := [demo_primary\<lparr>t_status := SessionRunning, t_stop := None\<rparr>]\<rparr>\<rparr>,
     pf_queue = \<lparr>q_items = [(new_row ''work_1'' ''env_c'' ''sesn_a'' [] ModelTurn 10 None)\<lparr>w_state := WActive, w_lease := Some 80\<rparr>],
       q_envs = [''env_c'' \<mapsto> EnvCloud], q_polls = []\<rparr>\<rparr>"

definition demo_env_of :: "turn_env" where
  "demo_env_of = \<lparr>te_agent = ''root'', te_roster = None, te_env = EnvCloud, te_watermark = 3, te_child = (\<lambda>i. ''sthr_c'' @ replicate i (CHR ''x'')),
     te_printable = (\<lambda>_. True), te_append = demo_K, te_advance = demo_reads, te_flow = demo_K, te_now = 50, te_start = ''sevt_s'', te_queue_now = 50,
     te_work = (\<lambda>i. ''work_n'' @ replicate i (CHR ''x'')), te_trace = None\<rparr>"

lemma append_then:
  "evs \<noteq> [] \<Longrightarrow> o_then opts = None \<Longrightarrow> AppendInTx K st evs (opts\<lparr>o_then := Some Inr\<rparr>) = AppendInTx K st evs opts"
proof -
  assume e: "evs \<noteq> []" "o_then opts = None"
  have "after_insert K st e (opts\<lparr>o_then := x\<rparr>) rows clk = after_insert K st e opts rows clk"
    "stamp_inputs K (opts\<lparr>o_then := x\<rparr>) rows s = stamp_inputs K opts rows s" for x rows clk s e
    unfolding after_insert_def stamp_inputs_def by (cases opts, simp only: append_opts.select_convs append_opts.update_convs)+
  with e show ?thesis by (simp add: AppendInTx_def empty_append_def Let_def cong: option.case_cong sum.case_cong prod.case_cong)
qed

lemma demo_chained: "chainInput (pf_log demo_platform) [] 3"
proof -
  have "EventUserMessage \<in> set pendingInputTypes" by code_simp
  then show ?thesis by (simp add: chainInput_def chain_row_def demo_platform_def demo_waiting_def pf_log_def pf_db_def)
qed

lemma demo_fails: "\<exists>P'. failTurn demo_env_of demo_claimed None ''boom'' demo_platform = Inr P'"
proof -
  let ?evs = "stampThread (failure_events demo_env_of [] None (failure_text ''boom'') True) [] []" and ?o = "no_opts\<lparr>o_mark := 3, o_thread := []\<rparr>"
  have f: "failTurn demo_env_of demo_claimed None ''boom'' demo_platform = commit demo_K demo_platform ?evs ?o (requeue_item demo_env_of demo_claimed 0)"
    using demo_chained by (simp add: failTurn_def commitFailure_def settle_def Let_def demo_env_of_def demo_claimed_def)
  have "?evs \<noteq> []" "\<forall>ev \<in> set ?evs. ne_type ev = EventSessionError"
    by (simp_all add: failure_events_def stampThread_def session_error_def mk_event_def)
  then obtain st rows where "AppendInTx demo_K (pf_store demo_platform) ?evs (?o\<lparr>o_then := Some Inr\<rparr>) = Inr (st, rows)"
    using append_then [of ?evs ?o] append_total [of ?evs ?o "pf_store demo_platform" demo_K]
    by (auto simp: no_opts_def empty_append_def persisted_def primaryStatusEvents_def demo_platform_def demo_store_def demo_db_def)
  moreover have "\<exists>P'. requeue_item demo_env_of demo_claimed 0 (demo_platform\<lparr>pf_store := st\<rparr>) = Inr P'" for st
    by (simp add: requeue_item_def RequeueSettlement_def requeue_def owns_def hits_def held_def demo_platform_def demo_claimed_def new_row_def)
  ultimately show ?thesis unfolding f by (auto simp: commit_Inr)
qed

lemma demo_claim_ok: "claimed_turn demo_claimed (pf_queue demo_platform)" "minted demo_env_of 0 (pf_queue demo_platform)" "[] \<notin> range (te_child demo_env_of)"
proof -
  show "claimed_turn demo_claimed (pf_queue demo_platform)"
    by (simp add: claimed_turn_def turn_slot_def demo_claimed_def demo_platform_def new_row_def slot_def)
  have "inj (te_work demo_env_of)" by (rule injI) (simp add: demo_env_of_def)
  then show "minted demo_env_of 0 (pf_queue demo_platform)"
    by (simp add: minted_def demo_platform_def demo_env_of_def queue_inv_def live_slots_def new_row_def lease_ok_def)
  show "[] \<notin> range (te_child demo_env_of)" by (auto simp: demo_env_of_def)
qed

theorem settlement_commits_once_witness:
  "\<exists>P'. settles demo_env_of demo_claimed True demo_platform P' \<and> queue_inv (pf_queue P')
     \<and> (\<forall>E alone P''. \<not> settles E demo_claimed alone P' P'')"
proof -
  obtain P' where "failTurn demo_env_of demo_claimed None ''boom'' demo_platform = Inr P'" using demo_fails by blast
  then have s: "settles demo_env_of demo_claimed True demo_platform P'" by (rule settles.failed)
  from settlement_commits_once [OF s demo_claim_ok(2,1)] s show ?thesis by blast
qed

end
