(* ===== verification/Scheduling.thy ===== *)
theory Scheduling
  imports Settlement
begin

text \<open>
  What a settlement leaves running, and who runs it next.  Every thread that is running after a
  settlement either ran before it and is another one, or has a model turn in the queue, or is the
  primary whose outcome is being graded once the harvest it waits for is done.
\<close>

section \<open>Threads\<close>

lemma append_db:
  assumes "AppendInTx K st evs (opts\<lparr>o_then := Some Inr\<rparr>) = Inr (st', rows)"
  shows "s_threads (st_db st') = s_threads (st_db st)" "s_id (st_db st') = s_id (st_db st)"
proof -
  have "s_threads (st_db (after_insert K st e o1 rows clk)) = s_threads (st_db st)"
    "s_id (st_db (after_insert K st e o1 rows clk)) = s_id (st_db st)" for e o1 clk
    by (auto simp: after_insert_def Let_def split: option.splits)
  moreover have "s_threads (st_db (stamp_inputs K o1 rows s)) = s_threads (st_db s)" "s_id (st_db (stamp_inputs K o1 rows s)) = s_id (st_db s)" for o1 s
    by (simp_all add: stamp_inputs_def Let_def set_log_def)
  ultimately show "s_threads (st_db st') = s_threads (st_db st)" "s_id (st_db st') = s_id (st_db st)"
    using assms by (auto elim!: AppendInTx_cases)
qed

lemma append_outcomes:
  assumes "AppendInTx K st evs (opts\<lparr>o_then := Some Inr\<rparr>) = Inr (st', rows)" "o_outcomes opts = Some (\<lambda>os. Inr (f os))"
  shows "st_outcomes st' = f (st_outcomes st)"
proof -
  have a: "st_outcomes (after_insert K st e o1 r clk) = st_outcomes st" for e o1 r clk
    by (auto simp: after_insert_def Let_def split: option.splits)
  have b: "st_outcomes (stamp_inputs K o1 r s) = st_outcomes s" for o1 r s
    by (simp add: stamp_inputs_def Let_def set_log_def)
  show ?thesis using assms by (auto simp: AppendInTx_def Let_def a b split: if_splits option.splits sum.splits prod.splits)
qed

lemma run_ids_idle:
  assumes "TransitionThread db (to_idle thr why) = Inr (db', evs, moved)"
  shows "run_ids db' = run_ids db - {row_key db thr}" "s_id db' = s_id db"
proof -
  have "set (map t_id (filter (\<lambda>r. t_status r = SessionRunning) (map (move_row k SessionIdle stop) rs)))
     = set (map t_id (filter (\<lambda>r. t_status r = SessionRunning) rs)) - {k}" for k stop rs
    by (induction rs) (auto simp: move_row_def)
  then show "run_ids db' = run_ids db - {row_key db thr}"
    unfolding run_ids_def transition_effect(1) [OF assms] by (simp only: to_idle_def thread_transition.simps)
  show "s_id db' = s_id db" by (rule transition_effect(2) [OF assms])
qed

lemma wake_run:
  assumes "wakeThread db thr = Inr (db', pair, moved)"
  shows "run_ids db' \<subseteq> run_ids db \<union> (if pair \<noteq> [] then {row_key db thr} else {})" "s_id db' = s_id db"
  using assms by (cases rule: wakeThread_Inr; auto simp: run_ids_move transition_effect(2))+

lemma tell_run:
  assumes "tell db thr notice = Inr (db', evs, woke, moved)"
  shows "run_ids db' \<subseteq> run_ids db \<union> (if woke then {row_key db []} else {})" "s_id db' = s_id db"
proof -
  consider "db' = db" | pair m where "wakeThread db [] = Inr (db', pair, m)" "woke = (pair \<noteq> [])"
    using assms by (auto simp: tell_def DeliverThreadEnded_def wakeOnThreadEnded_def Let_def Woke_def
        split: option.splits sum.splits if_splits)
  then show "run_ids db' \<subseteq> run_ids db \<union> (if woke then {row_key db []} else {})" "s_id db' = s_id db"
    using wake_run by (cases; fastforce)+
qed

lemma end_thread_run:
  assumes "end_thread db thr notice why = Inr (db', evs, woke, moved)"
  shows "run_ids db' \<subseteq> (run_ids db - {row_key db thr}) \<union> (if woke then {row_key db []} else {})" "s_id db' = s_id db"
proof -
  from assms obtain db1 told wokeTo pair m where t: "tell db thr notice = Inr (db1, told, woke, wokeTo)"
    "TransitionThread db1 (to_idle thr why) = Inr (db', pair, m)" by (auto simp: end_thread_def move_def)
  have "row_key db1 thr = row_key db thr" using tell_run(2) [OF t(1)] by (simp add: row_key_def)
  with run_ids_idle(1) [OF t(2)] tell_run(1) [OF t(1)]
  show "run_ids db' \<subseteq> (run_ids db - {row_key db thr}) \<union> (if woke then {row_key db []} else {})" by auto
  show "s_id db' = s_id db" using run_ids_idle(2) [OF t(2)] tell_run(2) [OF t(1)] by simp
qed

section \<open>Work for the threads\<close>

definition scheduled :: "item \<Rightarrow> platform \<Rightarrow> id set" where
  "scheduled it P = {row_key (pf_db P) thr |thr. (it_session it, thr, ModelTurn) \<in> set (live_slots (pf_queue P))}"

text \<open>The grading turn follows the harvest of the deliverables.\<close>

definition grading_ahead :: "item \<Rightarrow> platform \<Rightarrow> bool" where
  "grading_ahead it P \<longleftrightarrow> (it_session it, [], OutputsHarvest) \<in> set (live_slots (pf_queue P))
     \<and> list_ex (\<lambda>e. oe_result e = ''evaluating'') (st_outcomes (pf_store P))"

definition attended :: "item \<Rightarrow> session_db \<Rightarrow> platform \<Rightarrow> bool" where
  "attended it db P' \<longleftrightarrow> run_ids (pf_db P') \<subseteq> (run_ids db - {row_key db (it_thread it)}) \<union> scheduled it P'
     \<union> (if grading_ahead it P' then {row_key db []} else {})"

lemma scheduledI: "(it_session it, thr, ModelTurn) \<in> set (live_slots (pf_queue P)) \<Longrightarrow> s_id (pf_db P) = s_id db \<Longrightarrow> row_key db thr \<in> scheduled it P"
  by (auto simp: scheduled_def row_key_def)

lemma same_run: "s_threads db' = s_threads db \<Longrightarrow> run_ids db' = run_ids db"
  by (simp add: run_ids_def)

lemma keeps_store [simp]:
  "pf_store (enqueue E n it thr k P) = pf_store P" "pf_store (harvest E n it g P) = pf_store P"
  "pf_store (enqueueIdleHarvest E n it moved ek P) = pf_store P"
  by (simp_all add: enqueue_def harvest_def enqueueIdleHarvest_def)

lemma turns_store [simp]: "pf_store (enqueue_turns E n it thrs P) = pf_store P"
  by (induction thrs arbitrary: n P) simp_all

lemma turns_slots: "thr \<in> set thrs \<Longrightarrow> (it_session it, thr, ModelTurn) \<in> set (live_slots (pf_queue (enqueue_turns E n it thrs P)))"
proof (induction thrs arbitrary: n P)
  case (Cons t thrs)
  have "set (live_slots (pf_queue Q)) \<subseteq> set (live_slots (pf_queue (enqueue_turns E (Suc n) it thrs Q)))" for Q
    using turns_adds by (simp add: adds_def)
  from subsetD [OF this enqueue_adds(2)] have "(it_session it, t, ModelTurn) \<in> set (live_slots (pf_queue (enqueue_turns E n it (t # thrs) P)))" by simp
  with Cons show ?case by auto
qed simp

text \<open>A commit that hands the item back for another turn of its thread.\<close>

lemma requeue_attended:
  assumes "commit K P batch opts (requeue_item E it c) = Inr P'" "c < int maxSettlementChain" "claimed_turn it (pf_queue P)"
  shows "attended it (pf_db P) P'" "turn_slot it \<in> set (live_slots (pf_queue P'))"
proof -
  from assms(1) obtain st rows where a: "AppendInTx K (pf_store P) batch (opts\<lparr>o_then := Some Inr\<rparr>) = Inr (st, rows)"
    "requeue_item E it c (P\<lparr>pf_store := st\<rparr>) = Inr P'" by (auto simp: commit_Inr)
  note r = requeue_gives [OF a(2) assms(2)]
  have db: "s_threads (pf_db P') = s_threads (pf_db P)" "s_id (pf_db P') = s_id (pf_db P)"
    using append_db [OF a(1)] r(2) by (simp_all add: pf_db_def)
  show sl: "turn_slot it \<in> set (live_slots (pf_queue P'))" using r(3) assms(3) by simp
  have "row_key (pf_db P) (it_thread it) \<in> scheduled it P'"
    by (rule scheduledI) (use sl db(2) in \<open>simp_all add: turn_slot_def\<close>)
  then show "attended it (pf_db P) P'" by (auto simp: attended_def same_run [OF db(1)])
qed

text \<open>A commit that completes the item of a thread that has ended, and queues the coordinator it woke.\<close>

lemma ended_attended:
  assumes e: "run_ids db1 \<subseteq> (run_ids (pf_db P) - {row_key (pf_db P) (it_thread it)}) \<union> (if woke then {row_key (pf_db P) []} else {})"
    "s_id db1 = s_id (pf_db P)"
    and c: "commit K (with_db db1 P) batch opts (settled_work E it moved ek woke) = Inr P'"
  shows "attended it (pf_db P) P'"
proof -
  from c obtain st rows P1 where a: "AppendInTx K (pf_store (with_db db1 P)) batch (opts\<lparr>o_then := Some Inr\<rparr>) = Inr (st, rows)"
    "complete_item it (with_db db1 P\<lparr>pf_store := st\<rparr>) = Inr P1"
    "P' = (if woke then enqueue E 1 it [] ModelTurn (enqueueIdleHarvest E 0 it moved ek P1) else enqueueIdleHarvest E 0 it moved ek P1)"
    by (auto simp: commit_Inr settled_work_def Let_def)
  have "pf_store P' = st" using complete_gives(2) [OF a(2)] a(3) by simp
  then have db: "s_threads (pf_db P') = s_threads db1" "s_id (pf_db P') = s_id (pf_db P)"
    using append_db [OF a(1)] e(2) by (simp_all add: pf_db_def with_db_def)
  have "row_key (pf_db P) [] \<in> scheduled it P'" if woke
    by (rule scheduledI) (use that a(3) enqueue_adds(2) db(2) in simp_all)
  with e(1) have "run_ids db1 \<subseteq> (run_ids (pf_db P) - {row_key (pf_db P) (it_thread it)}) \<union> scheduled it P'" by (cases woke) auto
  then show ?thesis unfolding attended_def same_run [OF db(1)] by (rule order_trans) simp
qed


lemma zero_chain: "(0::int) < int maxSettlementChain"
  by (simp add: maxSettlementChain_def)

lemma settle_attended:
  assumes "settle E it opts why build P = Inr P'" "claimed_turn it (pf_queue P)"
  shows "attended it (pf_db P) P'"
proof -
  from assms(1) consider b o1 where "commit (te_append E) P b o1 (requeue_item E it 0) = Inr P'"
    | notice db1 evs woke moved b o1 where "end_thread (pf_db P) (it_thread it) notice why = Inr (db1, evs, woke, moved)"
        "commit (te_append E) (with_db db1 P) b o1 (settled_work E it moved (te_env E) woke) = Inr P'"
    by (auto simp: settle_def Let_def split: if_splits)
  then show ?thesis
  proof cases
    case 1
    from requeue_attended(1) [OF this zero_chain assms(2)] show ?thesis .
  next
    case 2
    from ended_attended [OF end_thread_run [OF 2(1)] 2(2)] show ?thesis .
  qed
qed

lemma rest_primary_attended:
  assumes "rest_primary E it batch opts why P = Inr P'" "it_thread it = []"
  shows "attended it (pf_db P) P'"
proof -
  from assms(1) obtain db pair moved st rows where t: "TransitionThread (pf_db P) (to_idle [] why) = Inr (db, pair, moved)"
    and a: "AppendInTx (te_append E) (pf_store (with_db db P)) (batch @ pair) (opts\<lparr>o_set_status := moved, o_then := Some Inr\<rparr>) = Inr (st, rows)"
      "complete_item it (with_db db P\<lparr>pf_store := st\<rparr>) = Inr P'"
    by (auto simp: rest_primary_def move_def commit_Inr)
  have "s_threads (pf_db P') = s_threads db"
    using append_db(1) [OF a(1)] complete_gives(2) [OF a(2)] by (simp add: pf_db_def with_db_def)
  from same_run [OF this] run_ids_idle(1) [OF t] assms(2) show ?thesis by (auto simp: attended_def)
qed

lemma verdict_attended:
  assumes "settleVerdict E it active span result explanation usage lc P = Inr P'" "it_thread it = []" "claimed_turn it (pf_queue P)"
    "\<not> settled_underneath (st_outcomes (pf_store P)) active"
  shows "attended it (pf_db P) P'"
  using assms requeue_attended(1) [OF _ zero_chain assms(3)] rest_primary_attended [OF _ assms(2)]
  by (auto simp: settleVerdict_def Let_def split: if_splits)

lemma grader_error_attended:
  assumes "settleGraderError E it active msg P = Inr P'" "it_thread it = []" "claimed_turn it (pf_queue P)"
  shows "attended it (pf_db P) P'"
  using assms requeue_attended(1) [OF _ zero_chain assms(3)] rest_primary_attended [OF _ assms(2)]
  by (auto simp: settleGraderError_def Let_def split: if_splits)

lemma exhausted_attended:
  assumes "cutExhaustedRun E it P = Inr (P', True)"
  shows "attended it (pf_db P) P'"
proof -
  from assms obtain notice db1 evs woke w moved b o1 where "end_thread (pf_db P) (it_thread it) notice endTurn = Inr (db1, evs, woke, w)"
     "commit (te_append E) (with_db db1 P) b o1 (settled_work E it moved (te_env E) woke) = Inr P'"
    by (auto simp: cutExhaustedRun_def Let_def split: if_splits)
  from ended_attended [OF end_thread_run [OF this(1)] this(2)] show ?thesis .
qed

section \<open>Grading\<close>

lemma grading_rows_run:
  assumes "grading_rows db thr notice ev = Inr (db1, evs)"
  shows "run_ids db1 \<subseteq> (if thr = [] then run_ids db else (run_ids db - {row_key db thr}) \<union> {row_key db []})" "s_id db1 = s_id db"
proof -
  consider "thr = []" "db1 = db" | da wake m1 dc told w m2 park m3 where "thr \<noteq> []"
    "TransitionThread db (to_running []) = Inr (da, wake, m1)" "tell da thr notice = Inr (dc, told, w, m2)"
    "TransitionThread dc (to_idle thr endTurn) = Inr (db1, park, m3)"
    using assms by (auto simp: grading_rows_def move_def split: if_splits)
  then have "run_ids db1 \<subseteq> (if thr = [] then run_ids db else (run_ids db - {row_key db thr}) \<union> {row_key db []}) \<and> s_id db1 = s_id db"
  proof cases
    case 2
    have i: "s_id da = s_id db" "s_id dc = s_id da" using transition_effect(2) [OF 2(2)] tell_run(2) [OF 2(3)] by simp_all
    then have k: "row_key dc thr = row_key db thr" "row_key da [] = row_key db []" by (simp_all add: row_key_def)
    have "run_ids da \<subseteq> run_ids db \<union> {row_key db []}" unfolding run_ids_move [OF 2(2)] by blast
    moreover have "run_ids dc \<subseteq> run_ids da \<union> {row_key db []}" using tell_run(1) [OF 2(3)] k(2) by (auto split: if_splits)
    ultimately show ?thesis using run_ids_idle [OF 2(4)] k(1) i 2(1) by auto
  qed simp
  then show "run_ids db1 \<subseteq> (if thr = [] then run_ids db else (run_ids db - {row_key db thr}) \<union> {row_key db []})" "s_id db1 = s_id db" by simp_all
qed

lemma completed_slot:
  assumes "complete_item it P = Inr P'" "claimed_turn it (pf_queue P)" "sl \<in> set (live_slots (pf_queue P))" "sl \<noteq> turn_slot it"
  shows "sl \<in> set (live_slots (pf_queue P'))"
  using complete_gives(1) [OF assms(1)] assms(2-4) by (auto simp: gives_def)

lemma grading_work_slots:
  assumes "grading_work E it k P = Inr P'" "claimed_turn it (pf_queue P)"
  shows "pf_store P' = pf_store P"
    "(it_session it, [], OutputsHarvest) \<in> set (live_slots (pf_queue P')) \<or> (it_session it, [], ModelTurn) \<in> set (live_slots (pf_queue P'))"
proof -
  consider "complete_item it (harvest E 0 it True P) = Inr P'" | "it_thread it \<noteq> []" "complete_item it (enqueue E 0 it [] ModelTurn P) = Inr P'"
    | "it_thread it = []" "requeue_item E it 0 P = Inr P'"
    using assms(1) by (auto simp: grading_work_def split: if_splits)
  then have "pf_store P' = pf_store P \<and> ((it_session it, [], OutputsHarvest) \<in> set (live_slots (pf_queue P')) \<or> (it_session it, [], ModelTurn) \<in> set (live_slots (pf_queue P')))"
  proof cases
    case 1
    have "claimed_turn it (pf_queue (harvest E 0 it True P))" using harvest_adds(1) assms(2) by (simp add: adds_def)
    from completed_slot [OF 1 this harvest_adds(2)] complete_gives(2) [OF 1] show ?thesis by (simp add: turn_slot_def)
  next
    case 2
    have "claimed_turn it (pf_queue (enqueue E 0 it [] ModelTurn P))" using enqueue_adds(1) assms(2) by (simp add: adds_def)
    from completed_slot [OF 2(2) this enqueue_adds(2)] complete_gives(2) [OF 2(2)] 2(1) show ?thesis by (simp add: turn_slot_def)
  next
    case 3
    from requeue_gives(2,3) [OF 3(2) zero_chain] assms(2) 3(1) show ?thesis by (simp add: turn_slot_def)
  qed
  then show "pf_store P' = pf_store P"
    "(it_session it, [], OutputsHarvest) \<in> set (live_slots (pf_queue P')) \<or> (it_session it, [], ModelTurn) \<in> set (live_slots (pf_queue P'))" by simp_all
qed

lemma grading_due_active: "grading_due db evals thr = Some active \<Longrightarrow> active \<in> set evals"
  by (auto simp: grading_due_def ActiveOutcome_def find_Some_iff split: option.splits if_splits prod.splits)

lemma settleEndTurn_attended:
  assumes "settleEndTurn E it opts head P = Inr P'" "claimed_turn it (pf_queue P)"
  shows "attended it (pf_db P) P'"
proof -
  from assms(1) consider b o1 where "commit (te_append E) P b o1 (requeue_item E it 0) = Inr P'"
    | notice db1 evs woke moved b o1 k where "end_thread (pf_db P) (it_thread it) notice endTurn = Inr (db1, evs, woke, moved)"
        "commit (te_append E) (with_db db1 P) b o1 (settled_work E it moved k woke) = Inr P'"
    | active notice ev db1 evs b o1 k where "grading_due (pf_db P) (st_outcomes (pf_store P)) (it_thread it) = Some active"
        "grading_rows (pf_db P) (it_thread it) notice ev = Inr (db1, evs)"
        "commit (te_append E) (with_db db1 P) b (o1\<lparr>o_outcomes := Some (\<lambda>evals. Inr (start_evaluating (oe_id active) evals))\<rparr>) (grading_work E it k) = Inr P'"
    by (auto simp: settleEndTurn_def Let_def split: if_splits option.splits)
  then show ?thesis
  proof cases
    case 1
    from requeue_attended(1) [OF this zero_chain assms(2)] show ?thesis .
  next
    case 2
    from ended_attended [OF end_thread_run [OF 2(1)] 2(2)] show ?thesis .
  next
    case 3
    from 3(3) obtain st rows where a: "AppendInTx (te_append E) (pf_store (with_db db1 P)) b
        (o1\<lparr>o_outcomes := Some (\<lambda>evals. Inr (start_evaluating (oe_id active) evals)), o_then := Some Inr\<rparr>) = Inr (st, rows)"
      "grading_work E it k (with_db db1 P\<lparr>pf_store := st\<rparr>) = Inr P'" by (auto simp: commit_Inr)
    note w = grading_work_slots [OF a(2)]
    have st: "pf_store P' = st" using w(1) assms(2) by simp
    have db: "s_threads (pf_db P') = s_threads db1" "s_id (pf_db P') = s_id (pf_db P)"
      using append_db [OF a(1)] st grading_rows_run(2) [OF 3(2)] by (simp_all add: pf_db_def with_db_def)
    have "st_outcomes st = start_evaluating (oe_id active) (st_outcomes (pf_store P))"
      using append_outcomes [OF a(1)] by (simp add: with_db_def)
    then have ev: "list_ex (\<lambda>e. oe_result e = ''evaluating'') (st_outcomes (pf_store P'))"
      using grading_due_active [OF 3(1)] by (auto simp: st start_evaluating_def list_ex_iff intro!: bexI [of _ "active\<lparr>oe_result := ''evaluating''\<rparr>"])
    have "row_key (pf_db P) [] \<in> scheduled it P'" if "\<not> grading_ahead it P'"
      by (rule scheduledI) (use that ev w(2) assms(2) db(2) in \<open>auto simp: grading_ahead_def\<close>)
    moreover have "run_ids (pf_db P') \<subseteq> (run_ids (pf_db P) - {row_key (pf_db P) (it_thread it)}) \<union> {row_key (pf_db P) []}"
      using grading_rows_run(1) [OF 3(2)] unfolding same_run [OF db(1)] by (auto split: if_splits)
    ultimately show ?thesis unfolding attended_def by (cases "grading_ahead it P'") auto
  qed
qed


section \<open>Turns that delegated\<close>

text \<open>A settlement-only turn waits for nobody outside: its calls are denied or delegation calls.\<close>

lemma fate_alone: "f = turn_fate_of False True isCut wait ended woke unread n \<Longrightarrow> ft_chain f \<or> ft_idle f"
  by (auto simp: turn_fate_of_def Let_def)

lemma fate_input:
  "f = turn_fate_of False True isCut wait ended woke True n \<Longrightarrow> ft_chain f"
  by (auto simp: turn_fate_of_def Let_def)

lemma fate_rows_run:
  assumes "fate_rows E it f db = Inr (db1, evs, told)" "ft_capped f \<Longrightarrow> ft_idle f"
  shows "run_ids db1 \<subseteq> (if ft_idle f then run_ids db - {row_key db (it_thread it)} else run_ids db) \<union> (if told then {row_key db []} else {})"
    "s_id db1 = s_id db"
proof -
  consider notice ev m where "ft_capped f" "end_thread db (it_thread it) notice endTurn = Inr (db1, ev, told, m)"
    | pair m where "\<not> ft_capped f" "ft_idle f" "TransitionThread db (to_idle (it_thread it) endTurn) = Inr (db1, pair, m)"
    | "\<not> ft_idle f" "db1 = db"
    using assms(1) by (auto simp: fate_rows_def Let_def move_def split: if_splits)
  then have "run_ids db1 \<subseteq> (if ft_idle f then run_ids db - {row_key db (it_thread it)} else run_ids db) \<union> (if told then {row_key db []} else {})
    \<and> s_id db1 = s_id db"
  proof cases
    case 1
    with end_thread_run [OF 1(2)] assms(2) show ?thesis by simp
  next
    case 2
    with run_ids_idle [OF 2(3)] show ?thesis by simp
  next
    case 3
    then show ?thesis by simp
  qed
  then show "run_ids db1 \<subseteq> (if ft_idle f then run_ids db - {row_key db (it_thread it)} else run_ids db) \<union> (if told then {row_key db []} else {})"
    "s_id db1 = s_id db" by simp_all
qed

lemma delegated_work_effect:
  assumes w: "delegated_work E it f wakes told counted moved True P = Inr P'" and c: "claimed_turn it (pf_queue P)"
    and f: "f = turn_fate_of gated True isCut wait ended (wakes \<noteq> []) unread (it_chain it)"
  shows "s_threads (pf_db P') = s_threads (pf_db P)" "s_id (pf_db P') = s_id (pf_db P)"
    "thr \<in> set wakes \<or> told \<and> thr = [] \<Longrightarrow> (it_session it, thr, ModelTurn) \<in> set (live_slots (pf_queue P'))"
    "ft_chain f \<Longrightarrow> turn_slot it \<in> set (live_slots (pf_queue P'))"
proof -
  let ?P0 = "enqueueIdleHarvest E 0 it moved (te_env E) (count_delegation counted P)"
  from w obtain P1 where p1: "fate_work E it f (wakes \<noteq> []) True ?P0 = Inr P1"
    and P': "P' = enqueue_turns E 4 it (wakes @ (if told then [[]] else [])) P1" by (auto simp: delegated_work_def)
  have c0: "claimed_turn it (pf_queue ?P0)" using idle_harvest_adds [of E 0 "count_delegation counted P"] c by (simp add: adds_def)
  consider (chain) "ft_chain f" "requeue_item E it (if ft_by_input f \<or> wakes \<noteq> [] then 0 else it_chain it + 1) ?P0 = Inr P1"
    | (over) "\<not> ft_chain f" "complete_item it ?P0 = Inr P1"
    using p1 by (auto simp: fate_work_def split: if_splits)
  then have "pf_store P1 = pf_store ?P0 \<and> (ft_chain f \<longrightarrow> turn_slot it \<in> set (live_slots (pf_queue P1)))"
  proof cases
    case chain
    from requeue_gives(2,3) [OF chain(2) fate_chain [OF f chain(1)]] c0 show ?thesis by simp
  next
    case over
    from complete_gives(2) [OF over(2)] over(1) show ?thesis by simp
  qed
  then have s: "pf_store P1 = pf_store ?P0" and sl: "ft_chain f \<Longrightarrow> turn_slot it \<in> set (live_slots (pf_queue P1))" by simp_all
  show "s_threads (pf_db P') = s_threads (pf_db P)" "s_id (pf_db P') = s_id (pf_db P)" by (simp_all add: P' s pf_db_def count_delegation_def)
  show "(it_session it, thr, ModelTurn) \<in> set (live_slots (pf_queue P'))" if "thr \<in> set wakes \<or> told \<and> thr = []"
    unfolding P' by (rule turns_slots) (use that in auto)
  show "turn_slot it \<in> set (live_slots (pf_queue P'))" if "ft_chain f"
    unfolding P' using sl [OF that] turns_adds [of E 4 "wakes @ (if told then [[]] else [])" P1 it] by (auto simp: adds_def)
qed

lemma fate_capped: "f = turn_fate_of gated only isCut wait ended woke unread n \<Longrightarrow> ft_capped f \<Longrightarrow> ft_idle f"
  by (auto simp: turn_fate_of_def Let_def split: if_splits)

lemma run_delegated_moves:
  assumes "run_delegated E it only calls st = Inr d" "[] \<notin> range (te_child E)"
  shows "run_ids (ds_db d) = run_ids (st_db st) \<union> row_key (st_db st) ` set (ds_wakes d)" "s_id (ds_db d) = s_id (st_db st)"
proof -
  let ?st = "\<lparr>ds_store = st, ds_events = [], ds_wakes = [], ds_park = False, ds_ended = False, ds_waited = None\<rparr>"
  have r: "run (delegate_for E it only (holds_cut (delegate_for E it only False) calls)) 0 calls ?st = Inr d"
    using assms(1) by (simp add: run_delegated_def)
  have "de_child (delegate_for E it only b) j \<noteq> []" for b j using assms(2) unfolding delegate_for_def by (metis delegate_env.select_convs(7) rangeI)
  from run_moves [OF r this] show "run_ids (ds_db d) = run_ids (st_db st) \<union> row_key (st_db st) ` set (ds_wakes d)"
      "s_id (ds_db d) = s_id (st_db st)"
    by (auto simp: moves_def ds_db_def)
qed

lemma delegated_attended:
  assumes "commitDelegatedTurn E it head opts [] calls True P = Inr P'" "claimed_turn it (pf_queue P)" "[] \<notin> range (te_child E)"
  shows "attended it (pf_db P) P'"
    "chainInput (pf_log P) (it_thread it) (te_watermark E) \<Longrightarrow> turn_slot it \<in> set (live_slots (pf_queue P'))"
proof -
  from assms(1) obtain d db evs told moved o1 where d: "run_delegated E it True calls (pf_store P) = Inr d"
    "fate_rows E it (fate_for E it [] calls True (pf_log P) d) (ds_db d) = Inr (db, evs, told)"
    "commit (te_append E) (P\<lparr>pf_store := (ds_store d)\<lparr>st_db := db\<rparr>\<rparr>) (head @ ds_events d @ evs) o1
       (delegated_work E it (fate_for E it [] calls True (pf_log P) d) (ds_wakes d) told
          (genuine (delegate_for E it True False) calls) moved True) = Inr P'"
    by (rule commitDelegatedTurn_Inr)
  let ?f = "fate_for E it [] calls True (pf_log P) d" and ?db = "pf_db P" and ?own = "row_key (pf_db P) (it_thread it)"
  have f: "?f = turn_fate_of False True (holds_cut (delegate_for E it True False) calls) (ds_park d) (ds_ended d)
       (ds_wakes d \<noteq> []) (chainInput (pf_log P) (it_thread it) (te_watermark E)) (it_chain it)" by (simp add: fate_for_def)
  from d(3) obtain st rows where a: "AppendInTx (te_append E) ((ds_store d)\<lparr>st_db := db\<rparr>) (head @ ds_events d @ evs) (o1\<lparr>o_then := Some Inr\<rparr>) = Inr (st, rows)"
    and w: "delegated_work E it ?f (ds_wakes d) told (genuine (delegate_for E it True False) calls) moved True
      (P\<lparr>pf_store := (ds_store d)\<lparr>st_db := db\<rparr>, pf_store := st\<rparr>) = Inr P'"
    by (auto simp: commit_Inr)
  have c: "claimed_turn it (pf_queue (P\<lparr>pf_store := (ds_store d)\<lparr>st_db := db\<rparr>, pf_store := st\<rparr>))" using assms(2) by simp
  note e = delegated_work_effect [OF w c f]
  note m = run_delegated_moves [OF d(1) assms(3)]
  note r = fate_rows_run [OF d(2) fate_capped [OF f]]
  have db: "s_threads (pf_db P') = s_threads db" "s_id (pf_db P') = s_id ?db"
    using e(1,2) append_db [OF a] r(2) m(2) by (simp_all add: pf_db_def)
  have k: "row_key (ds_db d) = row_key ?db" using m(2) by (intro ext) (simp add: row_key_def pf_db_def)
  have wk: "row_key ?db ` set (ds_wakes d) \<union> (if told then {row_key ?db []} else {}) \<subseteq> scheduled it P'"
    using scheduledI [OF e(3) db(2)] by auto
  have own: "?own \<in> scheduled it P'" if "ft_chain ?f"
    using scheduledI [OF _ db(2), of it "it_thread it"] e(4) [OF that] by (simp add: turn_slot_def)
  have "run_ids (pf_db P') \<subseteq> (if ft_idle ?f then run_ids (ds_db d) - {?own} else run_ids (ds_db d)) \<union> (if told then {row_key ?db []} else {})"
    using r(1) unfolding same_run [OF db(1)] k .
  also have "\<dots> \<subseteq> (run_ids ?db - {?own}) \<union> scheduled it P'"
    using fate_alone [OF f] own wk unfolding m(1) pf_db_def [symmetric] by (cases told; cases "ft_idle ?f") auto
  finally show "attended it ?db P'" unfolding attended_def by (rule order_trans) simp
  show "turn_slot it \<in> set (live_slots (pf_queue P'))" if "chainInput (pf_log P) (it_thread it) (te_watermark E)"
    by (rule e(4)) (rule fate_input [OF f [unfolded eqTrueI [OF that]]])
qed

lemma map_filter_full:
  "length (List.map_filter f xs) = length xs \<Longrightarrow> x \<in> set xs \<Longrightarrow> f x \<noteq> None"
proof (induction xs)
  case (Cons y xs)
  have "length (List.map_filter f xs) \<le> length xs" by (simp add: List.map_filter_def)
  with Cons show ?case by (cases "f y") (auto simp: List.map_filter_simps)
qed simp

lemma payload_strings:
  "go_str_field (call_payload class res i (name, input)) ''evaluated_permission'' =
     (case call_permission class res i name of None \<Rightarrow> [] | Some p \<Rightarrow> p)"
  "tc_kind (class_for class res i name) \<noteq> EventAgentMCPToolUse \<Longrightarrow> go_str_field (call_payload class res i (name, input)) ''name'' = name"
  by (simp_all add: call_payload_def Let_def go_str_field_def fold_name_def fold_rune_def byte_def split: option.split)

lemma waits_none:
  assumes "six_only class" "settlement_only class res ids"
  shows "ToolWaitIDs (bt_events (turnEvents class res ids)) k platform_owned = []"
proof -
  have "\<not> (go_str_field (ne_payload ev) ''evaluated_permission'' \<noteq> ''deny''
      \<and> (call_asks (posted_call ev) \<or> external k platform_owned (posted_call ev)))"
    if ev: "ev = call_event class res ids i (name, input)" and m: "(i, name, input) \<in> set (enumerate 0 (tr_uses res))" for ev i name input
  proof -
    have "call_delegated class res ids i (name, input) \<noteq> None"
      using map_filter_full [OF _ m, of "\<lambda>(i, tu). call_delegated class res ids i tu"] assms(2)
      by (simp add: settlement_only_def turnEvents_sel(3))
    then have s: "tc_settlement (class_for class res i name)" by (auto simp: call_delegated_def split: if_splits)
    show ?thesis
    proof (cases "class name = None \<or> call_cut class res i name")
      case True
      then have "tc_kind (class_for class res i name) = EventAgentToolUse" by (auto simp: class_for_def inline_class_def split: option.split)
      with True have "call_permission class res i name = Some ''deny''" by (simp add: call_permission_def Let_def)
      then show ?thesis by (simp add: ev call_event_def mk_event_def payload_strings)
    next
      case False
      then obtain c where c: "class name = Some c" "class_for class res i name = c" by (auto simp: class_for_def)
      with s assms(1) have p: "IsDelegationTool name" "tc_kind c = EventAgentToolUse" "tc_policy c \<noteq> ''always_ask''" by (auto simp: six_only_def)
      with False c have "call_permission class res i name = Some ''allow''" by (simp add: call_permission_def Let_def)
      with c p show ?thesis
        by (simp add: ev call_event_def mk_event_def payload_strings call_asks_def external_def workerCall_def posted_call_def platform_owned_def)
    qed
  qed
  moreover have "ne_type ev \<notin> set toolUseTypes" if "ev \<in> set (bt_events (turn_start res))" for ev
    using that by (auto simp: turn_start_def mk_event_def toolUseTypes_def split: if_splits)
  ultimately show ?thesis
    unfolding ToolWaitIDs_def turnEvents_sel(1) by (fastforce simp: filter_empty_conv)
qed

lemma turn_attended:
  assumes "commitTurn E it class span ids res P = Inr P'" "six_only class" "settlement_only class res ids"
    "claimed_turn it (pf_queue P)" "[] \<notin> range (te_child E)"
  shows "attended it (pf_db P) P'"
    "te_watermark E > 0 \<Longrightarrow> chainInput (pf_log P) (it_thread it) (te_watermark E) \<Longrightarrow> turn_slot it \<in> set (live_slots (pf_queue P'))"
proof -
  let ?b = "turnEvents class res ids"
  have w: "ToolWaitIDs (bt_events ?b) (te_env E) platform_owned = []" by (rule waits_none [OF assms(2,3)])
  consider h o1 where "settleEndTurn E it o1 h P = Inr P'"
    | h o1 where "commitDelegatedTurn E it h o1 [] (bt_delegated ?b) True P = Inr P'"
    using assms(1,3) by (auto simp: commitTurn_def Let_def w settlement_only_def split: if_splits)
  then have "attended it (pf_db P) P' \<and> (te_watermark E > 0 \<and> chainInput (pf_log P) (it_thread it) (te_watermark E) \<longrightarrow> turn_slot it \<in> set (live_slots (pf_queue P')))"
  proof cases
    case 1
    have "turn_slot it \<in> set (live_slots (pf_queue P'))" if "te_watermark E > 0 \<and> chainInput (pf_log P) (it_thread it) (te_watermark E)"
      using 1 that requeue_attended(2) [OF _ zero_chain assms(4)] by (simp add: settleEndTurn_def Let_def)
    with settleEndTurn_attended [OF 1 assms(4)] show ?thesis by blast
  next
    case 2
    from delegated_attended [OF 2 assms(4,5)] show ?thesis by blast
  qed
  then show "attended it (pf_db P) P'"
    "te_watermark E > 0 \<Longrightarrow> chainInput (pf_log P) (it_thread it) (te_watermark E) \<Longrightarrow> turn_slot it \<in> set (live_slots (pf_queue P'))" by blast+
qed

section \<open>Properties\<close>

text \<open>
  C38: a settlement that decides its thread's fate itself leaves no thread running with nothing to
  run it.  These are the settlements of \<open>settles\<close> under the flag: a reply without tools, a turn
  whose calls were all delegated, a failure, a released turn, a verdict on an outcome nobody settled
  meanwhile, a failed grader, a claim refused over budget.  (A turn with other tools leaves its
  thread to the tools' results; a drained claim and a stale item leave it as it is.)  After one,
  each running thread is another one that ran before, or has a live model turn, or is the primary,
  whose grading turn follows a live harvest.
\<close>

theorem settlement_leaves_none_stranded:
  assumes "settles E it True P P'" "claimed_turn it (pf_queue P)" "[] \<notin> range (te_child E)"
  shows "run_ids (pf_db P') \<subseteq> (run_ids (pf_db P) - {row_key (pf_db P) (it_thread it)})
    \<union> {row_key (pf_db P') thr |thr. (it_session it, thr, ModelTurn) \<in> set (live_slots (pf_queue P'))}
    \<union> (if grading_ahead it P' then {row_key (pf_db P) []} else {})"
proof -
  from assms(1) have "attended it (pf_db P) P'"
  proof cases
    case (turn cls span ids res)
    with turn_attended(1) assms(2,3) show ?thesis by simp
  next
    case (failed start msg)
    with settle_attended assms(2) show ?thesis by (simp add: failTurn_def commitFailure_def)
  next
    case (released span)
    with requeue_attended(1) [OF _ zero_chain assms(2)] show ?thesis by (simp add: releaseStartedTurn_def)
  next
    case (verdict active span result explanation usage lastCycle)
    with verdict_attended assms(2) show ?thesis by simp
  next
    case (grader_error active msg)
    with grader_error_attended assms(2) show ?thesis by simp
  next
    case exhausted
    with exhausted_attended show ?thesis by simp
  qed simp_all
  then show ?thesis by (simp add: attended_def scheduled_def)
qed

text \<open>
  C39: input that lands during a turn gets a turn.  When a turn that failed, that called no tool, or
  whose calls were all delegated is committed, and client input or a message for its thread landed
  past the head it replayed, its item is queued again in the same commit.  (A turn with
  other tools is not covered: its thread waits for their results.)
\<close>

theorem input_never_stranded:
  assumes "commitTurn E it class span ids res P = Inr P' \<and> six_only class \<and> settlement_only class res ids \<or> failTurn E it start msg P = Inr P'"
    and "te_watermark E > 0" "chainInput (pf_log P) (it_thread it) (te_watermark E)"
    and "claimed_turn it (pf_queue P)" "[] \<notin> range (te_child E)"
  shows "(it_session it, it_thread it, ModelTurn) \<in> set (live_slots (pf_queue P'))"
  using assms(1)
proof
  assume "failTurn E it start msg P = Inr P'"
  then obtain b o1 where "commit (te_append E) P b o1 (requeue_item E it 0) = Inr P'"
    using assms(2,3) by (auto simp: failTurn_def commitFailure_def settle_def Let_def)
  from requeue_attended(2) [OF this zero_chain assms(4)] show ?thesis by (simp add: turn_slot_def)
next
  assume "commitTurn E it class span ids res P = Inr P' \<and> six_only class \<and> settlement_only class res ids"
  then have "turn_slot it \<in> set (live_slots (pf_queue P'))"
    by (elim conjE) (rule turn_attended(2) [OF _ _ _ assms(4,5,2,3)])
  then show ?thesis by (simp add: turn_slot_def)
qed

theorem settlement_leaves_none_stranded_witness:
  "\<exists>P'. failTurn demo_env_of demo_claimed None ''boom'' demo_platform = Inr P'
     \<and> run_ids (pf_db P') \<subseteq> {row_key (pf_db P') thr |thr. (''sesn_a'', thr, ModelTurn) \<in> set (live_slots (pf_queue P'))} \<union> {''sthr_a''}"
proof -
  obtain P' where f: "failTurn demo_env_of demo_claimed None ''boom'' demo_platform = Inr P'" using demo_fails by blast
  then have s: "settles demo_env_of demo_claimed True demo_platform P'" by (rule settles.failed)
  have own: "run_ids (pf_db demo_platform) = {''sthr_a''}" "row_key (pf_db demo_platform) [] = ''sthr_a''" "it_session demo_claimed = ''sesn_a''"
    by (simp_all add: run_ids_def row_key_def pf_db_def demo_platform_def demo_db_def demo_primary_def primary_thread_id_def demo_claimed_def)
  from settlement_leaves_none_stranded [OF s demo_claim_ok(1,3)] f show ?thesis unfolding own by (auto split: if_splits)
qed

theorem input_never_stranded_witness:
  "\<exists>P'. failTurn demo_env_of demo_claimed None ''boom'' demo_platform = Inr P'
     \<and> (''sesn_a'', [], ModelTurn) \<in> set (live_slots (pf_queue P'))"
proof -
  obtain P' where f: "failTurn demo_env_of demo_claimed None ''boom'' demo_platform = Inr P'" using demo_fails by blast
  have "te_watermark demo_env_of > 0" "chainInput (pf_log demo_platform) (it_thread demo_claimed) (te_watermark demo_env_of)"
    using demo_chained by (simp_all add: demo_env_of_def demo_claimed_def)
  from input_never_stranded [OF disjI2 [OF f] this demo_claim_ok(1,3)] f show ?thesis by (simp add: demo_claimed_def)
qed

section \<open>The coordinator hears of every ending\<close>

text \<open>
  The last busy child of a coordinator that has nothing else to wait for: the child's row is busy,
  no other child is, and the primary rests.
\<close>

definition last_busy :: "session_db \<Rightarrow> id \<Rightarrow> bool" where
  "last_busy db thr \<longleftrightarrow> threads_ok db \<and> list_ex (\<lambda>r. t_id r = thr \<and> busyChild r) (s_threads db)
     \<and> \<not> BusyChild db thr \<and> resting db []"

lemma last_busy_row:
  assumes "last_busy db thr"
  obtains r where "find (\<lambda>r. t_id r = thr) (s_threads db) = Some r" "busyChild r" "t_parent r \<noteq> None" "thr \<noteq> []" "thr \<noteq> row_key db []"
proof -
  from assms obtain r where r: "r \<in> set (s_threads db)" "t_id r = thr" "busyChild r" and d: "distinct (map t_id (s_threads db))"
    and ne: "[] \<notin> set (map t_id (s_threads db))"
    by (auto simp: last_busy_def list_ex_iff threads_ok_def)
  obtain x where x: "find (\<lambda>r. t_id r = thr) (s_threads db) = Some x"
    using r(1,2) by (cases "find (\<lambda>r. t_id r = thr) (s_threads db)") (auto simp: find_None_iff)
  have f: "find (\<lambda>r. t_id r = thr) (s_threads db) = Some r" using find_distinct_row [OF x d r(1,2)] x by simp
  have "thr \<noteq> row_key db []"
  proof
    assume t: "thr = row_key db []"
    with f have "row_of db [] = Some r" by (simp add: row_of_def)
    then have "t_status r = SessionIdle \<and> (t_stop r = None \<or> stop_is r StopEndTurn)" using assms by (simp add: last_busy_def resting_def)
    with r(3) show False by (auto simp: busyChild_def stop_is_def split: option.splits)
  qed
  moreover have "thr \<noteq> []" using r(1,2) ne by force
  moreover have "t_parent r \<noteq> None" using r(3) by (simp add: busyChild_def)
  ultimately show ?thesis by (intro that [OF f r(3)])
qed

lemma ending_wakes:
  assumes "end_thread db thr notice why = Inr (db', evs, woke, moved)" "last_busy db thr" "notice \<noteq> None"
  shows "woke" "row_key db [] \<in> run_ids db'"
proof -
  from assms(2) obtain r where r: "find (\<lambda>r. t_id r = thr) (s_threads db) = Some r" "thr \<noteq> []" "thr \<noteq> row_key db []" by (rule last_busy_row)
  from assms(1,3) obtain n db1 told m pair m2 where d: "DeliverThreadEnded db thr n = Inr (db1, told)" "woke = Woke told"
    and t: "TransitionThread db1 (to_idle thr why) = Inr (db', pair, m2)"
    by (auto simp: end_thread_def tell_def move_def split: option.splits)
  from assms(2) have b: "list_ex (\<lambda>r. busyChild r \<and> t_id r = thr) (s_threads db)" "\<not> list_ex (\<lambda>r. busyChild r \<and> t_id r \<noteq> thr) (s_threads db)"
    by (auto simp: last_busy_def BusyChild_def list_ex_iff)
  from d b obtain wake m3 where w: "wakeThread db [] = Inr (db1, wake, m3)" "dl_wake told = wake"
    by (auto simp: DeliverThreadEnded_def wakeOnThreadEnded_def Let_def split: sum.splits)
  have rest: "resting db []" using assms(2) by (simp add: last_busy_def)
  note k = wakeThread_woke [OF w(1) rest]
  show woke using k(2) w(2) d(2) by (simp add: Woke_def)
  have p: "row_key db [] \<in> set (map t_id (s_threads db))" using assms(2) by (simp add: last_busy_def threads_ok_def row_key_def)
  have "row_key db [] \<in> run_ids db1" unfolding run_ids_move [OF k(1)] using p by blast
  moreover have "row_key db1 thr = thr" using r(2) by (simp add: row_key_def)
  ultimately show "row_key db [] \<in> run_ids db'" unfolding run_ids_idle(1) [OF t] using r(3) by auto
qed

lemma ended_work:
  assumes "commit K (with_db db1 P) batch opts (settled_work E it moved ek True) = Inr P'"
  shows "(it_session it, [], ModelTurn) \<in> set (live_slots (pf_queue P'))" "run_ids (pf_db P') = run_ids db1"
proof -
  from assms obtain st rows P1 where a: "AppendInTx K (pf_store (with_db db1 P)) batch (opts\<lparr>o_then := Some Inr\<rparr>) = Inr (st, rows)"
    "complete_item it (with_db db1 P\<lparr>pf_store := st\<rparr>) = Inr P1" "P' = enqueue E 1 it [] ModelTurn (enqueueIdleHarvest E 0 it moved ek P1)"
    by (auto simp: commit_Inr settled_work_def Let_def)
  show "(it_session it, [], ModelTurn) \<in> set (live_slots (pf_queue P'))" unfolding a(3) by (rule enqueue_adds(2))
  have "pf_store P' = st" using complete_gives(2) [OF a(2)] a(3) by simp
  then show "run_ids (pf_db P') = run_ids db1" using append_db(1) [OF a(1)] by (simp add: run_ids_def pf_db_def with_db_def)
qed

lemma notice_owed: "last_busy db thr \<Longrightarrow> childEndedNotice db thr text \<noteq> None"
  by (erule last_busy_row) (simp add: childEndedNotice_def)

lemma single_end_wakes:
  assumes "last_busy (pf_db P) (it_thread it)" "\<not> chainInput (pf_log P) (it_thread it) (te_watermark E)"
    and "failTurn E it start msg P = Inr P' \<or> cutExhaustedRun E it P = Inr (P', True)
      \<or> commitTurn E it class span ids res P = Inr P' \<and> tr_uses res = [] \<and> ActiveOutcome (st_outcomes (pf_store P)) = None"
  shows "row_key (pf_db P) [] \<in> run_ids (pf_db P') \<and> (it_session it, [], ModelTurn) \<in> set (live_slots (pf_queue P'))"
proof -
  let ?db = "pf_db P" and ?thr = "it_thread it"
  have named: "?thr \<noteq> []" using assms(1) by (rule last_busy_row)
  have own: "notice \<noteq> None \<Longrightarrow> end_thread ?db ?thr notice why = Inr (db1, evs, woke, m) \<Longrightarrow>
      commit K (with_db db1 P) b o1 (settled_work E it moved ek woke) = Inr P' \<Longrightarrow> ?thesis" for notice why db1 evs woke m K b o1 moved ek
    using ending_wakes [of ?db ?thr notice why db1 evs woke m] assms(1) ended_work [of K db1 P b o1 E it moved ek P'] by simp
  obtain note_text why db1 evs woke m K b o1 moved ek where
    "end_thread ?db ?thr (childEndedNotice ?db ?thr note_text) why = Inr (db1, evs, woke, m)"
    "commit K (with_db db1 P) b o1 (settled_work E it moved ek woke) = Inr P'"
    using assms(3)
  proof (elim disjE conjE)
    assume "failTurn E it start msg P = Inr P'"
    then show ?thesis using assms(2) named by (auto simp: failTurn_def commitFailure_def settle_def Let_def intro: that)
  next
    assume "cutExhaustedRun E it P = Inr (P', True)"
    then show ?thesis by (auto simp: cutExhaustedRun_def Let_def split: if_splits intro: that)
  next
    assume "commitTurn E it class span ids res P = Inr P'" "tr_uses res = []" "ActiveOutcome (st_outcomes (pf_store P)) = None"
    then show ?thesis
      using assms(2) by (auto simp: commitTurn_def settleEndTurn_def grading_due_def threadEndedWithoutReport_def Let_def intro: that)
  qed
  from own [OF notice_owed [OF assms(1)] this] show ?thesis .
qed

text \<open>
  The turn of delegated calls that a chain of them ends at the cap: its calls have run, nothing new
  is waiting and no thread was woken, and the thread is now the last busy child.
\<close>

definition chain_ends :: "turn_env \<Rightarrow> item \<Rightarrow> (string \<Rightarrow> tool_class option) \<Rightarrow> (nat \<Rightarrow> id) \<Rightarrow> turn_result \<Rightarrow> platform \<Rightarrow> bool" where
  "chain_ends E it class ids res P \<longleftrightarrow>
     (let b = turnEvents class res ids; calls = bt_delegated b; only = (length calls = length (tr_uses res));
          waits = ToolWaitIDs (bt_events b) (te_env E) platform_owned
      in calls \<noteq> [] \<and> (case run_delegated E it only calls (pf_store P) of Inl _ \<Rightarrow> False
         | Inr d \<Rightarrow> ft_capped (fate_for E it waits calls only (pf_log P) d) \<and> last_busy (ds_db d) (it_thread it)))"

lemma capped_fate: "ft_capped (turn_fate_of gated only isCut wait ended woke unread n) \<Longrightarrow>
   only \<and> \<not> ft_chain (turn_fate_of gated only isCut wait ended woke unread n)"
  by (auto simp: turn_fate_of_def Let_def split: if_splits)

lemma capped_work:
  assumes "delegated_work E it f wakes True counted moved True P = Inr P'" "\<not> ft_chain f"
  shows "run_ids (pf_db P') = run_ids (pf_db P)" "(it_session it, [], ModelTurn) \<in> set (live_slots (pf_queue P'))"
proof -
  let ?P0 = "enqueueIdleHarvest E 0 it moved (te_env E) (count_delegation counted P)"
  from assms obtain P1 where p1: "complete_item it ?P0 = Inr P1" and P': "P' = enqueue_turns E 4 it (wakes @ [[]]) P1"
    by (auto simp: delegated_work_def fate_work_def)
  show "run_ids (pf_db P') = run_ids (pf_db P)"
    using complete_gives(2) [OF p1] by (simp add: P' pf_db_def count_delegation_def)
  show "(it_session it, [], ModelTurn) \<in> set (live_slots (pf_queue P'))"
    unfolding P' by (rule turns_slots) simp
qed

lemma chain_end_wakes:
  assumes "commitTurn E it class span ids res P = Inr P'" "chain_ends E it class ids res P" "[] \<notin> range (te_child E)"
  shows "row_key (pf_db P) [] \<in> run_ids (pf_db P') \<and> (it_session it, [], ModelTurn) \<in> set (live_slots (pf_queue P'))"
proof -
  let ?b = "turnEvents class res ids" and ?thr = "it_thread it"
  let ?calls = "bt_delegated ?b" and ?waits = "ToolWaitIDs (bt_events ?b) (te_env E) platform_owned"
  let ?only = "length ?calls = length (tr_uses res)"
  obtain d0 where d0: "?calls \<noteq> []" "run_delegated E it ?only ?calls (pf_store P) = Inr d0"
      "ft_capped (fate_for E it ?waits ?calls ?only (pf_log P) d0)" "last_busy (ds_db d0) ?thr"
    using assms(2) by (auto simp: chain_ends_def Let_def split: sum.splits)
  have only: "?only" and nc: "\<not> ft_chain (fate_for E it ?waits ?calls ?only (pf_log P) d0)"
    using d0(3) capped_fate unfolding fate_for_def by blast+
  have "tr_uses res \<noteq> []" using d0(1) only by auto
  then obtain head opts where "commitDelegatedTurn E it head opts ?waits ?calls ?only P = Inr P'"
    using assms(1) d0(1) by (auto simp: commitTurn_def Let_def)
  then show ?thesis
  proof (cases rule: commitDelegatedTurn_Inr)
    case (1 d db evs told moved o1)
    have d: "d = d0" using 1(1) d0(2) by simp
    let ?f = "fate_for E it ?waits ?calls ?only (pf_log P) d0"
    from 1(2) d0(3) obtain evs' m where e: "end_thread (ds_db d0) ?thr (childEndedNotice (ds_db d0) ?thr capped_notice) endTurn = Inr (db, evs', told, m)"
      by (auto simp: d fate_rows_def Let_def)
    note w = ending_wakes [OF e d0(4) notice_owed [OF d0(4)]]
    have "told" using w(1) .
    from 1(3) obtain st rows where a: "AppendInTx (te_append E) ((ds_store d)\<lparr>st_db := db\<rparr>) (head @ ds_events d @ evs) (o1\<lparr>o_then := Some Inr\<rparr>) = Inr (st, rows)"
      and dw: "delegated_work E it ?f (ds_wakes d) True (genuine (delegate_for E it ?only False) ?calls) moved True
        (P\<lparr>pf_store := (ds_store d)\<lparr>st_db := db\<rparr>, pf_store := st\<rparr>) = Inr P'"
      using \<open>told\<close> only by (auto simp: commit_Inr d)
    have "run_ids (pf_db P') = run_ids db"
      using capped_work(1) [OF dw nc] append_db(1) [OF a] by (simp add: pf_db_def run_ids_def)
    moreover have "row_key (ds_db d0) [] = row_key (pf_db P) []"
      using run_delegated_moves(2) [OF d0(2) assms(3)] by (simp add: row_key_def pf_db_def)
    ultimately show ?thesis using w(2) capped_work(2) [OF dw nc] by simp
  qed
qed

text \<open>
  C40: a coordinator is never left waiting for children that all stopped.  When the last busy child
  ends without a report and its coordinator rests, the commit that ends it sets the coordinator
  running and queues its turn.  The endings: a failed turn, a reply without tools while no outcome
  is active (an active one sends the session to its grading instead), a claim refused over the
  session's budget, each with no input waiting for the child past the head it replayed, and a chain
  of delegating turns stopped at its cap.
\<close>

theorem ending_wakes_coordinator:
  assumes "last_busy (pf_db P) (it_thread it) \<and> \<not> chainInput (pf_log P) (it_thread it) (te_watermark E)
      \<and> (failTurn E it start msg P = Inr P' \<or> cutExhaustedRun E it P = Inr (P', True)
         \<or> commitTurn E it class span ids res P = Inr P' \<and> tr_uses res = [] \<and> ActiveOutcome (st_outcomes (pf_store P)) = None)
    \<or> commitTurn E it class span ids res P = Inr P' \<and> chain_ends E it class ids res P \<and> [] \<notin> range (te_child E)"
  shows "row_key (pf_db P) [] \<in> run_ids (pf_db P') \<and> (it_session it, [], ModelTurn) \<in> set (live_slots (pf_queue P'))"
  using assms
proof (elim disjE)
  assume "commitTurn E it class span ids res P = Inr P' \<and> chain_ends E it class ids res P \<and> [] \<notin> range (te_child E)"
  then show ?thesis using chain_end_wakes by blast
next
  assume other: "last_busy (pf_db P) (it_thread it) \<and> \<not> chainInput (pf_log P) (it_thread it) (te_watermark E)
      \<and> (failTurn E it start msg P = Inr P' \<or> cutExhaustedRun E it P = Inr (P', True)
         \<or> commitTurn E it class span ids res P = Inr P' \<and> tr_uses res = [] \<and> ActiveOutcome (st_outcomes (pf_store P)) = None)"
  then show ?thesis using single_end_wakes by blast
qed

definition demo_parent :: platform where
  "demo_parent = \<lparr>pf_store = (demo_store [])\<lparr>st_db := demo_db\<lparr>s_status := SessionRunning, s_log := [],
       s_threads := [demo_primary\<lparr>t_stop := Some \<lparr>stop_type = StopEndTurn, stop_event_ids = []\<rparr>\<rparr>,
         demo_child\<lparr>t_status := SessionRunning, t_stop := None\<rparr>]\<rparr>\<rparr>,
     pf_queue = \<lparr>q_items = [(new_row ''work_1'' ''env_c'' ''sesn_a'' ''sthr_b'' ModelTurn 10 None)\<lparr>w_state := WActive, w_lease := Some 80\<rparr>],
       q_envs = [''env_c'' \<mapsto> EnvCloud], q_polls = []\<rparr>\<rparr>"

definition demo_helper :: item where
  "demo_helper = demo_claimed\<lparr>it_thread := ''sthr_b''\<rparr>"

lemma demo_ends: "\<not> isl (failTurn demo_env_of demo_helper None ''boom'' demo_parent)"
  by code_simp

theorem ending_wakes_coordinator_witness:
  "\<exists>P'. failTurn demo_env_of demo_helper None ''boom'' demo_parent = Inr P'
     \<and> ''sthr_a'' \<in> run_ids (pf_db P') \<and> (''sesn_a'', [], ModelTurn) \<in> set (live_slots (pf_queue P'))"
proof -
  obtain P' where f: "failTurn demo_env_of demo_helper None ''boom'' demo_parent = Inr P'"
    using demo_ends by (cases "failTurn demo_env_of demo_helper None ''boom'' demo_parent") auto
  have l: "last_busy (pf_db demo_parent) (it_thread demo_helper)" by code_simp
  have c: "\<not> chainInput (pf_log demo_parent) (it_thread demo_helper) (te_watermark demo_env_of)"
    by (simp add: chainInput_def pf_log_def pf_db_def demo_parent_def)
  have k: "row_key (pf_db demo_parent) [] = ''sthr_a''" "it_session demo_helper = ''sesn_a''"
    by (simp_all add: row_key_def pf_db_def demo_parent_def demo_db_def primary_thread_id_def demo_helper_def demo_claimed_def)
  from ending_wakes_coordinator [OF disjI1 [OF conjI [OF l conjI [OF c disjI1 [OF f]]]]] f show ?thesis unfolding k by blast
qed

end
