(* ===== verification/Inbound.thy ===== *)
theory Inbound
  imports Outcomes "HOL-Library.List_Lexorder" "HOL-Library.Char_ord"
begin

text \<open>
  \<^verbatim>\<open>internal/events/inbound.go\<close> and \<^verbatim>\<open>internal/unknownkey\<close>: the seven event types a client
  may post, each validated field by field and normalized so that every nullable field is stored.
  A decoded object is the list of its members in the order of the text; a later member of the same
  name wins, in Go's maps as in \<^verbatim>\<open>jsonb\<close>.  The messages of the refusals are the constructors of
  \<open>refusal\<close>, with what the source formats into them.
\<close>

section \<open>Refusals\<close>

datatype credential = ManagementCredential | EnvironmentCredential

datatype reference_words =
    TypeNotValid nat string
  | TextValueRequired nat nat
  | DenyMessageOnAllow nat
  | InvalidThreadId string

datatype refusal =
    AtLeastOneEvent
  | AtLeastOneItem
  | NotAnObject string
  | TypeRequired
  | TypeNotString
  | UnknownField string
  | Required string
  | NotAString string
  | Empty string
  | NotBlocks string
  | InBlock string nat refusal
  | EmptyText
  | BlockTypeNotAllowed string
  | TextNeedsString
  | CitationsRequired
  | CitationsNeedEnabled
  | SearchNeedsContent
  | SourceTypeNotAllowed string
  | ResultNotAllowOrDeny
  | DenyMessageNeedsDeny
  | IsErrorNotBoolean
  | ClaimNotString
  | NotThreadId string
  | InRubric refusal
  | RubricKeys refusal
  | RubricTooLong nat
  | RubricTypeUnknown
  | IterationsNotInteger
  | IterationsOutOfRange
  | EnvironmentCredentialRequired
  | SelfHostedOnly
  | CannotBeSent string
  | SystemNotFinal
  | SystemNotAfterInput
  | HasNUL
  | Verbatim reference_words refusal
  | AtEvent nat refusal

text \<open>The early return on an error, and a check that returns only an error.\<close>

definition on_ok :: "'e + 'a \<Rightarrow> ('a \<Rightarrow> 'e + 'b) \<Rightarrow> 'e + 'b" where
  "on_ok r f = (case r of Inl e \<Rightarrow> Inl e | Inr x \<Rightarrow> f x)"

definition check :: "bool \<Rightarrow> 'e \<Rightarrow> 'e + unit" where
  "check c e = (if c then Inr () else Inl e)"

lemma on_ok_simps [simp]: "on_ok (Inl e) f = Inl e" "on_ok (Inr x) f = f x"
  by (simp_all add: on_ok_def)

lemma on_ok_Inr [simp]: "on_ok r f = Inr y \<longleftrightarrow> (\<exists>x. r = Inr x \<and> f x = Inr y)"
  by (cases r) simp_all

lemma on_ok_cong [fundef_cong]: "r = r' \<Longrightarrow> (\<And>x. r' = Inr x \<Longrightarrow> f x = f' x) \<Longrightarrow> on_ok r f = on_ok r' f'"
  by (cases r') simp_all

lemma check_Inr [simp]: "check c e = Inr u \<longleftrightarrow> c"
  by (simp add: check_def)

section \<open>Objects\<close>

type_synonym members = "(string \<times> json) list"

definition at_key :: "members \<Rightarrow> string \<Rightarrow> json option" where
  "at_key obj k = map_of (rev obj) k"

text \<open>\<open>present\<close> is the value of a key that is set and not null.\<close>

definition present :: "members \<Rightarrow> string \<Rightarrow> json option" where
  "present obj k = (case at_key obj k of None \<Rightarrow> None | Some v \<Rightarrow> if v = JNull then None else Some v)"

definition Least_unknown :: "members \<Rightarrow> string list \<Rightarrow> string option" where
  "Least_unknown obj allowed =
     foldl (\<lambda>u key. if key \<notin> set allowed \<and> (u = None \<or> key < the u) then Some key else u) None (map fst obj)"

definition allowKeys :: "members \<Rightarrow> string list \<Rightarrow> refusal + unit" where
  "allowKeys obj allowed = (case Least_unknown obj allowed of Some key \<Rightarrow> Inl (UnknownField key) | None \<Rightarrow> Inr ())"

definition asObject :: "json \<Rightarrow> string \<Rightarrow> refusal + members" where
  "asObject raw what = (case raw of JObj kvs \<Rightarrow> Inr kvs | _ \<Rightarrow> Inl (NotAnObject what))"

definition requireString :: "members \<Rightarrow> string \<Rightarrow> refusal + string" where
  "requireString obj key = (case present obj key of None \<Rightarrow> Inl (Required key)
     | Some (JStr s) \<Rightarrow> if s = [] then Inl (Empty key) else Inr s
     | Some _ \<Rightarrow> Inl (NotAString key))"

text \<open>\<^verbatim>\<open>json.Marshal\<close> of a Go map: its keys once, in byte order.\<close>

definition marshal_map :: "members \<Rightarrow> json" where
  "marshal_map m = JObj (map (\<lambda>k. (k, the (at_key m k))) (sort (remdups (map fst m))))"

definition newEvent :: "event_type \<Rightarrow> members \<Rightarrow> new_event" where
  "newEvent typ f = mk_event typ (marshal_map f)"

section \<open>Thread claims\<close>

definition WellFormedID :: "string \<Rightarrow> string \<Rightarrow> bool" where
  "WellFormedID x pre \<longleftrightarrow> has_prefix x (pre @ ''_'') \<and>
     (let token = drop (length pre + 1) x in token \<noteq> [] \<and>
      list_all (\<lambda>c. (CHR ''0'' \<le> c \<and> c \<le> CHR ''9'') \<or> (CHR ''a'' \<le> c \<and> c \<le> CHR ''z'' \<and> c \<noteq> CHR ''l'')
                  \<or> (CHR ''A'' \<le> c \<and> c \<le> CHR ''Z'' \<and> c \<noteq> CHR ''I'' \<and> c \<noteq> CHR ''O'')) token)"

definition readClaim :: "members \<Rightarrow> refusal + string option" where
  "readClaim obj = (case present obj ''session_thread_id'' of None \<Rightarrow> Inr None
     | Some (JStr s) \<Rightarrow> Inr (Some s) | Some _ \<Rightarrow> Inl ClaimNotString)"

definition threadClaim :: "members \<Rightarrow> refusal + id" where
  "threadClaim obj = on_ok (readClaim obj) (\<lambda>claim. case claim of None \<Rightarrow> Inr []
     | Some s \<Rightarrow> if WellFormedID s ''sthr'' then Inr s else Inl (Verbatim (InvalidThreadId s) (NotThreadId s)))"

definition answerClaim :: "members \<Rightarrow> refusal + unit" where
  "answerClaim obj = on_ok (readClaim obj) (\<lambda>_. Inr ())"

section \<open>Content blocks\<close>

definition blocksUserMessage :: "string list" where
  "blocksUserMessage = [''text'', ''image'', ''document'']"

definition blocksToolResult :: "string list" where
  "blocksToolResult = [''text'', ''image'', ''document'', ''search_result'']"

definition blocksTextOnly :: "string list" where
  "blocksTextOnly = [''text'']"

definition validateSource :: "json option \<Rightarrow> string list \<Rightarrow> refusal + unit" where
  "validateSource raw kinds =
     (case raw of None \<Rightarrow> Inl (Required ''source'') | Some JNull \<Rightarrow> Inl (Required ''source'')
      | Some v \<Rightarrow>
        on_ok (asObject v ''source'') (\<lambda>obj.
        on_ok (requireString obj ''type'') (\<lambda>typ.
        on_ok (check (typ \<in> set kinds) (SourceTypeNotAllowed typ)) (\<lambda>_.
        if typ = ''base64'' \<or> typ = ''text'' then
          on_ok (allowKeys obj [''type'', ''data'', ''media_type'']) (\<lambda>_.
          on_ok (requireString obj ''data'') (\<lambda>_.
          on_ok (requireString obj ''media_type'') (\<lambda>_. Inr ())))
        else if typ = ''url'' then
          on_ok (allowKeys obj [''type'', ''url'']) (\<lambda>_. on_ok (requireString obj ''url'') (\<lambda>_. Inr ()))
        else if typ = ''file'' then
          on_ok (allowKeys obj [''type'', ''file_id'']) (\<lambda>_. on_ok (requireString obj ''file_id'') (\<lambda>_. Inr ()))
        else Inr ()))))"

definition optional_string :: "members \<Rightarrow> string \<Rightarrow> refusal + unit" where
  "optional_string obj k = (case present obj k of None \<Rightarrow> Inr () | Some (JStr _) \<Rightarrow> Inr () | Some _ \<Rightarrow> Inl (NotAString k))"

text \<open>The parts of a block of each type; those of a search result end before its content.\<close>

definition text_block_ok :: "members \<Rightarrow> refusal + unit" where
  "text_block_ok obj =
     on_ok (allowKeys obj [''type'', ''text'']) (\<lambda>_.
     case at_key obj ''text'' of
       Some (JStr s) \<Rightarrow> check (s \<noteq> []) EmptyText
     | _ \<Rightarrow> Inl TextNeedsString)"

definition image_block_ok :: "members \<Rightarrow> refusal + unit" where
  "image_block_ok obj = on_ok (allowKeys obj [''type'', ''source''])
     (\<lambda>_. validateSource (at_key obj ''source'') [''base64'', ''url'', ''file''])"

definition document_block_ok :: "members \<Rightarrow> refusal + unit" where
  "document_block_ok obj =
     on_ok (allowKeys obj [''type'', ''source'', ''context'', ''title'']) (\<lambda>_.
     on_ok (optional_string obj ''context'') (\<lambda>_.
     on_ok (optional_string obj ''title'') (\<lambda>_.
     validateSource (at_key obj ''source'') [''base64'', ''text'', ''url'', ''file''])))"

definition search_head_ok :: "members \<Rightarrow> refusal + unit" where
  "search_head_ok obj =
     on_ok (allowKeys obj [''type'', ''source'', ''title'', ''citations'', ''content'']) (\<lambda>_.
     on_ok (requireString obj ''source'') (\<lambda>_.
     on_ok (requireString obj ''title'') (\<lambda>_.
     case present obj ''citations'' of None \<Rightarrow> Inl CitationsRequired
     | Some raw \<Rightarrow>
       on_ok (asObject raw ''citations'') (\<lambda>cit.
       on_ok (allowKeys cit [''enabled'']) (\<lambda>_.
       case at_key cit ''enabled'' of Some (JBool b) \<Rightarrow> Inr () | _ \<Rightarrow> Inl CitationsNeedEnabled)))))"

lemma present_size: "present obj k = Some v \<Longrightarrow> size v < size (JObj obj)"
proof -
  assume "present obj k = Some v"
  then have "(k, v) \<in> set obj"
    by (auto simp: present_def at_key_def split: option.splits if_splits dest: map_of_SomeD)
  then show ?thesis
    using size_list_estimation'[of "(k, v)" obj "size v" "size_prod (\<lambda>x. 0) size"] by simp
qed

function validateBlock :: "json \<Rightarrow> string list \<Rightarrow> refusal + unit"
  and validateBlocks :: "json \<Rightarrow> string \<Rightarrow> string list \<Rightarrow> refusal + json"
  and validate_items :: "nat \<Rightarrow> json list \<Rightarrow> string \<Rightarrow> string list \<Rightarrow> refusal + unit" where
  "validateBlock raw allowed =
     on_ok (asObject raw ''content block'') (\<lambda>obj.
     on_ok (requireString obj ''type'') (\<lambda>typ.
     on_ok (check (typ \<in> set allowed) (BlockTypeNotAllowed typ)) (\<lambda>_.
     if typ = ''text'' then text_block_ok obj
     else if typ = ''image'' then image_block_ok obj
     else if typ = ''document'' then document_block_ok obj
     else if typ = ''search_result'' then
       on_ok (search_head_ok obj) (\<lambda>_.
       case present obj ''content'' of None \<Rightarrow> Inl SearchNeedsContent
       | Some content \<Rightarrow> on_ok (validateBlocks content ''content'' blocksTextOnly) (\<lambda>_. Inr ()))
     else Inr ())))"
| "validateBlocks raw what allowed =
     (case raw of JArr items \<Rightarrow> on_ok (validate_items 0 items what allowed) (\<lambda>_. Inr (JArr items))
      | _ \<Rightarrow> Inl (NotBlocks what))"
| "validate_items i [] what allowed = Inr ()"
| "validate_items i (item # items) what allowed =
     (case validateBlock item allowed of Inl e \<Rightarrow> Inl (InBlock what i e)
      | Inr _ \<Rightarrow> validate_items (i + 1) items what allowed)"
  by pat_completeness auto
termination
  by (relation "measure (\<lambda>x. case x of Inl (raw, _) \<Rightarrow> size raw
        | Inr (Inl (raw, _)) \<Rightarrow> size raw | Inr (Inr (_, items, _)) \<Rightarrow> size_list size items)")
     (auto simp: asObject_def split: json.splits dest: present_size)

declare validateBlock.simps [simp del] validateBlocks.simps [simp del]

definition requireBlocks :: "members \<Rightarrow> string \<Rightarrow> string list \<Rightarrow> refusal + json" where
  "requireBlocks obj key allowed = (case present obj key of None \<Rightarrow> Inl (Required key)
     | Some raw \<Rightarrow> validateBlocks raw key allowed)"

section \<open>The seven events\<close>

definition normalizeUserMessage :: "members \<Rightarrow> nat \<Rightarrow> refusal + new_event" where
  "normalizeUserMessage obj i =
     on_ok (allowKeys obj [''type'', ''content'']) (\<lambda>_.
     case present obj ''content'' of
       Some (JStr s) \<Rightarrow> if s = [] then Inl (Empty ''content'')
                        else Inr (newEvent EventUserMessage [(''content'', JStr s)])
     | _ \<Rightarrow>
       (case requireBlocks obj ''content'' blocksUserMessage of
          Inl (InBlock what n EmptyText) \<Rightarrow> Inl (Verbatim (TextValueRequired i n) (InBlock what n EmptyText))
        | Inl e \<Rightarrow> Inl e
        | Inr content \<Rightarrow> Inr (newEvent EventUserMessage [(''content'', content)])))"

definition normalizeUserInterrupt :: "members \<Rightarrow> refusal + new_event" where
  "normalizeUserInterrupt obj =
     on_ok (allowKeys obj [''type'', ''session_thread_id'']) (\<lambda>_.
     on_ok (threadClaim obj) (\<lambda>claim.
     Inr ((newEvent EventUserInterrupt [(''session_thread_id'', JNull)])\<lparr>ne_thread := claim\<rparr>)))"

definition deny_message_of :: "members \<Rightarrow> nat \<Rightarrow> string \<Rightarrow> refusal + json" where
  "deny_message_of obj i result = (case present obj ''deny_message'' of None \<Rightarrow> Inr JNull
     | Some (JStr s) \<Rightarrow> if result \<noteq> ''deny'' then Inl (Verbatim (DenyMessageOnAllow i) DenyMessageNeedsDeny) else Inr (JStr s)
     | Some _ \<Rightarrow> Inl (NotAString ''deny_message''))"

definition normalizeToolConfirmation :: "members \<Rightarrow> nat \<Rightarrow> refusal + new_event" where
  "normalizeToolConfirmation obj i =
     on_ok (allowKeys obj [''type'', ''result'', ''tool_use_id'', ''deny_message'', ''session_thread_id'']) (\<lambda>_.
     on_ok (requireString obj ''result'') (\<lambda>result.
     on_ok (check (result = ''allow'' \<or> result = ''deny'') ResultNotAllowOrDeny) (\<lambda>_.
     on_ok (requireString obj ''tool_use_id'') (\<lambda>toolUseID.
     on_ok (deny_message_of obj i result) (\<lambda>denyMessage.
     on_ok (answerClaim obj) (\<lambda>_.
     Inr (newEvent EventUserToolConfirm [(''result'', JStr result), (''tool_use_id'', JStr toolUseID),
       (''deny_message'', denyMessage), (''session_thread_id'', JNull)])))))))"

definition normalizeToolResult :: "members \<Rightarrow> event_type \<Rightarrow> string \<Rightarrow> refusal + new_event" where
  "normalizeToolResult obj typ refKey =
     on_ok (allowKeys obj [''type'', refKey, ''content'', ''is_error'', ''session_thread_id'']) (\<lambda>_.
     on_ok (requireString obj refKey) (\<lambda>ref.
     on_ok (case present obj ''content'' of None \<Rightarrow> Inr JNull
            | Some raw \<Rightarrow> validateBlocks raw ''content'' blocksToolResult) (\<lambda>content.
     on_ok (case present obj ''is_error'' of None \<Rightarrow> Inr JNull
            | Some (JBool b) \<Rightarrow> Inr (JBool b) | Some _ \<Rightarrow> Inl IsErrorNotBoolean) (\<lambda>isError.
     on_ok (answerClaim obj) (\<lambda>_.
     Inr (newEvent typ [(refKey, JStr ref), (''content'', content), (''is_error'', isError),
       (''session_thread_id'', JNull)]))))))"

definition maxRubricChars :: nat where
  "maxRubricChars = 262144"

definition normalizeRubric :: "json option \<Rightarrow> refusal + json" where
  "normalizeRubric raw =
     (case raw of None \<Rightarrow> Inl (Required ''rubric'') | Some JNull \<Rightarrow> Inl (Required ''rubric'')
      | Some v \<Rightarrow>
        on_ok (asObject v ''rubric'') (\<lambda>obj.
        on_ok (case requireString obj ''type'' of Inl e \<Rightarrow> Inl (InRubric e) | Inr t \<Rightarrow> Inr t) (\<lambda>typ.
        on_ok
          (if typ = ''text'' then
             on_ok (case allowKeys obj [''type'', ''content''] of Inl e \<Rightarrow> Inl (RubricKeys e) | Inr u \<Rightarrow> Inr u) (\<lambda>_.
             on_ok (case requireString obj ''content'' of Inl e \<Rightarrow> Inl (InRubric e) | Inr c \<Rightarrow> Inr c) (\<lambda>content.
             check (length (runes content) \<le> maxRubricChars) (RubricTooLong (length (runes content)))))
           else if typ = ''file'' then
             on_ok (case allowKeys obj [''type'', ''file_id''] of Inl e \<Rightarrow> Inl (RubricKeys e) | Inr u \<Rightarrow> Inr u) (\<lambda>_.
             case requireString obj ''file_id'' of Inl e \<Rightarrow> Inl (InRubric e) | Inr _ \<Rightarrow> Inr ())
           else Inl RubricTypeUnknown) (\<lambda>_.
        Inr (marshal_map obj)))))"

text \<open>
  \<^verbatim>\<open>encoding/json\<close>'s test of a number literal, and its decoding into a \<^verbatim>\<open>json.Number\<close>: a
  number is kept as it is written, and so is a string that holds one.
\<close>

definition exponent_rest :: "string \<Rightarrow> string option" where
  "exponent_rest s =
     (if 2 \<le> length s \<and> (hd s = CHR ''e'' \<or> hd s = CHR ''E'') then
        (let t = tl s; u = (if hd t = CHR ''+'' \<or> hd t = CHR ''-'' then tl t else t) in
         if u = [] then None else Some (dropWhile is_digit u))
      else Some s)"

definition isValidNumber :: "string \<Rightarrow> bool" where
  "isValidNumber s =
     (let t = (if s \<noteq> [] \<and> hd s = CHR ''-'' then tl s else s) in
      t \<noteq> [] \<and> is_digit (hd t) \<and>
      (let u = (if hd t = CHR ''0'' then tl t else dropWhile is_digit t);
           v = (if 2 \<le> length u \<and> hd u = CHR ''.'' \<and> is_digit (u ! 1) then dropWhile is_digit (drop 2 u) else u)
       in exponent_rest v = Some []))"

definition json_Number :: "json \<Rightarrow> string option" where
  "json_Number raw = (case raw of JNum n \<Rightarrow> Some n
     | JStr s \<Rightarrow> if isValidNumber s then Some s else None | _ \<Rightarrow> None)"

definition max_iterations_of :: "members \<Rightarrow> refusal + int" where
  "max_iterations_of obj = (case present obj ''max_iterations'' of None \<Rightarrow> Inr 3
     | Some raw \<Rightarrow> (case json_Number raw of None \<Rightarrow> Inl IterationsNotInteger
         | Some n \<Rightarrow> (case atoi n of None \<Rightarrow> Inl IterationsNotInteger
             | Some v \<Rightarrow> if v < 1 \<or> v > 20 then Inl IterationsOutOfRange else Inr v)))"

text \<open>\<open>minted\<close> is the identifier a fresh outcome gets.\<close>

definition normalizeDefineOutcome :: "id \<Rightarrow> members \<Rightarrow> refusal + new_event" where
  "normalizeDefineOutcome minted obj =
     on_ok (allowKeys obj [''type'', ''description'', ''rubric'', ''max_iterations'']) (\<lambda>_.
     on_ok (requireString obj ''description'') (\<lambda>description.
     on_ok (normalizeRubric (at_key obj ''rubric'')) (\<lambda>rubric.
     on_ok (max_iterations_of obj) (\<lambda>maxIterations.
     Inr (newEvent EventUserDefineOutcome [(''description'', JStr description), (''rubric'', rubric),
       (''max_iterations'', num maxIterations), (''outcome_id'', JStr minted)])))))"

definition normalizeSystemMessage :: "members \<Rightarrow> refusal + new_event" where
  "normalizeSystemMessage obj =
     on_ok (allowKeys obj [''type'', ''content'']) (\<lambda>_.
     on_ok (requireBlocks obj ''content'' blocksTextOnly) (\<lambda>content.
     Inr (newEvent EventSystemMessage [(''content'', content)])))"

definition normalizeOne :: "string \<Rightarrow> credential \<Rightarrow> id \<Rightarrow> nat \<Rightarrow> json \<Rightarrow> refusal + new_event" where
  "normalizeOne envKind cred minted i raw =
     on_ok (asObject raw ''event'') (\<lambda>obj.
     on_ok (case at_key obj ''type'' of None \<Rightarrow> Inl TypeRequired | Some JNull \<Rightarrow> Inr []
            | Some (JStr s) \<Rightarrow> Inr s | Some _ \<Rightarrow> Inl TypeNotString) (\<lambda>typ.
     if typ = event_type_str EventUserMessage then normalizeUserMessage obj i
     else if typ = event_type_str EventUserInterrupt then normalizeUserInterrupt obj
     else if typ = event_type_str EventUserToolConfirm then normalizeToolConfirmation obj i
     else if typ = event_type_str EventUserCustomToolRes then normalizeToolResult obj EventUserCustomToolRes ''custom_tool_use_id''
     else if typ = event_type_str EventUserToolResult then
       (if cred \<noteq> EnvironmentCredential then Inl EnvironmentCredentialRequired
        else if envKind \<noteq> ''self_hosted'' then Inl SelfHostedOnly
        else normalizeToolResult obj EventUserToolResult ''tool_use_id'')
     else if typ = event_type_str EventSystemMessage then normalizeSystemMessage obj
     else if typ = event_type_str EventUserDefineOutcome then normalizeDefineOutcome minted obj
     else Inl (Verbatim (TypeNotValid i typ) (CannotBeSent typ))))"

section \<open>A batch\<close>

text \<open>
  \<^verbatim>\<open>walkStrings\<close> on the payload decoded into Go values: of several members with one name it
  sees the last.
\<close>

definition nul_string :: "string \<Rightarrow> bool" where
  "nul_string s \<longleftrightarrow> list_ex (\<lambda>(r, _). r = Some 0) (runes s)"

fun walkStrings :: "json \<Rightarrow> bool" and walk_values :: "json list \<Rightarrow> bool" and walk_members :: "members \<Rightarrow> bool" where
  "walkStrings (JStr s) = nul_string s"
| "walkStrings (JArr vs) = walk_values vs"
| "walkStrings (JObj kvs) = walk_members kvs"
| "walkStrings _ = False"
| "walk_values [] = False"
| "walk_values (v # vs) = (walkStrings v \<or> walk_values vs)"
| "walk_members [] = False"
| "walk_members ((k, v) # kvs) =
     (if k \<in> fst ` set kvs then walk_members kvs else nul_string k \<or> walkStrings v \<or> walk_members kvs)"

definition takes_system :: "event_type option \<Rightarrow> bool" where
  "takes_system prev \<longleftrightarrow> prev \<in> {Some EventUserMessage, Some EventUserToolResult, Some EventUserCustomToolRes}"

definition refusal_at :: "bool \<Rightarrow> nat \<Rightarrow> refusal \<Rightarrow> refusal" where
  "refusal_at reference i e = (case e of
     Verbatim ref ours \<Rightarrow> if reference then e else AtEvent i ours | _ \<Rightarrow> AtEvent i e)"

fun normalize_from :: "string \<Rightarrow> credential \<Rightarrow> (nat \<Rightarrow> id) \<Rightarrow> bool \<Rightarrow> nat \<Rightarrow> event_type option \<Rightarrow> json list \<Rightarrow> refusal + new_event list" where
  "normalize_from envKind cred mint reference i prev [] = Inr []"
| "normalize_from envKind cred mint reference i prev (raw # raws) =
     (case normalizeOne envKind cred (mint i) i raw of
        Inl e \<Rightarrow> Inl (refusal_at reference i e)
      | Inr ev \<Rightarrow>
          on_ok (check (ne_type ev = EventSystemMessage \<longrightarrow> raws = []) (AtEvent i SystemNotFinal)) (\<lambda>_.
          on_ok (check (ne_type ev = EventSystemMessage \<longrightarrow> takes_system prev) (AtEvent i SystemNotAfterInput)) (\<lambda>_.
          on_ok (check (\<not> walkStrings (ne_payload ev)) (AtEvent i HasNUL)) (\<lambda>_.
          on_ok (normalize_from envKind cred mint reference (i + 1) (Some (ne_type ev)) raws) (\<lambda>evs.
          Inr (ev # evs))))))"

declare normalize_from.simps(2) [simp del]

definition normalizeBatch :: "string \<Rightarrow> credential \<Rightarrow> (nat \<Rightarrow> id) \<Rightarrow> json list \<Rightarrow> bool \<Rightarrow> refusal + new_event list" where
  "normalizeBatch envKind cred mint raws reference =
     (if raws = [] then Inl (if reference then AtLeastOneItem else AtLeastOneEvent)
      else normalize_from envKind cred mint reference 0 None raws)"

definition NormalizeInbound :: "string \<Rightarrow> credential \<Rightarrow> (nat \<Rightarrow> id) \<Rightarrow> json list \<Rightarrow> refusal + new_event list" where
  "NormalizeInbound envKind cred mint raws = normalizeBatch envKind cred mint raws True"

definition NormalizeInitialEvents :: "string \<Rightarrow> credential \<Rightarrow> (nat \<Rightarrow> id) \<Rightarrow> json list \<Rightarrow> refusal + new_event list" where
  "NormalizeInitialEvents envKind cred mint raws = normalizeBatch envKind cred mint raws False"

definition StampInterrupts :: "int \<Rightarrow> new_event list \<Rightarrow> new_event list" where
  "StampInterrupts now evs = map (\<lambda>ev. if ne_type ev = EventUserInterrupt then ev\<lparr>ne_processed := Some now\<rparr> else ev) evs"

section \<open>What the checks accept\<close>

lemma least_fold:
  fixes u0 :: "'a::linorder option"
  defines "step \<equiv> \<lambda>A u key. if key \<notin> A \<and> (u = None \<or> key < the u) then Some key else u"
  shows "foldl (step A) u0 ks = None \<longleftrightarrow> u0 = None \<and> set ks \<subseteq> A"
    and "foldl (step A) u0 ks = Some m \<Longrightarrow> (u0 = Some m \<or> m \<in> set ks - A) \<and> (\<forall>x \<in> set ks - A. m \<le> x) \<and> (\<forall>a. u0 = Some a \<longrightarrow> m \<le> a)"
proof -
  show "foldl (step A) u0 ks = None \<longleftrightarrow> u0 = None \<and> set ks \<subseteq> A"
    by (induction ks arbitrary: u0) (auto simp: step_def)
  show "foldl (step A) u0 ks = Some m \<Longrightarrow> (u0 = Some m \<or> m \<in> set ks - A) \<and> (\<forall>x \<in> set ks - A. m \<le> x) \<and> (\<forall>a. u0 = Some a \<longrightarrow> m \<le> a)"
  proof (induction ks arbitrary: u0)
    case (Cons k ks)
    have "foldl (step A) (step A u0 k) ks = Some m"
      using Cons.prems by simp
    from Cons.IH[OF this] show ?case
      by (cases u0) (auto simp: step_def split: if_splits)
  qed simp
qed

text \<open>The refusal names the least unknown key, whatever the order the map is walked in.\<close>

lemma Least_unknown_None: "Least_unknown obj allowed = None \<longleftrightarrow> fst ` set obj \<subseteq> set allowed"
  unfolding Least_unknown_def least_fold(1) by simp

lemma Least_unknown_Some: "Least_unknown obj allowed = Some k \<Longrightarrow> k = Min (fst ` set obj - set allowed)"
  unfolding Least_unknown_def by (drule least_fold(2)) (auto intro!: Min_eqI[symmetric])

lemma allowKeys_Inr [simp]: "allowKeys obj allowed = Inr u \<longleftrightarrow> fst ` set obj \<subseteq> set allowed"
  by (simp add: allowKeys_def Least_unknown_None[symmetric] split: option.splits)

lemma asObject_Inr [simp]: "asObject raw what = Inr obj \<longleftrightarrow> raw = JObj obj"
  by (cases raw) (auto simp: asObject_def)

lemma present_Some: "present obj k = Some v \<longleftrightarrow> at_key obj k = Some v \<and> v \<noteq> JNull"
  by (auto simp: present_def split: option.splits)

lemma requireString_Inr [simp]: "requireString obj k = Inr s \<longleftrightarrow> present obj k = Some (JStr s) \<and> s \<noteq> []"
  by (auto simp: requireString_def split: option.splits json.splits)

definition blocks_ok :: "string list \<Rightarrow> json list \<Rightarrow> bool" where
  "blocks_ok allowed items \<longleftrightarrow> list_all (\<lambda>b. validateBlock b allowed = Inr ()) items"

lemma validate_items_Inr: "validate_items i items what allowed = Inr u \<longleftrightarrow> blocks_ok allowed items"
  by (induction items arbitrary: i) (auto simp: blocks_ok_def split: sum.splits)

lemma validateBlocks_Inr [simp]:
  "validateBlocks raw what allowed = Inr c \<longleftrightarrow> (\<exists>items. raw = JArr items \<and> c = raw \<and> blocks_ok allowed items)"
  by (cases raw) (auto simp: validateBlocks.simps validate_items_Inr)

lemma requireBlocks_Inr [simp]:
  "requireBlocks obj key allowed = Inr c \<longleftrightarrow> (\<exists>items. present obj key = Some (JArr items) \<and> c = JArr items \<and> blocks_ok allowed items)"
  by (auto simp: requireBlocks_def split: option.splits)

lemma readClaim_Inr: "readClaim obj = Inr c \<longleftrightarrow> present obj ''session_thread_id'' = map_option JStr c"
  by (cases c) (auto simp: readClaim_def split: option.splits json.splits)

lemma answerClaim_Inr [simp]: "answerClaim obj = Inr u \<longleftrightarrow> (\<exists>c. present obj ''session_thread_id'' = map_option JStr c)"
  by (simp add: answerClaim_def readClaim_Inr)

lemma threadClaim_Inr: "threadClaim obj = Inr t \<longleftrightarrow>
   present obj ''session_thread_id'' = None \<and> t = [] \<or> present obj ''session_thread_id'' = Some (JStr t) \<and> WellFormedID t ''sthr''"
  by (auto simp: threadClaim_def readClaim_Inr split: option.splits if_splits)

section \<open>What is stored\<close>

lemma stored_content: "newEvent typ [(''content'', c)] = mk_event typ (JObj [(''content'', c)])"
  by (simp add: newEvent_def marshal_map_def at_key_def)

lemma stored_interrupt: "newEvent typ [(''session_thread_id'', c)] = mk_event typ (JObj [(''session_thread_id'', c)])"
  by (simp add: newEvent_def marshal_map_def at_key_def)

lemma stored_confirm: "newEvent typ [(''result'', r), (''tool_use_id'', t), (''deny_message'', d), (''session_thread_id'', c)]
  = mk_event typ (JObj [(''deny_message'', d), (''result'', r), (''session_thread_id'', c), (''tool_use_id'', t)])"
  by (simp add: newEvent_def marshal_map_def at_key_def less_char_def less_eq_char_def sort_key_def)

lemma stored_result:
  "newEvent typ [(''tool_use_id'', r), (''content'', c), (''is_error'', e), (''session_thread_id'', t)]
   = mk_event typ (JObj [(''content'', c), (''is_error'', e), (''session_thread_id'', t), (''tool_use_id'', r)])"
  "newEvent typ [(''custom_tool_use_id'', r), (''content'', c), (''is_error'', e), (''session_thread_id'', t)]
   = mk_event typ (JObj [(''content'', c), (''custom_tool_use_id'', r), (''is_error'', e), (''session_thread_id'', t)])"
  by (simp_all add: newEvent_def marshal_map_def at_key_def less_char_def less_eq_char_def sort_key_def)

lemma stored_define: "newEvent typ [(''description'', a), (''rubric'', b), (''max_iterations'', c), (''outcome_id'', d)]
  = mk_event typ (JObj [(''description'', a), (''max_iterations'', c), (''outcome_id'', d), (''rubric'', b)])"
  by (simp add: newEvent_def marshal_map_def at_key_def less_char_def less_eq_char_def sort_key_def)

lemmas stored = stored_content stored_interrupt stored_confirm stored_result stored_define

lemma userMessage_Inr: "normalizeUserMessage obj i = Inr ev \<longleftrightarrow> fst ` set obj \<subseteq> {''type'', ''content''}
   \<and> (\<exists>c. present obj ''content'' = Some c \<and> ev = mk_event EventUserMessage (JObj [(''content'', c)])
        \<and> ((\<exists>s. c = JStr s \<and> s \<noteq> []) \<or> (\<exists>items. c = JArr items \<and> blocks_ok blocksUserMessage items)))"
  (is "?l = ?r")
proof (cases "\<exists>s. present obj ''content'' = Some (JStr s)")
  case True
  then show ?thesis
    by (auto simp: normalizeUserMessage_def stored split: if_splits)
next
  case False
  then have "normalizeUserMessage obj i = Inr ev \<longleftrightarrow> fst ` set obj \<subseteq> {''type'', ''content''} \<and>
     (\<exists>c. requireBlocks obj ''content'' blocksUserMessage = Inr c \<and> ev = mk_event EventUserMessage (JObj [(''content'', c)]))"
    by (auto simp: normalizeUserMessage_def stored split: option.splits json.splits sum.splits refusal.splits simp del: requireBlocks_Inr)
  with False show ?thesis
    by auto
qed

lemma interrupt_Inr: "normalizeUserInterrupt obj = Inr ev \<longleftrightarrow> fst ` set obj \<subseteq> {''type'', ''session_thread_id''}
   \<and> (\<exists>t. threadClaim obj = Inr t \<and> ev = (mk_event EventUserInterrupt (JObj [(''session_thread_id'', JNull)]))\<lparr>ne_thread := t\<rparr>)"
  by (auto simp: normalizeUserInterrupt_def stored)

lemma deny_message_Inr: "deny_message_of obj i result = Inr d \<longleftrightarrow>
   present obj ''deny_message'' = None \<and> d = JNull \<or> (\<exists>s. present obj ''deny_message'' = Some (JStr s) \<and> result = ''deny'' \<and> d = JStr s)"
  by (auto simp: deny_message_of_def split: option.splits json.splits if_splits)

lemma confirmation_Inr: "normalizeToolConfirmation obj i = Inr ev \<longleftrightarrow>
   fst ` set obj \<subseteq> {''type'', ''result'', ''tool_use_id'', ''deny_message'', ''session_thread_id''}
   \<and> (\<exists>result tool d. present obj ''result'' = Some (JStr result) \<and> (result = ''allow'' \<or> result = ''deny'')
      \<and> present obj ''tool_use_id'' = Some (JStr tool) \<and> tool \<noteq> [] \<and> deny_message_of obj i result = Inr d \<and> answerClaim obj = Inr ()
      \<and> ev = mk_event EventUserToolConfirm (JObj [(''deny_message'', d), (''result'', JStr result), (''session_thread_id'', JNull), (''tool_use_id'', JStr tool)]))"
  by (auto simp: normalizeToolConfirmation_def stored simp del: answerClaim_Inr)

lemma toolResult_Inr:
  assumes "refKey \<in> {''tool_use_id'', ''custom_tool_use_id''}"
  shows "normalizeToolResult obj typ refKey = Inr ev \<longleftrightarrow>
   fst ` set obj \<subseteq> {''type'', refKey, ''content'', ''is_error'', ''session_thread_id''}
   \<and> (\<exists>ref c e. present obj refKey = Some (JStr ref) \<and> ref \<noteq> []
      \<and> (present obj ''content'' = None \<and> c = JNull \<or> (\<exists>items. present obj ''content'' = Some (JArr items) \<and> c = JArr items \<and> blocks_ok blocksToolResult items))
      \<and> (present obj ''is_error'' = None \<and> e = JNull \<or> (\<exists>b. present obj ''is_error'' = Some (JBool b) \<and> e = JBool b))
      \<and> answerClaim obj = Inr ()
      \<and> ev = newEvent typ [(refKey, JStr ref), (''content'', c), (''is_error'', e), (''session_thread_id'', JNull)])"
proof -
  have c: "(case present obj ''content'' of None \<Rightarrow> Inr JNull | Some raw \<Rightarrow> validateBlocks raw ''content'' blocksToolResult) = Inr c \<longleftrightarrow>
      present obj ''content'' = None \<and> c = JNull \<or> (\<exists>items. present obj ''content'' = Some (JArr items) \<and> c = JArr items \<and> blocks_ok blocksToolResult items)" for c
    by (auto split: option.splits)
  have e: "(case present obj ''is_error'' of None \<Rightarrow> Inr JNull | Some (JBool b) \<Rightarrow> Inr (JBool b) | Some _ \<Rightarrow> Inl IsErrorNotBoolean) = Inr e \<longleftrightarrow>
      present obj ''is_error'' = None \<and> e = JNull \<or> (\<exists>b. present obj ''is_error'' = Some (JBool b) \<and> e = JBool b)" for e
    by (auto split: option.splits json.splits)
  show ?thesis
    by (auto simp: normalizeToolResult_def c e simp del: answerClaim_Inr)
qed

lemma system_Inr: "normalizeSystemMessage obj = Inr ev \<longleftrightarrow> fst ` set obj \<subseteq> {''type'', ''content''}
   \<and> (\<exists>items. present obj ''content'' = Some (JArr items) \<and> blocks_ok blocksTextOnly items
        \<and> ev = mk_event EventSystemMessage (JObj [(''content'', JArr items)]))"
  by (auto simp: normalizeSystemMessage_def stored)

lemma max_iterations_Inr: "max_iterations_of obj = Inr n \<longleftrightarrow> present obj ''max_iterations'' = None \<and> n = 3
   \<or> (\<exists>raw lit. present obj ''max_iterations'' = Some raw \<and> json_Number raw = Some lit \<and> atoi lit = Some n \<and> 1 \<le> n \<and> n \<le> 20)"
  by (auto simp: max_iterations_of_def split: option.splits if_splits)

lemma max_iterations_bounds: "max_iterations_of obj = Inr n \<Longrightarrow> 1 \<le> n \<and> n \<le> 20"
  by (auto simp: max_iterations_Inr)

lemma define_Inr: "normalizeDefineOutcome m obj = Inr ev \<longleftrightarrow>
   fst ` set obj \<subseteq> {''type'', ''description'', ''rubric'', ''max_iterations''}
   \<and> (\<exists>d r n. present obj ''description'' = Some (JStr d) \<and> d \<noteq> [] \<and> normalizeRubric (at_key obj ''rubric'') = Inr r
      \<and> max_iterations_of obj = Inr n
      \<and> ev = mk_event EventUserDefineOutcome (JObj [(''description'', JStr d), (''max_iterations'', num n), (''outcome_id'', JStr m), (''rubric'', r)]))"
  by (auto simp: normalizeDefineOutcome_def stored)

text \<open>The handler of a type, and that an accepted event is of the type it was sent with.\<close>

definition handler :: "string \<Rightarrow> credential \<Rightarrow> id \<Rightarrow> nat \<Rightarrow> event_type \<Rightarrow> members \<Rightarrow> refusal + new_event" where
  "handler envKind cred m i t obj = (case t of
     EventUserMessage \<Rightarrow> normalizeUserMessage obj i
   | EventUserInterrupt \<Rightarrow> normalizeUserInterrupt obj
   | EventUserToolConfirm \<Rightarrow> normalizeToolConfirmation obj i
   | EventUserCustomToolRes \<Rightarrow> normalizeToolResult obj EventUserCustomToolRes ''custom_tool_use_id''
   | EventUserToolResult \<Rightarrow> (if cred \<noteq> EnvironmentCredential then Inl EnvironmentCredentialRequired
        else if envKind \<noteq> ''self_hosted'' then Inl SelfHostedOnly
        else normalizeToolResult obj EventUserToolResult ''tool_use_id'')
   | EventSystemMessage \<Rightarrow> normalizeSystemMessage obj
   | EventUserDefineOutcome \<Rightarrow> normalizeDefineOutcome m obj
   | _ \<Rightarrow> Inl (Verbatim (TypeNotValid i (event_type_str t)) (CannotBeSent (event_type_str t))))"

lemma normalizeOne_typed:
  "at_key obj ''type'' = Some (JStr (event_type_str t)) \<Longrightarrow> normalizeOne envKind cred m i (JObj obj) = handler envKind cred m i t obj"
  by (cases t) (simp_all add: normalizeOne_def handler_def asObject_def)

lemma mk_event_simps [simp]: "ne_type (mk_event t p) = t" "ne_payload (mk_event t p) = p" "ne_thread (mk_event t p) = []"
  by (simp_all add: mk_event_def)

lemma newEvent_type [simp]: "ne_type (newEvent t f) = t" "ne_thread (newEvent t f) = []"
  by (simp_all add: newEvent_def)

lemma handler_type: "handler envKind cred m i t obj = Inr ev \<Longrightarrow> ne_type ev = t \<and> inbound t"
  by (cases t) (auto simp: handler_def inbound_iff userMessage_Inr interrupt_Inr confirmation_Inr toolResult_Inr system_Inr define_Inr
      split: if_splits simp del: answerClaim_Inr)

lemma normalizeOne_Inr:
  "normalizeOne envKind cred m i raw = Inr ev \<longleftrightarrow> (\<exists>obj. raw = JObj obj
     \<and> at_key obj ''type'' = Some (JStr (event_type_str (ne_type ev))) \<and> handler envKind cred m i (ne_type ev) obj = Inr ev)"
proof
  assume a: "normalizeOne envKind cred m i raw = Inr ev"
  then obtain obj where raw: "raw = JObj obj"
    by (auto simp: normalizeOne_def)
  show "\<exists>obj. raw = JObj obj \<and> at_key obj ''type'' = Some (JStr (event_type_str (ne_type ev))) \<and> handler envKind cred m i (ne_type ev) obj = Inr ev"
  proof (cases "\<exists>t. at_key obj ''type'' = Some (JStr (event_type_str t))")
    case True
    then obtain t where t: "at_key obj ''type'' = Some (JStr (event_type_str t))" by blast
    with a raw have "handler envKind cred m i t obj = Inr ev"
      by (simp add: normalizeOne_typed)
    with handler_type[OF this] t raw show ?thesis by blast
  next
    case False
    then have "at_key obj ''type'' \<noteq> Some (JStr (event_type_str t))" for t by blast
    from this[of EventUserMessage] this[of EventUserInterrupt] this[of EventUserToolConfirm] this[of EventUserCustomToolRes]
      this[of EventUserToolResult] this[of EventSystemMessage] this[of EventUserDefineOutcome] a raw
    show ?thesis
      by (auto simp: normalizeOne_def split: option.splits json.splits if_splits)
  qed
qed (auto simp: normalizeOne_typed)

section \<open>Strings that can be stored\<close>

text \<open>The strings of a value once equal names are merged, as \<^verbatim>\<open>jsonb\<close> holds it.\<close>

inductive stored_string :: "json \<Rightarrow> string \<Rightarrow> bool" where
  str: "stored_string (JStr s) s"
| element: "v \<in> set vs \<Longrightarrow> stored_string v s \<Longrightarrow> stored_string (JArr vs) s"
| key: "at_key kvs k = Some v \<Longrightarrow> stored_string (JObj kvs) k"
| member: "at_key kvs k = Some v \<Longrightarrow> stored_string v s \<Longrightarrow> stored_string (JObj kvs) s"

inductive_simps stored_string_simps [simp]:
  "stored_string JNull s" "stored_string (JBool b) s" "stored_string (JNum n) s" "stored_string (JStr t) s"
  "stored_string (JArr vs) s" "stored_string (JObj kvs) s"

lemma byte_zero: "byte c = 0 \<longleftrightarrow> c = CHR 0x00"
  using of_char_eq_iff[of c "CHR 0x00", where ?'a = nat] by (simp add: byte_def)

lemma rune_zero: "byte a \<ge> 0x80 \<Longrightarrow> decode_rune (a # t) = (r, w) \<Longrightarrow> r \<noteq> Some 0"
  by (auto simp: decode_rune_def Let_def split: if_splits list.splits)

lemma rune_bytes_high:
  "byte a \<ge> 0x80 \<Longrightarrow> decode_rune (a # t) = (r, w) \<Longrightarrow> list_all (\<lambda>c. byte c \<ge> 0x80) (take (max 1 w) (a # t))"
  by (auto simp: decode_rune_def Let_def cont_def take_Cons' split: if_splits list.splits)

lemma nul_string_iff: "nul_string s \<longleftrightarrow> CHR 0x00 \<in> set s"
proof (induction s rule: runes.induct)
  case (1 s)
  show ?case
  proof (cases s)
    case (Cons a t)
    obtain r w where d: "decode_rune s = (r, w)" by force
    let ?k = "max 1 w"
    have n: "nul_string s \<longleftrightarrow> r = Some 0 \<or> nul_string (drop ?k s)"
      using Cons d by (subst nul_string_def, subst runes.simps) (auto simp: nul_string_def Let_def)
    have s: "CHR 0x00 \<in> set s \<longleftrightarrow> CHR 0x00 \<in> set (take ?k s) \<or> CHR 0x00 \<in> set (drop ?k s)"
      by (metis append_take_drop_id set_append Un_iff)
    have "r = Some 0 \<longleftrightarrow> CHR 0x00 \<in> set (take ?k s)"
    proof (cases "byte a < 0x80")
      case True
      then show ?thesis using d Cons by (auto simp: decode_rune_def Let_def byte_zero)
    next
      case False
      then have "list_all (\<lambda>c. byte c \<ge> 0x80) (take ?k s)" "r \<noteq> Some 0"
        using rune_bytes_high[of a t r w] rune_zero[of a t r w] d Cons by auto
      then show ?thesis by (auto simp: list_all_iff byte_def)
    qed
    with n s 1 Cons d show ?thesis by auto
  qed (simp add: nul_string_def)
qed

lemma at_key_Cons: "at_key ((k, v) # kvs) k' = (if k' \<in> fst ` set kvs then at_key kvs k' else if k' = k then Some v else None)"
  by (auto simp: at_key_def map_add_def split: option.splits) (metis map_of_eq_None_iff set_rev option.distinct(1) image_eqI fst_conv)+

lemma at_key_dom: "at_key kvs k = Some v \<Longrightarrow> k \<in> fst ` set kvs"
  by (auto simp: at_key_def dest!: map_of_SomeD intro: rev_image_eqI)

lemma stored_members:
  assumes "k \<notin> fst ` set kvs"
  shows "stored_string (JObj ((k, v) # kvs)) s \<longleftrightarrow> s = k \<or> stored_string v s \<or> stored_string (JObj kvs) s"
proof -
  have "at_key ((k, v) # kvs) k' = Some v' \<longleftrightarrow> k' = k \<and> v' = v \<or> at_key kvs k' = Some v'" for k' v'
    using assms at_key_dom[of kvs k' v'] at_key_dom[of kvs k] by (auto simp: at_key_Cons)
  then show ?thesis by auto
qed

lemma walkStrings_iff:
  "walkStrings j \<longleftrightarrow> (\<exists>s. stored_string j s \<and> CHR 0x00 \<in> set s)"
  "walk_values vs \<longleftrightarrow> (\<exists>v \<in> set vs. \<exists>s. stored_string v s \<and> CHR 0x00 \<in> set s)"
  "walk_members kvs \<longleftrightarrow> (\<exists>s. stored_string (JObj kvs) s \<and> CHR 0x00 \<in> set s)"
proof (induction j and vs and kvs rule: walkStrings_walk_values_walk_members.induct)
  case (8 k v kvs)
  show ?case
  proof (cases "k \<in> fst ` set kvs")
    case True
    then have "at_key ((k, v) # kvs) = at_key kvs"
      by (auto simp: at_key_Cons fun_eq_iff dest: at_key_dom split: option.splits)
         (metis at_key_dom not_None_eq)
    with True 8 show ?thesis by simp
  next
    case False
    have "stored_string (JObj ((k, v) # kvs)) s \<longleftrightarrow> s = k \<or> stored_string v s \<or> stored_string (JObj kvs) s" for s
      using stored_members[OF False] .
    moreover have "walk_members ((k, v) # kvs) \<longleftrightarrow> CHR 0x00 \<in> set k \<or> walkStrings v \<or> walk_members kvs"
      using False by (simp add: nul_string_iff)
    ultimately show ?thesis
      using 8(2,3)[OF False] by (simp del: stored_string_simps) blast
  qed
qed (auto simp: nul_string_iff at_key_def)

section \<open>Accepted batches\<close>

lemma normalize_from_Cons:
  "normalize_from envKind cred mint ref i prev (raw # raws) = Inr out \<longleftrightarrow>
   (\<exists>ev evs. out = ev # evs \<and> normalizeOne envKind cred (mint i) i raw = Inr ev
      \<and> (ne_type ev = EventSystemMessage \<longrightarrow> raws = [] \<and> takes_system prev) \<and> \<not> walkStrings (ne_payload ev)
      \<and> normalize_from envKind cred mint ref (i + 1) (Some (ne_type ev)) raws = Inr evs)"
  by (cases "normalizeOne envKind cred (mint i) i raw") (auto simp: normalize_from.simps(2))

definition batch_at :: "event_type option \<Rightarrow> new_event list \<Rightarrow> nat \<Rightarrow> bool" where
  "batch_at prev evs j \<longleftrightarrow> \<not> walkStrings (ne_payload (evs ! j)) \<and>
     (ne_type (evs ! j) = EventSystemMessage \<longrightarrow> Suc j = length evs
        \<and> takes_system (if j = 0 then prev else Some (ne_type (evs ! (j - 1)))))"

lemma normalize_from_Inr:
  "normalize_from envKind cred mint ref i prev raws = Inr evs \<longleftrightarrow> length evs = length raws
   \<and> (\<forall>j < length raws. normalizeOne envKind cred (mint (i + j)) (i + j) (raws ! j) = Inr (evs ! j) \<and> batch_at prev evs j)"
proof (induction raws arbitrary: i prev evs)
  case (Cons raw raws)
  have step: "(\<forall>j < Suc n. P j) \<longleftrightarrow> P 0 \<and> (\<forall>j < n. P (Suc j))" for P :: "nat \<Rightarrow> bool" and n
    by (metis less_Suc_eq_0_disj)
  have shift: "batch_at prev (ev # es) (Suc j) \<longleftrightarrow> batch_at (Some (ne_type ev)) es j" for ev es j
    by (cases j) (auto simp: batch_at_def)
  show ?case
  proof (cases evs)
    case (Cons ev es)
    show ?thesis
      unfolding normalize_from_Cons Cons Cons.IH
      by (simp add: step shift) (auto simp: batch_at_def)
  qed (simp add: normalize_from_Cons)
qed auto

lemma NormalizeInbound_Inr:
  "NormalizeInbound envKind cred mint raws = Inr evs \<longleftrightarrow> raws \<noteq> [] \<and> length evs = length raws
   \<and> (\<forall>j < length raws. normalizeOne envKind cred (mint j) j (raws ! j) = Inr (evs ! j) \<and> batch_at None evs j)"
  by (simp add: NormalizeInbound_def normalizeBatch_def normalize_from_Inr)

lemma initial_accepts_same: "NormalizeInitialEvents envKind cred mint raws = Inr evs \<longleftrightarrow> NormalizeInbound envKind cred mint raws = Inr evs"
  by (simp add: NormalizeInbound_def NormalizeInitialEvents_def normalizeBatch_def normalize_from_Inr)

text \<open>The fields stored with each type, and what the handler of the type leaves in them.\<close>

fun stored_keys :: "event_type \<Rightarrow> string list" where
  "stored_keys EventUserMessage = [''content'']"
| "stored_keys EventSystemMessage = [''content'']"
| "stored_keys EventUserInterrupt = [''session_thread_id'']"
| "stored_keys EventUserToolConfirm = [''deny_message'', ''result'', ''session_thread_id'', ''tool_use_id'']"
| "stored_keys EventUserToolResult = [''content'', ''is_error'', ''session_thread_id'', ''tool_use_id'']"
| "stored_keys EventUserCustomToolRes = [''content'', ''custom_tool_use_id'', ''is_error'', ''session_thread_id'']"
| "stored_keys EventUserDefineOutcome = [''description'', ''max_iterations'', ''outcome_id'', ''rubric'']"
| "stored_keys _ = []"

lemmas handler_Inr = userMessage_Inr interrupt_Inr confirmation_Inr toolResult_Inr system_Inr define_Inr

lemma inbound_cases:
  assumes "inbound t"
  obtains "t = EventUserMessage" | "t = EventUserInterrupt" | "t = EventUserToolConfirm" | "t = EventUserCustomToolRes"
    | "t = EventUserToolResult" | "t = EventUserDefineOutcome" | "t = EventSystemMessage"
  using assms by (auto simp: inbound_iff)

lemma handler_stores:
  assumes "handler envKind cred m i t obj = Inr ev"
  shows "(\<exists>kvs. ne_payload ev = JObj kvs \<and> map fst kvs = stored_keys t)
    \<and> (t = EventUserToolResult \<longrightarrow> cred = EnvironmentCredential \<and> envKind = ''self_hosted'')
    \<and> (ne_thread ev \<noteq> [] \<longrightarrow> t = EventUserInterrupt \<and> WellFormedID (ne_thread ev) ''sthr'' \<and> at_key obj ''session_thread_id'' = Some (JStr (ne_thread ev)))
    \<and> fst ` set obj \<subseteq> insert ''type'' (set (stored_keys t)) \<and> ev = (mk_event t (ne_payload ev))\<lparr>ne_thread := ne_thread ev\<rparr>"
proof -
  have "inbound t" using handler_type[OF assms] by simp
  then show ?thesis
    using assms by (cases t rule: inbound_cases)
      (auto simp: handler_def handler_Inr stored threadClaim_Inr present_Some mk_event_def split: if_splits simp del: answerClaim_Inr)
qed

text \<open>Posting a stored event again: the stored fields with the type beside them.\<close>

definition posted :: "new_event \<Rightarrow> json" where
  "posted ev = (case ne_payload ev of JObj kvs \<Rightarrow> JObj ((''type'', JStr (event_type_str (ne_type ev))) # kvs) | p \<Rightarrow> p)"

lemma repost_one:
  assumes "normalizeOne envKind cred m i raw = Inr ev" "ne_type ev \<noteq> EventUserDefineOutcome"
  shows "normalizeOne envKind cred m' i' (posted ev) = Inr (ev\<lparr>ne_thread := []\<rparr>)"
proof -
  obtain obj where h: "handler envKind cred m i (ne_type ev) obj = Inr ev"
    using assms(1) by (auto simp: normalizeOne_Inr)
  obtain kvs where kvs: "ne_payload ev = JObj kvs" "map fst kvs = stored_keys (ne_type ev)"
    using handler_stores[OF h] by blast
  have inb: "inbound (ne_type ev)" using handler_type[OF h] by simp
  then have "''type'' \<notin> set (map fst kvs)"
    unfolding kvs(2) by (cases "ne_type ev" rule: inbound_cases) simp_all
  then have "at_key ((''type'', JStr (event_type_str (ne_type ev))) # kvs) ''type'' = Some (JStr (event_type_str (ne_type ev)))"
    by (simp add: at_key_Cons)
  then have "normalizeOne envKind cred m' i' (posted ev) = handler envKind cred m' i' (ne_type ev) ((''type'', JStr (event_type_str (ne_type ev))) # kvs)"
    by (simp add: posted_def kvs(1) normalizeOne_typed)
  also have "\<dots> = Inr (ev\<lparr>ne_thread := []\<rparr>)"
    using inb
  proof (cases "ne_type ev" rule: inbound_cases)
    case 1
    then show ?thesis using h kvs(1)
      by (auto simp: handler_def handler_Inr present_def at_key_def mk_event_def)
  next
    case 2
    then show ?thesis using h kvs(1)
      by (auto simp: handler_def handler_Inr threadClaim_Inr present_def at_key_def mk_event_def)
  next
    case 3
    then show ?thesis using h kvs(1)
      by (auto simp: handler_def handler_Inr deny_message_Inr present_def at_key_def mk_event_def)
  next
    case 4
    then show ?thesis using h kvs(1)
      by (auto simp: handler_def handler_Inr stored present_def at_key_def mk_event_def)
  next
    case 5
    then show ?thesis using h kvs(1)
      by (auto simp: handler_def handler_Inr stored present_def at_key_def mk_event_def split: if_splits)
  next
    case 6
    then show ?thesis using assms(2) by simp
  next
    case 7
    then show ?thesis using h kvs(1)
      by (auto simp: handler_def handler_Inr present_def at_key_def mk_event_def)
  qed
  finally show ?thesis .
qed

lemma at_key_in: "at_key kvs k = Some v \<Longrightarrow> (k, v) \<in> set kvs"
  by (auto simp: at_key_def dest!: map_of_SomeD)

lemma sort_two:
  fixes a b :: "'a::linorder"
  assumes "set ks = {a, b}" "a < b"
  shows "sort (remdups ks) = [a, b]"
  by (rule sorted_distinct_set_unique) (use assms in auto)

lemma marshal_two:
  assumes "fst ` set m = {a, b}" "a < b" "at_key m a = Some x" "at_key m b = Some y"
  shows "marshal_map m = JObj [(a, x), (b, y)]"
  using assms sort_two[of "map fst m" a b] by (simp add: marshal_map_def)

lemma rubric_form:
  assumes "normalizeRubric raw = Inr r"
  obtains c where "r = JObj [(''content'', JStr c), (''type'', JStr ''text'')]" "c \<noteq> []" "length (runes c) \<le> maxRubricChars"
  | f where "r = JObj [(''file_id'', JStr f), (''type'', JStr ''file'')]" "f \<noteq> []"
proof -
  obtain obj ty where ob: "raw = Some (JObj obj)" "at_key obj ''type'' = Some (JStr ty)" "r = marshal_map obj"
    and r: "(ty = ''text'' \<and> fst ` set obj \<subseteq> {''type'', ''content''} \<and>
        (\<exists>c. at_key obj ''content'' = Some (JStr c) \<and> c \<noteq> [] \<and> length (runes c) \<le> maxRubricChars))
      \<or> (ty = ''file'' \<and> fst ` set obj \<subseteq> {''type'', ''file_id''} \<and> (\<exists>f. at_key obj ''file_id'' = Some (JStr f) \<and> f \<noteq> []))"
    using assms by (auto simp: normalizeRubric_def present_Some split: option.splits json.splits sum.splits if_splits)
  have less: "''content'' < ''type''" "''file_id'' < ''type''"
    by (simp_all add: less_char_def)
  from r show ?thesis
  proof
    assume "ty = ''text'' \<and> fst ` set obj \<subseteq> {''type'', ''content''} \<and>
        (\<exists>c. at_key obj ''content'' = Some (JStr c) \<and> c \<noteq> [] \<and> length (runes c) \<le> maxRubricChars)"
    then obtain c where c: "at_key obj ''content'' = Some (JStr c)" "c \<noteq> []" "length (runes c) \<le> maxRubricChars"
      and k: "ty = ''text''" "fst ` set obj \<subseteq> {''type'', ''content''}" by blast
    have "fst ` set obj = {''content'', ''type''}"
      using k(2) at_key_dom[OF c(1)] at_key_dom[OF ob(2)] by blast
    from marshal_two[OF this less(1) c(1) ob(2)] that(1) c k ob(3) show ?thesis by simp
  next
    assume "ty = ''file'' \<and> fst ` set obj \<subseteq> {''type'', ''file_id''} \<and> (\<exists>f. at_key obj ''file_id'' = Some (JStr f) \<and> f \<noteq> [])"
    then obtain f where f: "at_key obj ''file_id'' = Some (JStr f)" "f \<noteq> []"
      and k: "ty = ''file''" "fst ` set obj \<subseteq> {''type'', ''file_id''}" by blast
    have "fst ` set obj = {''file_id'', ''type''}"
      using k(2) at_key_dom[OF f(1)] at_key_dom[OF ob(2)] by blast
    from marshal_two[OF this less(2) f(1) ob(2)] that(2) f k ob(3) show ?thesis by simp
  qed
qed

section \<open>Reading accepted events back\<close>

text \<open>A value as \<^verbatim>\<open>jsonb\<close> keeps it: of several members with one name, the last.\<close>

fun jsonb :: "json \<Rightarrow> json" and jsonb_members :: "members \<Rightarrow> members" where
  "jsonb (JArr vs) = JArr (map jsonb vs)"
| "jsonb (JObj kvs) = JObj (jsonb_members kvs)"
| "jsonb v = v"
| "jsonb_members [] = []"
| "jsonb_members ((k, v) # kvs) = (if k \<in> fst ` set kvs then jsonb_members kvs else (k, jsonb v) # jsonb_members kvs)"

lemma jsonb_keys [simp]: "fst ` set (jsonb_members kvs) = fst ` set kvs"
proof (induction kvs)
  case (Cons m kvs)
  then show ?case by (cases m) auto
qed simp

lemma jsonb_distinct: "distinct (map fst (jsonb_members kvs))"
proof (induction kvs)
  case (Cons m kvs)
  then show ?case by (cases m) (simp add: list.set_map del: set_map)
qed simp

lemma jsonb_at: "at_key (jsonb_members kvs) k = map_option jsonb (at_key kvs k)"
proof (induction kvs)
  case (Cons m kvs)
  obtain k' v where m: "m = (k', v)" by force
  show ?case
    using Cons at_key_dom[of kvs k] by (cases "at_key kvs k") (auto simp: m at_key_Cons)
qed (simp add: at_key_def)

lemma atoi_small: "1 \<le> n \<Longrightarrow> n \<le> 20 \<Longrightarrow> atoi (dec_int n) = Some n"
proof -
  have "list_all (\<lambda>n. atoi (dec_int n) = Some n) [1..20]" by code_simp
  then show "1 \<le> n \<Longrightarrow> n \<le> 20 \<Longrightarrow> atoi (dec_int n) = Some n" by (simp add: list_all_iff)
qed

lemmas body_eval = str_field_def raw_field_def int_field_def obj_field_def field_vals_def field_for_def fold_name_def fold_rune_def byte_def

lemma defined_parses:
  assumes "normalizeDefineOutcome m obj = Inr ev"
  obtains d where "ParseDefineOutcome (jsonb (ne_payload ev)) = Some d" "ParseDefineOutcome (ne_payload ev) = Some d"
    "do_id d = m" "1 \<le> do_max d" "do_max d \<le> 20" "at_key obj ''description'' = Some (JStr (do_description d))" "do_description d \<noteq> []"
    "do_rubric_type d = ''text'' \<and> do_content d \<noteq> [] \<and> length (runes (do_content d)) \<le> maxRubricChars \<and> do_file d = []
     \<or> do_rubric_type d = ''file'' \<and> do_file d \<noteq> [] \<and> do_content d = []"
proof -
  obtain d r n where n: "max_iterations_of obj = Inr n" and d: "present obj ''description'' = Some (JStr d)" "d \<noteq> []"
    and r: "normalizeRubric (at_key obj ''rubric'') = Inr r"
    and p: "ne_payload ev = JObj [(''description'', JStr d), (''max_iterations'', num n), (''outcome_id'', JStr m), (''rubric'', r)]"
    using assms by (auto simp: define_Inr)
  have n': "1 \<le> n" "n \<le> 20" "atoi (dec_int n) = Some n"
    using max_iterations_bounds[OF n] atoi_small by auto
  from r show ?thesis
  proof (cases rule: rubric_form)
    case (1 c)
    show ?thesis
      by (rule that[of "\<lparr>do_id = m, do_description = d, do_max = n, do_rubric_type = ''text'', do_content = c, do_file = []\<rparr>"])
         (use 1 d n' in \<open>simp_all add: p ParseDefineOutcome_def define_fields_def body_eval num_def present_Some\<close>)
  next
    case (2 f)
    show ?thesis
      by (rule that[of "\<lparr>do_id = m, do_description = d, do_max = n, do_rubric_type = ''file'', do_content = [], do_file = f\<rparr>"])
         (use 2 d n' in \<open>simp_all add: p ParseDefineOutcome_def define_fields_def body_eval num_def present_Some\<close>)
  qed
qed

lemma text_only_block:
  assumes "validateBlock raw blocksTextOnly = Inr ()"
  obtains obj s where "raw = JObj obj" "fst ` set obj \<subseteq> {''type'', ''text''}" "at_key obj ''type'' = Some (JStr ''text'')"
    "at_key obj ''text'' = Some (JStr s)" "s \<noteq> []"
proof -
  obtain obj where obj: "raw = JObj obj" "at_key obj ''type'' = Some (JStr ''text'')" "text_block_ok obj = Inr ()"
    using assms by (auto simp: validateBlock.simps blocksTextOnly_def present_Some)
  from obj(3) have "fst ` set obj \<subseteq> {''type'', ''text''} \<and> (\<exists>s. at_key obj ''text'' = Some (JStr s) \<and> s \<noteq> [])"
    by (simp add: text_block_ok_def split: option.splits json.splits)
  with obj that show ?thesis by blast
qed

lemma distinct_at: "distinct (map fst kvs) \<Longrightarrow> (k, v) \<in> set kvs \<Longrightarrow> at_key kvs k = Some v"
  by (simp add: at_key_def rev_map[symmetric] map_of_eq_Some_iff)

lemma text_only_decodes:
  assumes "validateBlock raw blocksTextOnly = Inr ()"
  shows "decodes (FStruct [(''type'', FString), (''text'', FString)]) (jsonb raw)"
  using assms
proof (cases rule: text_only_block)
  case (1 obj s)
  have "(k, v) \<in> set (jsonb_members obj) \<Longrightarrow> \<exists>x. v = JStr x" for k v
  proof -
    assume kv: "(k, v) \<in> set (jsonb_members obj)"
    then have "fst (k, v) \<in> fst ` set (jsonb_members obj)" by (rule imageI)
    then have "k = ''type'' \<or> k = ''text''" using 1(2) by (simp add: subset_iff)
    moreover have "map_option jsonb (at_key obj k) = Some v"
      using distinct_at[OF jsonb_distinct kv] by (simp only: jsonb_at)
    ultimately show ?thesis using 1(3,4) by (elim disjE) auto
  qed
  then have "decodes FString v" if "(k, v) \<in> set (jsonb_members obj)" for k v
    using that by fastforce
  then show ?thesis
    unfolding 1(1) by (auto simp: list_all_iff field_for_def split: option.splits if_splits)
qed

lemma accepted_replays:
  assumes "normalizeOne envKind cred m i raw = Inr ev" "ev_type r = ne_type ev" "ev_payload r = jsonb (ne_payload ev)"
  shows "row_error r = None"
proof -
  obtain obj where h: "handler envKind cred m i (ne_type ev) obj = Inr ev"
    using assms(1) by (auto simp: normalizeOne_Inr)
  then have inb: "inbound (ne_type ev)" using handler_type by blast
  from inb show ?thesis
  proof (cases "ne_type ev" rule: inbound_cases)
    case 1
    then obtain c where "ne_payload ev = JObj [(''content'', c)]" "(\<exists>s. c = JStr s) \<or> (\<exists>items. c = JArr items)"
      using h by (auto simp: handler_def handler_Inr)
    with 1 assms(2,3) show ?thesis
      by (auto simp: row_error_def row_fields_def body_eval contentBlocks_def)
  next
    case 2
    with assms(2,3) show ?thesis by (simp add: row_error_def row_fields_def)
  next
    case 3
    with assms(2,3) show ?thesis by (simp add: row_error_def row_fields_def)
  next
    case 4
    then obtain ref c e where "ne_payload ev = JObj [(''content'', c), (''custom_tool_use_id'', JStr ref), (''is_error'', e), (''session_thread_id'', JNull)]"
        "e = JNull \<or> (\<exists>b. e = JBool b)"
      using h by (auto simp: handler_def handler_Inr stored)
    with 4 assms(2,3) show ?thesis
      by (auto simp: row_error_def row_fields_def body_eval)
  next
    case 5
    then obtain ref c e where "ne_payload ev = JObj [(''content'', c), (''is_error'', e), (''session_thread_id'', JNull), (''tool_use_id'', JStr ref)]"
        "e = JNull \<or> (\<exists>b. e = JBool b)"
      using h by (auto simp: handler_def handler_Inr stored split: if_splits)
    with 5 assms(2,3) show ?thesis
      by (auto simp: row_error_def row_fields_def body_eval)
  next
    case 6
    then have "normalizeDefineOutcome m obj = Inr ev" using h by (simp add: handler_def)
    then obtain d where "ParseDefineOutcome (jsonb (ne_payload ev)) = Some d"
      by (rule defined_parses)
    then have dec: "decodes define_fields (ev_payload r)"
      by (simp add: assms(3) ParseDefineOutcome_def split: if_splits)
    obtain d' r' n where p: "ne_payload ev = JObj [(''description'', JStr d'), (''max_iterations'', num n), (''outcome_id'', JStr m), (''rubric'', r')]"
        and "normalizeRubric (at_key obj ''rubric'') = Inr r'"
      using h 6 by (auto simp: handler_def handler_Inr)
    from this(2) have "decodes outcome_fields (ev_payload r)"
      using dec by (cases rule: rubric_form) (simp_all add: assms(3) p define_fields_def outcome_fields_def body_eval num_def)
    with 6 assms(2) show ?thesis
      by (simp add: row_error_def row_fields_def)
  next
    case 7
    then obtain items where p: "ne_payload ev = JObj [(''content'', JArr items)]" and ok: "blocks_ok blocksTextOnly items"
      using h by (auto simp: handler_def handler_Inr)
    have "list_all (\<lambda>b. decodes (FStruct [(''type'', FString), (''text'', FString)]) (jsonb b)) items"
      using ok text_only_decodes by (simp add: blocks_ok_def list_all_iff)
    with 7 assms(2,3) p show ?thesis
      by (auto simp: row_error_def row_fields_def field_for_def fold_name_def fold_rune_def byte_def list_all_iff)
  qed
qed

lemma accepted_conf_plain:
  assumes "normalizeToolConfirmation obj i = Inr ev"
  shows "conf_plain (ne_payload ev)"
proof -
  obtain result tool d where p: "ne_payload ev = JObj [(''deny_message'', d), (''result'', JStr result), (''session_thread_id'', JNull), (''tool_use_id'', JStr tool)]"
    and "tool \<noteq> []" "d = JNull \<or> (\<exists>s. d = JStr s)"
    using assms by (auto simp: confirmation_Inr deny_message_Inr)
  then show ?thesis
    by (auto simp: p conf_plain_def go_struct_ok_def sql_text_def json_get_def go_str_field_def fold_name_def fold_rune_def byte_def)
qed

lemma accepted_ref:
  assumes "handler envKind cred m i t obj = Inr ev" "t = EventUserToolResult \<or> t = EventUserCustomToolRes"
  shows "ref_of (ne_payload ev) = Some (answerRef (ev\<lparr>ne_id := k\<rparr>)) \<and> answerRef (ev\<lparr>ne_id := k\<rparr>) \<noteq> []"
  using assms(2)
proof
  assume t: "t = EventUserToolResult"
  then obtain ref c e where p: "ne_payload ev = JObj [(''content'', c), (''is_error'', e), (''session_thread_id'', JNull), (''tool_use_id'', JStr ref)]" "ref \<noteq> []"
    using assms(1) by (auto simp: handler_def handler_Inr stored split: if_splits)
  moreover have "ne_type ev = t" using handler_type[OF assms(1)] by simp
  ultimately show ?thesis
    using t by (auto simp: ref_of_def answerRef_def Let_def sql_text_def json_get_def go_str_field_def fold_name_def fold_rune_def byte_def)
next
  assume t: "t = EventUserCustomToolRes"
  then obtain ref c e where p: "ne_payload ev = JObj [(''content'', c), (''custom_tool_use_id'', JStr ref), (''is_error'', e), (''session_thread_id'', JNull)]" "ref \<noteq> []"
    using assms(1) by (auto simp: handler_def handler_Inr stored split: if_splits)
  moreover have "ne_type ev = t" using handler_type[OF assms(1)] by simp
  ultimately show ?thesis
    using t by (auto simp: ref_of_def answerRef_def Let_def sql_text_def json_get_def go_str_field_def fold_name_def fold_rune_def byte_def)
qed

lemma jsonb_no_nul: "\<not> walkStrings j \<Longrightarrow> stored_string j s \<Longrightarrow> CHR 0x00 \<notin> set s"
  by (auto simp: walkStrings_iff)

section \<open>Properties\<close>

text \<open>
  What an accepted batch consists of.  Every posted event becomes one stored event, in order and
  of the type it was sent with, one of the seven; its payload holds exactly the fields of the type,
  the nullable ones included, and no string \<^verbatim>\<open>jsonb\<close> cannot hold once equal names are merged.  A tool
  result came from a worker on a self-hosted environment; a system message ends the batch and
  follows an input in it; only an interrupt carries a thread, the well-formed one it was sent with.
  A create's initial events are accepted exactly when a send accepts them.
\<close>

theorem inbound_batch_wellformed:
  assumes "NormalizeInbound envKind cred mint raws = Inr evs" "j < length evs"
  defines "ev \<equiv> evs ! j"
  shows "length evs = length raws \<and> NormalizeInitialEvents envKind cred mint raws = Inr evs
    \<and> json_get (raws ! j) ''type'' = Some (JStr (event_type_str (ne_type ev))) \<and> inbound (ne_type ev)
    \<and> (\<exists>kvs. ne_payload ev = JObj kvs \<and> map fst kvs = stored_keys (ne_type ev))
    \<and> (\<forall>s. stored_string (ne_payload ev) s \<longrightarrow> CHR 0x00 \<notin> set s)
    \<and> (ne_type ev = EventUserToolResult \<longrightarrow> cred = EnvironmentCredential \<and> envKind = ''self_hosted'')
    \<and> (ne_type ev = EventSystemMessage \<longrightarrow> Suc j = length evs \<and> 0 < j
         \<and> ne_type (evs ! (j - 1)) \<in> {EventUserMessage, EventUserToolResult, EventUserCustomToolRes})
    \<and> (ne_thread ev \<noteq> [] \<longrightarrow> ne_type ev = EventUserInterrupt \<and> WellFormedID (ne_thread ev) ''sthr''
         \<and> json_get (raws ! j) ''session_thread_id'' = Some (JStr (ne_thread ev)))"
proof -
  have len: "length evs = length raws" and one: "normalizeOne envKind cred (mint j) j (raws ! j) = Inr ev" and b: "batch_at None evs j"
    using assms by (auto simp: NormalizeInbound_Inr)
  obtain obj where obj: "raws ! j = JObj obj" "at_key obj ''type'' = Some (JStr (event_type_str (ne_type ev)))"
    and h: "handler envKind cred (mint j) j (ne_type ev) obj = Inr ev"
    using one by (auto simp: normalizeOne_Inr)
  have get: "json_get (raws ! j) k = at_key obj k" for k
    by (simp add: obj(1) json_get_def at_key_def)
  have nul: "\<forall>s. stored_string (ne_payload ev) s \<longrightarrow> CHR 0x00 \<notin> set s"
    using b jsonb_no_nul by (auto simp: batch_at_def ev_def)
  have sys: "ne_type ev = EventSystemMessage \<longrightarrow> Suc j = length evs \<and> 0 < j
      \<and> ne_type (evs ! (j - 1)) \<in> {EventUserMessage, EventUserToolResult, EventUserCustomToolRes}"
    using b by (auto simp: batch_at_def ev_def takes_system_def split: if_splits)
  show ?thesis
    using len assms(1) get obj(2) handler_type[OF h] handler_stores[OF h] nul sys by (simp add: initial_accepts_same)
qed

definition demo_post :: "json list" where
  "demo_post = [JObj [(''type'', JStr ''user.interrupt''), (''session_thread_id'', JStr ''sthr_1a'')],
     JObj [(''type'', JStr ''user.tool_result''), (''tool_use_id'', JStr ''sevt_1''), (''is_error'', JBool False),
       (''content'', JArr [JObj [(''type'', JStr ''text''), (''text'', JStr ''done'')]])],
     JObj [(''type'', JStr ''system.message''), (''content'', JArr [JObj [(''type'', JStr ''text''), (''text'', JStr ''be brief'')]])]]"

definition demo_stored :: "new_event list" where
  "demo_stored = [(mk_event EventUserInterrupt (JObj [(''session_thread_id'', JNull)]))\<lparr>ne_thread := ''sthr_1a''\<rparr>,
     mk_event EventUserToolResult (JObj [(''content'', JArr [JObj [(''type'', JStr ''text''), (''text'', JStr ''done'')]]),
       (''is_error'', JBool False), (''session_thread_id'', JNull), (''tool_use_id'', JStr ''sevt_1'')]),
     mk_event EventSystemMessage (JObj [(''content'', JArr [JObj [(''type'', JStr ''text''), (''text'', JStr ''be brief'')]])])]"

lemma demo_post_accepted: "NormalizeInbound ''self_hosted'' EnvironmentCredential (\<lambda>_. ''outc_1'') demo_post = Inr demo_stored"
  by code_simp

theorem inbound_batch_wellformed_witness:
  "NormalizeInitialEvents ''self_hosted'' EnvironmentCredential (\<lambda>_. ''outc_1'') demo_post = Inr demo_stored
   \<and> ne_type (demo_stored ! (2 - 1)) \<in> {EventUserMessage, EventUserToolResult, EventUserCustomToolRes}"
  using inbound_batch_wellformed [OF demo_post_accepted, of 2] by (simp add: demo_stored_def)

text \<open>
  Normalization is stable.  An accepted batch without an outcome definition, posted again as it is
  stored (each payload with its type beside it), is accepted and stored the same; only the threads
  the interrupts named are not part of their stored form.
\<close>

theorem inbound_repost:
  assumes "NormalizeInbound envKind cred mint raws = Inr evs" "\<forall>ev \<in> set evs. ne_type ev \<noteq> EventUserDefineOutcome"
  shows "NormalizeInbound envKind cred mint' (map posted evs) = Inr (map (\<lambda>ev. ev\<lparr>ne_thread := []\<rparr>) evs)"
proof -
  have a: "raws \<noteq> []" "length evs = length raws"
    "\<And>j. j < length raws \<Longrightarrow> normalizeOne envKind cred (mint j) j (raws ! j) = Inr (evs ! j) \<and> batch_at None evs j"
    using assms(1) by (auto simp: NormalizeInbound_Inr)
  have "batch_at None (map (\<lambda>ev. ev\<lparr>ne_thread := []\<rparr>) evs) j" if "j < length raws" for j
    using a(3)[OF that] that a(2) by (auto simp: batch_at_def)
  moreover have "normalizeOne envKind cred (mint' j) j (posted (evs ! j)) = Inr ((evs ! j)\<lparr>ne_thread := []\<rparr>)" if "j < length raws" for j
    using repost_one[of envKind cred "mint j" j "raws ! j" "evs ! j"] a(2) a(3)[OF that] assms(2) that by simp
  ultimately show ?thesis
    using a(1,2) by (auto simp: NormalizeInbound_Inr)
qed

theorem inbound_repost_witness:
  "NormalizeInbound ''self_hosted'' EnvironmentCredential (\<lambda>_. []) (map posted demo_stored) = Inr (map (\<lambda>ev. ev\<lparr>ne_thread := []\<rparr>) demo_stored)"
  by (rule inbound_repost [OF demo_post_accepted]) (simp add: demo_stored_def)

definition sound_definition :: "define_outcome \<Rightarrow> bool" where
  "sound_definition d \<longleftrightarrow> 1 \<le> do_max d \<and> do_max d \<le> 20 \<and> do_description d \<noteq> [] \<and>
     (do_rubric_type d = ''text'' \<and> do_content d \<noteq> [] \<and> do_file d = [] \<or> do_rubric_type d = ''file'' \<and> do_file d \<noteq> [] \<and> do_content d = [])"

lemma accepted_from:
  assumes "NormalizeInbound envKind cred mint raws = Inr evs" "ev \<in> set evs"
  shows "\<exists>j < length raws. normalizeOne envKind cred (mint j) j (raws ! j) = Inr ev"
  using assms by (force simp: NormalizeInbound_Inr in_set_conv_nth)

lemma defined_one:
  assumes "NormalizeInbound envKind cred mint raws = Inr evs" "ev \<in> set evs" "ne_type ev = EventUserDefineOutcome"
  shows "\<exists>d. ParseDefineOutcome (ne_payload ev) = Some d \<and> sound_definition d \<and> do_id d \<in> mint ` {..<length raws}"
proof -
  obtain j obj where j: "j < length raws" "normalizeDefineOutcome (mint j) obj = Inr ev"
    using accepted_from [OF assms(1,2)] assms(3) by (auto simp: normalizeOne_Inr handler_def)
  show ?thesis
    by (rule defined_parses [OF j(2)]) (use j(1) in \<open>auto simp: sound_definition_def\<close>)
qed

lemma defined_all:
  assumes "NormalizeInbound envKind cred mint raws = Inr evs"
  shows "\<exists>ds. DefineOutcomes evs = Inr ds \<and> set (map do_id ds) \<subseteq> mint ` {..<length raws} \<and> list_all sound_definition ds"
proof -
  have "\<exists>ds. DefineOutcomes es = Inr ds \<and> set (map do_id ds) \<subseteq> mint ` {..<length raws} \<and> list_all sound_definition ds" if "set es \<subseteq> set evs" for es
    using that
  proof (induction es)
    case (Cons ev es)
    then obtain ds where ds: "DefineOutcomes es = Inr ds" "set (map do_id ds) \<subseteq> mint ` {..<length raws}" "list_all sound_definition ds" by auto
    show ?case
    proof (cases "ne_type ev = EventUserDefineOutcome")
      case True
      then obtain d where "ParseDefineOutcome (ne_payload ev) = Some d" "sound_definition d" "do_id d \<in> mint ` {..<length raws}"
        using defined_one [OF assms, of ev] Cons.prems by auto
      with True ds show ?thesis by (intro exI [of _ "d # ds"]) simp
    next
      case False
      with ds show ?thesis by (intro exI [of _ ds]) simp
    qed
  qed simp
  then show ?thesis by blast
qed

text \<open>
  Accepted input can be used.  However accepted events are stored, as \<^verbatim>\<open>jsonb\<close> holds them, a turn
  replays their rows without a decoding error, so no accepted event wedges its session; the outcome
  definitions of the batch parse, each under the identifier minted for it, with a budget of one to
  twenty iterations, a description and one rubric.
\<close>

theorem accepted_input_usable:
  assumes "NormalizeInbound envKind cred mint raws = Inr evs"
  shows "(\<forall>r ev. ev \<in> set evs \<and> ev_type r = ne_type ev \<and> ev_payload r = jsonb (ne_payload ev) \<longrightarrow> row_error r = None)
    \<and> (\<exists>ds. DefineOutcomes evs = Inr ds \<and> set (map do_id ds) \<subseteq> mint ` {..<length raws} \<and> list_all sound_definition ds)"
proof
  show "\<forall>r ev. ev \<in> set evs \<and> ev_type r = ne_type ev \<and> ev_payload r = jsonb (ne_payload ev) \<longrightarrow> row_error r = None"
    using accepted_from [OF assms] accepted_replays by blast
qed (rule defined_all [OF assms])

definition demo_goal :: json where
  "demo_goal = JObj [(''type'', JStr ''user.define_outcome''), (''description'', JStr ''ship it''),
     (''rubric'', JObj [(''type'', JStr ''text''), (''content'', JStr ''tests pass'')])]"

definition demo_defined :: new_event where
  "demo_defined = mk_event EventUserDefineOutcome (JObj [(''description'', JStr ''ship it''), (''max_iterations'', JNum ''3''),
     (''outcome_id'', JStr ''outc_1''), (''rubric'', JObj [(''content'', JStr ''tests pass''), (''type'', JStr ''text'')])])"

lemma demo_goal_accepted: "NormalizeInbound ''cloud'' ManagementCredential (\<lambda>_. ''outc_1'') [demo_goal] = Inr [demo_defined]"
proof -
  let ?rubric = "[(''type'', JStr ''text''), (''content'', JStr ''tests pass'')]"
  have m: "marshal_map ?rubric = JObj [(''content'', JStr ''tests pass''), (''type'', JStr ''text'')]"
    by (rule marshal_two) (auto simp: at_key_def less_char_def)
  have "normalizeRubric (Some (JObj ?rubric)) = Inr (JObj [(''content'', JStr ''tests pass''), (''type'', JStr ''text'')])"
    unfolding m[symmetric] by (simp add: normalizeRubric_def asObject_def requireString_def present_def at_key_def allowKeys_def
        Least_unknown_def check_def maxRubricChars_def byte_def)
  moreover have "num 3 = JNum ''3''" by code_simp
  ultimately have "normalizeOne ''cloud'' ManagementCredential ''outc_1'' 0 demo_goal = Inr demo_defined"
    unfolding demo_goal_def
    by (subst normalizeOne_typed [of _ EventUserDefineOutcome])
       (simp_all add: at_key_def present_def handler_def define_Inr max_iterations_of_def demo_defined_def)
  moreover have "batch_at None [demo_defined] 0"
    by (simp add: batch_at_def demo_defined_def nul_string_iff)
  ultimately show ?thesis by (simp add: NormalizeInbound_Inr)
qed

theorem accepted_input_usable_witness:
  "row_error \<lparr>ev_id = ''sevt_1'', ev_seq = 1, ev_type = EventUserDefineOutcome, ev_payload = jsonb (ne_payload demo_defined),
     ev_processed = None, ev_created = 0, ev_thread = [], ev_cross = False\<rparr> = None
   \<and> (\<exists>ds. DefineOutcomes [demo_defined] = Inr ds)"
proof -
  note use = accepted_input_usable [OF demo_goal_accepted]
  let ?r = "\<lparr>ev_id = ''sevt_1'', ev_seq = 1, ev_type = EventUserDefineOutcome, ev_payload = jsonb (ne_payload demo_defined),
     ev_processed = None, ev_created = 0, ev_thread = [], ev_cross = False\<rparr>"
  have "row_error ?r = None"
    by (rule use [THEN conjunct1, THEN spec [where x = ?r], THEN spec [where x = demo_defined], THEN mp]) (simp add: demo_defined_def)
  with use show ?thesis by blast
qed

section \<open>Two inputs at the edge of the checks\<close>

text \<open>
  A member hidden behind a later one of the same name is not walked, and the content is stored as
  it was sent: the text of this payload still spells U+0000, which \<^verbatim>\<open>jsonb\<close> refuses to read.
\<close>

fun spelled_nul :: "json \<Rightarrow> bool" where
  "spelled_nul (JStr s) = nul_string s"
| "spelled_nul (JArr vs) = list_ex spelled_nul vs"
| "spelled_nul (JObj kvs) = list_ex (\<lambda>(k, v). nul_string k \<or> spelled_nul v) kvs"
| "spelled_nul _ = False"

theorem hidden_nul_accepted:
  "\<exists>raws evs. NormalizeInbound ''cloud'' ManagementCredential (\<lambda>_. []) raws = Inr evs \<and> list_ex (spelled_nul \<circ> ne_payload) evs"
proof -
  let ?content = "JArr [JObj [(''type'', JStr ''text''), (''text'', JStr [CHR 0x00]), (''text'', JStr ''a'')]]"
  have "NormalizeInbound ''cloud'' ManagementCredential (\<lambda>_. []) [JObj [(''type'', JStr ''user.message''), (''content'', ?content)]]
      = Inr [mk_event EventUserMessage (JObj [(''content'', ?content)])]"
    by code_simp
  moreover have "spelled_nul (JObj [(''content'', ?content)])"
    by (simp add: nul_string_iff)
  ultimately show ?thesis by (intro exI conjI) (assumption, simp)
qed

text \<open>A string that holds a number passes for the integer \<^verbatim>\<open>max_iterations\<close> asks for.\<close>

theorem quoted_iterations_accepted: "max_iterations_of [(''max_iterations'', JStr ''5'')] = Inr 5"
  by code_simp

section \<open>What the rest of the send relies on\<close>

text \<open>
  An accepted batch under the ids its rows get is what the ordered walk's preview asks of a posted
  batch: every answer names its call under the one key of its type.
\<close>

theorem accepted_answers_plain:
  assumes "NormalizeInbound envKind cred mint raws = Inr evs" "length ids = length evs" "[] \<notin> set ids"
  shows "posted_ok (map2 (\<lambda>k ev. ev\<lparr>ne_id := k\<rparr>) ids evs)"
proof -
  have "inbound (ne_type ev) \<and> (if ne_type ev = EventUserToolConfirm then conf_plain (ne_payload ev)
      else isAnswer (ne_type ev) \<longrightarrow> ref_of (ne_payload ev) = Some (answerRef (ev\<lparr>ne_id := k\<rparr>)))" if ev: "ev \<in> set evs" for ev k
  proof -
    obtain j obj where h: "handler envKind cred (mint j) j (ne_type ev) obj = Inr ev"
      using assms(1) ev by (force simp: NormalizeInbound_Inr normalizeOne_Inr in_set_conv_nth)
    have "conf_plain (ne_payload ev)" if "ne_type ev = EventUserToolConfirm"
      using h that accepted_conf_plain by (simp add: handler_def)
    moreover have "ref_of (ne_payload ev) = Some (answerRef (ev\<lparr>ne_id := k\<rparr>))" if "isAnswer (ne_type ev)" "ne_type ev \<noteq> EventUserToolConfirm"
      using accepted_ref [OF h, of k] that by (auto simp: isAnswer_def answerTypes_def)
    ultimately show ?thesis using handler_type [OF h] by simp
  qed
  moreover have "ev \<in> set evs \<and> k \<in> set ids" if "(k, ev) \<in> set (zip ids evs)" for k ev
    using that by (auto dest: set_zip_leftD set_zip_rightD)
  ultimately show ?thesis using assms(3) by (fastforce simp: posted_ok_def list_all_iff)
qed

text \<open>
  The definition a send accepts is one the life of the outcomes starts with: its budget is within
  the bounds and its id is the one minted for it.
\<close>

theorem accepted_outcome_step:
  assumes "NormalizeInbound envKind cred mint raws = Inr evs" "DefineOutcomes evs = Inr [d]"
    and "ValidateDefineOutcomes files evals [d] interrupts = None" "\<forall>j < length raws. mint j \<notin> do_id ` set defs"
  shows "outcome_step (evals, defs) ((if interrupts then FlipNonTerminalOutcomes now evals else evals) @ [NewOutcomeEntry d], defs @ [d])"
proof -
  obtain ds where "DefineOutcomes evs = Inr ds" "set (map do_id ds) \<subseteq> mint ` {..<length raws}"
      "list_all sound_definition ds"
    using defined_all [OF assms(1)] by blast
  then have d: "do_id d \<in> mint ` {..<length raws}" "1 \<le> do_max d" "do_max d \<le> 20"
    using assms(2) by (auto simp: sound_definition_def)
  then have "do_id d \<notin> do_id ` set defs" using assms(4) by (metis imageE lessThan_iff)
  then show ?thesis using assms(3) d(2,3) by (intro outcome_step.defined)
qed

end
