(* ===== verification/Spec2Isabelle.thy ===== *)
theory Spec2Isabelle
  imports Work_Listing Consumption_Order Memory_Tree Ordered_Tools Cron Gate Scheduling Inbound
begin

text \<open>
  A verification library of the managed agent platform: a Go control plane that runs agent sessions
  as event logs, a work queue that schedules their turns and tools, and the processes that execute
  them.  All paths below are under \<^verbatim>\<open>src/\<close>.

  \<^bold>\<open>The program and its parts.\<close>  A session is a row with threads and an append-only log of events.
  Clients post events; the control plane checks, routes and appends them (\<^verbatim>\<open>internal/events\<close>), folds
  the threads' statuses into the session's, and schedules work items (\<^verbatim>\<open>internal/queue\<close>).  The brain
  (\<^verbatim>\<open>internal/brain\<close>) claims a model turn, replays the log in consumption order into a request,
  reads the streamed response, and settles the turn in one transaction: its events, its delegated
  calls, the thread's next status and the queue's next items.  Tool calls are gated by permissions, run
  in log order, and answered by results, confirmations, denials or an interrupt.  Threads delegate
  work to one another by messages, and a grader judges the outcomes a client defines.  Executors and
  self-hosted workers claim items under leases.  Memory stores are synchronised with a sandbox directory
  (\<^verbatim>\<open>internal/memsync\<close>), deployments fire on cron schedules (\<^verbatim>\<open>internal/cron\<close>), and what a
  sandbox sends leaves through a gate (\<^verbatim>\<open>internal/gate\<close>) that applies host rules and substitutes
  credentials (\<^verbatim>\<open>internal/egress\<close>) over a dialer with an address floor (\<^verbatim>\<open>internal/dialguard\<close>).

  \<^bold>\<open>The theories.\<close>

  \<^item> \<open>Go_Prelude\<close>, \<open>Go_Time\<close>, \<open>Go_Net\<close>: what the code uses of Go's \<^verbatim>\<open>strings\<close>, \<^verbatim>\<open>strconv\<close>,
    \<^verbatim>\<open>unicode/utf8\<close>, \<^verbatim>\<open>time\<close>, \<^verbatim>\<open>net\<close> and \<^verbatim>\<open>net/netip\<close>.  A Go string is a byte
    list; decoding is stable under cutting at rune boundaries; calendar dates and minutes since the
    epoch are inverse; an address is a list of bytes (words of width 8).

  \<^item> \<open>Events_Domain\<close> (\<^verbatim>\<open>internal/domain\<close>): event types, payloads as JSON values, session and thread
    rows, the session's part of the database as one record.

  \<^item> \<open>Thread_Status\<close> (\<^verbatim>\<open>events/status.go\<close>): moving a thread and folding the session's status.  The
    stored status is the fold after every move; the preview agrees with it; an idle session that waits
    reports the union of its threads' waits in log order.

  \<^item> \<open>Work_Queue\<close>, \<open>Work_Lifecycle\<close>, \<open>Work_Listing\<close> (\<^verbatim>\<open>queue/queue.go\<close>, \<^verbatim>\<open>lifecycle.go\<close>,
    \<^verbatim>\<open>stats.go\<close>): every operation as a function of the \<^verbatim>\<open>work_items\<close> table, each SQL statement
    atomic, \<open>locked\<close> the rows other transactions hold.  An inductive step relation interleaves them;
    the table's invariant holds in every reachable state, stopped items stay stopped, a reclaimed or
    re-offered item fences its former holder, settlements happen once.

  \<^item> \<open>Tool_Flow\<close> (\<^verbatim>\<open>events/toolflow.go\<close>, \<^verbatim>\<open>route.go\<close>): which calls may run, which answers are
    accepted, where they are written.

  \<^item> \<open>Event_Append\<close> (\<^verbatim>\<open>events/log.go\<close>, \<^verbatim>\<open>usage.go\<close>): the append with its stamps, consumed inputs,
    usage snapshots and running clock.  The log only grows and stays ordered; an interrupt leaves no
    call unanswered; a request start stamps exactly its thread's waiting inputs.

  \<^item> \<open>Ordered_Tools\<close> (\<^verbatim>\<open>events/orderedtools.go\<close>, \<^verbatim>\<open>awaiting.go\<close>): the per-thread walk that
    consumes ready answers, and its preview before the commit; the two are instances of one locale and
    agree.

  \<^item> \<open>Consumption_Order\<close> (\<^verbatim>\<open>events/consumption.go\<close>): the streaming reorder of a log into the order
    the model saw.

  \<^item> \<open>Inbound\<close> (\<^verbatim>\<open>events/inbound.go\<close>, \<^verbatim>\<open>internal/unknownkey\<close>): the checks on a posted batch and
    the payloads it stores, every refusal a value.  An accepted batch has only known members, no NUL a
    decoder sees, and at most one system message, its last event; posting a stored event again stores
    the same; what is accepted replays, and its outcome definitions parse with a budget of 1 to 20.

  \<^item> \<open>Go_Json\<close>, \<open>Transcript\<close> (\<^verbatim>\<open>internal/transcript/transcript.go\<close>), \<open>Replay\<close>, \<open>Replay_Turns\<close>
    (\<^verbatim>\<open>brain/replay.go\<close>): decoding payloads into Go structs, the grader's transcript, and the
    replay of a log into a request as a one-pass state machine, which equals a reference reading by
    maximal runs of one role.

  \<^item> \<open>Thinking\<close> (\<^verbatim>\<open>brain/thinking.go\<close>), \<open>Turn_Stream\<close> (\<^verbatim>\<open>brain/stream.go\<close>), \<open>Turn_Events\<close>
    (\<^verbatim>\<open>turnEvents\<close> of \<^verbatim>\<open>brain/brain.go\<close>): which thinking blocks are sent back and under which
    prefix, the stream of one response with its previews and its cut tool inputs, and the rows of a
    turn, which replay as what the model said and called.

  \<^item> \<open>Thread_Messages\<close> (\<^verbatim>\<open>events/threadmsg.go\<close>), \<open>Delegation\<close> (\<^verbatim>\<open>brain/delegate.go\<close>): messages between
    threads and the wakes they cause; the six delegation tools.  Every delegated call is answered once
    and a session never passes its cap of live threads.

  \<^item> \<open>Outcomes\<close> (\<^verbatim>\<open>events/outcomes.go\<close>, \<^verbatim>\<open>domain/outcome.go\<close>, verdicts of \<^verbatim>\<open>brain/grader.go\<close>): definitions,
    evaluations and verdicts, with a step relation for their life; the bounds its sends assume are
    those \<open>Inbound\<close> proves of accepted definitions.

  \<^item> \<open>Settlement\<close>, \<open>Scheduling\<close> (\<^verbatim>\<open>brain/brain.go\<close>, \<^verbatim>\<open>grader.go\<close>, \<^verbatim>\<open>delegate.go\<close>, \<^verbatim>\<open>toolflow.go\<close>): every way a
    claimed turn gives its item back, each one commit of events, rows and queue moves under the lease.
    A settlement happens once; those that decide their thread's fate leave no thread running with
    nothing to run it, give input that landed meanwhile a turn, and wake a resting coordinator when
    its last busy child ends.

  \<^item> \<open>Memory_Sync\<close>, \<open>Memory_Tree\<close> (\<^verbatim>\<open>internal/memsync\<close>): the per-path decision table, the listing
    of a directory and the removal commands.

  \<^item> \<open>Cron\<close> (\<^verbatim>\<open>internal/cron\<close>): parsing and the walk over wall clocks; \<^verbatim>\<open>Due\<close> and
    \<^verbatim>\<open>Upcoming\<close> return exactly the occurrences.

  \<^item> \<open>Host_Set\<close>, \<open>Dial_Guard\<close>, \<open>Gate\<close> (\<^verbatim>\<open>internal/egress\<close>, \<^verbatim>\<open>internal/dialguard\<close>,
    \<^verbatim>\<open>internal/gate\<close>, \<^verbatim>\<open>internal/api/gateconfig.go\<close>): matching by DNS labels, exact and confined
    substitution, the floor through every transition encoding it decodes, the race of two address
    families as a step relation, the gate's admission and the control plane's view of it.

  \<^bold>\<open>Parameters and bounds.\<close>  Code outside the repository is an argument: the time zone database
  (\<open>tzdata\<close>, with \<open>zone_ok\<close> over the window a schedule is asked for and four days on either side:
  whole-minute offsets, fall-backs of at most three hours, one transition near a day), IDNA conversion
  (\<open>idna\<close>), SHA-256 (\<open>sha\<close>), NFC normalization (\<open>nfc\<close>), the text order of the database, the number
  literals a \<^verbatim>\<open>jsonb\<close> column holds (\<open>nums\<close>), the printable runes, resolver answers, connects.
  Readings of clocks and minted identifiers are arguments too.  No definition uses fuel: the loops
  over calendars, replacements, content blocks and address groups have termination proofs, with
  \<open>ahead\<close> (minutes left to the search bound), the length of the rest of the input, the size of the
  value, and the bytes still to read as measures.  The race of address families ends within three
  steps.

  \<^bold>\<open>Representation.\<close>  JSON is a tree with its members in order and its number literals as written, so
  equal trees stand for texts that differ in spacing and escapes only; the bytes hashed into a prefix
  chain are those of the re-encoded tree.  Running time is counted in microseconds where the source
  keeps seconds as floats.  Rows are listed in order of creation; a spawned thread's row carries its
  name, parent and status, not the snapshot of its agent.  The bytes a reordered log holds back
  are weighed by the stored text of a row.  The unlocked look before \<^verbatim>\<open>cutExhaustedRun\<close>'s
  transaction is part of the one commit that follows it.

  \<^bold>\<open>Interfaces.\<close>  \<open>lease_guarded\<close> (operations that settle an item under a proof), \<open>settlement\<close> (what every
  settlement of a claimed turn promises of the platform), \<open>text_order\<close> (the order paging relies on),
  \<open>walk_consumer\<close> (the two consumers of the ordered walk), \<open>entry_matcher\<close> (what gate and control plane
  rely on of a host set); each is interpreted on the model's own operations.

  \<^bold>\<open>Not modelled.\<close>  HTTP handlers and SQL of the REST surface, the request's blocks from skills,
  files, repositories, memory and MCP catalogs, the grader's prompt, sandbox backends and tool drivers,
  model gateway and providers, vault cryptography and OAuth, MCP transport, object storage, telemetry
  and the live delivery of events: I/O or third-party clients around the parts above.  Within modelled
  files: the list query and notifications of the event log, the JSON encoding of a memory baseline, the
  byte copying of a tunnel.
\<close>

end
